(* ===== verification/Prelude.thy ===== *)
theory Prelude
  imports Main "HOL-Library.Word" "HOL-Library.Signed_Division"
begin

text \<open>
  Shared vocabulary of the development: C's fixed-width types as words, byte buffers as
  lists with the two operations \<^theory_text>\<open>memcpy\<close> is used for (reading a part, overwriting a
  part), little- and big-endian loads, and the error monad in which every step that C leaves
  undefined, or that hangs the enclave, is a value. The named theorem collections
  \<^theory_text>\<open>mem_simps\<close> (reads and writes of buffers) and \<^theory_text>\<open>fault_simps\<close> (the error monad) carry
  the component proofs.
\<close>

unbundle bit_operations_syntax

type_synonym u8 = "8 word"
type_synonym u16 = "16 word"
type_synonym u32 = "32 word"
type_synonym u64 = "64 word"

type_synonym bytes = "u8 list"

text \<open>Addresses of heap objects; \<^theory_text>\<open>None\<close> is \<^verbatim>\<open>NULL\<close>.\<close>

type_synonym addr = nat
type_synonym ptr = "addr option"

named_theorems mem_simps \<open>slices of byte buffers\<close>
named_theorems fault_simps \<open>the error monad\<close>

section \<open>The error monad\<close>

text \<open>
  \<^theory_text>\<open>bindE\<close> runs the second computation on the result of the first, unless the first is a
  fault. It is polymorphic in the fault, so that each component has its own.
\<close>

definition bindE :: "'e + 'a \<Rightarrow> ('a \<Rightarrow> 'e + 'b) \<Rightarrow> 'e + 'b" where
  "bindE m f = (case m of Inl e \<Rightarrow> Inl e | Inr x \<Rightarrow> f x)"

lemma bindE_Inr [simp, fault_simps]: "bindE (Inr x) f = f x"
  by (simp add: bindE_def)

lemma bindE_Inl [simp, fault_simps]: "bindE (Inl e) f = Inl e"
  by (simp add: bindE_def)

lemma bindE_eq_Inr: "bindE m f = Inr y \<longleftrightarrow> (\<exists>x. m = Inr x \<and> f x = Inr y)"
  by (cases m) auto

lemma bindE_eq_Inl: "bindE m f = Inl e \<longleftrightarrow> m = Inl e \<or> (\<exists>x. m = Inr x \<and> f x = Inl e)"
  by (cases m) auto

lemma bindE_assoc [fault_simps]: "bindE (bindE m f) g = bindE m (\<lambda>x. bindE (f x) g)"
  by (cases m) auto

lemma bindE_cong [fundef_cong]:
  "m = m' \<Longrightarrow> (\<And>x. m' = Inr x \<Longrightarrow> f x = f' x) \<Longrightarrow> bindE m f = bindE m' f'"
  by (cases m') auto

section \<open>Byte buffers\<close>

text \<open>
  \<^theory_text>\<open>buf_read off n xs\<close> is what \<^theory_text>\<open>memcpy(dst, xs + off, n)\<close> reads, and
  \<^theory_text>\<open>buf_write off ys xs\<close> the buffer \<^theory_text>\<open>xs\<close> after
  \<^theory_text>\<open>memcpy(xs + off, ys, length ys)\<close>. Whether the access is inside the buffer is a
  separate check, which the models make where the code makes none.
\<close>

definition buf_read :: "nat \<Rightarrow> nat \<Rightarrow> 'a list \<Rightarrow> 'a list" where
  "buf_read off n xs = take n (drop off xs)"

definition buf_write :: "nat \<Rightarrow> 'a list \<Rightarrow> 'a list \<Rightarrow> 'a list" where
  "buf_write off ys xs = take off xs @ ys @ drop (off + length ys) xs"

lemma length_buf_read [simp, mem_simps]: "off + n \<le> length xs \<Longrightarrow> length (buf_read off n xs) = n"
  by (simp add: buf_read_def)

lemma length_buf_write [simp, mem_simps]:
  "off + length ys \<le> length xs \<Longrightarrow> length (buf_write off ys xs) = length xs"
  by (simp add: buf_write_def)

lemma buf_read_0 [simp, mem_simps]: "buf_read off 0 xs = []"
  by (simp add: buf_read_def)

lemma buf_read_all [simp, mem_simps]: "buf_read 0 (length xs) xs = xs"
  by (simp add: buf_read_def)

lemma buf_write_Nil [simp, mem_simps]: "buf_write off [] xs = xs"
  by (simp add: buf_write_def)

lemma nth_buf_read [mem_simps]: "off + n \<le> length xs \<Longrightarrow> i < n \<Longrightarrow> buf_read off n xs ! i = xs ! (off + i)"
  by (simp add: buf_read_def)

lemma nth_buf_write [mem_simps]:
  assumes "off + length ys \<le> length xs" and "i < length xs"
  shows "buf_write off ys xs ! i =
    (if off \<le> i \<and> i < off + length ys then ys ! (i - off) else xs ! i)"
proof -
  consider "i < off" | "off \<le> i" "i < off + length ys" | "off + length ys \<le> i" by linarith
  then show ?thesis
    using assms by cases (auto simp: buf_write_def nth_append min_def)
qed

lemma buf_read_write_same [simp, mem_simps]:
  "off + length ys \<le> length xs \<Longrightarrow> n = length ys \<Longrightarrow> buf_read off n (buf_write off ys xs) = ys"
  by (simp add: buf_read_def buf_write_def)

lemma buf_read_write_disjoint [mem_simps]:
  assumes "off' + length ys \<le> length xs" and "off + n \<le> length xs"
    and "off + n \<le> off' \<or> off' + length ys \<le> off"
  shows "buf_read off n (buf_write off' ys xs) = buf_read off n xs"
proof (rule nth_equalityI)
  show "length (buf_read off n (buf_write off' ys xs)) = length (buf_read off n xs)"
    using assms by simp
next
  fix i assume "i < length (buf_read off n (buf_write off' ys xs))"
  then have i: "i < n" using assms by simp
  then show "buf_read off n (buf_write off' ys xs) ! i = buf_read off n xs ! i"
    using assms by (auto simp: nth_buf_read nth_buf_write)
qed

lemma buf_read_write_inside [mem_simps]:
  assumes "off + n \<le> length xs" and "k + length ys \<le> n"
  shows "buf_read off n (buf_write (off + k) ys xs) = buf_write k ys (buf_read off n xs)"
proof (rule nth_equalityI)
  show "length (buf_read off n (buf_write (off + k) ys xs)) = length (buf_write k ys (buf_read off n xs))"
    using assms by simp
next
  fix i assume "i < length (buf_read off n (buf_write (off + k) ys xs))"
  then have "i < n" using assms by simp
  then show "buf_read off n (buf_write (off + k) ys xs) ! i = buf_write k ys (buf_read off n xs) ! i"
    using assms by (auto simp: nth_buf_read nth_buf_write)
qed

lemma buf_write_all [mem_simps]: "length ys = length xs \<Longrightarrow> buf_write 0 ys xs = ys"
  by (simp add: buf_write_def)

lemma buf_read_read [mem_simps]: "a + n \<le> m \<Longrightarrow> buf_read a n (buf_read off m xs) = buf_read (off + a) n xs"
  by (simp add: buf_read_def take_drop min_def add.commute)

lemma buf_read_replicate [mem_simps]: "off + n \<le> m \<Longrightarrow> buf_read off n (replicate m x) = replicate n x"
  by (simp add: buf_read_def)

text \<open>Two page frames of the same size do not overlap.\<close>

lemma page_frames_disjoint:
  fixes p q ps :: nat
  assumes "p \<noteq> q"
  shows "p * ps + ps \<le> q * ps \<or> q * ps + ps \<le> p * ps"
proof (cases "p < q")
  case True
  then have "Suc p * ps \<le> q * ps" by (intro mult_le_mono1) simp
  then show ?thesis by simp
next
  case False
  then have "Suc q * ps \<le> p * ps" using assms by (intro mult_le_mono1) simp
  then show ?thesis by simp
qed

lemma page_frame_in_range:
  fixes p n ps :: nat
  assumes "p < n"
  shows "p * ps + ps \<le> n * ps"
proof -
  have "Suc p * ps \<le> n * ps" using assms by (intro mult_le_mono1) simp
  then show ?thesis by simp
qed

section \<open>Loads\<close>

text \<open>
  The value a processor loads from consecutive bytes: \<^theory_text>\<open>le_word\<close> with the least
  significant byte first, \<^theory_text>\<open>be_word\<close> with the most significant byte first.
\<close>

primrec le_word :: "bytes \<Rightarrow> 'a::len word" where
  "le_word [] = 0"
| "le_word (b # bs) = ucast b OR push_bit 8 (le_word bs)"

definition be_word :: "bytes \<Rightarrow> 'a::len word" where
  "be_word bs = le_word (rev bs)"

end
