(* ===== verification/XXHash.thy ===== *)
theory XXHash
  imports Prelude
begin

text \<open>
  The page checksum of the virtual memory engine: \<^verbatim>\<open>Enclave/xxhash.c\<close>. Both
  widths are modelled, one-shot (\<^verbatim>\<open>XXH32\<close>, \<^verbatim>\<open>XXH64\<close>) and streaming
  (\<^verbatim>\<open>init\<close>, \<^verbatim>\<open>update\<close>, \<^verbatim>\<open>digest\<close>), on a processor of either
  byte order, in the build the engine uses: unaligned access on, no
  \<^verbatim>\<open>XXH_ACCEPT_NULL_INPUT_POINTER\<close>. A pointer into the input is the list of bytes
  still ahead of it, so \<^verbatim>\<open>p + 8 <= bEnd\<close> is \<open>8 \<le> length p\<close>. Lengths are
  natural numbers: C's \<^verbatim>\<open>int\<close> holds them exactly for buffers shorter than
  \<open>2 ^ 31 - 32\<close>, which the theorems assume where it matters.
\<close>

section \<open>Reads\<close>

datatype XXH_endianess = XXH_bigEndian | XXH_littleEndian

text \<open>
  A native load, and the byte swap the code applies to it on a big-endian processor. The
  processor's own byte order is the argument \<^theory_text>\<open>cpu\<close>; it is also the
  \<^verbatim>\<open>endian\<close> argument of every internal function, since
  \<^verbatim>\<open>XXH_FORCE_NATIVE_FORMAT\<close> is 0.
\<close>

definition A32 :: "XXH_endianess \<Rightarrow> bytes \<Rightarrow> u32" where
  "A32 cpu p = (case cpu of XXH_littleEndian \<Rightarrow> le_word (take 4 p)
                          | XXH_bigEndian \<Rightarrow> be_word (take 4 p))"

definition A64 :: "XXH_endianess \<Rightarrow> bytes \<Rightarrow> u64" where
  "A64 cpu p = (case cpu of XXH_littleEndian \<Rightarrow> le_word (take 8 p)
                          | XXH_bigEndian \<Rightarrow> be_word (take 8 p))"

definition XXH_swap32 :: "u32 \<Rightarrow> u32" where
  "XXH_swap32 x = (push_bit 24 x AND 0xff000000) OR (push_bit 8 x AND 0x00ff0000) OR
     (drop_bit 8 x AND 0x0000ff00) OR (drop_bit 24 x AND 0x000000ff)"

definition XXH_swap64 :: "u64 \<Rightarrow> u64" where
  "XXH_swap64 x = (push_bit 56 x AND 0xff00000000000000) OR
     (push_bit 40 x AND 0x00ff000000000000) OR (push_bit 24 x AND 0x0000ff0000000000) OR
     (push_bit 8 x AND 0x000000ff00000000) OR (drop_bit 8 x AND 0x00000000ff000000) OR
     (drop_bit 24 x AND 0x0000000000ff0000) OR (drop_bit 40 x AND 0x000000000000ff00) OR
     (drop_bit 56 x AND 0x00000000000000ff)"

definition XXH_readLE32 :: "XXH_endianess \<Rightarrow> bytes \<Rightarrow> u32" where
  "XXH_readLE32 cpu p = (if cpu = XXH_littleEndian then A32 cpu p else XXH_swap32 (A32 cpu p))"

definition XXH_readLE64 :: "XXH_endianess \<Rightarrow> bytes \<Rightarrow> u64" where
  "XXH_readLE64 cpu p = (if cpu = XXH_littleEndian then A64 cpu p else XXH_swap64 (A64 cpu p))"

definition XXH_rotl32 :: "u32 \<Rightarrow> nat \<Rightarrow> u32" where
  "XXH_rotl32 x r = push_bit r x OR drop_bit (32 - r) x"

definition XXH_rotl64 :: "u64 \<Rightarrow> nat \<Rightarrow> u64" where
  "XXH_rotl64 x r = push_bit r x OR drop_bit (64 - r) x"

section \<open>Constants\<close>

definition PRIME32_1 :: u32 where "PRIME32_1 = 2654435761"
definition PRIME32_2 :: u32 where "PRIME32_2 = 2246822519"
definition PRIME32_3 :: u32 where "PRIME32_3 = 3266489917"
definition PRIME32_4 :: u32 where "PRIME32_4 = 668265263"
definition PRIME32_5 :: u32 where "PRIME32_5 = 374761393"

definition PRIME64_1 :: u64 where "PRIME64_1 = 11400714785074694791"
definition PRIME64_2 :: u64 where "PRIME64_2 = 14029467366897019727"
definition PRIME64_3 :: u64 where "PRIME64_3 = 1609587929392839161"
definition PRIME64_4 :: u64 where "PRIME64_4 = 9650029242287828579"
definition PRIME64_5 :: u64 where "PRIME64_5 = 2870177450012600261"

section \<open>The 32-bit hash\<close>

type_synonym lanes32 = "u32 \<times> u32 \<times> u32 \<times> u32"

text \<open>One line of the unrolled loop: the lane \<^theory_text>\<open>v\<close> takes in the word at \<^theory_text>\<open>p\<close>.\<close>

definition XXH32_lane :: "XXH_endianess \<Rightarrow> u32 \<Rightarrow> bytes \<Rightarrow> u32" where
  "XXH32_lane cpu v p = XXH_rotl32 (v + XXH_readLE32 cpu p * PRIME32_2) 13 * PRIME32_1"

definition XXH32_stripe :: "XXH_endianess \<Rightarrow> lanes32 \<Rightarrow> bytes \<Rightarrow> lanes32" where
  "XXH32_stripe cpu v p = (case v of (v1, v2, v3, v4) \<Rightarrow>
     (XXH32_lane cpu v1 p, XXH32_lane cpu v2 (drop 4 p),
      XXH32_lane cpu v3 (drop 8 p), XXH32_lane cpu v4 (drop 12 p)))"

text \<open>The \<^verbatim>\<open>do \<dots> while (p <= limit)\<close> loop, with \<^verbatim>\<open>limit = bEnd - 16\<close>.\<close>

function XXH32_loop :: "XXH_endianess \<Rightarrow> lanes32 \<Rightarrow> bytes \<Rightarrow> lanes32 \<times> bytes" where
  "XXH32_loop cpu v p =
     (let v' = XXH32_stripe cpu v p; p' = drop 16 p
      in if 16 \<le> length p' then XXH32_loop cpu v' p' else (v', p'))"
  by pat_completeness auto
termination
  by (relation "measure (\<lambda>(cpu, v, p). length p)") auto

declare XXH32_loop.simps [simp del]

definition XXH32_lanes_init :: "u32 \<Rightarrow> lanes32" where
  "XXH32_lanes_init seed =
     (seed + PRIME32_1 + PRIME32_2, seed + PRIME32_2, seed + 0, seed - PRIME32_1)"

definition XXH32_converge :: "lanes32 \<Rightarrow> u32" where
  "XXH32_converge v = (case v of (v1, v2, v3, v4) \<Rightarrow>
     XXH_rotl32 v1 1 + XXH_rotl32 v2 7 + XXH_rotl32 v3 12 + XXH_rotl32 v4 18)"

function XXH32_tail4 :: "XXH_endianess \<Rightarrow> u32 \<Rightarrow> bytes \<Rightarrow> u32 \<times> bytes" where
  "XXH32_tail4 cpu h p =
     (if 4 \<le> length p
      then XXH32_tail4 cpu (XXH_rotl32 (h + XXH_readLE32 cpu p * PRIME32_3) 17 * PRIME32_4) (drop 4 p)
      else (h, p))"
  by pat_completeness auto
termination
  by (relation "measure (\<lambda>(cpu, h, p). length p)") auto

declare XXH32_tail4.simps [simp del]

primrec XXH32_tail1 :: "u32 \<Rightarrow> bytes \<Rightarrow> u32" where
  "XXH32_tail1 h [] = h"
| "XXH32_tail1 h (b # p) = XXH32_tail1 (XXH_rotl32 (h + ucast b * PRIME32_5) 11 * PRIME32_1) p"

definition XXH32_avalanche :: "u32 \<Rightarrow> u32" where
  "XXH32_avalanche h =
     (let h = h XOR drop_bit 15 h; h = h * PRIME32_2;
          h = h XOR drop_bit 13 h; h = h * PRIME32_3
      in h XOR drop_bit 16 h)"

definition XXH32_finish :: "XXH_endianess \<Rightarrow> u32 \<Rightarrow> bytes \<Rightarrow> u32" where
  "XXH32_finish cpu h p =
     (case XXH32_tail4 cpu h p of (h, p) \<Rightarrow> XXH32_avalanche (XXH32_tail1 h p))"

definition XXH32_endian_align :: "bytes \<Rightarrow> u32 \<Rightarrow> XXH_endianess \<Rightarrow> u32" where
  "XXH32_endian_align input seed cpu =
     (let len = length input;
          (h32, p) = (if 16 \<le> len
                      then (case XXH32_loop cpu (XXH32_lanes_init seed) input of
                              (v, p) \<Rightarrow> (XXH32_converge v, p))
                      else (seed + PRIME32_5, input))
      in XXH32_finish cpu (h32 + of_nat len) p)"

definition XXH32 :: "XXH_endianess \<Rightarrow> bytes \<Rightarrow> u32 \<Rightarrow> u32" where
  "XXH32 cpu input seed = XXH32_endian_align input seed cpu"

section \<open>The 64-bit hash\<close>

type_synonym lanes64 = "u64 \<times> u64 \<times> u64 \<times> u64"

definition XXH64_lane :: "XXH_endianess \<Rightarrow> u64 \<Rightarrow> bytes \<Rightarrow> u64" where
  "XXH64_lane cpu v p = XXH_rotl64 (v + XXH_readLE64 cpu p * PRIME64_2) 31 * PRIME64_1"

definition XXH64_stripe :: "XXH_endianess \<Rightarrow> lanes64 \<Rightarrow> bytes \<Rightarrow> lanes64" where
  "XXH64_stripe cpu v p = (case v of (v1, v2, v3, v4) \<Rightarrow>
     (XXH64_lane cpu v1 p, XXH64_lane cpu v2 (drop 8 p),
      XXH64_lane cpu v3 (drop 16 p), XXH64_lane cpu v4 (drop 24 p)))"

function XXH64_loop :: "XXH_endianess \<Rightarrow> lanes64 \<Rightarrow> bytes \<Rightarrow> lanes64 \<times> bytes" where
  "XXH64_loop cpu v p =
     (let v' = XXH64_stripe cpu v p; p' = drop 32 p
      in if 32 \<le> length p' then XXH64_loop cpu v' p' else (v', p'))"
  by pat_completeness auto
termination
  by (relation "measure (\<lambda>(cpu, v, p). length p)") auto

declare XXH64_loop.simps [simp del]

definition XXH64_lanes_init :: "u64 \<Rightarrow> lanes64" where
  "XXH64_lanes_init seed =
     (seed + PRIME64_1 + PRIME64_2, seed + PRIME64_2, seed + 0, seed - PRIME64_1)"

text \<open>Folding one lane into the hash after the loop.\<close>

definition XXH64_merge :: "u64 \<Rightarrow> u64 \<Rightarrow> u64" where
  "XXH64_merge h v =
     (h XOR (XXH_rotl64 (v * PRIME64_2) 31 * PRIME64_1)) * PRIME64_1 + PRIME64_4"

definition XXH64_converge :: "lanes64 \<Rightarrow> u64" where
  "XXH64_converge v = (case v of (v1, v2, v3, v4) \<Rightarrow>
     XXH64_merge (XXH64_merge (XXH64_merge (XXH64_merge
       (XXH_rotl64 v1 1 + XXH_rotl64 v2 7 + XXH_rotl64 v3 12 + XXH_rotl64 v4 18)
       v1) v2) v3) v4)"

function XXH64_tail8 :: "XXH_endianess \<Rightarrow> u64 \<Rightarrow> bytes \<Rightarrow> u64 \<times> bytes" where
  "XXH64_tail8 cpu h p =
     (if 8 \<le> length p
      then let k1 = XXH_rotl64 (XXH_readLE64 cpu p * PRIME64_2) 31 * PRIME64_1
           in XXH64_tail8 cpu (XXH_rotl64 (h XOR k1) 27 * PRIME64_1 + PRIME64_4) (drop 8 p)
      else (h, p))"
  by pat_completeness auto
termination
  by (relation "measure (\<lambda>(cpu, h, p). length p)") auto

declare XXH64_tail8.simps [simp del]

definition XXH64_tail4 :: "XXH_endianess \<Rightarrow> u64 \<Rightarrow> bytes \<Rightarrow> u64 \<times> bytes" where
  "XXH64_tail4 cpu h p =
     (if 4 \<le> length p
      then (XXH_rotl64 (h XOR (ucast (XXH_readLE32 cpu p) * PRIME64_1)) 23 * PRIME64_2 + PRIME64_3,
            drop 4 p)
      else (h, p))"

primrec XXH64_tail1 :: "u64 \<Rightarrow> bytes \<Rightarrow> u64" where
  "XXH64_tail1 h [] = h"
| "XXH64_tail1 h (b # p) = XXH64_tail1 (XXH_rotl64 (h XOR (ucast b * PRIME64_5)) 11 * PRIME64_1) p"

definition XXH64_avalanche :: "u64 \<Rightarrow> u64" where
  "XXH64_avalanche h =
     (let h = h XOR drop_bit 33 h; h = h * PRIME64_2;
          h = h XOR drop_bit 29 h; h = h * PRIME64_3
      in h XOR drop_bit 32 h)"

definition XXH64_finish :: "XXH_endianess \<Rightarrow> u64 \<Rightarrow> bytes \<Rightarrow> u64" where
  "XXH64_finish cpu h p =
     (case XXH64_tail8 cpu h p of (h, p) \<Rightarrow>
      case XXH64_tail4 cpu h p of (h, p) \<Rightarrow> XXH64_avalanche (XXH64_tail1 h p))"

definition XXH64_endian_align :: "bytes \<Rightarrow> u64 \<Rightarrow> XXH_endianess \<Rightarrow> u64" where
  "XXH64_endian_align input seed cpu =
     (let len = length input;
          (h64, p) = (if 32 \<le> len
                      then (case XXH64_loop cpu (XXH64_lanes_init seed) input of
                              (v, p) \<Rightarrow> (XXH64_converge v, p))
                      else (seed + PRIME64_5, input))
      in XXH64_finish cpu (h64 + of_nat len) p)"

definition XXH64 :: "XXH_endianess \<Rightarrow> bytes \<Rightarrow> u64 \<Rightarrow> u64" where
  "XXH64 cpu input seed = XXH64_endian_align input seed cpu"

section \<open>The streaming interface\<close>

record XXH_state32_t =
  total_len32 :: u64
  seed32 :: u32
  v32 :: lanes32
  memsize32 :: nat
  memory32 :: bytes

record XXH_state64_t =
  total_len64 :: u64
  seed64 :: u64
  v64 :: lanes64
  memsize64 :: nat
  memory64 :: bytes

definition XXH32_resetState :: "XXH_state32_t \<Rightarrow> u32 \<Rightarrow> XXH_state32_t" where
  "XXH32_resetState st seed =
     st\<lparr>seed32 := seed, v32 := XXH32_lanes_init seed, total_len32 := 0, memsize32 := 0\<rparr>"

definition XXH64_resetState :: "XXH_state64_t \<Rightarrow> u64 \<Rightarrow> XXH_state64_t" where
  "XXH64_resetState st seed =
     st\<lparr>seed64 := seed, v64 := XXH64_lanes_init seed, total_len64 := 0, memsize64 := 0\<rparr>"

text \<open>
  \<^verbatim>\<open>XXH32_init\<close> resets a block fresh from \<^verbatim>\<open>malloc\<close>, whose contents
  \<^theory_text>\<open>raw\<close> are arbitrary; only the reset fields are ever read before they are written.
\<close>

definition XXH32_init :: "XXH_state32_t \<Rightarrow> u32 \<Rightarrow> XXH_state32_t" where
  "XXH32_init raw seed = XXH32_resetState raw seed"

definition XXH64_init :: "XXH_state64_t \<Rightarrow> u64 \<Rightarrow> XXH_state64_t" where
  "XXH64_init raw seed = XXH64_resetState raw seed"

text \<open>
  \<^verbatim>\<open>update\<close>: top up the buffer; or complete the buffered stripe, run the loop over the
  whole stripes of the rest and keep the remainder.
\<close>

definition XXH32_update :: "XXH_endianess \<Rightarrow> XXH_state32_t \<Rightarrow> bytes \<Rightarrow> XXH_state32_t" where
  "XXH32_update cpu st input =
     (let len = length input;
          st = st\<lparr>total_len32 := total_len32 st + of_nat len\<rparr>
      in if memsize32 st + len < 16
         then st\<lparr>memory32 := buf_write (memsize32 st) input (memory32 st),
                 memsize32 := memsize32 st + len\<rparr>
         else
           let (st, p) =
                 (if memsize32 st \<noteq> 0
                  then let fill = 16 - memsize32 st;
                           mem = buf_write (memsize32 st) (take fill input) (memory32 st)
                       in (st\<lparr>memory32 := mem, v32 := XXH32_stripe cpu (v32 st) mem, memsize32 := 0\<rparr>,
                           drop fill input)
                  else (st, input));
               (st, p) =
                 (if 16 \<le> length p
                  then (case XXH32_loop cpu (v32 st) p of (v, p) \<Rightarrow> (st\<lparr>v32 := v\<rparr>, p))
                  else (st, p))
           in if p \<noteq> []
              then st\<lparr>memory32 := buf_write 0 p (memory32 st), memsize32 := length p\<rparr>
              else st)"

definition XXH64_update :: "XXH_endianess \<Rightarrow> XXH_state64_t \<Rightarrow> bytes \<Rightarrow> XXH_state64_t" where
  "XXH64_update cpu st input =
     (let len = length input;
          st = st\<lparr>total_len64 := total_len64 st + of_nat len\<rparr>
      in if memsize64 st + len < 32
         then st\<lparr>memory64 := buf_write (memsize64 st) input (memory64 st),
                 memsize64 := memsize64 st + len\<rparr>
         else
           let (st, p) =
                 (if memsize64 st \<noteq> 0
                  then let fill = 32 - memsize64 st;
                           mem = buf_write (memsize64 st) (take fill input) (memory64 st)
                       in (st\<lparr>memory64 := mem, v64 := XXH64_stripe cpu (v64 st) mem, memsize64 := 0\<rparr>,
                           drop fill input)
                  else (st, input));
               (st, p) =
                 (if 32 \<le> length p
                  then (case XXH64_loop cpu (v64 st) p of (v, p) \<Rightarrow> (st\<lparr>v64 := v\<rparr>, p))
                  else (st, p))
           in if p \<noteq> []
              then st\<lparr>memory64 := buf_write 0 p (memory64 st), memsize64 := length p\<rparr>
              else st)"

definition XXH32_intermediateDigest :: "XXH_endianess \<Rightarrow> XXH_state32_t \<Rightarrow> u32" where
  "XXH32_intermediateDigest cpu st =
     (let h32 = (if 16 \<le> total_len32 st then XXH32_converge (v32 st) else seed32 st + PRIME32_5)
      in XXH32_finish cpu (h32 + ucast (total_len32 st)) (take (memsize32 st) (memory32 st)))"

definition XXH64_intermediateDigest :: "XXH_endianess \<Rightarrow> XXH_state64_t \<Rightarrow> u64" where
  "XXH64_intermediateDigest cpu st =
     (let h64 = (if 32 \<le> total_len64 st then XXH64_converge (v64 st) else seed64 st + PRIME64_5)
      in XXH64_finish cpu (h64 + total_len64 st) (take (memsize64 st) (memory64 st)))"

text \<open>\<^verbatim>\<open>digest\<close> also frees the state; what it returns is the intermediate digest.\<close>

definition XXH32_digest :: "XXH_endianess \<Rightarrow> XXH_state32_t \<Rightarrow> u32" where
  "XXH32_digest cpu st = XXH32_intermediateDigest cpu st"

definition XXH64_digest :: "XXH_endianess \<Rightarrow> XXH_state64_t \<Rightarrow> u64" where
  "XXH64_digest cpu st = XXH64_intermediateDigest cpu st"

section \<open>Byte order does not matter\<close>

lemma u8_bit_lt: "bit (b :: u8) n \<Longrightarrow> n < 8"
  using bit_imp_le_length [of b n] by simp

lemma swap32_masks:
  "(0xff000000 :: u32) = push_bit 24 (mask 8)" "(0xff0000 :: u32) = push_bit 16 (mask 8)"
  "(0xff00 :: u32) = push_bit 8 (mask 8)" "(0xff :: u32) = mask 8"
  by (simp_all add: mask_eq_exp_minus_1)

lemma swap64_masks:
  "(0xff00000000000000 :: u64) = push_bit 56 (mask 8)"
  "(0xff000000000000 :: u64) = push_bit 48 (mask 8)"
  "(0xff0000000000 :: u64) = push_bit 40 (mask 8)" "(0xff00000000 :: u64) = push_bit 32 (mask 8)"
  "(0xff000000 :: u64) = push_bit 24 (mask 8)" "(0xff0000 :: u64) = push_bit 16 (mask 8)"
  "(0xff00 :: u64) = push_bit 8 (mask 8)" "(0xff :: u64) = mask 8"
  by (simp_all add: mask_eq_exp_minus_1)

lemma bit_le_word:
  "bit (le_word bs :: 'a::len word) n \<longleftrightarrow>
     n < LENGTH('a) \<and> n div 8 < length bs \<and> bit (bs ! (n div 8)) (n mod 8)"
proof (induction bs arbitrary: n)
  case Nil
  then show ?case by simp
next
  case (Cons b bs)
  show ?case
  proof (cases "n < 8")
    case True
    then show ?thesis by (auto simp: bit_simps)
  next
    case False
    then obtain m where n: "n = m + 8" by (metis add.commute le_add_diff_inverse not_le)
    then have "\<not> bit b n" by (auto dest: u8_bit_lt)
    moreover have "(m + 8) div 8 = Suc (m div 8)" by simp
    ultimately show ?thesis by (auto simp: n bit_simps Cons)
  qed
qed

lemma bit_XXH_swap32:
  assumes "j < 8" and "k < 4"
  shows "bit (XXH_swap32 x) (8 * k + j) = bit x (8 * (3 - k) + j)"
proof -
  from \<open>k < 4\<close> consider "k = 0" | "k = 1" | "k = 2" | "k = 3" by linarith
  then show ?thesis
    using \<open>j < 8\<close>
    by cases (simp_all add: XXH_swap32_def swap32_masks bit_simps)
qed
lemma bit_XXH_swap64:
  assumes "j < 8" and "k < 8"
  shows "bit (XXH_swap64 x) (8 * k + j) = bit x (8 * (7 - k) + j)"
proof -
  from \<open>k < 8\<close> consider "k = 0" | "k = 1" | "k = 2" | "k = 3" | "k = 4" | "k = 5" | "k = 6" | "k = 7"
    by linarith
  then show ?thesis
    using \<open>j < 8\<close>
    by cases (simp_all add: XXH_swap64_def swap64_masks bit_simps)
qed
lemma XXH_swap32_be_word: "length bs = 4 \<Longrightarrow> XXH_swap32 (be_word bs) = le_word bs"
proof (rule bit_word_eqI, goal_cases)
  case (1 n)
  then have "bit (XXH_swap32 (be_word bs)) (8 * (n div 8) + n mod 8) = bit (be_word bs :: u32) (8 * (3 - n div 8) + n mod 8)"
    by (intro bit_XXH_swap32) auto
  moreover have "(8 * (3 - n div 8) + n mod 8) div 8 = 3 - n div 8" "8 * (3 - n div 8) + n mod 8 < 32"
     using 1 by auto
  moreover have "n div 8 < 4" using 1 by auto
  ultimately show ?case using 1 by (simp add: be_word_def bit_le_word rev_nth)
qed
lemma XXH_swap64_be_word: "length bs = 8 \<Longrightarrow> XXH_swap64 (be_word bs) = le_word bs"
proof (rule bit_word_eqI, goal_cases)
  case (1 n)
  then have "bit (XXH_swap64 (be_word bs)) (8 * (n div 8) + n mod 8) = bit (be_word bs :: u64) (8 * (7 - n div 8) + n mod 8)"
    by (intro bit_XXH_swap64) auto
  moreover have "(8 * (7 - n div 8) + n mod 8) div 8 = 7 - n div 8" "8 * (7 - n div 8) + n mod 8 < 64"
     using 1 by auto
  moreover have "n div 8 < 8" using 1 by auto
  ultimately show ?case using 1 by (simp add: be_word_def bit_le_word rev_nth)
qed
lemma XXH_readLE32_le_word: "4 \<le> length p \<Longrightarrow> XXH_readLE32 cpu p = le_word (take 4 p)"
  by (cases cpu) (simp_all add: XXH_readLE32_def A32_def XXH_swap32_be_word)

lemma XXH_readLE64_le_word: "8 \<le> length p \<Longrightarrow> XXH_readLE64 cpu p = le_word (take 8 p)"
  by (cases cpu) (simp_all add: XXH_readLE64_def A64_def XXH_swap64_be_word)

text \<open>Every read the hash makes is of whole words, so the processor's byte order drops out.\<close>

lemma XXH32_stripe_cpu: "16 \<le> length p \<Longrightarrow> XXH32_stripe cpu v p = XXH32_stripe cpu' v p"
  by (simp add: XXH32_stripe_def XXH32_lane_def XXH_readLE32_le_word split: prod.split)

lemma XXH64_stripe_cpu: "32 \<le> length p \<Longrightarrow> XXH64_stripe cpu v p = XXH64_stripe cpu' v p"
  by (simp add: XXH64_stripe_def XXH64_lane_def XXH_readLE64_le_word split: prod.split)

lemma XXH32_loop_cpu: "16 \<le> length p \<Longrightarrow> XXH32_loop cpu v p = XXH32_loop cpu' v p"
proof (induction cpu v p rule: XXH32_loop.induct)
  case (1 cpu v p)
  then show ?case
    by (simp add: XXH32_loop.simps [of _ v p] XXH32_stripe_cpu [of p cpu v cpu'] Let_def)
qed

lemma XXH64_loop_cpu: "32 \<le> length p \<Longrightarrow> XXH64_loop cpu v p = XXH64_loop cpu' v p"
proof (induction cpu v p rule: XXH64_loop.induct)
  case (1 cpu v p)
  then show ?case
    by (simp add: XXH64_loop.simps [of _ v p] XXH64_stripe_cpu [of p cpu v cpu'] Let_def)
qed

lemma XXH32_tail4_cpu: "XXH32_tail4 cpu h p = XXH32_tail4 cpu' h p"
proof (induction cpu h p rule: XXH32_tail4.induct)
  case (1 cpu h p)
  then show ?case
    by (simp add: XXH32_tail4.simps [of _ h p] XXH_readLE32_le_word)
qed

lemma XXH64_tail8_cpu: "XXH64_tail8 cpu h p = XXH64_tail8 cpu' h p"
proof (induction cpu h p rule: XXH64_tail8.induct)
  case (1 cpu h p)
  then show ?case
    by (simp add: XXH64_tail8.simps [of _ h p] XXH_readLE64_le_word Let_def)
qed

lemma XXH64_tail4_cpu: "XXH64_tail4 cpu h p = XXH64_tail4 cpu' h p"
  by (simp add: XXH64_tail4_def XXH_readLE32_le_word)

lemma XXH32_finish_cpu: "XXH32_finish cpu h p = XXH32_finish cpu' h p"
  by (simp add: XXH32_finish_def XXH32_tail4_cpu [of cpu h p cpu'])

lemma XXH64_finish_cpu: "XXH64_finish cpu h p = XXH64_finish cpu' h p"
  by (simp add: XXH64_finish_def XXH64_tail8_cpu [of cpu h p cpu'] XXH64_tail4_cpu [of cpu _ _ cpu']
      split: prod.split)

lemma XXH32_cpu: "XXH32 cpu input seed = XXH32 cpu' input seed"
  by (simp add: XXH32_def XXH32_endian_align_def XXH32_loop_cpu [of input cpu _ cpu']
      XXH32_finish_cpu [of cpu _ _ cpu'] Let_def)

lemma XXH64_cpu: "XXH64 cpu input seed = XXH64 cpu' input seed"
  by (simp add: XXH64_def XXH64_endian_align_def XXH64_loop_cpu [of input cpu _ cpu']
      XXH64_finish_cpu [of cpu _ _ cpu'] Let_def)

section \<open>Streaming computes the one-shot hash\<close>

text \<open>
  Both widths buffer the same way, so the argument is made once, over an interface:
  \<^theory_text>\<open>absorb\<close> is the reference loop, which takes in whole stripes from the front, and the
  laws say what one \<^theory_text>\<open>update\<close> does in its terms.
\<close>

function absorb :: "('v \<Rightarrow> bytes \<Rightarrow> 'v) \<Rightarrow> nat \<Rightarrow> 'v \<Rightarrow> bytes \<Rightarrow> 'v \<times> bytes" where
  "absorb f w v p = (if 0 < w \<and> w \<le> length p then absorb f w (f v p) (drop w p) else (v, p))"
  by pat_completeness auto
termination
  by (relation "measure (\<lambda>(f, w, v, p). length p)") auto

declare absorb.simps [simp del]

locale stripe_hash =
  fixes width :: nat
    and stripe :: "'v \<Rightarrow> bytes \<Rightarrow> 'v"
    and lanes0 :: "'seed \<Rightarrow> 'v"
    and final :: "'v + 'seed \<Rightarrow> u64 \<Rightarrow> bytes \<Rightarrow> 'h"
    and oneshot :: "bytes \<Rightarrow> 'seed \<Rightarrow> 'h"
    and ok :: "'s \<Rightarrow> bool"
    and seed :: "'s \<Rightarrow> 'seed"
    and lanes :: "'s \<Rightarrow> 'v"
    and total :: "'s \<Rightarrow> u64"
    and pending :: "'s \<Rightarrow> bytes"
    and update :: "'s \<Rightarrow> bytes \<Rightarrow> 's"
    and digest :: "'s \<Rightarrow> 'h"
  assumes width: "0 < width" "width < 2 ^ 64"
    and stripe_prefix: "width \<le> length p \<Longrightarrow> stripe v (p @ q) = stripe v p"
    and update_ok: "ok s \<Longrightarrow> ok (update s xs)"
    and pending_short: "ok s \<Longrightarrow> length (pending s) < width"
    and update_seed: "ok s \<Longrightarrow> seed (update s xs) = seed s"
    and update_total: "ok s \<Longrightarrow> total (update s xs) = total s + of_nat (length xs)"
    and update_data:
      "ok s \<Longrightarrow> (lanes (update s xs), pending (update s xs)) = absorb stripe width (lanes s) (pending s @ xs)"
    and digest: "ok s \<Longrightarrow>
      digest s = final (if of_nat width \<le> total s then Inl (lanes s) else Inr (seed s)) (total s) (pending s)"
    and oneshot: "oneshot xs sd =
      (if width \<le> length xs
       then (case absorb stripe width (lanes0 sd) xs of (v, p) \<Rightarrow> final (Inl v) (of_nat (length xs)) p)
       else final (Inr sd) (of_nat (length xs)) xs)"
begin

lemma absorb_short [simp]: "length p < width \<Longrightarrow> absorb stripe width v p = (v, p)"
  by (simp add: absorb.simps)

lemma absorb_append:
  "absorb stripe width v (xs @ ys) =
     (case absorb stripe width v xs of (v', r) \<Rightarrow> absorb stripe width v' (r @ ys))"
proof (induction "length xs" arbitrary: v xs rule: less_induct)
  case less
  show ?case
  proof (cases "width \<le> length xs")
    case True
    then have "length (drop width xs) < length xs" using width by simp
    then show ?thesis
      using True less [of "drop width xs" "stripe v xs"] width
      by (simp add: absorb.simps [of _ _ v "xs @ ys"] absorb.simps [of _ _ v xs] stripe_prefix)
  next
    case False
    then show ?thesis by simp
  qed
qed

lemma updates:
  "ok s \<Longrightarrow>
    ok (foldl update s cs) \<and> seed (foldl update s cs) = seed s \<and>
    total (foldl update s cs) = total s + of_nat (length (concat cs)) \<and>
    (lanes (foldl update s cs), pending (foldl update s cs)) =
      absorb stripe width (lanes s) (pending s @ concat cs)"
proof (induction cs rule: rev_induct)
  case Nil
  then show ?case by (simp add: pending_short)
next
  case (snoc c cs)
  let ?t = "foldl update s cs"
  have t: "ok ?t" and data: "(lanes ?t, pending ?t) = absorb stripe width (lanes s) (pending s @ concat cs)"
    using snoc by auto
  have "absorb stripe width (lanes s) ((pending s @ concat cs) @ c) = absorb stripe width (lanes ?t) (pending ?t @ c)"
    using absorb_append [of "lanes s" "pending s @ concat cs" c]
    by (simp only: data [symmetric] prod.case)
  with update_data [OF t, of c]
  have "(lanes (update ?t c), pending (update ?t c)) = absorb stripe width (lanes s) (pending s @ concat (cs @ [c]))"
    by simp
  moreover have "seed ?t = seed s" "total ?t = total s + of_nat (length (concat cs))"
    using snoc by auto
  ultimately show ?case
    using t by (simp add: update_ok update_seed update_total)
qed

lemma streaming:
  assumes "ok s" and "seed s = sd" and "lanes s = lanes0 sd" and "total s = 0" and "pending s = []"
    and len: "length (concat cs) < 2 ^ 64"
  shows "digest (foldl update s cs) = oneshot (concat cs) sd"
proof -
  let ?t = "foldl update s cs" and ?xs = "concat cs"
  have t: "ok ?t" "seed ?t = sd" "total ?t = of_nat (length ?xs)"
      "(lanes ?t, pending ?t) = absorb stripe width (lanes0 sd) ?xs"
    using updates [of s cs] assms by auto
  have cmp: "of_nat width \<le> (of_nat (length ?xs) :: u64) \<longleftrightarrow> width \<le> length ?xs"
    using len width by (simp add: word_le_nat_alt unsigned_of_nat take_bit_nat_eq_self)
  show ?thesis
    using t by (cases "absorb stripe width (lanes0 sd) ?xs")
      (auto simp: digest oneshot cmp)
qed

end

lemma XXH32_loop_absorb:
  "16 \<le> length p \<Longrightarrow> XXH32_loop cpu v p = absorb (XXH32_stripe cpu) 16 v p"
proof (induction cpu v p rule: XXH32_loop.induct)
  case (1 cpu v p)
  then show ?case
    by (simp add: XXH32_loop.simps [of _ v p] absorb.simps [of _ _ v p] Let_def)
      (simp add: absorb.simps)
qed

lemma XXH64_loop_absorb:
  "32 \<le> length p \<Longrightarrow> XXH64_loop cpu v p = absorb (XXH64_stripe cpu) 32 v p"
proof (induction cpu v p rule: XXH64_loop.induct)
  case (1 cpu v p)
  then show ?case
    by (simp add: XXH64_loop.simps [of _ v p] absorb.simps [of _ _ v p] Let_def)
      (simp add: absorb.simps)
qed

definition state32_ok :: "XXH_state32_t \<Rightarrow> bool" where
  "state32_ok st \<longleftrightarrow> length (memory32 st) = 16 \<and> memsize32 st < 16"

definition state64_ok :: "XXH_state64_t \<Rightarrow> bool" where
  "state64_ok st \<longleftrightarrow> length (memory64 st) = 32 \<and> memsize64 st < 32"

lemma absorb_rest: "0 < w \<Longrightarrow> length (snd (absorb f w v p)) < w"
proof (induction f w v p rule: absorb.induct)
  case (1 f w v p)
  then show ?case by (cases "w \<le> length p") (simp_all add: absorb.simps [of f w v p])
qed

lemma take_buf_write:
  "off + length ys \<le> length xs \<Longrightarrow> take (off + length ys) (buf_write off ys xs) = take off xs @ ys"
  by (simp add: buf_write_def)


lemma XXH32_stripe_prefix: "16 \<le> length p \<Longrightarrow> XXH32_stripe cpu v (p @ q) = XXH32_stripe cpu v p"
  by (simp add: XXH32_stripe_def XXH32_lane_def XXH_readLE32_le_word split: prod.split)

lemma XXH32_update_bulk:
  assumes "state32_ok st" and "16 \<le> memsize32 st + length xs"
    and p: "absorb (XXH32_stripe cpu) 16 (v32 st) (take (memsize32 st) (memory32 st) @ xs) = (v, r)"
  shows "\<exists>mem. XXH32_update cpu st xs =
    st\<lparr>total_len32 := total_len32 st + of_nat (length xs), v32 := v,
       memory32 := buf_write 0 r mem, memsize32 := length r\<rparr> \<and> length mem = 16"
proof -
  let ?m = "memsize32 st" and ?fill = "16 - memsize32 st"
  let ?mem = "if ?m = 0 then memory32 st else buf_write ?m (take ?fill xs) (memory32 st)"
  let ?v = "if ?m = 0 then v32 st else XXH32_stripe cpu (v32 st) ?mem"
  let ?p = "if ?m = 0 then xs else drop ?fill xs"
  have ok: "length (memory32 st) = 16" "?m < 16" using assms(1) by (auto simp: state32_ok_def)
  have mem: "length ?mem = 16" using ok assms(2) by simp
  have split: "?m \<noteq> 0 \<Longrightarrow> take ?m (memory32 st) @ xs = ?mem @ ?p"
    using ok assms(2) by (simp add: buf_write_def)
  have absorb: "absorb (XXH32_stripe cpu) 16 ?v ?p = (v, r)"
  proof (cases "?m = 0")
    case True
    then show ?thesis using p by simp
  next
    case False
    then have "absorb (XXH32_stripe cpu) 16 (v32 st) (?mem @ ?p) = absorb (XXH32_stripe cpu) 16 ?v ?p"
      using mem by (subst absorb.simps) (simp add: XXH32_stripe_prefix)
    with False p split show ?thesis by metis
  qed
  then have r: "length r < 16" using absorb_rest [of 16 "XXH32_stripe cpu" ?v ?p] by simp
  have loop: "(if 16 \<le> length ?p then XXH32_loop cpu ?v ?p else (?v, ?p)) = (v, r)"
    using absorb by (auto simp: XXH32_loop_absorb absorb.simps [of _ _ _ ?p])
  have "XXH32_update cpu st xs =
    st\<lparr>total_len32 := total_len32 st + of_nat (length xs), v32 := v,
       memory32 := buf_write 0 r ?mem, memsize32 := length r\<rparr>"
    using loop assms(2) by (cases "?m = 0") (auto simp: XXH32_update_def Let_def split: if_splits)
  with mem show ?thesis by blast
qed

lemma XXH64_stripe_prefix: "32 \<le> length p \<Longrightarrow> XXH64_stripe cpu v (p @ q) = XXH64_stripe cpu v p"
  by (simp add: XXH64_stripe_def XXH64_lane_def XXH_readLE64_le_word split: prod.split)

lemma XXH64_update_bulk:
  assumes "state64_ok st" and "32 \<le> memsize64 st + length xs"
    and p: "absorb (XXH64_stripe cpu) 32 (v64 st) (take (memsize64 st) (memory64 st) @ xs) = (v, r)"
  shows "\<exists>mem. XXH64_update cpu st xs =
    st\<lparr>total_len64 := total_len64 st + of_nat (length xs), v64 := v,
       memory64 := buf_write 0 r mem, memsize64 := length r\<rparr> \<and> length mem = 32"
proof -
  let ?m = "memsize64 st" and ?fill = "32 - memsize64 st"
  let ?mem = "if ?m = 0 then memory64 st else buf_write ?m (take ?fill xs) (memory64 st)"
  let ?v = "if ?m = 0 then v64 st else XXH64_stripe cpu (v64 st) ?mem"
  let ?p = "if ?m = 0 then xs else drop ?fill xs"
  have ok: "length (memory64 st) = 32" "?m < 32" using assms(1) by (auto simp: state64_ok_def)
  have mem: "length ?mem = 32" using ok assms(2) by simp
  have split: "?m \<noteq> 0 \<Longrightarrow> take ?m (memory64 st) @ xs = ?mem @ ?p"
    using ok assms(2) by (simp add: buf_write_def)
  have absorb: "absorb (XXH64_stripe cpu) 32 ?v ?p = (v, r)"
  proof (cases "?m = 0")
    case True
    then show ?thesis using p by simp
  next
    case False
    then have "absorb (XXH64_stripe cpu) 32 (v64 st) (?mem @ ?p) = absorb (XXH64_stripe cpu) 32 ?v ?p"
      using mem by (subst absorb.simps) (simp add: XXH64_stripe_prefix)
    with False p split show ?thesis by metis
  qed
  then have r: "length r < 32" using absorb_rest [of 32 "XXH64_stripe cpu" ?v ?p] by simp
  have loop: "(if 32 \<le> length ?p then XXH64_loop cpu ?v ?p else (?v, ?p)) = (v, r)"
    using absorb by (auto simp: XXH64_loop_absorb absorb.simps [of _ _ _ ?p])
  have "XXH64_update cpu st xs =
    st\<lparr>total_len64 := total_len64 st + of_nat (length xs), v64 := v,
       memory64 := buf_write 0 r ?mem, memsize64 := length r\<rparr>"
    using loop assms(2) by (cases "?m = 0") (auto simp: XXH64_update_def Let_def split: if_splits)
  with mem show ?thesis by blast
qed


lemma ucast_of_nat_32: "ucast (of_nat n :: u64) = (of_nat n :: u32)"
  by (rule bit_word_eqI) (simp add: bit_simps)

lemma XXH32_update_data:
  fixes cpu xs
  assumes "state32_ok st"
  defines "st' \<equiv> XXH32_update cpu st xs"
  shows "(v32 st', take (memsize32 st') (memory32 st')) =
      absorb (XXH32_stripe cpu) 16 (v32 st) (take (memsize32 st) (memory32 st) @ xs) \<and>
    state32_ok st' \<and> seed32 st' = seed32 st \<and> total_len32 st' = total_len32 st + of_nat (length xs)"
proof (cases "memsize32 st + length xs < 16")
  case True
  then have "absorb (XXH32_stripe cpu) 16 (v32 st) (take (memsize32 st) (memory32 st) @ xs) =
      (v32 st, take (memsize32 st) (memory32 st) @ xs)"
    using assms(1) by (simp add: absorb.simps state32_ok_def)
  with True assms(1) show ?thesis
    by (simp add: st'_def XXH32_update_def Let_def state32_ok_def take_buf_write)
next
  case False
  obtain v r where p: "absorb (XXH32_stripe cpu) 16 (v32 st) (take (memsize32 st) (memory32 st) @ xs) = (v, r)"
    by (cases "absorb (XXH32_stripe cpu) 16 (v32 st) (take (memsize32 st) (memory32 st) @ xs)")
  then have r: "length r < 16" using absorb_rest [of 16 "XXH32_stripe cpu"] by (metis snd_conv zero_less_numeral)
  obtain mem where "st' = st\<lparr>total_len32 := total_len32 st + of_nat (length xs), v32 := v,
       memory32 := buf_write 0 r mem, memsize32 := length r\<rparr>" and "length mem = 16"
    using XXH32_update_bulk [OF assms(1) _ p] False unfolding st'_def by auto
  with r p show ?thesis
    using take_buf_write [of 0 r mem] by (simp add: state32_ok_def)
qed

definition final32 :: "XXH_endianess \<Rightarrow> lanes32 + u32 \<Rightarrow> u64 \<Rightarrow> bytes \<Rightarrow> u32" where
  "final32 cpu acc tot p =
     XXH32_finish cpu ((case acc of Inl v \<Rightarrow> XXH32_converge v | Inr sd \<Rightarrow> sd + PRIME32_5) + ucast tot) p"

interpretation xxh32: stripe_hash 16 "XXH32_stripe cpu" XXH32_lanes_init "final32 cpu" "XXH32 cpu"
  state32_ok seed32 v32 total_len32 "\<lambda>st. take (memsize32 st) (memory32 st)" "XXH32_update cpu" "XXH32_digest cpu"
  for cpu
proof (unfold_locales, goal_cases)
  case (10 xs sd)
  then show ?case
    by (simp add: XXH32_def XXH32_endian_align_def XXH32_loop_absorb final32_def Let_def ucast_of_nat_32
        split: prod.split)
qed (use XXH32_update_data in \<open>auto simp: XXH32_stripe_prefix state32_ok_def final32_def XXH32_digest_def
      XXH32_intermediateDigest_def\<close>)


lemma XXH64_update_data:
  fixes cpu xs
  assumes "state64_ok st"
  defines "st' \<equiv> XXH64_update cpu st xs"
  shows "(v64 st', take (memsize64 st') (memory64 st')) =
      absorb (XXH64_stripe cpu) 32 (v64 st) (take (memsize64 st) (memory64 st) @ xs) \<and>
    state64_ok st' \<and> seed64 st' = seed64 st \<and> total_len64 st' = total_len64 st + of_nat (length xs)"
proof (cases "memsize64 st + length xs < 32")
  case True
  then have "absorb (XXH64_stripe cpu) 32 (v64 st) (take (memsize64 st) (memory64 st) @ xs) =
      (v64 st, take (memsize64 st) (memory64 st) @ xs)"
    using assms(1) by (simp add: absorb.simps state64_ok_def)
  with True assms(1) show ?thesis
    by (simp add: st'_def XXH64_update_def Let_def state64_ok_def take_buf_write)
next
  case False
  obtain v r where p: "absorb (XXH64_stripe cpu) 32 (v64 st) (take (memsize64 st) (memory64 st) @ xs) = (v, r)"
    by (cases "absorb (XXH64_stripe cpu) 32 (v64 st) (take (memsize64 st) (memory64 st) @ xs)")
  then have r: "length r < 32" using absorb_rest [of 32 "XXH64_stripe cpu"] by (metis snd_conv zero_less_numeral)
  obtain mem where "st' = st\<lparr>total_len64 := total_len64 st + of_nat (length xs), v64 := v,
       memory64 := buf_write 0 r mem, memsize64 := length r\<rparr>" and "length mem = 32"
    using XXH64_update_bulk [OF assms(1) _ p] False unfolding st'_def by auto
  with r p show ?thesis
    using take_buf_write [of 0 r mem] by (simp add: state64_ok_def)
qed

definition final64 :: "XXH_endianess \<Rightarrow> lanes64 + u64 \<Rightarrow> u64 \<Rightarrow> bytes \<Rightarrow> u64" where
  "final64 cpu acc tot p =
     XXH64_finish cpu ((case acc of Inl v \<Rightarrow> XXH64_converge v | Inr sd \<Rightarrow> sd + PRIME64_5) + ucast tot) p"

interpretation xxh64: stripe_hash 32 "XXH64_stripe cpu" XXH64_lanes_init "final64 cpu" "XXH64 cpu"
  state64_ok seed64 v64 total_len64 "\<lambda>st. take (memsize64 st) (memory64 st)" "XXH64_update cpu" "XXH64_digest cpu"
  for cpu
proof (unfold_locales, goal_cases)
  case (10 xs sd)
  then show ?case
    by (simp add: XXH64_def XXH64_endian_align_def XXH64_loop_absorb final64_def Let_def
        split: prod.split)
qed (use XXH64_update_data in \<open>auto simp: XXH64_stripe_prefix state64_ok_def final64_def XXH64_digest_def
      XXH64_intermediateDigest_def\<close>)


section \<open>The properties\<close>

text \<open>
  The hash of a buffer does not depend on the byte order of the processor: the byte
  swaps of the big-endian build make every word read the little-endian one, for both widths.
\<close>

lemma XXH_endian_independent:
  "XXH32 XXH_bigEndian input seed = XXH32 XXH_littleEndian input seed \<and>
   XXH64 XXH_bigEndian input seed' = XXH64 XXH_littleEndian input seed'"
  using XXH32_cpu XXH64_cpu by blast

text \<open>
  C16: Feeding a buffer to the streaming interface in pieces, cut anywhere, gives the hash the
  one-shot function computes of the whole buffer, for both widths, whatever the fresh state
  block held before \<^verbatim>\<open>init\<close>.
\<close>

theorem XXH_streaming_is_oneshot:
  assumes "length (memory32 raw) = 16" and "length (memory64 raw') = 32"
    and "length (concat cs) < 2 ^ 31 - 32"
  shows "XXH32_digest cpu (foldl (XXH32_update cpu) (XXH32_init raw seed) cs) = XXH32 cpu (concat cs) seed
    \<and> XXH64_digest cpu (foldl (XXH64_update cpu) (XXH64_init raw' seed') cs) = XXH64 cpu (concat cs) seed'"
  using xxh32.streaming [of "XXH32_init raw seed" seed cs] xxh64.streaming [of "XXH64_init raw' seed'" seed' cs] assms
  by (simp add: XXH32_init_def XXH64_init_def XXH32_resetState_def XXH64_resetState_def
      state32_ok_def state64_ok_def)

theorem XXH_streaming_is_oneshot_witness:
  "XXH64_digest XXH_littleEndian (foldl (XXH64_update XXH_littleEndian)
      (XXH64_init \<lparr>total_len64 = 9, seed64 = 9, v64 = (1, 2, 3, 4), memsize64 = 77,
         memory64 = replicate 32 255\<rparr> 7) [replicate 20 1, [], replicate 20 2])
    = XXH64 XXH_littleEndian (replicate 20 1 @ replicate 20 2) 7"
  using XXH_streaming_is_oneshot [of
      "\<lparr>total_len32 = 9, seed32 = 9, v32 = (1, 2, 3, 4), memsize32 = 77, memory32 = replicate 16 255\<rparr>"
      "\<lparr>total_len64 = 9, seed64 = 9, v64 = (1, 2, 3, 4), memsize64 = 77, memory64 = replicate 32 255\<rparr>"
      "[replicate 20 1, [], replicate 20 2]" XXH_littleEndian 0 7]
  by simp

end
