(* ===== verification/Vme.thy ===== *)
theory Vme
  imports XXHash
begin

text \<open>
  The virtual memory engine, \<^verbatim>\<open>Enclave/vmem.c\<close>, in the configuration the
  repository ships (\<^verbatim>\<open>vme_config.h\<close>: \<^verbatim>\<open>WARM_CACHE\<close>,
  \<^verbatim>\<open>WARM_FETCH\<close> and \<^verbatim>\<open>COLD_HASH\<close> on, \<^verbatim>\<open>CPY\<close> off);
  the sizes are parameters. A trusted cache of page frames (\<^theory_text>\<open>warm\<close>) stands before an
  untrusted, encrypted backing store (\<^theory_text>\<open>cold\<close>); a doubly linked queue of
  \<^verbatim>\<open>malloc\<close>ed nodes orders the cached pages and an array maps page numbers to nodes.

  The model keeps the pointers: \<^theory_text>\<open>nodes\<close> is the heap of queue nodes, a pointer is an
  address or \<^theory_text>\<open>None\<close> for \<^verbatim>\<open>NULL\<close>, and every dereference, array access and
  \<^verbatim>\<open>memcpy\<close> that C leaves undefined is a fault, as are the two places where the code
  spins forever. \<^verbatim>\<open>malloc\<close> is taken to succeed with a new address.
\<close>

section \<open>Configuration and parameters\<close>

record vme_cfg =
  PAGE_SIZE :: nat
  COLD_MEM_SIZE :: nat
  WARM_MEM_SIZE :: nat

definition COLD_PAGES :: "vme_cfg \<Rightarrow> nat" where
  "COLD_PAGES c = COLD_MEM_SIZE c div PAGE_SIZE c"

definition WARM_PAGES :: "vme_cfg \<Rightarrow> nat" where
  "WARM_PAGES c = WARM_MEM_SIZE c div PAGE_SIZE c"

definition vme_config :: vme_cfg where
  "vme_config = \<lparr>PAGE_SIZE = 4096, COLD_MEM_SIZE = 0x7fffffff, WARM_MEM_SIZE = 70 * 1024 * 1024\<rparr>"

text \<open>
  Intel IPP's counter mode, which the engine links against: the arguments are the key, the
  initial counter and the data. The engine always uses the same key and counter.
\<close>

record ipp_aes =
  EncryptCTR :: "bytes \<Rightarrow> bytes \<Rightarrow> bytes \<Rightarrow> bytes"
  DecryptCTR :: "bytes \<Rightarrow> bytes \<Rightarrow> bytes \<Rightarrow> bytes"

definition key :: bytes where
  "key = [0x00, 0x01, 0x02, 0x03, 0x04, 0x05, 0x06, 0x07,
          0x08, 0x09, 0x10, 0x11, 0x12, 0x13, 0x14, 0x15]"

definition ctr0 :: bytes where
  "ctr0 = [0xff, 0xee, 0xdd, 0xcc, 0xbb, 0xaa, 0x99, 0x88,
           0x77, 0x66, 0x55, 0x44, 0x33, 0x22, 0x11, 0x00]"

definition ext_encrypt :: "ipp_aes \<Rightarrow> bytes \<Rightarrow> bytes" where
  "ext_encrypt aes src = EncryptCTR aes key ctr0 src"

definition ext_decrypt :: "ipp_aes \<Rightarrow> bytes \<Rightarrow> bytes" where
  "ext_decrypt aes src = DecryptCTR aes key ctr0 src"

text \<open>The checksum of a page, as every call site computes it.\<close>

definition page_hash :: "bytes \<Rightarrow> u64" where
  "page_hash data = XXH64 XXH_littleEndian data 0xaabbacaca"

section \<open>State\<close>


record qnode =
  prev_node :: ptr
  next_node :: ptr
  pageNumber :: nat
  warm_slot :: nat
  stick :: bool

record queue =
  q_count :: nat
  numberOfFrames :: nat
  front :: ptr
  rear :: ptr

record vme =
  nodes :: "addr \<Rightarrow> qnode option"
  brk :: addr
  vq :: "queue option"
  vhash :: "ptr list option"
  warm :: bytes
  cold :: bytes
  hashes :: "u64 list"
  zero_page :: bytes
  free_warm :: nat
  free_cold :: nat

datatype vme_fault =
    NullDeref | FreedAccess | OutOfBounds | MissingReturn
  | HashMismatch nat | UnalignedAccess int

type_synonym 'a vres = "vme_fault + 'a"

section \<open>Memory accesses\<close>

definition deref :: "vme \<Rightarrow> ptr \<Rightarrow> qnode vres" where
  "deref s p = (case p of None \<Rightarrow> Inl NullDeref
     | Some a \<Rightarrow> (case nodes s a of None \<Rightarrow> Inl FreedAccess | Some n \<Rightarrow> Inr n))"

definition store :: "vme \<Rightarrow> ptr \<Rightarrow> (qnode \<Rightarrow> qnode) \<Rightarrow> vme vres" where
  "store s p f = (case p of None \<Rightarrow> Inl NullDeref
     | Some a \<Rightarrow> (case nodes s a of None \<Rightarrow> Inl FreedAccess
        | Some n \<Rightarrow> Inr (s\<lparr>nodes := (nodes s)(a := Some (f n))\<rparr>)))"

definition get_queue :: "vme \<Rightarrow> queue vres" where
  "get_queue s = (case vq s of None \<Rightarrow> Inl NullDeref | Some qu \<Rightarrow> Inr qu)"

definition upd_queue :: "(queue \<Rightarrow> queue) \<Rightarrow> vme \<Rightarrow> vme" where
  "upd_queue f s = s\<lparr>vq := map_option f (vq s)\<rparr>"

definition hash_get :: "vme \<Rightarrow> nat \<Rightarrow> ptr vres" where
  "hash_get s i = (case vhash s of None \<Rightarrow> Inl NullDeref
     | Some arr \<Rightarrow> if i < length arr then Inr (arr ! i) else Inl OutOfBounds)"

definition hash_set :: "vme \<Rightarrow> nat \<Rightarrow> ptr \<Rightarrow> vme vres" where
  "hash_set s i p = (case vhash s of None \<Rightarrow> Inl NullDeref
     | Some arr \<Rightarrow> if i < length arr then Inr (s\<lparr>vhash := Some (arr[i := p])\<rparr>) else Inl OutOfBounds)"

definition hashes_get :: "vme \<Rightarrow> nat \<Rightarrow> u64 vres" where
  "hashes_get s i = (if i < length (hashes s) then Inr (hashes s ! i) else Inl OutOfBounds)"

definition hashes_set :: "vme \<Rightarrow> nat \<Rightarrow> u64 \<Rightarrow> vme vres" where
  "hashes_set s i h =
     (if i < length (hashes s) then Inr (s\<lparr>hashes := (hashes s)[i := h]\<rparr>) else Inl OutOfBounds)"

text \<open>\<^verbatim>\<open>memcpy\<close> out of, and into, a buffer at an \<^verbatim>\<open>int\<close> offset.\<close>

definition mem_read :: "bytes \<Rightarrow> int \<Rightarrow> nat \<Rightarrow> bytes vres" where
  "mem_read buf off n =
     (if 0 \<le> off \<and> nat off + n \<le> length buf then Inr (buf_read (nat off) n buf) else Inl OutOfBounds)"

definition mem_write :: "bytes \<Rightarrow> int \<Rightarrow> bytes \<Rightarrow> bytes vres" where
  "mem_write buf off src =
     (if 0 \<le> off \<and> nat off + length src \<le> length buf then Inr (buf_write (nat off) src buf)
      else Inl OutOfBounds)"

text \<open>\<^verbatim>\<open>PAGE_SIZE*temp->warm\<close> and its like: an unsigned 32-bit product.\<close>

definition frame_off :: "vme_cfg \<Rightarrow> nat \<Rightarrow> int" where
  "frame_off c i = int ((PAGE_SIZE c * i) mod 2 ^ 32)"

text \<open>The page number of an \<^verbatim>\<open>int\<close> offset, converted to \<^verbatim>\<open>unsigned\<close>.\<close>

definition page_of :: "vme_cfg \<Rightarrow> int \<Rightarrow> nat" where
  "page_of c off = nat ((off sdiv int (PAGE_SIZE c)) mod 2 ^ 32)"

section \<open>Operations of the queue\<close>

definition newQNode :: "vme \<Rightarrow> nat \<Rightarrow> addr \<times> vme" where
  "newQNode s pg =
     (brk s, s\<lparr>nodes := (nodes s)(brk s := Some \<lparr>prev_node = None, next_node = None,
        pageNumber = pg, warm_slot = 0, stick = False\<rparr>), brk := brk s + 1\<rparr>)"
  \<comment> \<open>C leaves the last two fields uninitialised; \<open>Enqueue\<close> writes both before any read.\<close>

definition createQueue :: "nat \<Rightarrow> queue" where
  "createQueue n = \<lparr>q_count = 0, numberOfFrames = n, front = None, rear = None\<rparr>"

definition createHash :: "nat \<Rightarrow> ptr list" where
  "createHash capacity = replicate capacity None"

definition AreAllFramesFull :: "queue \<Rightarrow> bool" where
  "AreAllFramesFull qu \<longleftrightarrow> q_count qu = numberOfFrames qu"

definition isQueueEmpty :: "queue \<Rightarrow> bool" where
  "isQueueEmpty qu \<longleftrightarrow> rear qu = None"

definition get_free_warm :: "vme_cfg \<Rightarrow> vme \<Rightarrow> nat \<times> vme" where
  "get_free_warm c s =
     (if free_warm s < WARM_PAGES c then (free_warm s, s\<lparr>free_warm := free_warm s + 1\<rparr>)
      else (2 ^ 32 - 1, s))"

definition set_free_warm :: "vme \<Rightarrow> nat \<Rightarrow> vme" where
  "set_free_warm s page = s\<lparr>free_warm := page\<rparr>"

definition get_free_cold :: "vme \<Rightarrow> nat \<Rightarrow> nat \<times> vme" where
  "get_free_cold s count =
     (let n = (free_cold s + count) mod 2 ^ 32 in (n, s\<lparr>free_cold := n\<rparr>))"

text \<open>
  \<^verbatim>\<open>deQueue\<close> unlinks the node at the rear, writes its frame, encrypted, to the cold
  store with its checksum in \<^theory_text>\<open>hashes\<close>, and gives the frame back.
\<close>

definition deQueue :: "vme_cfg \<Rightarrow> ipp_aes \<Rightarrow> vme \<Rightarrow> vme vres" where
  "deQueue c aes s =
    bindE (get_queue s) (\<lambda>qu.
    if isQueueEmpty qu then Inr s else
    let s = (if front qu = rear qu then upd_queue (\<lambda>x. x\<lparr>front := None\<rparr>) s else s);
        temp = rear qu in
    bindE (deref s temp) (\<lambda>t.
    let s = upd_queue (\<lambda>x. x\<lparr>rear := prev_node t\<rparr>) s in
    bindE (if prev_node t \<noteq> None then store s (prev_node t) (\<lambda>n. n\<lparr>next_node := None\<rparr>) else Inr s) (\<lambda>s.
    bindE (mem_read (warm s) (frame_off c (warm_slot t)) (PAGE_SIZE c)) (\<lambda>plain.
    bindE (mem_write (cold s) (frame_off c (pageNumber t)) (EncryptCTR aes key ctr0 plain)) (\<lambda>cold'.
    let s = s\<lparr>cold := cold'\<rparr> in
    bindE (hashes_set s (pageNumber t) (page_hash plain)) (\<lambda>s.
    let s = set_free_warm s (warm_slot t);
        s = s\<lparr>nodes := (nodes s)(the temp := None)\<rparr> in
    Inr (upd_queue (\<lambda>x. x\<lparr>q_count := (q_count x + (2 ^ 32 - 1)) mod 2 ^ 32\<rparr>) s)))))))"

text \<open>
  \<^verbatim>\<open>Enqueue\<close> in two parts, at the early return: making room, which fails when the node
  at the rear is pinned, and bringing the page in.
\<close>

definition Enqueue_room :: "vme_cfg \<Rightarrow> ipp_aes \<Rightarrow> vme \<Rightarrow> (bool \<times> vme) vres" where
  "Enqueue_room c aes s =
    bindE (get_queue s) (\<lambda>qu.
    if AreAllFramesFull qu then
      bindE (deref s (rear qu)) (\<lambda>r.
      if stick r then Inr (False, s)
      else bindE (hash_set s (pageNumber r) None) (\<lambda>s.
           bindE (deQueue c aes s) (\<lambda>s. Inr (True, s))))
    else Inr (True, s))"

definition Enqueue_load :: "vme_cfg \<Rightarrow> ipp_aes \<Rightarrow> vme \<Rightarrow> nat \<Rightarrow> nat \<Rightarrow> vme vres" where
  "Enqueue_load c aes s pg w =
    bindE (hashes_get s pg) (\<lambda>h.
    if h \<noteq> 0 then
      bindE (mem_read (cold s) (frame_off c pg) (PAGE_SIZE c)) (\<lambda>cipher.
      bindE (mem_write (warm s) (frame_off c w) (DecryptCTR aes key ctr0 cipher)) (\<lambda>warm'.
      let s = s\<lparr>warm := warm'\<rparr> in
      bindE (mem_read (warm s) (frame_off c w) (PAGE_SIZE c)) (\<lambda>plain.
      if h \<noteq> page_hash plain then Inl (HashMismatch pg) else Inr s)))
    else
      bindE (mem_write (warm s) (frame_off c w) (replicate (PAGE_SIZE c) 0)) (\<lambda>warm'.
      Inr (s\<lparr>warm := warm'\<rparr>)))"

definition Enqueue :: "vme_cfg \<Rightarrow> ipp_aes \<Rightarrow> vme \<Rightarrow> nat \<Rightarrow> (ptr \<times> vme) vres" where
  "Enqueue c aes s pg =
    bindE (Enqueue_room c aes s) (\<lambda>(room, s).
    if \<not> room then Inr (None, s) else
    let (a, s) = newQNode s pg; temp = Some a in
    bindE (get_queue s) (\<lambda>qu.
    bindE (store s temp (\<lambda>n. n\<lparr>next_node := front qu\<rparr>)) (\<lambda>s.
    let (w, s) = get_free_warm c s in
    bindE (store s temp (\<lambda>n. n\<lparr>warm_slot := w\<rparr>)) (\<lambda>s.
    bindE (store s temp (\<lambda>n. n\<lparr>stick := True\<rparr>)) (\<lambda>s.
    bindE (Enqueue_load c aes s pg w) (\<lambda>s.
    bindE (if isQueueEmpty qu
           then Inr (upd_queue (\<lambda>x. x\<lparr>rear := temp, front := temp\<rparr>) s)
           else bindE (store s (front qu) (\<lambda>n. n\<lparr>prev_node := temp\<rparr>)) (\<lambda>s.
                Inr (upd_queue (\<lambda>x. x\<lparr>front := temp\<rparr>) s))) (\<lambda>s.
    bindE (hash_set s pg temp) (\<lambda>s.
    Inr (temp, upd_queue (\<lambda>x. x\<lparr>q_count := (q_count x + 1) mod 2 ^ 32\<rparr>) s)))))))))"

text \<open>
  \<^verbatim>\<open>ReferencePage\<close>: the unlinking and relinking of a cached page that is not at the
  front is its own definition; it is the body of the \<^verbatim>\<open>else if\<close>.
\<close>

definition move_to_front :: "vme \<Rightarrow> ptr \<Rightarrow> vme vres" where
  "move_to_front s req =
    bindE (deref s req) (\<lambda>n.
    bindE (store s (prev_node n) (\<lambda>m. m\<lparr>next_node := next_node n\<rparr>)) (\<lambda>s.
    bindE (deref s req) (\<lambda>n.
    bindE (if next_node n \<noteq> None
           then store s (next_node n) (\<lambda>m. m\<lparr>prev_node := prev_node n\<rparr>) else Inr s) (\<lambda>s.
    bindE (get_queue s) (\<lambda>qu.
    bindE (if req = rear qu
           then bindE (deref s req) (\<lambda>n.
                let s = upd_queue (\<lambda>x. x\<lparr>rear := prev_node n\<rparr>) s in
                store s (prev_node n) (\<lambda>m. m\<lparr>next_node := None\<rparr>))
           else Inr s) (\<lambda>s.
    bindE (store s req (\<lambda>m. m\<lparr>next_node := front qu\<rparr>)) (\<lambda>s.
    bindE (store s req (\<lambda>m. m\<lparr>prev_node := None\<rparr>)) (\<lambda>s.
    bindE (deref s req) (\<lambda>n.
    bindE (store s (next_node n) (\<lambda>m. m\<lparr>prev_node := req\<rparr>)) (\<lambda>s.
    Inr (upd_queue (\<lambda>x. x\<lparr>front := req\<rparr>) s)))))))))))"

definition ReferencePage ::
    "vme_cfg \<Rightarrow> ipp_aes \<Rightarrow> vme \<Rightarrow> nat \<Rightarrow> bool \<Rightarrow> (ptr \<times> vme) vres" where
  "ReferencePage c aes s pg page_up =
    bindE (hash_get s pg) (\<lambda>req.
    bindE (get_queue s) (\<lambda>qu.
    bindE (if req = None
           then (if page_up then Enqueue c aes s pg else Inr (None, s))
           else if req \<noteq> front qu then bindE (move_to_front s req) (\<lambda>s. Inr (req, s))
           else Inr (req, s)) (\<lambda>(req, s).
    if req = None then Inr (None, s)
    else bindE (store s req (\<lambda>n. n\<lparr>stick := True\<rparr>)) (\<lambda>s. Inr (req, s)))))"

definition move_to_rear :: "vme \<Rightarrow> ptr \<Rightarrow> vme vres" where
  "move_to_rear s req =
    bindE (deref s req) (\<lambda>n.
    bindE (if prev_node n \<noteq> None
           then store s (prev_node n) (\<lambda>m. m\<lparr>next_node := next_node n\<rparr>) else Inr s) (\<lambda>s.
    bindE (deref s req) (\<lambda>n.
    bindE (store s (next_node n) (\<lambda>m. m\<lparr>prev_node := prev_node n\<rparr>)) (\<lambda>s.
    bindE (get_queue s) (\<lambda>qu.
    bindE (if req = front qu
           then bindE (deref s req) (\<lambda>n.
                let s = upd_queue (\<lambda>x. x\<lparr>front := next_node n\<rparr>) s in
                store s (next_node n) (\<lambda>m. m\<lparr>prev_node := None\<rparr>))
           else Inr s) (\<lambda>s.
    bindE (store s req (\<lambda>m. m\<lparr>prev_node := rear qu\<rparr>)) (\<lambda>s.
    bindE (store s req (\<lambda>m. m\<lparr>next_node := None\<rparr>)) (\<lambda>s.
    bindE (deref s req) (\<lambda>n.
    bindE (store s (prev_node n) (\<lambda>m. m\<lparr>next_node := req\<rparr>)) (\<lambda>s.
    Inr (upd_queue (\<lambda>x. x\<lparr>rear := req\<rparr>) s)))))))))))"

definition DeReferencePage :: "vme \<Rightarrow> nat \<Rightarrow> vme vres" where
  "DeReferencePage s pg =
    bindE (hash_get s pg) (\<lambda>req.
    bindE (get_queue s) (\<lambda>qu.
    bindE (if req \<noteq> rear qu then move_to_rear s req else Inr s) (\<lambda>s.
    store s req (\<lambda>n. n\<lparr>stick := False\<rparr>))))"

section \<open>Operations of the engine\<close>

text \<open>
  \<^verbatim>\<open>page_up\<close> returns the address of the frame, as an offset into \<^theory_text>\<open>warm\<close>. When the
  cache has no room the function falls off its end without a return value.
\<close>

definition page_up :: "vme_cfg \<Rightarrow> ipp_aes \<Rightarrow> vme \<Rightarrow> nat \<Rightarrow> (int \<times> vme) vres" where
  "page_up c aes s page =
    bindE (ReferencePage c aes s page True) (\<lambda>(req, s).
    if req \<noteq> None
    then bindE (deref s req) (\<lambda>n. Inr (frame_off c (warm_slot n), s))
    else Inl MissingReturn)"

definition page_down :: "vme \<Rightarrow> nat \<Rightarrow> vme vres" where
  "page_down s page = DeReferencePage s page"

text \<open>
  \<^verbatim>\<open>while(queue->count != 0) deQueue(queue)\<close>: \<^theory_text>\<open>None\<close> when the loop does not end.
\<close>

partial_function (option) cache_purge :: "vme_cfg \<Rightarrow> ipp_aes \<Rightarrow> vme \<Rightarrow> vme vres option" where
  "cache_purge c aes s =
    (case get_queue s of
       Inl e \<Rightarrow> Some (Inl e)
     | Inr qu \<Rightarrow>
         if q_count qu = 0 then Some (Inr s)
         else (case deQueue c aes s of Inl e \<Rightarrow> Some (Inl e) | Inr s' \<Rightarrow> cache_purge c aes s'))"

text \<open>
  What \<^verbatim>\<open>cache_reset\<close> does after the old cache is gone. Its
  \<^verbatim>\<open>memset(cold, 0, COLD_MEM_SIZE)\<close> is a fault when the cold memory is shorter than that
  (a \<^verbatim>\<open>NULL\<close> pointer is no memory at all); what a longer one holds behind stays.
\<close>

definition cache_fresh :: "vme_cfg \<Rightarrow> vme \<Rightarrow> vme" where
  "cache_fresh c s =
     s\<lparr>vq := Some (createQueue (WARM_PAGES c)), vhash := Some (createHash (COLD_PAGES c)),
       cold := buf_write 0 (replicate (COLD_MEM_SIZE c) 0) (cold s), warm := replicate (WARM_MEM_SIZE c) 0,
       zero_page := replicate (PAGE_SIZE c) 0, hashes := replicate (COLD_PAGES c) 0,
       free_warm := 0\<rparr>"

definition cache_clear :: "vme_cfg \<Rightarrow> vme \<Rightarrow> vme vres" where
  "cache_clear c s =
     (if length (cold s) < COLD_MEM_SIZE c then Inl OutOfBounds else Inr (cache_fresh c s))"

definition cache_reset :: "vme_cfg \<Rightarrow> ipp_aes \<Rightarrow> vme \<Rightarrow> vme vres option" where
  "cache_reset c aes s =
     (case vq s of
        None \<Rightarrow> Some (cache_clear c s)
      | Some _ \<Rightarrow> map_option (\<lambda>r. bindE r (cache_clear c)) (cache_purge c aes s))"

text \<open>
  The static data before the first call, and \<^verbatim>\<open>vmem_init\<close>, which points
  \<^theory_text>\<open>cold\<close> at memory of the untrusted application (\<^theory_text>\<open>gcold\<close>) and resets the cache.
\<close>

definition vme_static :: "vme_cfg \<Rightarrow> vme" where
  "vme_static c = \<lparr>nodes = Map.empty, brk = 0, vq = None, vhash = None,
     warm = replicate (WARM_MEM_SIZE c) 0, cold = [], hashes = replicate (COLD_PAGES c) 0,
     zero_page = replicate (PAGE_SIZE c) 0, free_warm = 0, free_cold = 0\<rparr>"

definition vmem_init :: "vme_cfg \<Rightarrow> ipp_aes \<Rightarrow> vme \<Rightarrow> bytes \<Rightarrow> vme vres option" where
  "vmem_init c aes s gcold = cache_reset c aes (s\<lparr>cold := gcold\<rparr>)"

definition copy_to :: "vme_cfg \<Rightarrow> ipp_aes \<Rightarrow> vme \<Rightarrow> int \<Rightarrow> bytes \<Rightarrow> vme vres" where
  "copy_to c aes s dst_offset src =
    (if dst_offset = 0
     then bindE (mem_write (zero_page s) dst_offset src) (\<lambda>z. Inr (s\<lparr>zero_page := z\<rparr>))
     else
      bindE (ReferencePage c aes s (page_of c dst_offset) True) (\<lambda>(req, s).
      if req = None
      then bindE (mem_write (cold s) dst_offset (ext_encrypt aes src)) (\<lambda>cold'.
           hashes_set (s\<lparr>cold := cold'\<rparr>) (page_of c dst_offset) (page_hash src))
      else bindE (deref s req) (\<lambda>n.
           bindE (mem_write (warm s) (frame_off c (warm_slot n)) src) (\<lambda>warm'.
           Inr (s\<lparr>warm := warm'\<rparr>)))))"

text \<open>\<^verbatim>\<open>copy_from\<close> returns its status (0, or 1 for a checksum that does not match) and the data.\<close>

definition copy_from :: "vme_cfg \<Rightarrow> ipp_aes \<Rightarrow> vme \<Rightarrow> int \<Rightarrow> nat \<Rightarrow> (nat \<times> bytes \<times> vme) vres" where
  "copy_from c aes s src_offset len =
    (if src_offset sdiv int (PAGE_SIZE c) = 0
        \<and> src_offset sdiv int (PAGE_SIZE c) + int len \<le> int (PAGE_SIZE c)
     then bindE (mem_read (zero_page s) src_offset len) (\<lambda>dst. Inr (0, dst, s))
     else if src_offset AND int (PAGE_SIZE c - 1) \<noteq> 0 then Inl (UnalignedAccess src_offset)
     else
      bindE (ReferencePage c aes s (page_of c src_offset) True) (\<lambda>(req, s).
      if req = None
      then bindE (mem_read (cold s) src_offset len) (\<lambda>cipher.
           let dst = ext_decrypt aes cipher in
           bindE (hashes_get s (page_of c src_offset)) (\<lambda>h.
           if h \<noteq> page_hash dst then Inr (1, dst, s) else Inr (0, dst, s)))
      else bindE (deref s req) (\<lambda>n.
           bindE (mem_read (warm s) (frame_off c (warm_slot n)) len) (\<lambda>dst. Inr (0, dst, s)))))"

definition vmem_max :: "vme_cfg \<Rightarrow> nat" where
  "vmem_max c = COLD_MEM_SIZE c"

definition vmem_sector_size :: "vme_cfg \<Rightarrow> nat" where
  "vmem_sector_size c = PAGE_SIZE c"

end
