(* ===== verification/Links.thy ===== *)
theory Links
  imports Prelude
begin

text \<open>
  Doubly linked lists in a heap, for the C components that thread one through their structures: the
  page queue of \<^verbatim>\<open>Enclave/vmem.c\<close> and the elements of
  \<^verbatim>\<open>sqlite/hash.c\<close>. \<^theory_text>\<open>linked\<close> says that the heap links a list of addresses
  both ways; it takes the two fields of the structure that hold the links.
\<close>

section \<open>The ends of a list\<close>

definition first_of :: "addr list \<Rightarrow> ptr \<Rightarrow> ptr" where
  "first_of as n = (case as of [] \<Rightarrow> n | a # _ \<Rightarrow> Some a)"

definition last_of :: "ptr \<Rightarrow> addr list \<Rightarrow> ptr" where
  "last_of p as = (if as = [] then p else Some (last as))"

lemma first_of_simps [simp]: "first_of [] n = n" "first_of (a # as) n = Some a"
  "first_of (xs @ ys) n = first_of xs (first_of ys n)"
  by (auto simp: first_of_def split: list.split)

lemma last_of_simps [simp]: "last_of p [] = p" "last_of p (a # as) = last_of (Some a) as"
  "last_of p (xs @ ys) = last_of (last_of p xs) ys"
  by (auto simp: last_of_def)

lemma last_of_eq_None [simp]: "last_of (Some x) ys \<noteq> None" "last_of None ys = None \<longleftrightarrow> ys = []"
  by (auto simp: last_of_def)

lemma first_of_eq_None [simp]: "first_of ys (Some x) \<noteq> None" "first_of ys None = None \<longleftrightarrow> ys = []"
  by (auto simp: first_of_def split: list.split)

lemma last_of_neq: "a \<notin> set ys \<Longrightarrow> p \<noteq> Some a \<Longrightarrow> last_of p ys \<noteq> Some a"
  using last_in_set [of ys] by (auto simp: last_of_def)

lemma first_of_neq: "a \<notin> set ys \<Longrightarrow> n \<noteq> Some a \<Longrightarrow> first_of ys n \<noteq> Some a"
  by (cases ys) auto

lemma last_of_Some: "last_of None ys = Some a \<longleftrightarrow> ys \<noteq> [] \<and> last ys = a"
  by (auto simp: last_of_def)

lemma first_of_Some: "first_of ys None = Some a \<longleftrightarrow> ys \<noteq> [] \<and> hd ys = a"
  by (auto simp: first_of_def split: list.split)

section \<open>Linked lists\<close>

primrec linked :: "('n \<Rightarrow> ptr) \<Rightarrow> ('n \<Rightarrow> ptr) \<Rightarrow> (addr \<Rightarrow> 'n option) \<Rightarrow> ptr \<Rightarrow> addr list \<Rightarrow> ptr \<Rightarrow> bool" where
  "linked pv nx h p [] n \<longleftrightarrow> True"
| "linked pv nx h p (a # as) n \<longleftrightarrow>
     (\<exists>nd. h a = Some nd \<and> pv nd = p \<and> nx nd = first_of as n) \<and> linked pv nx h (Some a) as n"

lemma links_append [simp]:
  "linked pv nx h p (xs @ ys) n \<longleftrightarrow> linked pv nx h p xs (first_of ys n) \<and> linked pv nx h (last_of p xs) ys n"
  by (induction xs arbitrary: p) auto

lemma links_frame: "a \<notin> set as \<Longrightarrow> linked pv nx (h(a := x)) p as n = linked pv nx h p as n"
  by (induction as arbitrary: p) auto

lemma links_dom: "linked pv nx h p as n \<Longrightarrow> a \<in> set as \<Longrightarrow> \<exists>nd. h a = Some nd"
  by (induction as arbitrary: p) auto

end
