(* ===== verification/VmeQueue.thy ===== *)
theory VmeQueue
  imports Vme Links
begin

text \<open>
  The pointer level of the page queue: \<^theory_text>\<open>dll\<close> says that the nodes in the heap link a
  list of addresses both ways, and the lemmas say what each piece of pointer surgery of
  \<^verbatim>\<open>Enclave/vmem.c\<close> makes of that list, that it meets no \<^verbatim>\<open>NULL\<close> or
  freed pointer on the way, and that it leaves what the nodes carry alone.
\<close>

section \<open>Doubly linked lists in the heap\<close>

type_synonym heap = "addr \<Rightarrow> qnode option"

abbreviation dll :: "heap \<Rightarrow> ptr \<Rightarrow> addr list \<Rightarrow> ptr \<Rightarrow> bool" where
  "dll \<equiv> linked prev_node next_node"

lemmas dll_frame = links_frame [where pv = prev_node and nx = next_node]
lemmas dll_dom = links_dom [where pv = prev_node and nx = next_node]

text \<open>What a node carries besides its links.\<close>

definition payload :: "qnode \<Rightarrow> nat \<times> nat \<times> bool" where
  "payload n = (pageNumber n, warm_slot n, stick n)"

definition same_payloads :: "heap \<Rightarrow> heap \<Rightarrow> bool" where
  "same_payloads h h' \<longleftrightarrow> (\<forall>a. map_option payload (h' a) = map_option payload (h a))"

lemma payload_links [simp]:
  "payload (n\<lparr>prev_node := p\<rparr>) = payload n" "payload (n\<lparr>next_node := p\<rparr>) = payload n"
  by (simp_all add: payload_def)

lemma same_payloads_refl [simp]: "same_payloads h h"
  by (simp add: same_payloads_def)

lemma same_payloads_upd: "same_payloads h h' \<Longrightarrow> map_option payload (h a) = Some (payload n) \<Longrightarrow>
    same_payloads h (h'(a := Some n))"
  by (auto simp: same_payloads_def)

lemma deref_Some: "nodes s a = Some n \<Longrightarrow> deref s (Some a) = Inr n"
  by (simp add: deref_def)

lemma store_Some: "nodes s a = Some n \<Longrightarrow>
    store s (Some a) f = Inr (s\<lparr>nodes := (nodes s)(a := Some (f n))\<rparr>)"
  by (simp add: store_def)

lemma get_queue_Some: "vq s = Some qu \<Longrightarrow> get_queue s = Inr qu"
  by (simp add: get_queue_def)

lemmas access_simps = deref_Some store_Some get_queue_Some upd_queue_def

section \<open>Moving a node\<close>

lemma move_to_front_links:
  assumes q: "vq s = Some qu" "front qu = first_of as None" "rear qu = last_of None as"
    and as: "as = xs @ a # ys" "xs \<noteq> []" "distinct as" and l: "dll (nodes s) None as None"
  shows "\<exists>s'. move_to_front s (Some a) = Inr s'
    \<and> s' = s\<lparr>nodes := nodes s', vq := Some (qu\<lparr>front := Some a, rear := last_of None (a # xs @ ys)\<rparr>)\<rparr>
    \<and> dll (nodes s') None (a # xs @ ys) None \<and> same_payloads (nodes s) (nodes s')"
proof -
  obtain ps p where xs: "xs = ps @ [p]" using as(2) by (cases xs rule: rev_cases) auto
  obtain na np where na: "nodes s a = Some na" "prev_node na = Some p" "next_node na = first_of ys None"
    and np: "nodes s p = Some np" "prev_node np = last_of None ps" "next_node np = Some a"
    using l by (auto simp: as xs)
  show ?thesis
  proof (cases ys)
    case Nil
    show ?thesis
      using l as q na np
      by (cases ps) (auto simp: move_to_front_def access_simps xs Nil dll_frame intro!: same_payloads_upd)
  next
    case (Cons y ys')
    then obtain ny where ny: "nodes s y = Some ny" "prev_node ny = Some a" "next_node ny = first_of ys' None"
      using l by (auto simp: as)
    moreover have "Some a \<noteq> last_of (Some y) ys'"
      using last_of_neq [of a ys' "Some y"] as(1,3) Cons by auto
    ultimately show ?thesis
      using l as q na np
      by (cases ps) (auto simp: move_to_front_def access_simps xs Cons dll_frame intro!: same_payloads_upd)
  qed
qed

lemma move_to_rear_links:
  assumes q: "vq s = Some qu" "front qu = first_of as None" "rear qu = last_of None as"
    and as: "as = xs @ a # ys" "ys \<noteq> []" "distinct as" and l: "dll (nodes s) None as None"
  shows "\<exists>s'. move_to_rear s (Some a) = Inr s'
    \<and> s' = s\<lparr>nodes := nodes s', vq := Some (qu\<lparr>front := first_of (xs @ ys @ [a]) None, rear := Some a\<rparr>)\<rparr>
    \<and> dll (nodes s') None (xs @ ys @ [a]) None \<and> same_payloads (nodes s) (nodes s')"
proof -
  obtain y zs where ys: "ys = y # zs" using as(2) by (cases ys) auto
  obtain na ny where na: "nodes s a = Some na" "prev_node na = last_of None xs" "next_node na = Some y"
    and ny: "nodes s y = Some ny" "prev_node ny = Some a" "next_node ny = first_of zs None"
    using l by (auto simp: as ys)
  show ?thesis
  proof (cases xs rule: rev_cases)
    case Nil
    show ?thesis
      using l as q na ny
      by (cases zs rule: rev_cases) (auto simp: move_to_rear_def access_simps ys Nil dll_frame intro!: same_payloads_upd)
  next
    case (snoc ps p)
    then obtain np where np: "nodes s p = Some np" "prev_node np = last_of None ps" "next_node np = Some a"
      using l by (auto simp: as)
    moreover have "Some a \<noteq> first_of ps (Some p)"
      using first_of_neq [of a ps "Some p"] as(1,3) snoc by auto
    ultimately show ?thesis
      using l as q na ny
      by (cases zs rule: rev_cases) (auto simp: move_to_rear_def access_simps ys snoc dll_frame intro!: same_payloads_upd)
  qed
qed

end
