(* ===== verification/VmeInv.thy ===== *)
theory VmeInv
  imports VmeQueue
begin

text \<open>
  The invariant of the virtual memory engine, and what each operation of
  \<^verbatim>\<open>Enclave/vmem.c\<close> does to a state that satisfies it: which nodes are in the queue,
  in which order, and what page every page number stands for.
\<close>

section \<open>Assumptions on the parameters\<close>

text \<open>
  The sizes: a page is a power of two, at least one frame fits in the warm memory, and
  offsets fit in an \<^verbatim>\<open>int\<close>. The cipher: encryption keeps the length and decryption
  with the same key and counter undoes it.
\<close>

definition cfg_ok :: "vme_cfg \<Rightarrow> bool" where
  "cfg_ok c \<longleftrightarrow> (\<exists>k. PAGE_SIZE c = 2 ^ k) \<and> 0 < WARM_PAGES c
     \<and> COLD_MEM_SIZE c < 2 ^ 31 \<and> WARM_MEM_SIZE c < 2 ^ 31"

definition aes_ok :: "ipp_aes \<Rightarrow> bool" where
  "aes_ok aes \<longleftrightarrow> (\<forall>k ctr xs. length (EncryptCTR aes k ctr xs) = length xs
     \<and> length (DecryptCTR aes k ctr xs) = length xs
     \<and> DecryptCTR aes k ctr (EncryptCTR aes k ctr xs) = xs)"

lemma cfg_ok_pos: "cfg_ok c \<Longrightarrow> 0 < PAGE_SIZE c"
  by (auto simp: cfg_ok_def)

lemma WARM_PAGES_bound: "cfg_ok c \<Longrightarrow> WARM_PAGES c < 2 ^ 31"
  unfolding cfg_ok_def WARM_PAGES_def by (meson div_le_dividend le_less_trans)

lemma frame_fits: "p < m div ps \<Longrightarrow> ps * p + ps \<le> (m :: nat)"
  using page_frame_in_range [of p "m div ps" ps]
  by (metis div_times_less_eq_dividend le_trans mult.commute)

lemma cold_frame_fits: "p < COLD_PAGES c \<Longrightarrow> PAGE_SIZE c * p + PAGE_SIZE c \<le> COLD_MEM_SIZE c"
  by (simp add: COLD_PAGES_def frame_fits)

lemma warm_frame_fits: "w < WARM_PAGES c \<Longrightarrow> PAGE_SIZE c * w + PAGE_SIZE c \<le> WARM_MEM_SIZE c"
  by (simp add: WARM_PAGES_def frame_fits)

lemma frame_off_cold: "cfg_ok c \<Longrightarrow> p < COLD_PAGES c \<Longrightarrow> frame_off c p = int (PAGE_SIZE c * p)"
  using cold_frame_fits [of p c] by (simp add: frame_off_def cfg_ok_def)

lemma frame_off_warm: "cfg_ok c \<Longrightarrow> w < WARM_PAGES c \<Longrightarrow> frame_off c w = int (PAGE_SIZE c * w)"
  using warm_frame_fits [of w c] by (simp add: frame_off_def cfg_ok_def)

section \<open>Frames\<close>

definition frame :: "vme_cfg \<Rightarrow> nat \<Rightarrow> bytes \<Rightarrow> bytes" where
  "frame c i buf = buf_read (PAGE_SIZE c * i) (PAGE_SIZE c) buf"

definition set_frame :: "vme_cfg \<Rightarrow> nat \<Rightarrow> bytes \<Rightarrow> bytes \<Rightarrow> bytes" where
  "set_frame c i data buf = buf_write (PAGE_SIZE c * i) data buf"

definition sizes_ok :: "vme_cfg \<Rightarrow> vme \<Rightarrow> bool" where
  "sizes_ok c s \<longleftrightarrow> length (warm s) = WARM_MEM_SIZE c \<and> COLD_MEM_SIZE c \<le> length (cold s)
     \<and> length (hashes s) = COLD_PAGES c \<and> length (zero_page s) = PAGE_SIZE c"

lemma length_frame [simp]:
  "PAGE_SIZE c * i + PAGE_SIZE c \<le> length buf \<Longrightarrow> length (frame c i buf) = PAGE_SIZE c"
  by (simp add: frame_def)

lemma length_set_frame [simp]:
  "PAGE_SIZE c * i + PAGE_SIZE c \<le> length buf \<Longrightarrow> length data \<le> PAGE_SIZE c \<Longrightarrow>
    length (set_frame c i data buf) = length buf"
  by (simp add: set_frame_def)

lemma frame_set_frame_same:
  "PAGE_SIZE c * i + PAGE_SIZE c \<le> length buf \<Longrightarrow> length data \<le> PAGE_SIZE c \<Longrightarrow>
    frame c i (set_frame c i data buf) = buf_write 0 data (frame c i buf)"
  using buf_read_write_inside [of "PAGE_SIZE c * i" "PAGE_SIZE c" buf 0 data]
  by (simp add: frame_def set_frame_def)

lemma frame_set_frame_other:
  assumes "i \<noteq> j" "PAGE_SIZE c * i + PAGE_SIZE c \<le> length buf" "PAGE_SIZE c * j + PAGE_SIZE c \<le> length buf"
    and "length data \<le> PAGE_SIZE c"
  shows "frame c j (set_frame c i data buf) = frame c j buf"
  using page_frames_disjoint [OF assms(1), of "PAGE_SIZE c"] assms(2-)
  unfolding frame_def set_frame_def
  by (intro buf_read_write_disjoint) (auto simp: mult.commute)

text \<open>Reading and writing whole frames, as the engine does.\<close>

lemma read_cold_frame: "cfg_ok c \<Longrightarrow> p < COLD_PAGES c \<Longrightarrow> COLD_MEM_SIZE c \<le> length buf \<Longrightarrow>
    mem_read buf (frame_off c p) (PAGE_SIZE c) = Inr (frame c p buf)"
  using cold_frame_fits [of p c] by (simp add: mem_read_def frame_off_cold frame_def del: of_nat_mult)

lemma write_cold_frame: "cfg_ok c \<Longrightarrow> p < COLD_PAGES c \<Longrightarrow> COLD_MEM_SIZE c \<le> length buf \<Longrightarrow>
    length data \<le> PAGE_SIZE c \<Longrightarrow> mem_write buf (frame_off c p) data = Inr (set_frame c p data buf)"
  using cold_frame_fits [of p c] by (simp add: mem_write_def frame_off_cold set_frame_def del: of_nat_mult)

lemma read_warm_frame: "cfg_ok c \<Longrightarrow> w < WARM_PAGES c \<Longrightarrow> length buf = WARM_MEM_SIZE c \<Longrightarrow>
    mem_read buf (frame_off c w) (PAGE_SIZE c) = Inr (frame c w buf)"
  using warm_frame_fits [of w c] by (simp add: mem_read_def frame_off_warm frame_def del: of_nat_mult)

lemma write_warm_frame: "cfg_ok c \<Longrightarrow> w < WARM_PAGES c \<Longrightarrow> length buf = WARM_MEM_SIZE c \<Longrightarrow>
    length data \<le> PAGE_SIZE c \<Longrightarrow> mem_write buf (frame_off c w) data = Inr (set_frame c w data buf)"
  using warm_frame_fits [of w c] by (simp add: mem_write_def frame_off_warm set_frame_def del: of_nat_mult)

lemmas frame_access = read_cold_frame write_cold_frame read_warm_frame write_warm_frame

section \<open>The invariant\<close>

abbreviation node_of :: "vme \<Rightarrow> addr \<Rightarrow> qnode" where
  "node_of s a \<equiv> the (nodes s a)"

text \<open>What the queue holds, front first: page, frame, pinned.\<close>

definition entries :: "vme \<Rightarrow> addr list \<Rightarrow> (nat \<times> nat \<times> bool) list" where
  "entries s as = map (\<lambda>a. payload (node_of s a)) as"

text \<open>
  No pinned node behind an unpinned one: pages become pinned at the front and unpinned at
  the rear.
\<close>

definition pins_first :: "vme \<Rightarrow> addr list \<Rightarrow> bool" where
  "pins_first s as \<longleftrightarrow> sorted_wrt (\<lambda>a b. stick (node_of s b) \<longrightarrow> stick (node_of s a)) as"

definition links_ok :: "vme_cfg \<Rightarrow> vme \<Rightarrow> addr list \<Rightarrow> bool" where
  "links_ok c s as \<longleftrightarrow> dll (nodes s) None as None \<and> distinct as \<and> (\<forall>a\<in>set as. a < brk s)
     \<and> vq s = Some \<lparr>q_count = length as, numberOfFrames = WARM_PAGES c,
                    front = first_of as None, rear = last_of None as\<rparr>
     \<and> length as \<le> WARM_PAGES c"

definition hash_ok :: "vme_cfg \<Rightarrow> vme \<Rightarrow> addr list \<Rightarrow> bool" where
  "hash_ok c s as \<longleftrightarrow> (\<exists>arr. vhash s = Some arr \<and> length arr = COLD_PAGES c
     \<and> (\<forall>p<COLD_PAGES c. \<forall>a. arr ! p = Some a \<longleftrightarrow> a \<in> set as \<and> pageNumber (node_of s a) = p))
     \<and> (\<forall>a\<in>set as. pageNumber (node_of s a) < COLD_PAGES c)"

definition slots_ok :: "vme_cfg \<Rightarrow> vme \<Rightarrow> addr list \<Rightarrow> bool" where
  "slots_ok c s as \<longleftrightarrow> distinct (map (\<lambda>a. warm_slot (node_of s a)) as)
     \<and> (\<forall>a\<in>set as. warm_slot (node_of s a) < WARM_PAGES c)
     \<and> (length as < WARM_PAGES c \<longrightarrow>
          free_warm s = length as \<and> (\<forall>a\<in>set as. warm_slot (node_of s a) < length as))"

definition lru_ok :: "vme_cfg \<Rightarrow> vme \<Rightarrow> addr list \<Rightarrow> bool" where
  "lru_ok c s as \<longleftrightarrow> links_ok c s as \<and> hash_ok c s as \<and> slots_ok c s as \<and> pins_first s as \<and> sizes_ok c s"

text \<open>Every page in the cold store decrypts to data with the checksum on record.\<close>

definition cold_ok :: "vme_cfg \<Rightarrow> ipp_aes \<Rightarrow> vme \<Rightarrow> addr list \<Rightarrow> bool" where
  "cold_ok c aes s as \<longleftrightarrow> (\<forall>p<COLD_PAGES c. p \<notin> (\<lambda>a. pageNumber (node_of s a)) ` set as \<longrightarrow>
     hashes s ! p \<noteq> 0 \<longrightarrow> page_hash (ext_decrypt aes (frame c p (cold s))) = hashes s ! p)"

text \<open>The contents of page \<^theory_text>\<open>p\<close>: its frame if it is cached, else what the cold store holds.\<close>

definition page_view :: "vme_cfg \<Rightarrow> ipp_aes \<Rightarrow> vme \<Rightarrow> nat \<Rightarrow> bytes" where
  "page_view c aes s p =
     (case hash_get s p of
        Inr (Some a) \<Rightarrow> frame c (warm_slot (node_of s a)) (warm s)
      | _ \<Rightarrow> if hashes s ! p = 0 then replicate (PAGE_SIZE c) 0
             else ext_decrypt aes (frame c p (cold s)))"

lemmas inv_defs = lru_ok_def links_ok_def hash_ok_def slots_ok_def pins_first_def sizes_ok_def

lemma hash_get_cached:
  "hash_ok c s as \<Longrightarrow> a \<in> set as \<Longrightarrow> hash_get s (pageNumber (node_of s a)) = Inr (Some a)"
  by (auto simp: hash_ok_def hash_get_def)

lemma hash_get_uncached:
  assumes "hash_ok c s as" "p < COLD_PAGES c" "p \<notin> (\<lambda>a. pageNumber (node_of s a)) ` set as"
  shows "hash_get s p = Inr None"
proof -
  obtain arr where arr: "vhash s = Some arr" "length arr = COLD_PAGES c"
    "\<forall>a. arr ! p = Some a \<longleftrightarrow> a \<in> set as \<and> pageNumber (node_of s a) = p"
    using assms by (auto simp: hash_ok_def)
  then have "arr ! p = None" using assms(3) by (cases "arr ! p") auto
  with arr assms(2) show ?thesis by (simp add: hash_get_def)
qed

lemma page_view_cached: "hash_ok c s as \<Longrightarrow> a \<in> set as \<Longrightarrow>
    page_view c aes s (pageNumber (node_of s a)) = frame c (warm_slot (node_of s a)) (warm s)"
  by (simp add: page_view_def hash_get_cached)

lemma page_view_uncached:
  "hash_ok c s as \<Longrightarrow> p < COLD_PAGES c \<Longrightarrow> p \<notin> (\<lambda>a. pageNumber (node_of s a)) ` set as \<Longrightarrow>
    page_view c aes s p = (if hashes s ! p = 0 then replicate (PAGE_SIZE c) 0
                           else ext_decrypt aes (frame c p (cold s)))"
  by (simp add: page_view_def hash_get_uncached)

section \<open>Evicting the node at the rear\<close>

text \<open>
  \<^verbatim>\<open>deQueue\<close> on a queue whose last node is \<^theory_text>\<open>a\<close>: the other nodes stay
  linked in order and keep what they carry, \<^theory_text>\<open>a\<close> is freed, its page is in the cold store
  with its checksum and its frame is the next one \<^verbatim>\<open>get_free_warm\<close> hands out.
\<close>

lemma deQueue_links:
  assumes "cfg_ok c" "aes_ok aes" "sizes_ok c s"
    and q: "vq s = Some qu" "front qu = first_of (xs @ [a]) None" "rear qu = last_of None (xs @ [a])"
      "0 < q_count qu" "q_count qu < 2 ^ 32"
    and l: "dll (nodes s) None (xs @ [a]) None" "distinct (xs @ [a])"
    and n: "nodes s a = Some n" "pageNumber n < COLD_PAGES c" "warm_slot n < WARM_PAGES c"
  shows "\<exists>s'. deQueue c aes s = Inr s' \<and> s' = s\<lparr>nodes := nodes s',
        vq := Some (qu\<lparr>front := first_of xs None, rear := last_of None xs, q_count := q_count qu - 1\<rparr>),
        cold := set_frame c (pageNumber n) (ext_encrypt aes (frame c (warm_slot n) (warm s))) (cold s),
        hashes := (hashes s)[pageNumber n := page_hash (frame c (warm_slot n) (warm s))],
        free_warm := warm_slot n\<rparr>
    \<and> dll (nodes s') None xs None \<and> nodes s' a = None
    \<and> (\<forall>b. b \<noteq> a \<longrightarrow> map_option payload (nodes s' b) = map_option payload (nodes s b))"
proof -
  have len: "length (EncryptCTR aes key ctr0 (frame c (warm_slot n) (warm s))) \<le> PAGE_SIZE c"
    using assms(2,3) warm_frame_fits [OF n(3)] by (simp add: aes_ok_def sizes_ok_def)
  have cnt: "(q_count qu + (2 ^ 32 - 1)) mod 2 ^ 32 = q_count qu - 1"
    using q(4,5) by (simp add: mod_if)
  note acc = assms(1,3) len read_warm_frame [OF assms(1) n(3)] write_cold_frame [OF assms(1) n(2)]
  show ?thesis
  proof (cases xs rule: rev_cases)
    case Nil
    show ?thesis
      using acc q l n cnt
      by (auto simp: Nil deQueue_def isQueueEmpty_def access_simps sizes_ok_def hashes_set_def
          set_free_warm_def ext_encrypt_def)
  next
    case (snoc ps p)
    then obtain np where np: "nodes s p = Some np" "prev_node np = last_of None ps" "next_node np = Some a"
      using l by auto
    moreover have "Some a \<noteq> first_of ps (Some p)"
      using first_of_neq [of a ps "Some p"] l snoc by auto
    ultimately show ?thesis
      using acc q l n cnt
      by (auto simp: snoc deQueue_def isQueueEmpty_def access_simps sizes_ok_def hashes_set_def
          set_free_warm_def ext_encrypt_def dll_frame)
  qed
qed

section \<open>Bringing a page in\<close>

lemma payload_eqD:
  assumes "map_option payload x = map_option payload y"
  shows "pageNumber (the x) = pageNumber (the y)" "warm_slot (the x) = warm_slot (the y)"
    "stick (the x) = stick (the y)"
  using assms by (cases x; cases y; auto simp: payload_def)+

text \<open>A state with a free frame at hand: the queue is not full, and \<^theory_text>\<open>free_warm\<close> is not in use.\<close>

definition room_ok :: "vme_cfg \<Rightarrow> vme \<Rightarrow> addr list \<Rightarrow> bool" where
  "room_ok c s as \<longleftrightarrow> links_ok c s as \<and> hash_ok c s as \<and> pins_first s as \<and> sizes_ok c s
     \<and> distinct (map (\<lambda>a. warm_slot (node_of s a)) as)
     \<and> (\<forall>a\<in>set as. warm_slot (node_of s a) < WARM_PAGES c \<and> warm_slot (node_of s a) \<noteq> free_warm s)
     \<and> length as < WARM_PAGES c \<and> free_warm s < WARM_PAGES c
     \<and> (length as + 1 < WARM_PAGES c \<longrightarrow>
          free_warm s = length as \<and> (\<forall>a\<in>set as. warm_slot (node_of s a) < length as))"

lemma Enqueue_room_free:
  assumes "lru_ok c s as" "length as < WARM_PAGES c"
  shows "Enqueue_room c aes s = Inr (True, s) \<and> room_ok c s as"
  using assms by (auto simp: Enqueue_room_def inv_defs access_simps AreAllFramesFull_def room_ok_def)

lemma Enqueue_room_pinned:
  assumes "lru_ok c s (xs @ [a])" "Suc (length xs) = WARM_PAGES c" "stick (node_of s a)"
  shows "Enqueue_room c aes s = Inr (False, s)"
proof -
  obtain n where "nodes s a = Some n"
    using assms(1) dll_dom [of "nodes s" None "xs @ [a]" None a] by (auto simp: inv_defs)
  with assms show ?thesis
    by (auto simp: Enqueue_room_def inv_defs access_simps AreAllFramesFull_def)
qed

lemma Enqueue_room_evict:
  assumes "cfg_ok c" "aes_ok aes" "lru_ok c s (xs @ [a])" "Suc (length xs) = WARM_PAGES c"
    and "\<not> stick (node_of s a)"
  defines "p \<equiv> pageNumber (node_of s a)" and "data \<equiv> frame c (warm_slot (node_of s a)) (warm s)"
  shows "\<exists>s'. Enqueue_room c aes s = Inr (True, s') \<and> room_ok c s' xs
    \<and> warm s' = warm s \<and> zero_page s' = zero_page s \<and> brk s' = brk s
    \<and> free_warm s' = warm_slot (node_of s a)
    \<and> cold s' = set_frame c p (ext_encrypt aes data) (cold s) \<and> hashes s' = (hashes s)[p := page_hash data]
    \<and> (\<forall>b. b \<noteq> a \<longrightarrow> map_option payload (nodes s' b) = map_option payload (nodes s b))"
proof -
  obtain arr where arr: "vhash s = Some arr" "length arr = COLD_PAGES c"
    "\<forall>p<COLD_PAGES c. \<forall>b. arr ! p = Some b \<longleftrightarrow> b \<in> set (xs @ [a]) \<and> pageNumber (node_of s b) = p"
    using assms(3) by (auto simp: lru_ok_def hash_ok_def)
  obtain n where n: "nodes s a = Some n"
    using assms(3) dll_dom [of "nodes s" None "xs @ [a]" None a] by (auto simp: inv_defs)
  have pw: "p < COLD_PAGES c" "warm_slot n < WARM_PAGES c"
    using assms(3) n by (auto simp: inv_defs p_def)
  let ?qu = "\<lparr>q_count = Suc (length xs), numberOfFrames = WARM_PAGES c,
    front = first_of (xs @ [a]) None, rear = last_of None (xs @ [a])\<rparr>"
  let ?s = "s\<lparr>vhash := Some (arr[p := None])\<rparr>"
  have qu: "vq s = Some ?qu" using assms(3) by (simp add: inv_defs)
  have "Suc (length xs) < 2 ^ 32" using WARM_PAGES_bound [OF assms(1)] assms(4) by simp
  with deQueue_links [of c aes ?s ?qu xs a n] assms(1-3) n pw
  obtain s' where s': "deQueue c aes ?s = Inr s'" "dll (nodes s') None xs None"
    "\<forall>b. b \<noteq> a \<longrightarrow> map_option payload (nodes s' b) = map_option payload (nodes s b)"
    "s' = ?s\<lparr>nodes := nodes s', vq := Some (?qu\<lparr>front := first_of xs None, rear := last_of None xs,
        q_count := length xs\<rparr>), cold := set_frame c p (ext_encrypt aes data) (cold s),
        hashes := (hashes s)[p := page_hash data], free_warm := warm_slot n\<rparr>"
    by (auto simp: inv_defs p_def data_def)
  have a: "a \<notin> set xs" "distinct xs" using assms(3) by (auto simp: inv_defs)
  have same: "\<forall>b\<in>set xs. pageNumber (node_of s' b) = pageNumber (node_of s b)
      \<and> warm_slot (node_of s' b) = warm_slot (node_of s b) \<and> stick (node_of s' b) = stick (node_of s b)"
    using s'(3) a by (metis payload_eqD)
  have other: "\<forall>b\<in>set xs. pageNumber (node_of s b) \<noteq> p"
    using arr(3) pw(1) a(1) by (metis in_set_conv_decomp option.inject p_def list.set_intros(1) set_append UnI1 UnI2)
  have room: "Enqueue_room c aes s = Inr (True, s')"
    using assms(4,5) qu n arr(1,2) pw s'(1)
    by (simp add: Enqueue_room_def access_simps AreAllFramesFull_def hash_set_def p_def)
  have eqs: "warm s' = warm s" "zero_page s' = zero_page s" "brk s' = brk s" "free_warm s' = warm_slot n"
      "cold s' = set_frame c p (ext_encrypt aes data) (cold s)" "hashes s' = (hashes s)[p := page_hash data]"
      "vhash s' = Some (arr[p := None])" "vq s' = Some \<lparr>q_count = length xs,
        numberOfFrames = WARM_PAGES c, front = first_of xs None, rear = last_of None xs\<rparr>"
    by (subst s'(4), simp)+
  have "links_ok c s' xs"
    using assms(3,4) s'(2) eqs by (auto simp: inv_defs)
  moreover have "hash_ok c s' xs"
    unfolding hash_ok_def
  proof (intro conjI exI)
    show "\<forall>p'<COLD_PAGES c. \<forall>b. (arr[p := None]) ! p' = Some b \<longleftrightarrow> b \<in> set xs \<and> pageNumber (node_of s' b) = p'"
    proof (intro allI impI)
      fix p' b assume "p' < COLD_PAGES c"
      then show "(arr[p := None]) ! p' = Some b \<longleftrightarrow> b \<in> set xs \<and> pageNumber (node_of s' b) = p'"
        using arr same other pw(1) by (cases "b \<in> set xs") (auto simp: nth_list_update p_def)
    qed
  qed (use assms(3) arr same eqs in \<open>auto simp: lru_ok_def hash_ok_def\<close>)
  moreover have "pins_first s' xs"
    using assms(3) same by (auto simp: pins_first_def lru_ok_def sorted_wrt_append
        elim!: sorted_wrt_mono_rel [rotated])
  moreover have "sizes_ok c s'"
    using assms(2,3) eqs pw cold_frame_fits [of p c] warm_frame_fits [of "warm_slot n" c] n
    by (auto simp: inv_defs data_def ext_encrypt_def aes_ok_def)
  moreover have "distinct (map (\<lambda>b. warm_slot (node_of s' b)) xs)"
    and "\<forall>b\<in>set xs. warm_slot (node_of s' b) < WARM_PAGES c \<and> warm_slot (node_of s' b) \<noteq> warm_slot n"
    using assms(3) same n by (fastforce simp: lru_ok_def slots_ok_def image_iff cong: map_cong)+
  ultimately have "room_ok c s' xs"
    using assms(4) pw eqs by (simp add: room_ok_def)
  with room eqs s'(3) n show ?thesis by auto
qed

text \<open>What the code decides a page to contain when it fetches it.\<close>

definition fetched :: "vme_cfg \<Rightarrow> ipp_aes \<Rightarrow> vme \<Rightarrow> nat \<Rightarrow> bytes" where
  "fetched c aes s p = (if hashes s ! p = 0 then replicate (PAGE_SIZE c) 0
                        else ext_decrypt aes (frame c p (cold s)))"

lemma length_fetched:
  assumes "cfg_ok c" "aes_ok aes" "sizes_ok c s" "p < COLD_PAGES c"
  shows "length (fetched c aes s p) = PAGE_SIZE c"
  using assms cold_frame_fits [of p c] by (simp add: fetched_def aes_ok_def ext_decrypt_def sizes_ok_def)

lemma Enqueue_load_spec:
  assumes "cfg_ok c" "aes_ok aes" "sizes_ok c s" "p < COLD_PAGES c" "w < WARM_PAGES c"
  shows "Enqueue_load c aes s p w =
    (if hashes s ! p = 0 \<or> page_hash (fetched c aes s p) = hashes s ! p
     then Inr (s\<lparr>warm := set_frame c w (fetched c aes s p) (warm s)\<rparr>)
     else Inl (HashMismatch p))"
proof -
  have lens: "length (warm s) = WARM_MEM_SIZE c" "COLD_MEM_SIZE c \<le> length (cold s)"
      "p < length (hashes s)"
    using assms by (auto simp: sizes_ok_def)
  have len: "length (fetched c aes s p) = PAGE_SIZE c" using assms by (intro length_fetched)
  have fits: "PAGE_SIZE c * w + PAGE_SIZE c \<le> length (warm s)"
    using warm_frame_fits assms(5) lens by simp
  have wr: "mem_write (warm s) (frame_off c w) (fetched c aes s p) =
      Inr (set_frame c w (fetched c aes s p) (warm s))"
    using assms(1,5) lens len by (intro write_warm_frame) auto
  have rd: "mem_read (set_frame c w (fetched c aes s p) (warm s)) (frame_off c w) (PAGE_SIZE c) =
      Inr (fetched c aes s p)"
    using assms(1,5) lens len fits
    by (simp add: read_warm_frame frame_set_frame_same buf_write_all)
  show ?thesis
    using wr rd lens read_cold_frame [OF assms(1,4) lens(2)]
    by (auto simp: Enqueue_load_def hashes_get_def fetched_def ext_decrypt_def)
qed

text \<open>
  \<^verbatim>\<open>Enqueue\<close> of a page that is not cached, once there is room, when the page passes
  the checksum: a new pinned node at the front.
\<close>

lemma Enqueue_links:
  assumes "cfg_ok c" "aes_ok aes" and room: "Enqueue_room c aes s0 = Inr (True, s)" "room_ok c s as"
    and p: "p < COLD_PAGES c" "vhash s = Some arr"
    and intact: "hashes s ! p = 0 \<or> page_hash (fetched c aes s p) = hashes s ! p"
  shows "\<exists>s'. Enqueue c aes s0 p = Inr (Some (brk s), s')
    \<and> s' = s\<lparr>nodes := nodes s', brk := brk s + 1,
        vq := Some \<lparr>q_count = Suc (length as), numberOfFrames = WARM_PAGES c,
          front = Some (brk s), rear = last_of None (brk s # as)\<rparr>,
        vhash := Some (arr[p := Some (brk s)]),
        warm := set_frame c (free_warm s) (fetched c aes s p) (warm s),
        free_warm := free_warm s + 1\<rparr>
    \<and> dll (nodes s') None (brk s # as) None
    \<and> map_option payload (nodes s' (brk s)) = Some (p, free_warm s, True)
    \<and> (\<forall>b. b \<noteq> brk s \<longrightarrow> map_option payload (nodes s' b) = map_option payload (nodes s b))"
proof -
  have l: "dll (nodes s) None as None" "brk s \<notin> set as" "length as < WARM_PAGES c" "distinct as"
      "vq s = Some \<lparr>q_count = length as, numberOfFrames = WARM_PAGES c,
                    front = first_of as None, rear = last_of None as\<rparr>"
      "sizes_ok c s" "free_warm s < WARM_PAGES c" "length arr = COLD_PAGES c"
    using room(2) p(2) by (auto simp: room_ok_def links_ok_def hash_ok_def)
  have cnt: "Suc (length as) mod 2 ^ 32 = Suc (length as)"
    using WARM_PAGES_bound [OF assms(1)] l(3) by simp
  have load: "Enqueue_load c aes t p (free_warm s) =
      Inr (t\<lparr>warm := set_frame c (free_warm s) (fetched c aes s p) (warm s)\<rparr>)"
    if "warm t = warm s" "cold t = cold s" "hashes t = hashes s" "zero_page t = zero_page s" for t
    using that intact l assms(1,2) p(1)
    by (subst Enqueue_load_spec) (auto simp: sizes_ok_def fetched_def)
  show ?thesis
  proof (cases as)
    case Nil
    show ?thesis
      using l cnt p room(1)
      by (auto simp: Let_def Enqueue_def newQNode_def get_free_warm_def load access_simps Nil isQueueEmpty_def
          hash_set_def payload_def)
  next
    case (Cons b bs)
    then obtain nb where nb: "nodes s b = Some nb" "prev_node nb = None" "next_node nb = first_of bs None"
      using l by auto
    show ?thesis
      using l cnt p room(1) nb
      by (auto simp: Let_def Enqueue_def newQNode_def get_free_warm_def load access_simps Cons isQueueEmpty_def
          hash_set_def payload_def dll_frame)
  qed
qed

end
