(* ===== verification/VmePaging.thy ===== *)
theory VmePaging
  imports VmeInv
begin

text \<open>
  \<^verbatim>\<open>ReferencePage\<close>, \<^verbatim>\<open>page_up\<close>, \<^verbatim>\<open>page_down\<close>,
  \<^verbatim>\<open>copy_to\<close> and \<^verbatim>\<open>copy_from\<close> against what they promise: the queue
  is a least-recently-used list with a pinned part in front (\<^theory_text>\<open>lru_ref\<close>,
  \<^theory_text>\<open>lru_unpin\<close>), and moving pages between the cache and the cold store does not show in
  the contents of any page.
\<close>

section \<open>The abstract cache\<close>

type_synonym entry = "nat \<times> nat \<times> bool"  \<comment> \<open>page, frame, pinned\<close>

definition lru_ref :: "nat \<Rightarrow> nat \<Rightarrow> entry list \<Rightarrow> entry list option" where
  "lru_ref frames p es =
     (case find (\<lambda>e. fst e = p) es of
        Some e \<Rightarrow> Some ((p, fst (snd e), True) # filter (\<lambda>e. fst e \<noteq> p) es)
      | None \<Rightarrow>
          if length es < frames then Some ((p, length es, True) # es)
          else (case last es of (_, w, pinned) \<Rightarrow>
                  if pinned then None else Some ((p, w, True) # butlast es)))"

definition lru_unpin :: "nat \<Rightarrow> entry list \<Rightarrow> entry list" where
  "lru_unpin p es =
     (case find (\<lambda>e. fst e = p) es of
        Some e \<Rightarrow> filter (\<lambda>e. fst e \<noteq> p) es @ [(p, fst (snd e), False)]
      | None \<Rightarrow> es)"

section \<open>Facts about the queue\<close>

lemma find_append: "find P (xs @ ys) = (case find P xs of None \<Rightarrow> find P ys | Some x \<Rightarrow> Some x)"
  by (induction xs) auto

lemma hash_ok_inj:
  "hash_ok c s as \<Longrightarrow> a \<in> set as \<Longrightarrow> b \<in> set as \<Longrightarrow>
    pageNumber (node_of s a) = pageNumber (node_of s b) \<Longrightarrow> a = b"
  by (metis Inr_inject hash_get_cached option.inject)

lemma entries_simps [simp]:
  "entries s [] = []" "entries s (a # as) = payload (node_of s a) # entries s as"
  "entries s (xs @ ys) = entries s xs @ entries s ys"
  "length (entries s as) = length as"
  by (simp_all add: entries_def)

lemma payload_the: "map_option payload x' = map_option payload x \<Longrightarrow> payload (the x') = payload (the x)"
  by (cases x; cases x') auto

lemma entries_cong:
  "\<forall>a\<in>set as. map_option payload (nodes s' a) = map_option payload (nodes s a) \<Longrightarrow>
    entries s' as = entries s as"
  unfolding entries_def by (intro map_cong) (auto intro: payload_the)

lemma entries_find_none:
  "p \<notin> (\<lambda>a. pageNumber (node_of s a)) ` set as \<Longrightarrow> find (\<lambda>e. fst e = p) (entries s as) = None"
  by (induction as) (auto simp: payload_def)

lemma entries_filter_none:
  "p \<notin> (\<lambda>a. pageNumber (node_of s a)) ` set as \<Longrightarrow> filter (\<lambda>e. fst e \<noteq> p) (entries s as) = entries s as"
  by (induction as) (auto simp: payload_def)

lemma entries_split:
  assumes "hash_ok c s (xs @ a # ys)" "distinct (xs @ a # ys)"
  defines "p \<equiv> pageNumber (node_of s a)"
  shows "find (\<lambda>e. fst e = p) (entries s (xs @ a # ys)) = Some (payload (node_of s a))"
    and "filter (\<lambda>e. fst e \<noteq> p) (entries s (xs @ a # ys)) = entries s (xs @ ys)"
proof -
  have "\<forall>x\<in>set xs \<union> set ys. p \<noteq> pageNumber (node_of s x)"
    unfolding p_def using hash_ok_inj [OF assms(1), of a] assms(2) by fastforce
  then have out: "p \<notin> (\<lambda>a. pageNumber (node_of s a)) ` set xs" "p \<notin> (\<lambda>a. pageNumber (node_of s a)) ` set ys"
    by auto
  show "find (\<lambda>e. fst e = p) (entries s (xs @ a # ys)) = Some (payload (node_of s a))"
    unfolding entries_simps find_append entries_find_none [OF out(1)] option.case find.simps
    by (simp add: p_def payload_def)
  show "filter (\<lambda>e. fst e \<noteq> p) (entries s (xs @ a # ys)) = entries s (xs @ ys)"
    unfolding entries_simps filter_append filter.simps entries_filter_none [OF out(1)] entries_filter_none [OF out(2)]
    by (simp add: p_def payload_def)
qed

lemma node_exists: "links_ok c s as \<Longrightarrow> a \<in> set as \<Longrightarrow> \<exists>n. nodes s a = Some n"
  using dll_dom by (fastforce simp: links_ok_def)

lemma pins_first_last: "pins_first s (xs @ [a]) \<Longrightarrow> stick (node_of s a) \<Longrightarrow> b \<in> set xs \<Longrightarrow> stick (node_of s b)"
  by (auto simp: pins_first_def sorted_wrt_append)

text \<open>Reordering the queue keeps everything but the order of pins.\<close>

lemma lru_ok_reorder:
  assumes "lru_ok c s as"
    and "s' = s\<lparr>nodes := nodes s', vq := Some \<lparr>q_count = length as, numberOfFrames = WARM_PAGES c,
                    front = first_of as' None, rear = last_of None as'\<rparr>\<rparr>"
    and "dll (nodes s') None as' None" "distinct as'" "set as' = set as"
    and same: "\<forall>b\<in>set as. pageNumber (node_of s' b) = pageNumber (node_of s b)
      \<and> warm_slot (node_of s' b) = warm_slot (node_of s b)"
    and "pins_first s' as'"
  shows "lru_ok c s' as'"
proof -
  have eqs: "brk s' = brk s" "vhash s' = vhash s" "free_warm s' = free_warm s" "warm s' = warm s"
      "cold s' = cold s" "hashes s' = hashes s" "zero_page s' = zero_page s"
      "vq s' = Some \<lparr>q_count = length as, numberOfFrames = WARM_PAGES c,
                    front = first_of as' None, rear = last_of None as'\<rparr>"
    by (subst assms(2), simp)+
  have len: "length as' = length as"
    using assms(1,4,5) by (auto simp: lru_ok_def links_ok_def dest!: distinct_card)
  have "distinct (map (\<lambda>b. warm_slot (node_of s' b)) as')"
    using assms(1,4,5) same by (auto simp: inv_defs distinct_map inj_on_def)
  moreover have "hash_ok c s' as'"
    using assms(1,5) same eqs by (force simp: lru_ok_def hash_ok_def)
  ultimately show ?thesis
    using assms len eqs by (simp add: lru_ok_def links_ok_def slots_ok_def sizes_ok_def)
qed

lemma vme_own_queue: "x = s\<lparr>nodes := nodes x, vq := v\<rparr> \<Longrightarrow> x = s\<lparr>nodes := nodes x, vq := vq x\<rparr>"
  by (cases x; cases s) auto

section \<open>Referencing a cached page\<close>

lemma pins_first_front:
  assumes "pins_first s (xs @ a # ys)" "stick (node_of s' a)"
    and "\<forall>b\<in>set xs \<union> set ys. stick (node_of s' b) = stick (node_of s b)"
  shows "pins_first s' (a # xs @ ys)"
proof -
  have "sorted_wrt (\<lambda>a b. stick (node_of s b) \<longrightarrow> stick (node_of s a)) (xs @ ys)"
    using assms(1) by (auto simp: pins_first_def sorted_wrt_append)
  then have "sorted_wrt (\<lambda>a b. stick (node_of s' b) \<longrightarrow> stick (node_of s' a)) (xs @ ys)"
    using assms(3) by (auto elim!: sorted_wrt_mono_rel [rotated])
  with assms(2) show ?thesis by (simp add: pins_first_def)
qed

lemma ReferencePage_hit:
  assumes inv: "lru_ok c s (xs @ a # ys)"
  defines "p \<equiv> pageNumber (node_of s a)"
  shows "\<exists>s'. ReferencePage c aes s p up = Inr (Some a, s')
    \<and> s' = s\<lparr>nodes := nodes s', vq := vq s'\<rparr> \<and> lru_ok c s' (a # xs @ ys)
    \<and> (\<forall>b. b \<noteq> a \<longrightarrow> map_option payload (nodes s' b) = map_option payload (nodes s b))
    \<and> map_option payload (nodes s' a) = Some (p, warm_slot (node_of s a), True)"
proof -
  let ?as = "xs @ a # ys" and ?qu = "\<lambda>as'. \<lparr>q_count = length (xs @ a # ys), numberOfFrames = WARM_PAGES c,
    front = first_of as' None, rear = last_of None as'\<rparr>"
  have hg: "hash_get s p = Inr (Some a)"
    unfolding p_def using inv by (intro hash_get_cached [of c s ?as]) (auto simp: lru_ok_def)
  have l: "vq s = Some (?qu ?as)" "dll (nodes s) None ?as None" "distinct ?as"
    using inv by (auto simp: lru_ok_def links_ok_def)
  have "\<exists>t. (if Some a \<noteq> front (?qu ?as) then bindE (move_to_front s (Some a)) (\<lambda>s. Inr (Some a, s))
        else Inr (Some a, s)) = Inr (Some a, t)
      \<and> t = s\<lparr>nodes := nodes t, vq := Some (?qu (a # xs @ ys))\<rparr>
      \<and> dll (nodes t) None (a # xs @ ys) None \<and> same_payloads (nodes s) (nodes t)"
  proof (cases "xs = []")
    case True
    with l show ?thesis by auto
  next
    case False
    then have "first_of xs (Some a) \<noteq> Some a"
      using l(3) by (cases xs) auto
    with move_to_front_links [OF l(1) _ _ refl False l(3,2)] show ?thesis by fastforce
  qed
  then obtain t where t: "(if Some a \<noteq> front (?qu ?as) then bindE (move_to_front s (Some a)) (\<lambda>s. Inr (Some a, s))
        else Inr (Some a, s)) = Inr (Some a, t)"
      "t = s\<lparr>nodes := nodes t, vq := Some (?qu (a # xs @ ys))\<rparr>"
      "dll (nodes t) None (a # xs @ ys) None" "same_payloads (nodes s) (nodes t)" by blast
  obtain n where n: "nodes t a = Some n" using t(3) by auto
  let ?s' = "t\<lparr>nodes := (nodes t)(a := Some (n\<lparr>stick := True\<rparr>))\<rparr>"
  have run: "ReferencePage c aes s p up = Inr (Some a, ?s')"
    using t(1) hg l(1) n by (simp add: ReferencePage_def access_simps)
  have same: "map_option payload (nodes ?s' b) = map_option payload (nodes s b)" if "b \<noteq> a" for b
    using t(4) that by (simp add: same_payloads_def)
  have pa: "map_option payload (nodes ?s' a) = Some (p, warm_slot (node_of s a), True)"
  proof -
    have "map_option payload (nodes t a) = map_option payload (nodes s a)"
      using t(4) by (simp add: same_payloads_def)
    from payload_eqD [OF this] n show ?thesis by (simp add: payload_def p_def)
  qed
  have fields: "pageNumber (node_of ?s' b) = pageNumber (node_of s b)
      \<and> warm_slot (node_of ?s' b) = warm_slot (node_of s b) \<and> (b \<noteq> a \<longrightarrow> stick (node_of ?s' b) = stick (node_of s b))" for b
  proof (cases "b = a")
    case True
    with pa show ?thesis by (simp add: payload_def p_def)
  next
    case False
    then show ?thesis using payload_eqD [OF same [OF False]] by blast
  qed
  have upd: "?s' = s\<lparr>nodes := nodes ?s', vq := Some (?qu (a # xs @ ys))\<rparr>"
    by (subst t(2)) simp
  have "lru_ok c ?s' (a # xs @ ys)"
  proof (rule lru_ok_reorder [OF inv upd])
    show "dll (nodes ?s') None (a # xs @ ys) None"
      using t(3) n l(3) by (simp add: dll_frame)
    show "pins_first ?s' (a # xs @ ys)"
    proof (rule pins_first_front)
      show "pins_first s (xs @ a # ys)" using inv by (simp add: lru_ok_def)
      show "stick (node_of ?s' a)" by simp
      show "\<forall>b\<in>set xs \<union> set ys. stick (node_of ?s' b) = stick (node_of s b)"
        using fields l(3) by auto
    qed
  qed (use l(3) fields in auto)
  moreover have "?s' = s\<lparr>nodes := nodes ?s', vq := vq ?s'\<rparr>"
    by (rule vme_own_queue [OF upd])
  ultimately show ?thesis
    using run same pa by blast
qed

section \<open>Unpinning a page\<close>

lemma pins_first_rear:
  assumes "pins_first s (xs @ a # ys)" "\<not> stick (node_of s' a)"
    and "\<forall>b\<in>set xs \<union> set ys. stick (node_of s' b) = stick (node_of s b)"
  shows "pins_first s' (xs @ ys @ [a])"
proof -
  have "sorted_wrt (\<lambda>a b. stick (node_of s b) \<longrightarrow> stick (node_of s a)) (xs @ ys)"
    using assms(1) by (auto simp: pins_first_def sorted_wrt_append)
  then have "sorted_wrt (\<lambda>a b. stick (node_of s' b) \<longrightarrow> stick (node_of s' a)) (xs @ ys)"
    using assms(3) by (auto elim!: sorted_wrt_mono_rel [rotated])
  with assms(2) show ?thesis by (simp add: pins_first_def sorted_wrt_append)
qed

lemma DeReferencePage_hit:
  assumes inv: "lru_ok c s (xs @ a # ys)"
  defines "p \<equiv> pageNumber (node_of s a)"
  shows "\<exists>s'. DeReferencePage s p = Inr s'
    \<and> s' = s\<lparr>nodes := nodes s', vq := vq s'\<rparr> \<and> lru_ok c s' (xs @ ys @ [a])
    \<and> (\<forall>b. b \<noteq> a \<longrightarrow> map_option payload (nodes s' b) = map_option payload (nodes s b))
    \<and> map_option payload (nodes s' a) = Some (p, warm_slot (node_of s a), False)"
proof -
  let ?as = "xs @ a # ys" and ?qu = "\<lambda>as'. \<lparr>q_count = length (xs @ a # ys), numberOfFrames = WARM_PAGES c,
    front = first_of as' None, rear = last_of None as'\<rparr>"
  have hg: "hash_get s p = Inr (Some a)"
    unfolding p_def using inv by (intro hash_get_cached [of c s ?as]) (auto simp: lru_ok_def)
  have l: "vq s = Some (?qu ?as)" "dll (nodes s) None ?as None" "distinct ?as"
    using inv by (auto simp: lru_ok_def links_ok_def)
  have "\<exists>t. (if Some a \<noteq> rear (?qu ?as) then move_to_rear s (Some a) else Inr s) = Inr t
      \<and> t = s\<lparr>nodes := nodes t, vq := Some (?qu (xs @ ys @ [a]))\<rparr>
      \<and> dll (nodes t) None (xs @ ys @ [a]) None \<and> same_payloads (nodes s) (nodes t)"
  proof (cases "ys = []")
    case True
    with l show ?thesis by auto
  next
    case False
    then have "last_of (Some a) ys \<noteq> Some a"
      using l(3) by (auto simp: last_of_def dest: last_in_set)
    with move_to_rear_links [OF l(1) _ _ refl False l(3,2)] show ?thesis by fastforce
  qed
  then obtain t where t: "(if Some a \<noteq> rear (?qu ?as) then move_to_rear s (Some a) else Inr s) = Inr t"
      "t = s\<lparr>nodes := nodes t, vq := Some (?qu (xs @ ys @ [a]))\<rparr>"
      "dll (nodes t) None (xs @ ys @ [a]) None" "same_payloads (nodes s) (nodes t)" by blast
  obtain n where n: "nodes t a = Some n" using t(3) by auto
  let ?s' = "t\<lparr>nodes := (nodes t)(a := Some (n\<lparr>stick := False\<rparr>))\<rparr>"
  have run: "DeReferencePage s p = Inr ?s'"
    using t(1) hg l(1) n by (simp add: DeReferencePage_def access_simps)
  have same: "map_option payload (nodes ?s' b) = map_option payload (nodes s b)" if "b \<noteq> a" for b
    using t(4) that by (simp add: same_payloads_def)
  have pa: "map_option payload (nodes ?s' a) = Some (p, warm_slot (node_of s a), False)"
  proof -
    have "map_option payload (nodes t a) = map_option payload (nodes s a)"
      using t(4) by (simp add: same_payloads_def)
    from payload_eqD [OF this] n show ?thesis by (simp add: payload_def p_def)
  qed
  have fields: "pageNumber (node_of ?s' b) = pageNumber (node_of s b)
      \<and> warm_slot (node_of ?s' b) = warm_slot (node_of s b) \<and> (b \<noteq> a \<longrightarrow> stick (node_of ?s' b) = stick (node_of s b))" for b
  proof (cases "b = a")
    case True
    with pa show ?thesis by (simp add: payload_def p_def)
  next
    case False
    then show ?thesis using payload_eqD [OF same [OF False]] by blast
  qed
  have upd: "?s' = s\<lparr>nodes := nodes ?s', vq := Some (?qu (xs @ ys @ [a]))\<rparr>"
    by (subst t(2)) simp
  have "lru_ok c ?s' (xs @ ys @ [a])"
  proof (rule lru_ok_reorder [OF inv upd])
    show "dll (nodes ?s') None (xs @ ys @ [a]) None"
      using t(3) n l(3) by (simp add: dll_frame)
    show "pins_first ?s' (xs @ ys @ [a])"
    proof (rule pins_first_rear)
      show "pins_first s (xs @ a # ys)" using inv by (simp add: lru_ok_def)
      show "\<not> stick (node_of ?s' a)" by simp
      show "\<forall>b\<in>set xs \<union> set ys. stick (node_of ?s' b) = stick (node_of s b)"
        using fields l(3) by auto
    qed
  qed (use l(3) fields in auto)
  moreover have "?s' = s\<lparr>nodes := nodes ?s', vq := vq ?s'\<rparr>"
    by (rule vme_own_queue [OF upd])
  ultimately show ?thesis
    using run same pa by blast
qed

section \<open>Referencing a page that is not cached\<close>

lemma ReferencePage_miss:
  assumes "lru_ok c s as" "p < COLD_PAGES c" "p \<notin> (\<lambda>a. pageNumber (node_of s a)) ` set as"
  shows "ReferencePage c aes s p True = bindE (Enqueue c aes s p) (\<lambda>(req, s).
    if req = None then Inr (None, s)
    else bindE (store s req (\<lambda>n. n\<lparr>stick := True\<rparr>)) (\<lambda>s. Inr (req, s)))"
  using assms hash_get_uncached [of c s as p]
  by (auto simp: ReferencePage_def lru_ok_def links_ok_def access_simps)

lemma ReferencePage_pinned:
  assumes "lru_ok c s (xs @ [a])" "Suc (length xs) = WARM_PAGES c" "stick (node_of s a)"
    and "p < COLD_PAGES c" "p \<notin> (\<lambda>a. pageNumber (node_of s a)) ` set (xs @ [a])"
  shows "ReferencePage c aes s p True = Inr (None, s)"
  using Enqueue_room_pinned [OF assms(1-3)]
  by (simp add: ReferencePage_miss [OF assms(1,4,5)] Enqueue_def)

lemma ReferencePage_load:
  assumes "cfg_ok c" "aes_ok aes" "lru_ok c s0 as0" "p < COLD_PAGES c"
    and miss: "p \<notin> (\<lambda>a. pageNumber (node_of s0 a)) ` set as0"
    and room: "Enqueue_room c aes s0 = Inr (True, s)" "room_ok c s as"
    and miss': "p \<notin> (\<lambda>a. pageNumber (node_of s a)) ` set as"
    and intact: "hashes s ! p = 0 \<or> page_hash (fetched c aes s p) = hashes s ! p"
  shows "\<exists>s'. ReferencePage c aes s0 p True = Inr (Some (brk s), s') \<and> lru_ok c s' (brk s # as)
    \<and> warm s' = set_frame c (free_warm s) (fetched c aes s p) (warm s)
    \<and> cold s' = cold s \<and> hashes s' = hashes s \<and> zero_page s' = zero_page s
    \<and> (\<forall>b. b \<noteq> brk s \<longrightarrow> map_option payload (nodes s' b) = map_option payload (nodes s b))
    \<and> map_option payload (nodes s' (brk s)) = Some (p, free_warm s, True)"
proof -
  obtain arr where arr: "vhash s = Some arr" "length arr = COLD_PAGES c"
    "\<forall>p<COLD_PAGES c. \<forall>b. arr ! p = Some b \<longleftrightarrow> b \<in> set as \<and> pageNumber (node_of s b) = p"
    using room(2) by (auto simp: room_ok_def hash_ok_def)
  have r: "links_ok c s as" "sizes_ok c s" "length as < WARM_PAGES c" "free_warm s < WARM_PAGES c"
      "brk s \<notin> set as" "distinct as"
    using room(2) by (auto simp: room_ok_def links_ok_def)
  from Enqueue_links [OF assms(1,2) room assms(4) arr(1) intact]
  obtain t where t: "Enqueue c aes s0 p = Inr (Some (brk s), t)"
    "dll (nodes t) None (brk s # as) None"
    "map_option payload (nodes t (brk s)) = Some (p, free_warm s, True)"
    "\<forall>b. b \<noteq> brk s \<longrightarrow> map_option payload (nodes t b) = map_option payload (nodes s b)"
    "t = s\<lparr>nodes := nodes t, brk := brk s + 1,
        vq := Some \<lparr>q_count = Suc (length as), numberOfFrames = WARM_PAGES c,
          front = Some (brk s), rear = last_of None (brk s # as)\<rparr>,
        vhash := Some (arr[p := Some (brk s)]),
        warm := set_frame c (free_warm s) (fetched c aes s p) (warm s),
        free_warm := free_warm s + 1\<rparr>" by blast
  obtain n where n: "nodes t (brk s) = Some n" using t(2) by auto
  then have nf: "n\<lparr>stick := True\<rparr> = n" "pageNumber n = p" "warm_slot n = free_warm s" "stick n"
    using t(3) by (auto simp: payload_def)
  have run: "ReferencePage c aes s0 p True = Inr (Some (brk s), t)"
    using n nf(1) by (simp add: ReferencePage_miss [OF assms(3,4) miss] t(1) access_simps fun_upd_idem)
  have eqs: "warm t = set_frame c (free_warm s) (fetched c aes s p) (warm s)" "cold t = cold s"
      "hashes t = hashes s" "zero_page t = zero_page s" "brk t = brk s + 1" "free_warm t = free_warm s + 1"
      "vhash t = Some (arr[p := Some (brk s)])"
      "vq t = Some \<lparr>q_count = Suc (length as), numberOfFrames = WARM_PAGES c,
          front = Some (brk s), rear = last_of None (brk s # as)\<rparr>"
    by (subst t(5), simp)+
  have same: "\<forall>b\<in>set as. pageNumber (node_of t b) = pageNumber (node_of s b)
      \<and> warm_slot (node_of t b) = warm_slot (node_of s b) \<and> stick (node_of t b) = stick (node_of s b)"
    using t(4) r(5) by (metis payload_eqD)
  have other: "\<forall>b\<in>set as. pageNumber (node_of s b) \<noteq> p" using miss' by auto
  have "links_ok c t (brk s # as)"
    using r t(2) eqs by (auto simp: links_ok_def)
  moreover have "hash_ok c t (brk s # as)"
    unfolding hash_ok_def
  proof (intro conjI exI)
    show "\<forall>p'<COLD_PAGES c. \<forall>b. (arr[p := Some (brk s)]) ! p' = Some b \<longleftrightarrow>
        b \<in> set (brk s # as) \<and> pageNumber (node_of t b) = p'"
    proof (intro allI impI)
      fix p' b assume "p' < COLD_PAGES c"
      then show "(arr[p := Some (brk s)]) ! p' = Some b \<longleftrightarrow>
          b \<in> set (brk s # as) \<and> pageNumber (node_of t b) = p'"
        using arr same n nf r(5) other assms(4)
        by (cases "b \<in> set as"; cases "b = brk s") (auto simp: nth_list_update)
    qed
  qed (use arr same eqs n nf assms(4) room(2) in \<open>auto simp: room_ok_def hash_ok_def\<close>)
  moreover have "slots_ok c t (brk s # as)"
    using room(2) same n nf eqs
    by (auto simp: room_ok_def slots_ok_def cong: map_cong)
  moreover have "pins_first t (brk s # as)"
    using room(2) same n nf by (auto simp: room_ok_def pins_first_def elim!: sorted_wrt_mono_rel [rotated])
  moreover have "sizes_ok c t"
    using r(2,4) eqs warm_frame_fits [of "free_warm s" c] length_fetched [OF assms(1,2) r(2) assms(4)]
    by (simp add: sizes_ok_def)
  ultimately have "lru_ok c t (brk s # as)"
    by (simp add: lru_ok_def)
  with run eqs t(3,4) show ?thesis by blast
qed

section \<open>Paging does not show\<close>

lemma room_ok_view:
  assumes "cfg_ok c" "aes_ok aes" "room_ok c s as" "cold_ok c aes s as" "p < COLD_PAGES c"
    and miss: "p \<notin> (\<lambda>a. pageNumber (node_of s a)) ` set as"
  shows "page_view c aes s p = fetched c aes s p"
    and "hashes s ! p = 0 \<or> page_hash (fetched c aes s p) = hashes s ! p"
  using assms page_view_uncached [of c s as p]
  by (auto simp: room_ok_def fetched_def cold_ok_def)

lemma load_view:
  assumes "cfg_ok c" "aes_ok aes" "room_ok c s as" "cold_ok c aes s as" "p < COLD_PAGES c"
    and miss: "p \<notin> (\<lambda>a. pageNumber (node_of s a)) ` set as"
    and t: "lru_ok c t (brk s # as)" "warm t = set_frame c (free_warm s) (fetched c aes s p) (warm s)"
      "cold t = cold s" "hashes t = hashes s"
      "\<forall>b. b \<noteq> brk s \<longrightarrow> map_option payload (nodes t b) = map_option payload (nodes s b)"
      "map_option payload (nodes t (brk s)) = Some (p, free_warm s, True)"
  shows "cold_ok c aes t (brk s # as) \<and> (\<forall>x<COLD_PAGES c. page_view c aes t x = page_view c aes s x)"
proof -
  have s: "hash_ok c s as" "sizes_ok c s" "free_warm s < WARM_PAGES c" "brk s \<notin> set as"
      "\<forall>a\<in>set as. warm_slot (node_of s a) < WARM_PAGES c \<and> warm_slot (node_of s a) \<noteq> free_warm s"
    using assms(3) by (auto simp: room_ok_def links_ok_def)
  have th: "hash_ok c t (brk s # as)" using t(1) by (simp add: lru_ok_def)
  obtain n where n: "nodes t (brk s) = Some n" "pageNumber n = p" "warm_slot n = free_warm s"
    using t(6) by (auto simp: payload_def)
  have same: "\<forall>b\<in>set as. pageNumber (node_of t b) = pageNumber (node_of s b)
      \<and> warm_slot (node_of t b) = warm_slot (node_of s b)"
    using t(5) s(4) by (metis payload_eqD(1,2))
  have len: "length (fetched c aes s p) = PAGE_SIZE c" "length (warm s) = WARM_MEM_SIZE c"
    using length_fetched [OF assms(1,2) s(2) assms(5)] s(2) by (auto simp: sizes_ok_def)
  have view: "page_view c aes t x = page_view c aes s x" if x: "x < COLD_PAGES c" for x
  proof -
    consider "x = p" | a where "a \<in> set as" "x = pageNumber (node_of s a)"
      | "x \<noteq> p" "x \<notin> (\<lambda>a. pageNumber (node_of s a)) ` set as" by auto
    then show ?thesis
    proof cases
      case 1
      have "page_view c aes t (pageNumber (node_of t (brk s))) = frame c (free_warm s) (warm t)"
        using page_view_cached [OF th, of "brk s" aes] n by simp
      also have "\<dots> = fetched c aes s p"
        using len warm_frame_fits [OF s(3)] by (simp add: t(2) frame_set_frame_same buf_write_all)
      finally show ?thesis
        using 1 n room_ok_view(1) [OF assms(1-6)] by simp
    next
      case (2 a)
      have "page_view c aes t (pageNumber (node_of t a)) = frame c (warm_slot (node_of t a)) (warm t)"
        using 2 by (intro page_view_cached [OF th]) simp
      also have "\<dots> = frame c (warm_slot (node_of s a)) (warm s)"
        using 2 s(5) s(5) [rule_format, OF 2(1), THEN conjunct2, THEN not_sym] same len
          warm_frame_fits [OF s(3)] warm_frame_fits [of "warm_slot (node_of s a)" c]
        by (simp add: t(2) frame_set_frame_other)
      finally show ?thesis
        using 2 same page_view_cached [OF s(1) 2(1), of aes] by simp
    next
      case 3
      have "x \<notin> (\<lambda>a. pageNumber (node_of t a)) ` set (brk s # as)"
        using 3 n same by auto
      then show ?thesis
        using page_view_uncached [OF th x] page_view_uncached [OF s(1) x 3(2)] by (simp add: t(3,4))
    qed
  qed
  have "cold_ok c aes t (brk s # as)"
    using assms(4) same n by (auto simp: cold_ok_def t(3,4))
  with view show ?thesis by blast
qed

lemma evict_view:
  assumes "cfg_ok c" "aes_ok aes" "lru_ok c s (xs @ [a])" "cold_ok c aes s (xs @ [a])"
    and nz: "page_hash (page_view c aes s (pageNumber (node_of s a))) \<noteq> 0"
    and t: "room_ok c t xs" "warm t = warm s"
      "cold t = set_frame c (pageNumber (node_of s a))
        (ext_encrypt aes (frame c (warm_slot (node_of s a)) (warm s))) (cold s)"
      "hashes t = (hashes s)[pageNumber (node_of s a) := page_hash (frame c (warm_slot (node_of s a)) (warm s))]"
      "\<forall>b. b \<noteq> a \<longrightarrow> map_option payload (nodes t b) = map_option payload (nodes s b)"
  shows "cold_ok c aes t xs \<and> (\<forall>x<COLD_PAGES c. page_view c aes t x = page_view c aes s x)"
proof -
  let ?q = "pageNumber (node_of s a)" and ?data = "frame c (warm_slot (node_of s a)) (warm s)"
  have s: "hash_ok c s (xs @ [a])" "sizes_ok c s" "a \<notin> set xs" "warm_slot (node_of s a) < WARM_PAGES c"
    using assms(3) by (auto simp: lru_ok_def links_ok_def slots_ok_def)
  have th: "hash_ok c t xs" using t(1) by (simp add: room_ok_def)
  have q: "?q < COLD_PAGES c" using s(1) by (simp add: hash_ok_def)
  have same: "\<forall>b\<in>set xs. pageNumber (node_of t b) = pageNumber (node_of s b)
      \<and> warm_slot (node_of t b) = warm_slot (node_of s b)"
    using t(5) s(3) by (metis payload_eqD(1,2))
  have other: "\<forall>b\<in>set xs. pageNumber (node_of s b) \<noteq> ?q"
    using hash_ok_inj [OF s(1), of _ a] s(3) by fastforce
  have lens: "length ?data = PAGE_SIZE c" "length (ext_encrypt aes ?data) = PAGE_SIZE c"
      "COLD_MEM_SIZE c \<le> length (cold s)" "length (hashes s) = COLD_PAGES c"
    using s(2) warm_frame_fits [OF s(4)] assms(2) by (auto simp: sizes_ok_def aes_ok_def ext_encrypt_def)
  have view_a: "page_view c aes s ?q = ?data" using page_view_cached [OF s(1), of a] by simp
  have frame_q: "ext_decrypt aes (frame c ?q (cold t)) = ?data"
    using lens cold_frame_fits [OF q] assms(2)
    by (simp add: t(3) frame_set_frame_same buf_write_all aes_ok_def ext_encrypt_def ext_decrypt_def)
  have frame_x: "frame c x (cold t) = frame c x (cold s)" "hashes t ! x = hashes s ! x"
    if "x \<noteq> ?q" "x < COLD_PAGES c" for x
    using that lens cold_frame_fits [OF q] cold_frame_fits [OF that(2)]
    by (simp_all add: t(3,4) frame_set_frame_other)
  have hash_q: "hashes t ! ?q = page_hash ?data" using lens q by (simp add: t(4))
  have view: "page_view c aes t x = page_view c aes s x" if x: "x < COLD_PAGES c" for x
  proof -
    consider "x = ?q" | b where "b \<in> set xs" "x = pageNumber (node_of s b)"
      | "x \<noteq> ?q" "x \<notin> (\<lambda>a. pageNumber (node_of s a)) ` set xs" by auto
    then show ?thesis
    proof cases
      case 1
      then have "x \<notin> (\<lambda>a. pageNumber (node_of t a)) ` set xs" using same other by auto
      with page_view_uncached [OF th x] 1 nz view_a hash_q frame_q show ?thesis by simp
    next
      case (2 b)
      then show ?thesis
        using page_view_cached [OF th 2(1), of aes] page_view_cached [OF s(1), of b aes] same
        by (simp add: t(2))
    next
      case 3
      then have "x \<notin> (\<lambda>a. pageNumber (node_of t a)) ` set xs" using same by auto
      with page_view_uncached [OF th x, of aes] page_view_uncached [OF s(1) x, of aes] frame_x [OF 3(1) x] 3
      show ?thesis by simp
    qed
  qed
  have "cold_ok c aes t xs"
    unfolding cold_ok_def
  proof (intro allI impI)
    fix x assume x: "x < COLD_PAGES c" "x \<notin> (\<lambda>a. pageNumber (node_of t a)) ` set xs" "hashes t ! x \<noteq> 0"
    show "page_hash (ext_decrypt aes (frame c x (cold t))) = hashes t ! x"
    proof (cases "x = ?q")
      case True
      then show ?thesis by (simp add: frame_q hash_q)
    next
      case False
      then have "x \<notin> (\<lambda>a. pageNumber (node_of s a)) ` set (xs @ [a])" using x(2) same by auto
      with assms(4) x frame_x [OF False x(1)] show ?thesis by (simp add: cold_ok_def)
    qed
  qed
  with view show ?thesis by blast
qed

section \<open>ReferencePage\<close>

definition vme_inv :: "vme_cfg \<Rightarrow> ipp_aes \<Rightarrow> vme \<Rightarrow> addr list \<Rightarrow> bool" where
  "vme_inv c aes s as \<longleftrightarrow> lru_ok c s as \<and> cold_ok c aes s as"

text \<open>
  No page has the checksum 0, which the engine uses for pages that were never written: the
  condition under which eviction loses nothing.
\<close>

definition hashes_nonzero :: "vme_cfg \<Rightarrow> ipp_aes \<Rightarrow> vme \<Rightarrow> bool" where
  "hashes_nonzero c aes s \<longleftrightarrow> (\<forall>p<COLD_PAGES c. page_hash (page_view c aes s p) \<noteq> 0)"

text \<open>The pages the engine has data for: cached, or with a checksum on record.\<close>

definition known :: "vme \<Rightarrow> nat \<Rightarrow> bool" where
  "known s p \<longleftrightarrow> hash_get s p \<noteq> Inr None \<or> hashes s ! p \<noteq> 0"

lemma known_iff:
  "hash_ok c s as \<Longrightarrow> p < COLD_PAGES c \<Longrightarrow>
    known s p \<longleftrightarrow> p \<in> (\<lambda>a. pageNumber (node_of s a)) ` set as \<or> hashes s ! p \<noteq> 0"
  using hash_get_cached [of c s as] hash_get_uncached [of c s as p] by (auto simp: known_def)

lemma ReferencePage_spec:
  assumes "cfg_ok c" "aes_ok aes" and inv: "vme_inv c aes s as" and p: "p < COLD_PAGES c"
    and nz: "hashes_nonzero c aes s"
  shows "\<exists>r s' as'. ReferencePage c aes s p True = Inr (r, s') \<and> vme_inv c aes s' as'
    \<and> (\<forall>x<COLD_PAGES c. page_view c aes s' x = page_view c aes s x \<and> (known s x \<longrightarrow> known s' x))
    \<and> zero_page s' = zero_page s
    \<and> (case lru_ref (WARM_PAGES c) p (entries s as) of
          None \<Rightarrow> r = None \<and> s' = s \<and> as' = as
        | Some es \<Rightarrow> entries s' as' = es \<and> as' \<noteq> [] \<and> r = Some (hd as'))"
proof -
  have lru: "lru_ok c s as" and cold: "cold_ok c aes s as" using inv by (auto simp: vme_inv_def)
  have W: "0 < WARM_PAGES c" using assms(1) by (simp add: cfg_ok_def)
  have len: "length as \<le> WARM_PAGES c" "distinct as" using lru by (auto simp: lru_ok_def links_ok_def)
  show ?thesis
  proof (cases "p \<in> (\<lambda>a. pageNumber (node_of s a)) ` set as")
    case True
    then obtain xs a ys where as: "as = xs @ a # ys" and a: "pageNumber (node_of s a) = p"
      by (auto dest: split_list)
    have hash: "hash_ok c s (xs @ a # ys)" using lru as by (simp add: lru_ok_def)
    obtain s' where s': "ReferencePage c aes s p True = Inr (Some a, s')"
      "s' = s\<lparr>nodes := nodes s', vq := vq s'\<rparr>" "lru_ok c s' (a # xs @ ys)"
      "\<forall>b. b \<noteq> a \<longrightarrow> map_option payload (nodes s' b) = map_option payload (nodes s b)"
      "map_option payload (nodes s' a) = Some (p, warm_slot (node_of s a), True)"
      using ReferencePage_hit [of c s xs a ys aes True] lru as a by auto
    have mem: "warm s' = warm s" "cold s' = cold s" "hashes s' = hashes s" "vhash s' = vhash s"
        "zero_page s' = zero_page s"
      by (subst s'(2), simp)+
    have fields: "pageNumber (node_of s' b) = pageNumber (node_of s b)"
        "warm_slot (node_of s' b) = warm_slot (node_of s b)" for b
      using s'(4,5) a payload_eqD [of "nodes s' b" "nodes s b"]
      by (cases "b = a"; auto simp: payload_def)+
    have "entries s' (xs @ ys) = entries s (xs @ ys)"
      using s'(4) len(2) as by (intro entries_cong) auto
    moreover have "payload (node_of s' a) = (p, warm_slot (node_of s a), True)"
      using s'(5) by auto
    moreover have "lru_ref (WARM_PAGES c) p (entries s as) =
        Some ((p, warm_slot (node_of s a), True) # entries s (xs @ ys))"
      using entries_split [OF hash] len(2) as a by (simp add: lru_ref_def payload_def)
    moreover have "cold_ok c aes s' (a # xs @ ys)"
      using cold as mem fields by (auto simp: cold_ok_def)
    moreover have "page_view c aes s' x = page_view c aes s x" for x
      by (simp add: page_view_def hash_get_def mem fields split: option.split sum.split)
    moreover have "known s' x = known s x" for x
      by (simp add: known_def hash_get_def mem)
    ultimately show ?thesis
      using s'(1,3) mem by (intro exI [of _ "Some a"] exI [of _ s'] exI [of _ "a # xs @ ys"])
        (simp add: vme_inv_def)
  next
    case miss: False
    note find = entries_find_none [OF miss]
    show ?thesis
    proof (cases "length as < WARM_PAGES c")
      case True
      with lru have room: "Enqueue_room c aes s = Inr (True, s)" "room_ok c s as" and free: "free_warm s = length as"
        using Enqueue_room_free by (auto simp: lru_ok_def slots_ok_def)
      note intact = room_ok_view(2) [OF assms(1,2) room(2) cold p miss]
      obtain t where t: "ReferencePage c aes s p True = Inr (Some (brk s), t)" "lru_ok c t (brk s # as)"
        "warm t = set_frame c (free_warm s) (fetched c aes s p) (warm s)"
        "cold t = cold s" "hashes t = hashes s" "zero_page t = zero_page s"
        "\<forall>b. b \<noteq> brk s \<longrightarrow> map_option payload (nodes t b) = map_option payload (nodes s b)"
        "map_option payload (nodes t (brk s)) = Some (p, free_warm s, True)"
        using ReferencePage_load [OF assms(1,2) lru p miss room miss intact] by blast
      have th: "hash_ok c t (brk s # as)" "hash_ok c s as" using t(2) lru by (auto simp: lru_ok_def)
      have "\<forall>b\<in>set as. pageNumber (node_of t b) = pageNumber (node_of s b)"
        using t(7) lru by (metis payload_eqD(1) less_irrefl lru_ok_def links_ok_def)
      then have kn: "known s x \<longrightarrow> known t x" if "x < COLD_PAGES c" for x
        using that by (auto simp: known_iff [OF th(1) that] known_iff [OF th(2) that] t(5))
      have "entries t as = entries s as"
        using t(7) lru by (intro entries_cong) (auto simp: lru_ok_def links_ok_def)
      moreover have "payload (node_of t (brk s)) = (p, length as, True)" using t(8) free by auto
      ultimately show ?thesis
        using t(1,2,6) load_view [OF assms(1,2) room(2) cold p miss t(2-5,7,8)] find True kn
        by (intro exI [of _ "Some (brk s)"] exI [of _ t] exI [of _ "brk s # as"])
          (simp add: vme_inv_def lru_ref_def)
    next
      case False
      with len W obtain xs a where as: "as = xs @ [a]" by (cases as rule: rev_cases) auto
      with False len have full: "Suc (length xs) = WARM_PAGES c" by simp
      show ?thesis
      proof (cases "stick (node_of s a)")
        case True
        then have "lru_ref (WARM_PAGES c) p (entries s as) = None"
          using find full as by (simp add: lru_ref_def payload_def)
        moreover have "ReferencePage c aes s p True = Inr (None, s)"
          using ReferencePage_pinned lru as full True p miss by blast
        ultimately show ?thesis using inv by auto
      next
        case unpinned: False
        have lru': "lru_ok c s (xs @ [a])" using lru as by simp
        obtain s1 where s1: "Enqueue_room c aes s = Inr (True, s1)" "room_ok c s1 xs"
          "warm s1 = warm s" "zero_page s1 = zero_page s" "brk s1 = brk s"
          "cold s1 = set_frame c (pageNumber (node_of s a))
            (ext_encrypt aes (frame c (warm_slot (node_of s a)) (warm s))) (cold s)"
          "hashes s1 = (hashes s)[pageNumber (node_of s a) := page_hash (frame c (warm_slot (node_of s a)) (warm s))]"
          "\<forall>b. b \<noteq> a \<longrightarrow> map_option payload (nodes s1 b) = map_option payload (nodes s b)"
          "free_warm s1 = warm_slot (node_of s a)"
          using Enqueue_room_evict [OF assms(1,2) lru' full unpinned] by blast
        have a: "pageNumber (node_of s a) < COLD_PAGES c" "a \<notin> set xs" "brk s \<notin> set as"
          using lru as by (auto simp: lru_ok_def hash_ok_def links_ok_def)
        have v1: "cold_ok c aes s1 xs" "\<forall>x<COLD_PAGES c. page_view c aes s1 x = page_view c aes s x"
          using evict_view [OF assms(1,2) lru' _ _ s1(2,3,6,7,8)] cold as nz a(1)
          by (auto simp: hashes_nonzero_def)
        have pg1: "\<forall>b\<in>set xs. pageNumber (node_of s1 b) = pageNumber (node_of s b)"
          using s1(8) a(2) by (metis payload_eqD(1))
        have miss1: "p \<notin> (\<lambda>a. pageNumber (node_of s1 a)) ` set xs"
          using miss as pg1 by auto
        note intact = room_ok_view(2) [OF assms(1,2) s1(2) v1(1) p miss1]
        obtain t where t: "ReferencePage c aes s p True = Inr (Some (brk s1), t)" "lru_ok c t (brk s1 # xs)"
          "warm t = set_frame c (free_warm s1) (fetched c aes s1 p) (warm s1)"
          "cold t = cold s1" "hashes t = hashes s1" "zero_page t = zero_page s1"
          "\<forall>b. b \<noteq> brk s1 \<longrightarrow> map_option payload (nodes t b) = map_option payload (nodes s1 b)"
          "map_option payload (nodes t (brk s1)) = Some (p, free_warm s1, True)"
          using ReferencePage_load [OF assms(1,2) lru p miss s1(1,2) miss1 intact] by blast
        have th: "hash_ok c t (brk s1 # xs)" "hash_ok c s as" using t(2) lru by (auto simp: lru_ok_def)
        have pgt: "\<forall>b\<in>set xs. pageNumber (node_of t b) = pageNumber (node_of s b)"
        proof
          fix b assume "b \<in> set xs"
          then have "b \<noteq> brk s1" using a(3) as s1(5) by auto
          with t(7) have "pageNumber (node_of t b) = pageNumber (node_of s1 b)" by (metis payload_eqD(1))
          with pg1 \<open>b \<in> set xs\<close> show "pageNumber (node_of t b) = pageNumber (node_of s b)" by simp
        qed
        have len_h: "length (hashes s) = COLD_PAGES c" using lru by (simp add: lru_ok_def sizes_ok_def)
        have nz_a: "page_hash (frame c (warm_slot (node_of s a)) (warm s)) \<noteq> 0"
          using nz [unfolded hashes_nonzero_def, rule_format, OF a(1)] page_view_cached [OF th(2), of a aes] as
          by simp
        have kn: "known s x \<longrightarrow> known t x" if "x < COLD_PAGES c" for x
          using that pgt nz_a as a(1) len_h
          by (auto simp: known_iff [OF th(1) that] known_iff [OF th(2) that] t(5) s1(7) nth_list_update)
        have "entries t xs = entries s xs"
        proof (rule entries_cong, rule ballI)
          fix b assume "b \<in> set xs"
          then have "b \<noteq> a" "b \<noteq> brk s1" using a(2,3) as s1(5) by auto
          with t(7) s1(8) show "map_option payload (nodes t b) = map_option payload (nodes s b)" by simp
        qed
        moreover have "payload (node_of t (brk s1)) = (p, warm_slot (node_of s a), True)"
          using t(8) s1(9) by auto
        ultimately show ?thesis
          using t(1,2,6) s1(4) v1(2) load_view [OF assms(1,2) s1(2) v1(1) p miss1 t(2-5,7,8)] find full unpinned as kn
          by (intro exI [of _ "Some (brk s1)"] exI [of _ t] exI [of _ "brk s1 # xs"])
            (simp add: vme_inv_def lru_ref_def payload_def)
      qed
    qed
  qed
qed

end
