(* ===== verification/VmeSpec.thy ===== *)
theory VmeSpec
  imports VmePaging
begin

text \<open>
  What the virtual memory engine promises its client, and that \<^verbatim>\<open>Enclave/vmem.c\<close>
  keeps it: a store of pages, a list of the cached ones and the set of pages that hold data.
  The abstract engine has no pointers, no frames of bytes, no encryption and no checksums.
\<close>

section \<open>Page-aligned accesses\<close>

lemma page_of_page:
  assumes "cfg_ok c" "p < COLD_PAGES c"
  shows "page_of c (int (PAGE_SIZE c * p)) = p"
    and "int (PAGE_SIZE c * p) sdiv int (PAGE_SIZE c) = int p"
proof -
  have b: "PAGE_SIZE c * p < 2 ^ 31" "0 < PAGE_SIZE c"
    using assms cold_frame_fits [of p c] cfg_ok_pos [of c] by (auto simp: cfg_ok_def)
  then have "1 * p \<le> PAGE_SIZE c * p" by (intro mult_le_mono1) simp
  with b have "p < 2 ^ 31" by linarith
  moreover from b show *: "int (PAGE_SIZE c * p) sdiv int (PAGE_SIZE c) = int p"
    by (simp add: signed_divide_int_def sgn_if)
  ultimately show "page_of c (int (PAGE_SIZE c * p)) = p"
    by (simp add: page_of_def *)
qed

lemma page_aligned:
  assumes "cfg_ok c"
  shows "int (PAGE_SIZE c * p) AND int (PAGE_SIZE c - 1) = 0"
proof -
  obtain k where k: "PAGE_SIZE c = 2 ^ k" using assms by (auto simp: cfg_ok_def)
  then have "int (PAGE_SIZE c - 1) = mask k"
    by (simp add: mask_eq_exp_minus_1 of_nat_diff)
  then show ?thesis
    by (simp add: k take_bit_eq_mod flip: take_bit_eq_mask)
qed

section \<open>The engine's operations keep the invariant\<close>

text \<open>The node \<^verbatim>\<open>ReferencePage\<close> returned, and its frame.\<close>

lemma referenced:
  assumes "vme_inv c aes s as" "as \<noteq> []" "entries s as = (p, w, True) # es"
  shows "\<exists>n. nodes s (hd as) = Some n \<and> pageNumber n = p \<and> warm_slot n = w \<and> w < WARM_PAGES c
    \<and> hd as \<in> set as \<and> pageNumber (node_of s (hd as)) = p"
proof -
  obtain a bs where as: "as = a # bs" using assms(2) by (cases as) auto
  then obtain n where n: "nodes s a = Some n"
    using node_exists assms(1) by (fastforce simp: vme_inv_def lru_ok_def)
  with assms as show ?thesis
    by (auto simp: vme_inv_def lru_ok_def slots_ok_def payload_def)
qed

lemma lru_ref_front: "lru_ref frames p es = Some es' \<Longrightarrow> \<exists>w es''. es' = (p, w, True) # es''"
  by (auto simp: lru_ref_def split: option.splits if_splits prod.splits)

text \<open>Writing through to the frame of a cached page.\<close>

lemma write_cached:
  assumes "cfg_ok c" "vme_inv c aes s as" "a \<in> set as" "length src \<le> PAGE_SIZE c"
  defines "s' \<equiv> s\<lparr>warm := set_frame c (warm_slot (node_of s a)) src (warm s)\<rparr>"
    and "p \<equiv> pageNumber (node_of s a)"
  shows "vme_inv c aes s' as" "entries s' as = entries s as" "known s' = known s"
    and "\<forall>x<COLD_PAGES c. page_view c aes s' x =
      (if x = p then buf_write 0 src (page_view c aes s x) else page_view c aes s x)"
proof -
  have s: "hash_ok c s as" "slots_ok c s as" "length (warm s) = WARM_MEM_SIZE c"
      "warm_slot (node_of s a) < WARM_PAGES c"
    using assms(2,3) by (auto simp: vme_inv_def lru_ok_def slots_ok_def sizes_ok_def)
  have th: "hash_ok c s' as" using s(1) by (simp add: hash_ok_def s'_def)
  show "vme_inv c aes s' as"
    using assms(2,4) s(3) warm_frame_fits [OF s(4)] by (simp add: vme_inv_def inv_defs cold_ok_def s'_def)
  show "entries s' as = entries s as" by (simp add: entries_def s'_def)
  show "known s' = known s" by (simp add: fun_eq_iff known_def hash_get_def s'_def)
  show "\<forall>x<COLD_PAGES c. page_view c aes s' x =
      (if x = p then buf_write 0 src (page_view c aes s x) else page_view c aes s x)"
  proof (intro allI impI)
    fix x assume x: "x < COLD_PAGES c"
    consider b where "b \<in> set as" "x = pageNumber (node_of s b)"
      | "x \<notin> (\<lambda>a. pageNumber (node_of s a)) ` set as" by auto
    then show "page_view c aes s' x =
      (if x = p then buf_write 0 src (page_view c aes s x) else page_view c aes s x)"
    proof cases
      case (1 b)
      have v: "page_view c aes s' x = frame c (warm_slot (node_of s b)) (warm s')"
          "page_view c aes s x = frame c (warm_slot (node_of s b)) (warm s)"
        using page_view_cached [OF th 1(1), of aes] page_view_cached [OF s(1) 1(1), of aes] 1(2)
        by (simp_all add: s'_def)
      have b: "warm_slot (node_of s b) < WARM_PAGES c" using s(2) 1(1) by (simp add: slots_ok_def)
      show ?thesis
      proof (cases "b = a")
        case True
        with v 1(2) s(3) warm_frame_fits [OF s(4)] assms(4) show ?thesis
          by (simp add: s'_def p_def frame_set_frame_same)
      next
        case False
        then have "x \<noteq> p" using hash_ok_inj [OF s(1) 1(1) assms(3)] 1(2) by (auto simp: p_def)
        moreover have "warm_slot (node_of s a) \<noteq> warm_slot (node_of s b)"
          using s(2) False 1(1) assms(3) by (auto simp: slots_ok_def distinct_map inj_on_def)
        ultimately show ?thesis
          using v s(3) warm_frame_fits [OF s(4)] warm_frame_fits [OF b] assms(4)
          by (simp add: s'_def frame_set_frame_other)
      qed
    next
      case 2
      then have "x \<noteq> p" using assms(3) by (auto simp: p_def)
      with page_view_uncached [OF th x, of aes] page_view_uncached [OF s(1) x, of aes] 2
      show ?thesis by (simp add: s'_def)
    qed
  qed
qed

text \<open>Writing past the cache, straight to the cold store.\<close>

lemma write_uncached:
  assumes "cfg_ok c" "aes_ok aes" "vme_inv c aes s as" "p < COLD_PAGES c"
    and miss: "p \<notin> (\<lambda>a. pageNumber (node_of s a)) ` set as"
    and src: "length src = PAGE_SIZE c" "page_hash src \<noteq> 0"
  defines "s' \<equiv> s\<lparr>cold := set_frame c p (ext_encrypt aes src) (cold s), hashes := (hashes s)[p := page_hash src]\<rparr>"
  shows "vme_inv c aes s' as" "entries s' as = entries s as" "\<forall>x<COLD_PAGES c. known s' x \<longleftrightarrow> x = p \<or> known s x"
    and "\<forall>x<COLD_PAGES c. page_view c aes s' x = (if x = p then src else page_view c aes s x)"
proof -
  have s: "hash_ok c s as" "COLD_MEM_SIZE c \<le> length (cold s)" "length (hashes s) = COLD_PAGES c"
    using assms(3) by (auto simp: vme_inv_def lru_ok_def sizes_ok_def)
  have len: "length (ext_encrypt aes src) = PAGE_SIZE c"
    using assms(2) src by (simp add: aes_ok_def ext_encrypt_def)
  have th: "hash_ok c s' as" using s(1) by (simp add: hash_ok_def s'_def)
  have dec: "ext_decrypt aes (frame c p (cold s')) = src"
    using len s(2) cold_frame_fits [OF assms(4)] assms(2)
    by (simp add: s'_def frame_set_frame_same buf_write_all ext_decrypt_def ext_encrypt_def aes_ok_def)
  have other: "frame c x (cold s') = frame c x (cold s)" if "x \<noteq> p" "x < COLD_PAGES c" for x
    using that len s(2) cold_frame_fits [OF assms(4)] cold_frame_fits [OF that(2)]
    by (simp add: s'_def frame_set_frame_other)
  have hash: "hashes s' ! x = (if x = p then page_hash src else hashes s ! x)" if "x < COLD_PAGES c" for x
    using that s(3) by (simp add: s'_def nth_list_update)
  have cold: "cold_ok c aes s as" using assms(3) by (simp add: vme_inv_def)
  have "cold_ok c aes s' as"
    unfolding cold_ok_def
  proof (intro allI impI)
    fix x assume "x < COLD_PAGES c" "x \<notin> (\<lambda>a. pageNumber (node_of s' a)) ` set as" "hashes s' ! x \<noteq> 0"
    then show "page_hash (ext_decrypt aes (frame c x (cold s'))) = hashes s' ! x"
      using cold dec other hash by (cases "x = p") (auto simp: cold_ok_def s'_def)
  qed
  then show "vme_inv c aes s' as"
    using assms(3) len s(2) cold_frame_fits [OF assms(4)]
    by (simp add: vme_inv_def inv_defs s'_def)
  show "entries s' as = entries s as" by (simp add: entries_def s'_def)
  show "\<forall>x<COLD_PAGES c. known s' x \<longleftrightarrow> x = p \<or> known s x"
    using hash src(2) by (auto simp: known_def hash_get_def s'_def)
  show "\<forall>x<COLD_PAGES c. page_view c aes s' x = (if x = p then src else page_view c aes s x)"
  proof (intro allI impI)
    fix x assume x: "x < COLD_PAGES c"
    show "page_view c aes s' x = (if x = p then src else page_view c aes s x)"
    proof (cases "x = p")
      case True
      with page_view_uncached [OF th x, of aes] miss hash [OF x] dec src(2) show ?thesis
        by (simp add: s'_def)
    next
      case False
      then show ?thesis
        using hash [OF x] other [OF False x] by (simp add: page_view_def hash_get_def s'_def split: option.split sum.split)
    qed
  qed
qed

section \<open>The abstract engine\<close>

record page_store =
  contents :: "nat \<Rightarrow> bytes"
  lru :: "entry list"
  stored :: "nat set"

datatype vme_op = CopyTo nat bytes | CopyFrom nat nat | PageUp nat | PageDown nat

datatype vme_out = Done | Data nat bytes | Mapped int

text \<open>
  \<^theory_text>\<open>CopyTo p src\<close> writes the first bytes of page \<^theory_text>\<open>p\<close>,
  \<^theory_text>\<open>CopyFrom p len\<close> reads them, \<^theory_text>\<open>PageUp\<close> and \<^theory_text>\<open>PageDown\<close> pin and
  unpin. \<^theory_text>\<open>None\<close> is a call outside the engine's contract: page 0, which the engine keeps
  apart; a part of a page, or a page that was never touched, when every frame is pinned; a page
  that cannot be mapped because every frame is pinned; unpinning a page that is not cached;
  contents whose checksum is 0.
\<close>

definition touch :: "vme_cfg \<Rightarrow> nat \<Rightarrow> page_store \<Rightarrow> page_store" where
  "touch c p A = A\<lparr>lru := (case lru_ref (WARM_PAGES c) p (lru A) of None \<Rightarrow> lru A | Some es \<Rightarrow> es),
                    stored := insert p (stored A)\<rparr>"

fun spec_exec :: "vme_cfg \<Rightarrow> page_store \<Rightarrow> vme_op \<Rightarrow> (vme_out \<times> page_store) option" where
  "spec_exec c A (CopyTo p src) =
     (let new = buf_write 0 src (contents A p) in
      if 0 < p \<and> p < COLD_PAGES c \<and> length src \<le> PAGE_SIZE c \<and> page_hash new \<noteq> 0
         \<and> (length src = PAGE_SIZE c \<or> lru_ref (WARM_PAGES c) p (lru A) \<noteq> None)
      then Some (Done, (touch c p A)\<lparr>contents := (contents A)(p := new)\<rparr>) else None)"
| "spec_exec c A (CopyFrom p len) =
     (if 0 < p \<and> p < COLD_PAGES c \<and> len \<le> PAGE_SIZE c
         \<and> (lru_ref (WARM_PAGES c) p (lru A) \<noteq> None \<or> (len = PAGE_SIZE c \<and> p \<in> stored A))
      then Some (Data 0 (take len (contents A p)), touch c p A) else None)"
| "spec_exec c A (PageUp p) =
     (if 0 < p \<and> p < COLD_PAGES c
      then (case lru_ref (WARM_PAGES c) p (lru A) of
              None \<Rightarrow> None
            | Some es \<Rightarrow> Some (Mapped (int (PAGE_SIZE c * fst (snd (hd es)))), touch c p A))
      else None)"
| "spec_exec c A (PageDown p) =
     (if p \<in> fst ` set (lru A) then Some (Done, A\<lparr>lru := lru_unpin p (lru A)\<rparr>) else None)"

fun spec_run :: "vme_cfg \<Rightarrow> page_store \<Rightarrow> vme_op list \<Rightarrow> (vme_out list \<times> page_store) option" where
  "spec_run c A [] = Some ([], A)"
| "spec_run c A (x # xs) =
     (case spec_exec c A x of None \<Rightarrow> None
      | Some (out, A) \<Rightarrow> (case spec_run c A xs of None \<Rightarrow> None | Some (outs, A) \<Rightarrow> Some (out # outs, A)))"

text \<open>The same calls, on the code's model.\<close>

fun vme_exec :: "vme_cfg \<Rightarrow> ipp_aes \<Rightarrow> vme \<Rightarrow> vme_op \<Rightarrow> (vme_out \<times> vme) vres" where
  "vme_exec c aes s (CopyTo p src) =
     bindE (copy_to c aes s (int (PAGE_SIZE c * p)) src) (\<lambda>s. Inr (Done, s))"
| "vme_exec c aes s (CopyFrom p len) =
     bindE (copy_from c aes s (int (PAGE_SIZE c * p)) len) (\<lambda>(rc, dst, s). Inr (Data rc dst, s))"
| "vme_exec c aes s (PageUp p) = bindE (page_up c aes s p) (\<lambda>(off, s). Inr (Mapped off, s))"
| "vme_exec c aes s (PageDown p) = bindE (page_down s p) (\<lambda>s. Inr (Done, s))"

fun vme_run :: "vme_cfg \<Rightarrow> ipp_aes \<Rightarrow> vme \<Rightarrow> vme_op list \<Rightarrow> (vme_out list \<times> vme) vres" where
  "vme_run c aes s [] = Inr ([], s)"
| "vme_run c aes s (x # xs) =
     bindE (vme_exec c aes s x) (\<lambda>(out, s).
     bindE (vme_run c aes s xs) (\<lambda>(outs, s). Inr (out # outs, s)))"

section \<open>Simulation\<close>

definition simulates :: "vme_cfg \<Rightarrow> ipp_aes \<Rightarrow> vme \<Rightarrow> page_store \<Rightarrow> bool" where
  "simulates c aes s A \<longleftrightarrow> (\<exists>as. vme_inv c aes s as \<and> entries s as = lru A)
     \<and> (\<forall>p<COLD_PAGES c. page_view c aes s p = contents A p \<and> page_hash (contents A p) \<noteq> 0
          \<and> length (contents A p) = PAGE_SIZE c \<and> (p \<in> stored A \<longrightarrow> known s p))"

lemma hash_get_page:
  assumes "vme_inv c aes s as" "p < COLD_PAGES c"
  shows "hash_get s p = Inr None \<longleftrightarrow> p \<notin> (\<lambda>a. pageNumber (node_of s a)) ` set as"
  using assms hash_get_cached [of c s as] hash_get_uncached [of c s as p]
  by (auto simp: vme_inv_def lru_ok_def)

lemma lru_ref_None_miss:
  "lru_ref frames p es = None \<Longrightarrow> find (\<lambda>e. fst e = p) es = None"
  by (simp add: lru_ref_def split: option.splits)

lemma find_entries:
  "find (\<lambda>e. fst e = p) (entries s as) = None \<longleftrightarrow> p \<notin> (\<lambda>a. pageNumber (node_of s a)) ` set as"
  by (induction as) (auto simp: payload_def)

text \<open>
  After \<^verbatim>\<open>ReferencePage\<close>: the state simulates the abstract store with the page
  moved to the front and pinned.
\<close>

lemma ReferencePage_simulates:
  assumes "cfg_ok c" "aes_ok aes" "simulates c aes s A" "p < COLD_PAGES c"
  shows "\<exists>r s' as'. ReferencePage c aes s p True = Inr (r, s') \<and> vme_inv c aes s' as' \<and> zero_page s' = zero_page s
    \<and> (\<forall>x<COLD_PAGES c. page_view c aes s' x = contents A x \<and> (x \<in> stored A \<longrightarrow> known s' x))
    \<and> entries s' as' = lru (touch c p A)
    \<and> (case lru_ref (WARM_PAGES c) p (lru A) of
          None \<Rightarrow> r = None \<and> p \<notin> (\<lambda>a. pageNumber (node_of s' a)) ` set as'
        | Some es \<Rightarrow> (\<exists>n. r = Some (hd as') \<and> hd as' \<in> set as' \<and> nodes s' (hd as') = Some n
            \<and> pageNumber n = p \<and> warm_slot n = fst (snd (hd es)) \<and> warm_slot n < WARM_PAGES c \<and> known s' p))"
proof -
  obtain as where as: "vme_inv c aes s as" "entries s as = lru A"
    using assms(3) by (auto simp: simulates_def)
  have "hashes_nonzero c aes s"
    using assms(3) by (simp add: simulates_def hashes_nonzero_def)
  from ReferencePage_spec [OF assms(1,2) as(1) assms(4) this]
  obtain r s' as' where R: "ReferencePage c aes s p True = Inr (r, s')" "vme_inv c aes s' as'"
    "\<forall>x<COLD_PAGES c. page_view c aes s' x = page_view c aes s x \<and> (known s x \<longrightarrow> known s' x)"
    "zero_page s' = zero_page s"
    "case lru_ref (WARM_PAGES c) p (entries s as) of
          None \<Rightarrow> r = None \<and> s' = s \<and> as' = as
        | Some es \<Rightarrow> entries s' as' = es \<and> as' \<noteq> [] \<and> r = Some (hd as')" by blast
  have data: "\<forall>x<COLD_PAGES c. page_view c aes s' x = contents A x \<and> (x \<in> stored A \<longrightarrow> known s' x)"
    using R(3) assms(3) by (simp add: simulates_def)
  show ?thesis
  proof (cases "lru_ref (WARM_PAGES c) p (lru A)")
    case None
    then have "p \<notin> (\<lambda>a. pageNumber (node_of s a)) ` set as"
      using lru_ref_None_miss as(2) find_entries by metis
    with None R data as show ?thesis by (auto simp: touch_def)
  next
    case (Some es)
    then obtain w es' where es: "es = (p, w, True) # es'" using lru_ref_front by blast
    have e: "entries s' as' = es" "as' \<noteq> []" "r = Some (hd as')" using R(5) Some as(2) by auto
    from referenced [OF R(2) e(2)] e(1) es
    obtain n where n: "nodes s' (hd as') = Some n" "pageNumber n = p" "warm_slot n = w"
      "w < WARM_PAGES c" "hd as' \<in> set as'" by auto
    then have "p \<in> (\<lambda>a. pageNumber (node_of s' a)) ` set as'"
      by (intro image_eqI [of _ _ "hd as'"]) auto
    then have "known s' p"
      using R(2) assms(4) by (simp add: vme_inv_def lru_ok_def known_iff [of c s' as'])
    with n e R(1,2,4) data Some es show ?thesis by (auto simp: touch_def)
  qed
qed

lemma copy_to_simulates:
  assumes "cfg_ok c" "aes_ok aes" "simulates c aes s A" "spec_exec c A (CopyTo p src) = Some (out, A')"
  shows "\<exists>s'. copy_to c aes s (int (PAGE_SIZE c * p)) src = Inr s' \<and> simulates c aes s' A' \<and> out = Done
    \<and> zero_page s' = zero_page s"
proof -
  let ?new = "buf_write 0 src (contents A p)"
  have pre: "0 < p" "p < COLD_PAGES c" "length src \<le> PAGE_SIZE c" "page_hash ?new \<noteq> 0" "out = Done"
      "length src = PAGE_SIZE c \<or> lru_ref (WARM_PAGES c) p (lru A) \<noteq> None"
      "A' = (touch c p A)\<lparr>contents := (contents A)(p := ?new)\<rparr>"
    using assms(4) by (auto simp: Let_def split: if_splits)
  note po = page_of_page [OF assms(1) pre(2)]
  have len: "\<forall>x<COLD_PAGES c. length (contents A x) = PAGE_SIZE c \<and> page_hash (contents A x) \<noteq> 0"
    using assms(3) by (simp add: simulates_def)
  obtain r s1 as' where R: "ReferencePage c aes s p True = Inr (r, s1)" "vme_inv c aes s1 as'"
    "zero_page s1 = zero_page s"
    "\<forall>x<COLD_PAGES c. page_view c aes s1 x = contents A x \<and> (x \<in> stored A \<longrightarrow> known s1 x)"
    "entries s1 as' = lru (touch c p A)"
    "case lru_ref (WARM_PAGES c) p (lru A) of
          None \<Rightarrow> r = None \<and> p \<notin> (\<lambda>a. pageNumber (node_of s1 a)) ` set as'
        | Some es \<Rightarrow> (\<exists>n. r = Some (hd as') \<and> hd as' \<in> set as' \<and> nodes s1 (hd as') = Some n
            \<and> pageNumber n = p \<and> warm_slot n = fst (snd (hd es)) \<and> warm_slot n < WARM_PAGES c \<and> known s1 p)"
    using ReferencePage_simulates [OF assms(1-3) pre(2)] by blast
  have nz: "int (PAGE_SIZE c * p) \<noteq> 0" using pre(1) cfg_ok_pos [OF assms(1)] by simp
  show ?thesis
  proof (cases "lru_ref (WARM_PAGES c) p (lru A)")
    case None
    then have src: "length src = PAGE_SIZE c" "?new = src" using pre(2,6) len by (auto simp: buf_write_all)
    have miss: "r = None" "p \<notin> (\<lambda>a. pageNumber (node_of s1 a)) ` set as'" using R(6) None by auto
    let ?s = "s1\<lparr>cold := set_frame c p (ext_encrypt aes src) (cold s1), hashes := (hashes s1)[p := page_hash src]\<rparr>"
    have lens: "length (ext_encrypt aes src) = PAGE_SIZE c" "COLD_MEM_SIZE c \<le> length (cold s1)"
        "length (hashes s1) = COLD_PAGES c"
      using assms(2) src R(2) by (auto simp: aes_ok_def ext_encrypt_def vme_inv_def lru_ok_def sizes_ok_def)
    have run: "copy_to c aes s (int (PAGE_SIZE c * p)) src = Inr ?s"
      using nz R(1) miss po lens pre(2) cold_frame_fits [OF pre(2)]
      by (simp add: copy_to_def mem_write_def hashes_set_def set_frame_def del: of_nat_mult)
    note W = write_uncached [OF assms(1,2) R(2) pre(2) miss(2) src(1)]
    have "simulates c aes ?s A'"
      unfolding simulates_def
      using W R(4,5) pre(4,7) src len
      by (intro conjI exI [of _ as']) (auto simp: touch_def)
    with run pre(5) R(3) show ?thesis by auto
  next
    case (Some es)
    with R(6) obtain n where n: "r = Some (hd as')" "hd as' \<in> set as'" "nodes s1 (hd as') = Some n"
      "pageNumber n = p" "warm_slot n < WARM_PAGES c" "known s1 p" by auto
    let ?s = "s1\<lparr>warm := set_frame c (warm_slot (node_of s1 (hd as'))) src (warm s1)\<rparr>"
    have "length (warm s1) = WARM_MEM_SIZE c" using R(2) by (simp add: vme_inv_def lru_ok_def sizes_ok_def)
    then have run: "copy_to c aes s (int (PAGE_SIZE c * p)) src = Inr ?s"
      using nz R(1) po n pre(3) write_warm_frame [OF assms(1) n(5) _ pre(3)]
      by (simp add: copy_to_def access_simps del: of_nat_mult)
    note W = write_cached [OF assms(1) R(2) n(2) pre(3)]
    have "simulates c aes ?s A'"
      unfolding simulates_def
      using W R(4,5) pre(2,3,4,7) n len
      by (intro conjI exI [of _ as']) (auto simp: touch_def)
    with run pre(5) R(3) show ?thesis by auto
  qed
qed

lemma simulates_touch:
  assumes "simulates c aes s A" "vme_inv c aes s1 as'" "entries s1 as' = lru (touch c p A)"
    and "\<forall>x<COLD_PAGES c. page_view c aes s1 x = contents A x \<and> (x \<in> stored A \<longrightarrow> known s1 x)"
    and "p < COLD_PAGES c \<Longrightarrow> known s1 p"
  shows "simulates c aes s1 (touch c p A)"
  using assms unfolding simulates_def by (intro conjI exI [of _ as']) (auto simp: touch_def)

lemma copy_from_simulates:
  assumes "cfg_ok c" "aes_ok aes" "simulates c aes s A" "spec_exec c A (CopyFrom p len) = Some (out, A')"
  shows "\<exists>dst s'. copy_from c aes s (int (PAGE_SIZE c * p)) len = Inr (0, dst, s') \<and> simulates c aes s' A'
    \<and> out = Data 0 dst \<and> zero_page s' = zero_page s"
proof -
  have pre: "0 < p" "p < COLD_PAGES c" "len \<le> PAGE_SIZE c" "out = Data 0 (take len (contents A p))"
      "lru_ref (WARM_PAGES c) p (lru A) \<noteq> None \<or> (len = PAGE_SIZE c \<and> p \<in> stored A)" "A' = touch c p A"
    using assms(4) by (auto simp: Let_def split: if_splits)
  note po = page_of_page [OF assms(1) pre(2)]
  have lenA: "\<forall>x<COLD_PAGES c. length (contents A x) = PAGE_SIZE c"
    using assms(3) by (simp add: simulates_def)
  obtain r s1 as' where R: "ReferencePage c aes s p True = Inr (r, s1)" "vme_inv c aes s1 as'"
    "zero_page s1 = zero_page s"
    "\<forall>x<COLD_PAGES c. page_view c aes s1 x = contents A x \<and> (x \<in> stored A \<longrightarrow> known s1 x)"
    "entries s1 as' = lru (touch c p A)"
    "case lru_ref (WARM_PAGES c) p (lru A) of
          None \<Rightarrow> r = None \<and> p \<notin> (\<lambda>a. pageNumber (node_of s1 a)) ` set as'
        | Some es \<Rightarrow> (\<exists>n. r = Some (hd as') \<and> hd as' \<in> set as' \<and> nodes s1 (hd as') = Some n
            \<and> pageNumber n = p \<and> warm_slot n = fst (snd (hd es)) \<and> warm_slot n < WARM_PAGES c \<and> known s1 p)"
    using ReferencePage_simulates [OF assms(1-3) pre(2)] by blast
  have hash: "hash_ok c s1 as'" and lens: "length (warm s1) = WARM_MEM_SIZE c"
      "COLD_MEM_SIZE c \<le> length (cold s1)" "length (hashes s1) = COLD_PAGES c"
    using R(2) by (auto simp: vme_inv_def lru_ok_def sizes_ok_def)
  have view: "page_view c aes s1 p = contents A p" using R(4) pre(2) by simp
  show ?thesis
  proof (cases "lru_ref (WARM_PAGES c) p (lru A)")
    case None
    then have miss: "r = None" "p \<notin> (\<lambda>a. pageNumber (node_of s1 a)) ` set as'" and len: "len = PAGE_SIZE c" "p \<in> stored A"
      using R(6) pre(5) by auto
    have kn: "known s1 p" using R(4) len(2) pre(2) by simp
    then have h: "hashes s1 ! p \<noteq> 0" using miss(2) known_iff [OF hash pre(2)] by simp
    have dec: "ext_decrypt aes (frame c p (cold s1)) = contents A p"
      using page_view_uncached [OF hash pre(2) miss(2), of aes] view h by simp
    have ok: "page_hash (contents A p) = hashes s1 ! p"
      using R(2) [unfolded vme_inv_def cold_ok_def, THEN conjunct2, rule_format, OF pre(2) miss(2) h] dec
      by simp
    have "copy_from c aes s (int (PAGE_SIZE c * p)) len = Inr (0, contents A p, s1)"
      using R(1) miss po pre(1,2) len page_aligned [OF assms(1)] dec ok lens cold_frame_fits [OF pre(2)]
      by (simp add: copy_from_def mem_read_def hashes_get_def frame_def del: of_nat_mult)
    with kn pre(4,6) len lenA pre(2) R(3) simulates_touch [OF assms(3) R(2,5,4)] show ?thesis by simp
  next
    case (Some es)
    with R(6) obtain n where n: "r = Some (hd as')" "hd as' \<in> set as'" "nodes s1 (hd as') = Some n"
      "pageNumber n = p" "warm_slot n < WARM_PAGES c" "known s1 p" by auto
    have fr: "frame c (warm_slot n) (warm s1) = contents A p"
      using page_view_cached [OF hash n(2), of aes] n view by simp
    have "mem_read (warm s1) (frame_off c (warm_slot n)) len = Inr (take len (contents A p))"
      using fr lens pre(3) warm_frame_fits [OF n(5)]
      by (simp add: mem_read_def frame_off_warm [OF assms(1) n(5)] frame_def buf_read_def min_def
          flip: fr del: of_nat_mult)
    then have "copy_from c aes s (int (PAGE_SIZE c * p)) len = Inr (0, take len (contents A p), s1)"
      using R(1) po pre(1,2) n page_aligned [OF assms(1)]
      by (simp add: copy_from_def access_simps del: of_nat_mult)
    with n(6) pre(4,6) R(3) simulates_touch [OF assms(3) R(2,5,4)] show ?thesis by simp
  qed
qed

lemma page_up_simulates:
  assumes "cfg_ok c" "aes_ok aes" "simulates c aes s A" "spec_exec c A (PageUp p) = Some (out, A')"
  shows "\<exists>off s'. page_up c aes s p = Inr (off, s') \<and> simulates c aes s' A' \<and> out = Mapped off
    \<and> zero_page s' = zero_page s"
proof -
  obtain es where pre: "0 < p" "p < COLD_PAGES c" "lru_ref (WARM_PAGES c) p (lru A) = Some es"
      "out = Mapped (int (PAGE_SIZE c * fst (snd (hd es))))" "A' = touch c p A"
    using assms(4) by (auto split: if_splits option.splits)
  obtain s1 as' n where R: "ReferencePage c aes s p True = Inr (Some (hd as'), s1)" "vme_inv c aes s1 as'"
    "zero_page s1 = zero_page s"
    "\<forall>x<COLD_PAGES c. page_view c aes s1 x = contents A x \<and> (x \<in> stored A \<longrightarrow> known s1 x)"
    "entries s1 as' = lru (touch c p A)"
    "nodes s1 (hd as') = Some n" "warm_slot n = fst (snd (hd es))" "warm_slot n < WARM_PAGES c" "known s1 p"
    using ReferencePage_simulates [OF assms(1-3) pre(2)] pre(3) by auto
  then have "page_up c aes s p = Inr (int (PAGE_SIZE c * fst (snd (hd es))), s1)"
    by (simp add: page_up_def access_simps frame_off_warm [OF assms(1)] del: of_nat_mult)
  with pre(4,5) R(3,9) simulates_touch [OF assms(3) R(2,5,4)] show ?thesis by simp
qed

lemma page_down_simulates:
  assumes "simulates c aes s A" "spec_exec c A (PageDown p) = Some (out, A')"
  shows "\<exists>s'. page_down s p = Inr s' \<and> simulates c aes s' A' \<and> out = Done \<and> zero_page s' = zero_page s"
proof -
  have pre: "p \<in> fst ` set (lru A)" "out = Done" "A' = A\<lparr>lru := lru_unpin p (lru A)\<rparr>"
    using assms(2) by (auto split: if_splits)
  obtain as where as: "vme_inv c aes s as" "entries s as = lru A"
    using assms(1) by (auto simp: simulates_def)
  from pre(1) obtain a where "a \<in> set as" and pg: "pageNumber (node_of s a) = p"
    by (auto simp: entries_def payload_def simp flip: as(2))
  then obtain xs ys where split: "as = xs @ a # ys" "pageNumber (node_of s a) = p"
    using split_list by fast
  have lru: "lru_ok c s (xs @ a # ys)" and cold: "cold_ok c aes s as"
    using as(1) split by (auto simp: vme_inv_def)
  then have hash: "hash_ok c s (xs @ a # ys)" and dist: "distinct (xs @ a # ys)"
    by (auto simp: lru_ok_def links_ok_def)
  obtain s' where s': "DeReferencePage s p = Inr s'" "s' = s\<lparr>nodes := nodes s', vq := vq s'\<rparr>"
    "lru_ok c s' (xs @ ys @ [a])"
    "\<forall>b. b \<noteq> a \<longrightarrow> map_option payload (nodes s' b) = map_option payload (nodes s b)"
    "map_option payload (nodes s' a) = Some (p, warm_slot (node_of s a), False)"
    using DeReferencePage_hit [OF lru] split(2) by auto
  have mem: "warm s' = warm s" "cold s' = cold s" "hashes s' = hashes s" "vhash s' = vhash s"
      "zero_page s' = zero_page s"
    by (subst s'(2), simp)+
  have fields: "pageNumber (node_of s' b) = pageNumber (node_of s b)"
      "warm_slot (node_of s' b) = warm_slot (node_of s b)" for b
    using s'(4,5) split(2) payload_eqD [of "nodes s' b" "nodes s b"]
    by (cases "b = a"; auto simp: payload_def)+
  have "entries s' (xs @ ys) = entries s (xs @ ys)"
    using s'(4) dist by (intro entries_cong) auto
  moreover have "payload (node_of s' a) = (p, warm_slot (node_of s a), False)"
    using s'(5) by auto
  ultimately have "entries s' (xs @ ys @ [a]) = lru A'"
    using entries_split [OF hash dist] split pre(3) as(2)
    by (simp add: lru_unpin_def payload_def flip: as(2))
  moreover have "cold_ok c aes s' (xs @ ys @ [a])"
    using cold split mem fields by (auto simp: cold_ok_def)
  moreover have "page_view c aes s' x = page_view c aes s x" "known s' x = known s x" for x
    by (simp_all add: page_view_def known_def hash_get_def mem fields split: option.split sum.split)
  ultimately have "simulates c aes s' A'"
    using assms(1) s'(3) pre(3) unfolding simulates_def
    by (intro conjI exI [of _ "xs @ ys @ [a]"]) (auto simp: vme_inv_def)
  with s'(1) pre(2) mem(5) show ?thesis by (simp add: page_down_def)
qed

lemma vme_exec_simulates:
  assumes "cfg_ok c" "aes_ok aes" "simulates c aes s A" "spec_exec c A x = Some (out, A')"
  shows "\<exists>s'. vme_exec c aes s x = Inr (out, s') \<and> simulates c aes s' A'"
proof (cases x)
  case (CopyTo p src)
  with copy_to_simulates [OF assms(1-3)] assms(4) show ?thesis by fastforce
next
  case (CopyFrom p len)
  with copy_from_simulates [OF assms(1-3)] assms(4) show ?thesis by fastforce
next
  case (PageUp p)
  with page_up_simulates [OF assms(1-3)] assms(4) show ?thesis by fastforce
next
  case (PageDown p)
  with page_down_simulates [OF assms(3)] assms(4) show ?thesis by fastforce
qed

lemma vme_run_simulates:
  assumes "cfg_ok c" "aes_ok aes"
  shows "simulates c aes s A \<Longrightarrow> spec_run c A xs = Some (outs, A') \<Longrightarrow>
    \<exists>s'. vme_run c aes s xs = Inr (outs, s') \<and> simulates c aes s' A'"
proof (induction xs arbitrary: s A outs)
  case Nil
  then show ?case by simp
next
  case (Cons x xs)
  then obtain out A1 outs1 where step: "spec_exec c A x = Some (out, A1)" "spec_run c A1 xs = Some (outs1, A')"
      "outs = out # outs1"
    by (auto split: option.splits)
  with vme_exec_simulates [OF assms Cons.prems(1)] Cons.IH show ?case by fastforce
qed

end
