(* ===== verification/VmeSafety.thy ===== *)
theory VmeSafety
  imports VmeSpec
begin

text \<open>
  The engine of \<^verbatim>\<open>Enclave/vmem.c\<close> against the untrusted memory: starting and
  purging the cache, what a page whose checksum does not match does to every access, and
  the reachable states of an engine whose backing store the application may overwrite
  between any two calls.
\<close>

section \<open>Starting and purging the cache\<close>

text \<open>A queue whose nodes may be evicted one by one, whatever the page table says.\<close>

definition purgeable :: "vme_cfg \<Rightarrow> vme \<Rightarrow> addr list \<Rightarrow> bool" where
  "purgeable c s as \<longleftrightarrow> links_ok c s as \<and> sizes_ok c s
     \<and> (\<forall>a\<in>set as. pageNumber (node_of s a) < COLD_PAGES c \<and> warm_slot (node_of s a) < WARM_PAGES c)"

lemma lru_ok_purgeable: "lru_ok c s as \<Longrightarrow> purgeable c s as"
  by (simp add: lru_ok_def purgeable_def hash_ok_def slots_ok_def)

lemma deQueue_purgeable:
  assumes "cfg_ok c" "aes_ok aes" "purgeable c s (xs @ [a])"
  shows "\<exists>s'. deQueue c aes s = Inr s' \<and> purgeable c s' xs"
proof -
  have l: "links_ok c s (xs @ [a])" "sizes_ok c s" using assms(3) by (auto simp: purgeable_def)
  obtain n where n: "nodes s a = Some n" using node_exists [OF l(1), of a] by auto
  have b: "pageNumber n < COLD_PAGES c" "warm_slot n < WARM_PAGES c"
    using assms(3) n by (auto simp: purgeable_def)
  let ?qu = "\<lparr>q_count = Suc (length xs), numberOfFrames = WARM_PAGES c,
    front = first_of (xs @ [a]) None, rear = last_of None (xs @ [a])\<rparr>"
  have "Suc (length xs) < 2 ^ 32"
    using WARM_PAGES_bound [OF assms(1)] l(1) by (simp add: links_ok_def)
  then obtain s' where s': "deQueue c aes s = Inr s'" "dll (nodes s') None xs None"
    "\<forall>b. b \<noteq> a \<longrightarrow> map_option payload (nodes s' b) = map_option payload (nodes s b)"
    "s' = s\<lparr>nodes := nodes s', vq := Some (?qu\<lparr>front := first_of xs None, rear := last_of None xs,
        q_count := length xs\<rparr>),
        cold := set_frame c (pageNumber n) (ext_encrypt aes (frame c (warm_slot n) (warm s))) (cold s),
        hashes := (hashes s)[pageNumber n := page_hash (frame c (warm_slot n) (warm s))],
        free_warm := warm_slot n\<rparr>"
    using deQueue_links [of c aes s ?qu xs a n] assms(1,2) l n b by (auto simp: links_ok_def)
  have eqs: "vq s' = Some \<lparr>q_count = length xs, numberOfFrames = WARM_PAGES c,
      front = first_of xs None, rear = last_of None xs\<rparr>" "warm s' = warm s" "brk s' = brk s"
      "zero_page s' = zero_page s" "length (hashes s') = length (hashes s)"
      "cold s' = set_frame c (pageNumber n) (ext_encrypt aes (frame c (warm_slot n) (warm s))) (cold s)"
    by (subst s'(4), simp)+
  have "links_ok c s' xs"
    using l(1) s'(2) eqs by (auto simp: links_ok_def)
  moreover have "sizes_ok c s'"
    using l(2) eqs b assms(2) cold_frame_fits [OF b(1)] warm_frame_fits [OF b(2)]
    by (simp add: sizes_ok_def ext_encrypt_def aes_ok_def)
  moreover have "pageNumber (node_of s' b) = pageNumber (node_of s b)
      \<and> warm_slot (node_of s' b) = warm_slot (node_of s b)" if "b \<in> set xs" for b
  proof -
    have "b \<noteq> a" using that l(1) by (auto simp: links_ok_def)
    with s'(3) show ?thesis by (metis payload_eqD(1,2))
  qed
  ultimately show ?thesis using s'(1) assms(3) by (auto simp: purgeable_def)
qed

lemma cache_purge_total:
  assumes "cfg_ok c" "aes_ok aes"
  shows "purgeable c s as \<Longrightarrow> \<exists>s'. cache_purge c aes s = Some (Inr s') \<and> purgeable c s' []"
proof (induction as arbitrary: s rule: rev_induct)
  case Nil
  then show ?case
    by (subst cache_purge.simps) (auto simp: purgeable_def links_ok_def get_queue_def)
next
  case (snoc a xs)
  obtain s' where "deQueue c aes s = Inr s'" "purgeable c s' xs"
    using deQueue_purgeable [OF assms snoc.prems] by blast
  with snoc show ?case
    by (subst cache_purge.simps) (auto simp: purgeable_def links_ok_def get_queue_def)
qed

text \<open>The empty cache over zeroed memory, and the abstract store it stands for.\<close>

definition fresh_store :: "vme_cfg \<Rightarrow> page_store" where
  "fresh_store c = \<lparr>contents = (\<lambda>_. replicate (PAGE_SIZE c) 0), lru = [], stored = {}\<rparr>"

lemma cache_fresh_inv:
  assumes "cfg_ok c" "COLD_MEM_SIZE c \<le> length (cold s)" shows "vme_inv c aes (cache_fresh c s) []"
  using assms
  by (auto simp: vme_inv_def inv_defs cold_ok_def cache_fresh_def createQueue_def createHash_def cfg_ok_def)

lemma cache_fresh_simulates:
  assumes "cfg_ok c" "page_hash (replicate (PAGE_SIZE c) 0) \<noteq> 0" "COLD_MEM_SIZE c \<le> length (cold s)"
  shows "simulates c aes (cache_fresh c s) (fresh_store c)"
proof -
  have "page_view c aes (cache_fresh c s) p = replicate (PAGE_SIZE c) 0" if "p < COLD_PAGES c" for p
    using that by (simp add: page_view_def hash_get_def cache_fresh_def createHash_def)
  with assms cache_fresh_inv [OF assms(1,3), of aes] show ?thesis
    by (auto simp: simulates_def fresh_store_def intro!: exI [of _ "[]"])
qed

lemma vmem_init_first:
  "vmem_init c aes (vme_static c) gcold =
     Some (if length gcold < COLD_MEM_SIZE c then Inl OutOfBounds
           else Inr (cache_fresh c ((vme_static c)\<lparr>cold := gcold\<rparr>)))"
  by (simp add: vmem_init_def cache_reset_def cache_clear_def vme_static_def)

section \<open>Pages that fail their checksum\<close>

definition tampered :: "vme_cfg \<Rightarrow> ipp_aes \<Rightarrow> vme \<Rightarrow> nat \<Rightarrow> bool" where
  "tampered c aes s p \<longleftrightarrow> hash_get s p = Inr None \<and> hashes s ! p \<noteq> 0
     \<and> page_hash (ext_decrypt aes (frame c p (cold s))) \<noteq> hashes s ! p"

text \<open>
  A call may leave the cold frame of a page and its checksum alone, or leave a frame that
  decrypts to data with the checksum.
\<close>

definition untouched :: "vme_cfg \<Rightarrow> vme \<Rightarrow> vme \<Rightarrow> nat \<Rightarrow> bool" where
  "untouched c s s' p \<longleftrightarrow> frame c p (cold s') = frame c p (cold s) \<and> hashes s' ! p = hashes s ! p"

definition sealed :: "vme_cfg \<Rightarrow> ipp_aes \<Rightarrow> vme \<Rightarrow> nat \<Rightarrow> bool" where
  "sealed c aes s p \<longleftrightarrow> page_hash (ext_decrypt aes (frame c p (cold s))) = hashes s ! p"

definition seals :: "vme_cfg \<Rightarrow> ipp_aes \<Rightarrow> vme \<Rightarrow> vme \<Rightarrow> bool" where
  "seals c aes s s' \<longleftrightarrow> (\<forall>p<COLD_PAGES c. untouched c s s' p \<or> sealed c aes s' p)"

lemma seals_cong:
  "cold s' = cold t \<Longrightarrow> hashes s' = hashes t \<Longrightarrow> seals c aes s s' \<longleftrightarrow> seals c aes s t"
  by (simp add: seals_def untouched_def sealed_def)

lemma seals_same [simp]: "cold s' = cold s \<Longrightarrow> hashes s' = hashes s \<Longrightarrow> seals c aes s s'"
  by (simp add: seals_def untouched_def)

lemma seals_write:
  assumes "aes_ok aes" "sizes_ok c s" "q < COLD_PAGES c" "length data = PAGE_SIZE c"
    and "cold t = set_frame c q (ext_encrypt aes data) (cold s)" "hashes t = (hashes s)[q := page_hash data]"
  shows "seals c aes s t"
proof -
  have lens: "length (ext_encrypt aes data) = PAGE_SIZE c" "COLD_MEM_SIZE c \<le> length (cold s)"
      "length (hashes s) = COLD_PAGES c"
    using assms by (auto simp: sizes_ok_def aes_ok_def ext_encrypt_def)
  have "untouched c s t p" if "p < COLD_PAGES c" "p \<noteq> q" for p
    using that lens assms(5,6) cold_frame_fits [OF assms(3)] cold_frame_fits [of p c]
    by (simp add: untouched_def frame_set_frame_other)
  moreover have "sealed c aes t q"
    using assms lens cold_frame_fits [OF assms(3)]
    by (simp add: sealed_def frame_set_frame_same buf_write_all ext_encrypt_def ext_decrypt_def aes_ok_def)
  ultimately show ?thesis by (auto simp: seals_def)
qed

lemma lru_uncached:
  "lru_ok c s as \<Longrightarrow> p < COLD_PAGES c \<Longrightarrow>
    hash_get s p = Inr None \<longleftrightarrow> p \<notin> (\<lambda>a. pageNumber (node_of s a)) ` set as"
  using hash_get_cached [of c s as] hash_get_uncached [of c s as p] by (auto simp: lru_ok_def)

text \<open>What a page that is not cached meets: room, or a pinned page at the rear.\<close>

lemma Enqueue_room_cases:
  assumes "cfg_ok c" "aes_ok aes" "lru_ok c s as"
    and miss: "p \<notin> (\<lambda>a. pageNumber (node_of s a)) ` set as"
  obtains (pinned) "Enqueue_room c aes s = Inr (False, s)"
  | (room) t ts where "Enqueue_room c aes s = Inr (True, t)" "room_ok c t ts"
      "p \<notin> (\<lambda>a. pageNumber (node_of t a)) ` set ts" "zero_page t = zero_page s"
      "p < COLD_PAGES c \<longrightarrow> hashes t ! p = hashes s ! p \<and> frame c p (cold t) = frame c p (cold s)"
      "seals c aes s t"
proof (cases "length as < WARM_PAGES c")
  case True
  with Enqueue_room_free [OF assms(3)] miss show ?thesis by (intro room) auto
next
  case False
  have len: "length as \<le> WARM_PAGES c" "0 < WARM_PAGES c" "distinct as" "sizes_ok c s" "hash_ok c s as"
    using assms(1,3) by (auto simp: cfg_ok_def lru_ok_def links_ok_def)
  with False obtain xs a where as: "as = xs @ [a]" by (cases as rule: rev_cases) auto
  with False len have full: "Suc (length xs) = WARM_PAGES c" by simp
  have lru: "lru_ok c s (xs @ [a])" using assms(3) as by simp
  show ?thesis
  proof (cases "stick (node_of s a)")
    case True
    with Enqueue_room_pinned [OF lru full] show ?thesis by (intro pinned) auto
  next
    case unpinned: False
    let ?q = "pageNumber (node_of s a)" and ?data = "frame c (warm_slot (node_of s a)) (warm s)"
    obtain t where t: "Enqueue_room c aes s = Inr (True, t)" "room_ok c t xs" "zero_page t = zero_page s"
      "cold t = set_frame c ?q (ext_encrypt aes ?data) (cold s)" "hashes t = (hashes s)[?q := page_hash ?data]"
      "\<forall>b. b \<noteq> a \<longrightarrow> map_option payload (nodes t b) = map_option payload (nodes s b)"
      using Enqueue_room_evict [OF assms(1,2) lru full unpinned] by blast
    have pq: "p \<noteq> ?q" using miss as by auto
    have q: "?q < COLD_PAGES c" "warm_slot (node_of s a) < WARM_PAGES c"
      using lru by (auto simp: lru_ok_def hash_ok_def slots_ok_def)
    have "\<forall>b\<in>set xs. pageNumber (node_of t b) = pageNumber (node_of s b)"
    proof
      fix b assume "b \<in> set xs"
      then have "b \<noteq> a" using len(3) as by auto
      with t(6) show "pageNumber (node_of t b) = pageNumber (node_of s b)" by (metis payload_eqD(1))
    qed
    then have miss': "p \<notin> (\<lambda>a. pageNumber (node_of t a)) ` set xs" using miss as by auto
    have "length ?data = PAGE_SIZE c" using len(4) warm_frame_fits [OF q(2)] by (simp add: sizes_ok_def)
    then have "length (ext_encrypt aes ?data) \<le> PAGE_SIZE c"
      using assms(2) by (simp add: ext_encrypt_def aes_ok_def)
    then have "p < COLD_PAGES c \<longrightarrow> hashes t ! p = hashes s ! p \<and> frame c p (cold t) = frame c p (cold s)"
      using t(4,5) pq len(4) cold_frame_fits [OF q(1)] cold_frame_fits [of p c]
      by (auto simp: sizes_ok_def frame_set_frame_other)
    moreover have "seals c aes s t"
      by (rule seals_write [OF assms(2) len(4) q(1) _ t(4,5)])
        (use len(4) warm_frame_fits [OF q(2)] in \<open>simp add: sizes_ok_def\<close>)
    ultimately show ?thesis using t(1-3) miss' by (intro room)
  qed
qed

lemma Enqueue_tampered:
  assumes "cfg_ok c" "aes_ok aes" "lru_ok c s as" "p < COLD_PAGES c"
    and miss: "p \<notin> (\<lambda>a. pageNumber (node_of s a)) ` set as"
    and room: "Enqueue_room c aes s = Inr (True, t)" "room_ok c t ts"
    and bad: "hashes t ! p \<noteq> 0" "page_hash (fetched c aes t p) \<noteq> hashes t ! p"
  shows "ReferencePage c aes s p True = Inl (HashMismatch p)"
proof -
  have r: "sizes_ok c t" "free_warm t < WARM_PAGES c"
      "vq t = Some \<lparr>q_count = length ts, numberOfFrames = WARM_PAGES c,
                    front = first_of ts None, rear = last_of None ts\<rparr>"
    using room(2) by (auto simp: room_ok_def links_ok_def)
  have load: "Enqueue_load c aes x p (free_warm t) = Inl (HashMismatch p)"
    if "warm x = warm t" "cold x = cold t" "hashes x = hashes t" "zero_page x = zero_page t" for x
    using that bad r assms(1,2,4)
    by (subst Enqueue_load_spec) (auto simp: sizes_ok_def fetched_def)
  have "Enqueue c aes s p = Inl (HashMismatch p)"
    using r room(1)
    by (auto simp: Let_def Enqueue_def newQNode_def get_free_warm_def load access_simps)
  then show ?thesis by (simp add: ReferencePage_miss [OF assms(3,4) miss])
qed

text \<open>
  \<^verbatim>\<open>ReferencePage\<close> whatever the cold store holds: it keeps the queue, the page table
  and the frames in order, or stops at a checksum.
\<close>

lemma ReferencePage_safe:
  assumes "cfg_ok c" "aes_ok aes" "lru_ok c s as" "p < COLD_PAGES c"
  shows "(\<exists>r s' as'. ReferencePage c aes s p True = Inr (r, s') \<and> lru_ok c s' as' \<and> seals c aes s s'
            \<and> (case r of None \<Rightarrow> s' = s \<and> as' = as
               | Some a \<Rightarrow> a \<in> set as' \<and> pageNumber (node_of s' a) = p \<and> \<not> tampered c aes s p))
       \<or> (ReferencePage c aes s p True = Inl (HashMismatch p) \<and> tampered c aes s p)"
proof (cases "p \<in> (\<lambda>a. pageNumber (node_of s a)) ` set as")
  case True
  then obtain xs a ys where as: "as = xs @ a # ys" and a: "pageNumber (node_of s a) = p"
    by (auto dest: split_list)
  obtain s' where s': "ReferencePage c aes s p True = Inr (Some a, s')" "lru_ok c s' (a # xs @ ys)"
    "map_option payload (nodes s' a) = Some (p, warm_slot (node_of s a), True)"
    "s' = s\<lparr>nodes := nodes s', vq := vq s'\<rparr>"
    using ReferencePage_hit [of c s xs a ys aes True] assms(3) as a by auto
  have "cold s' = cold s" "hashes s' = hashes s" by (subst s'(4), simp)+
  then have "seals c aes s s'" by simp
  moreover have "\<not> tampered c aes s p" using True lru_uncached [OF assms(3,4)] by (simp add: tampered_def)
  moreover have "pageNumber (node_of s' a) = p" using s'(3) by (auto simp: payload_def)
  ultimately show ?thesis
    using s'(1,2) by (intro disjI1 exI [of _ "Some a"] exI [of _ s'] exI [of _ "a # xs @ ys"]) auto
next
  case miss: False
  have tam: "tampered c aes s p \<longleftrightarrow> hashes s ! p \<noteq> 0
      \<and> page_hash (ext_decrypt aes (frame c p (cold s))) \<noteq> hashes s ! p"
    using lru_uncached [OF assms(3,4)] miss by (simp add: tampered_def)
  from assms(1-3) miss show ?thesis
  proof (cases rule: Enqueue_room_cases)
    case pinned
    then have "ReferencePage c aes s p True = Inr (None, s)"
      by (simp add: ReferencePage_miss [OF assms(3,4) miss] Enqueue_def)
    with assms(3) show ?thesis by auto
  next
    case (room t ts)
    have eq: "hashes t ! p = hashes s ! p" "frame c p (cold t) = frame c p (cold s)" using room(5) assms(4) by auto
    show ?thesis
    proof (cases "hashes t ! p = 0 \<or> page_hash (fetched c aes t p) = hashes t ! p")
      case True
      from ReferencePage_load [OF assms(1-4) miss room(1,2,3) this]
      obtain s' where s': "ReferencePage c aes s p True = Inr (Some (brk t), s')" "lru_ok c s' (brk t # ts)"
        "map_option payload (nodes s' (brk t)) = Some (p, free_warm t, True)"
        "cold s' = cold t" "hashes s' = hashes t" by blast
      moreover have "seals c aes s s'" using room(6) seals_cong [OF s'(4,5)] by blast
      moreover have "pageNumber (node_of s' (brk t)) = p" using s'(3) by (auto simp: payload_def)
      moreover have "\<not> tampered c aes s p" using True tam eq by (auto simp: fetched_def)
      ultimately show ?thesis
        by (intro disjI1 exI [of _ "Some (brk t)"] exI [of _ s'] exI [of _ "brk t # ts"]) auto
    next
      case False
      then have "tampered c aes s p" using tam eq by (auto simp: fetched_def)
      moreover have "ReferencePage c aes s p True = Inl (HashMismatch p)"
        using False by (intro Enqueue_tampered [OF assms(1-4) miss room(1,2)]) auto
      ultimately show ?thesis by blast
    qed
  qed
qed

section \<open>Calls on any cold store\<close>

text \<open>
  The calls a client may make: page numbers and lengths in range. Unmapping a page that is not
  cached is one of them.
\<close>

fun op_in_range :: "vme_cfg \<Rightarrow> vme_op \<Rightarrow> bool" where
  "op_in_range c (CopyTo p src) \<longleftrightarrow> p < COLD_PAGES c \<and> length src \<le> PAGE_SIZE c"
| "op_in_range c (CopyFrom p len) \<longleftrightarrow> p < COLD_PAGES c \<and> len \<le> PAGE_SIZE c"
| "op_in_range c (PageUp p) \<longleftrightarrow> p < COLD_PAGES c"
| "op_in_range c (PageDown p) \<longleftrightarrow> p < COLD_PAGES c"

lemma lru_ok_memory:
  "lru_ok c s as \<Longrightarrow> length w = length (warm s) \<Longrightarrow> lru_ok c (s\<lparr>warm := w\<rparr>) as"
  "lru_ok c s as \<Longrightarrow> length w = length (cold s) \<Longrightarrow> lru_ok c (s\<lparr>cold := w\<rparr>) as"
  "lru_ok c s as \<Longrightarrow> length w = length (zero_page s) \<Longrightarrow> lru_ok c (s\<lparr>zero_page := w\<rparr>) as"
  "lru_ok c s as \<Longrightarrow> length w = length (cold s) \<Longrightarrow> length hs = length (hashes s) \<Longrightarrow>
    lru_ok c (s\<lparr>cold := w, hashes := hs\<rparr>) as"
  by (simp_all add: inv_defs)

lemma cached_node:
  assumes "lru_ok c s as" "a \<in> set as"
  obtains n where "nodes s a = Some n" "warm_slot n < WARM_PAGES c"
  using assms node_exists [of c s as a] by (fastforce simp: lru_ok_def slots_ok_def)

text \<open>A write to an uncached page, less than a page long, leaves the rest of the cold frame as it was.\<close>

lemma uncached_write_seals:
  assumes "aes_ok aes" "sizes_ok c s" "p < COLD_PAGES c" "length src \<le> PAGE_SIZE c"
    and "t = s\<lparr>cold := set_frame c p (ext_encrypt aes src) (cold s), hashes := (hashes s)[p := page_hash src]\<rparr>"
  shows "\<forall>q<COLD_PAGES c. untouched c s t q \<or> sealed c aes t q \<or> q = p \<and> length src < PAGE_SIZE c"
proof (cases "length src = PAGE_SIZE c")
  case True
  then have "seals c aes s t" using assms by (intro seals_write [of aes c s p src]) auto
  then show ?thesis by (auto simp: seals_def)
next
  case False
  have "length (ext_encrypt aes src) \<le> PAGE_SIZE c" using assms(1,4) by (simp add: aes_ok_def ext_encrypt_def)
  then have "untouched c s t q" if "q < COLD_PAGES c" "q \<noteq> p" for q
    using that assms(2,5) cold_frame_fits [OF assms(3)] cold_frame_fits [of q c]
    by (simp add: untouched_def frame_set_frame_other sizes_ok_def)
  with False assms(4) show ?thesis by fastforce
qed

lemma copy_to_safe:
  assumes "cfg_ok c" "aes_ok aes" "lru_ok c s as" "p < COLD_PAGES c" "length src \<le> PAGE_SIZE c"
  shows "(\<exists>s' as'. copy_to c aes s (int (PAGE_SIZE c * p)) src = Inr s' \<and> lru_ok c s' as'
            \<and> (\<forall>q<COLD_PAGES c. untouched c s s' q \<or> sealed c aes s' q \<or> q = p \<and> length src < PAGE_SIZE c))
       \<or> (copy_to c aes s (int (PAGE_SIZE c * p)) src = Inl (HashMismatch p) \<and> tampered c aes s p)"
proof (cases "p = 0")
  case True
  moreover have "length src \<le> length (zero_page s)"
    using assms(3,5) by (simp add: lru_ok_def sizes_ok_def)
  then have "lru_ok c (s\<lparr>zero_page := buf_write 0 src (zero_page s)\<rparr>) as"
    by (intro lru_ok_memory(3) [OF assms(3)]) simp
  ultimately show ?thesis
    using assms(3,5) by (auto simp: copy_to_def mem_write_def lru_ok_def sizes_ok_def untouched_def)
next
  case False
  then have nz: "int (PAGE_SIZE c * p) \<noteq> 0" using cfg_ok_pos [OF assms(1)] by simp
  then have pos: "0 < p" "0 < PAGE_SIZE c" using False cfg_ok_pos [OF assms(1)] by auto
  note run = copy_to_def nz if_False page_of_page [OF assms(1,4)]
  from ReferencePage_safe [OF assms(1-4)] show ?thesis
  proof (elim disjE exE conjE)
    fix r s' as'
    assume r: "ReferencePage c aes s p True = Inr (r, s')" "lru_ok c s' as'"
      "case r of None \<Rightarrow> s' = s \<and> as' = as
       | Some a \<Rightarrow> a \<in> set as' \<and> pageNumber (node_of s' a) = p \<and> \<not> tampered c aes s p"
      and seals: "seals c aes s s'"
    have lens: "COLD_MEM_SIZE c \<le> length (cold s')" "length (warm s') = WARM_MEM_SIZE c"
        "length (hashes s') = COLD_PAGES c"
      using r(2) by (auto simp: lru_ok_def sizes_ok_def)
    show ?thesis
    proof (cases r)
      case None
      have "length (ext_encrypt aes src) \<le> PAGE_SIZE c" using assms(2,5) by (simp add: aes_ok_def ext_encrypt_def)
      then have "copy_to c aes s (int (PAGE_SIZE c * p)) src =
          Inr (s'\<lparr>cold := set_frame c p (ext_encrypt aes src) (cold s'),
                  hashes := (hashes s')[p := page_hash src]\<rparr>)"
        and "length (set_frame c p (ext_encrypt aes src) (cold s')) = length (cold s')"
        using r(1) None lens assms(4) cold_frame_fits [OF assms(4)] pos
        by (simp_all add: run mem_write_def set_frame_def hashes_set_def del: of_nat_mult)
      moreover have "sizes_ok c s" using assms(3) by (simp add: lru_ok_def)
      ultimately show ?thesis
        using lru_ok_memory(4) [OF r(2), of _ "(hashes s')[p := page_hash src]"] None r(3)
          uncached_write_seals [OF assms(2) _ assms(4,5) refl] by auto
    next
      case (Some a)
      then obtain n where n: "nodes s' a = Some n" "warm_slot n < WARM_PAGES c"
        using cached_node [OF r(2)] r(3) by auto
      with r(1) Some lens assms(5) pos
      have "copy_to c aes s (int (PAGE_SIZE c * p)) src = Inr (s'\<lparr>warm := set_frame c (warm_slot n) src (warm s')\<rparr>)"
        by (simp add: run access_simps write_warm_frame [OF assms(1)] del: of_nat_mult)
      moreover have "lru_ok c (s'\<lparr>warm := set_frame c (warm_slot n) src (warm s')\<rparr>) as'"
        using lens warm_frame_fits [OF n(2)] assms(5) by (intro lru_ok_memory(1) [OF r(2)]) simp
      moreover have "seals c aes s (s'\<lparr>warm := set_frame c (warm_slot n) src (warm s')\<rparr>)"
        using seals seals_cong [of "s'\<lparr>warm := set_frame c (warm_slot n) src (warm s')\<rparr>" s'] by simp
      ultimately show ?thesis unfolding seals_def by blast
    qed
  next
    assume "ReferencePage c aes s p True = Inl (HashMismatch p)" "tampered c aes s p"
    then show ?thesis using pos by (simp add: run del: of_nat_mult)
  qed
qed

lemma copy_from_safe:
  assumes "cfg_ok c" "aes_ok aes" "lru_ok c s as" "p < COLD_PAGES c" "len \<le> PAGE_SIZE c"
  shows "(\<exists>rc dst s' as'. copy_from c aes s (int (PAGE_SIZE c * p)) len = Inr (rc, dst, s') \<and> lru_ok c s' as' \<and> seals c aes s s'
            \<and> (0 < p \<and> tampered c aes s p \<and> len = PAGE_SIZE c \<longrightarrow> rc = 1))
       \<or> (copy_from c aes s (int (PAGE_SIZE c * p)) len = Inl (HashMismatch p) \<and> tampered c aes s p)"
proof (cases "p = 0")
  case True
  with assms(3,5) show ?thesis
    by (auto simp: copy_from_def mem_read_def lru_ok_def sizes_ok_def)
next
  case False
  note po = page_of_page [OF assms(1,4)]
  have al: "int (PAGE_SIZE c * p) AND int (PAGE_SIZE c - Suc 0) = 0"
    using page_aligned [OF assms(1), of p] by (simp del: of_nat_mult)
  note run = copy_from_def po al
  from ReferencePage_safe [OF assms(1-4)] show ?thesis
  proof (elim disjE exE conjE)
    fix r s' as'
    assume r: "ReferencePage c aes s p True = Inr (r, s')" "lru_ok c s' as'"
      "case r of None \<Rightarrow> s' = s \<and> as' = as
       | Some a \<Rightarrow> a \<in> set as' \<and> pageNumber (node_of s' a) = p \<and> \<not> tampered c aes s p"
      and seals: "seals c aes s s'"
    have lens: "COLD_MEM_SIZE c \<le> length (cold s')" "length (warm s') = WARM_MEM_SIZE c"
        "length (hashes s') = COLD_PAGES c"
      using r(2) by (auto simp: lru_ok_def sizes_ok_def)
    show ?thesis
    proof (cases r)
      case None
      let ?dst = "ext_decrypt aes (buf_read (PAGE_SIZE c * p) len (cold s'))"
      from None have "copy_from c aes s (int (PAGE_SIZE c * p)) len =
          Inr (if hashes s' ! p \<noteq> page_hash ?dst then 1 else 0, ?dst, s')"
        using r(1) lens assms(4,5) False cold_frame_fits [OF assms(4)]
        by (simp add: run mem_read_def hashes_get_def
            Let_def del: of_nat_mult)
      with None r(3) assms(3) show ?thesis by (auto simp: tampered_def frame_def)
    next
      case (Some a)
      then obtain n where n: "nodes s' a = Some n" "warm_slot n < WARM_PAGES c"
        using cached_node [OF r(2)] r(3) by auto
      with r seals Some lens assms(5) False warm_frame_fits [OF n(2)] show ?thesis
        by (auto simp: run access_simps mem_read_def frame_off_warm [OF assms(1)] simp del: of_nat_mult)
    qed
  next
    assume "ReferencePage c aes s p True = Inl (HashMismatch p)" "tampered c aes s p"
    with False show ?thesis by (simp add: run del: of_nat_mult)
  qed
qed

lemma page_up_safe:
  assumes "cfg_ok c" "aes_ok aes" "lru_ok c s as" "p < COLD_PAGES c"
  shows "(\<exists>off s' as'. page_up c aes s p = Inr (off, s') \<and> lru_ok c s' as' \<and> seals c aes s s' \<and> \<not> tampered c aes s p)
       \<or> page_up c aes s p = Inl MissingReturn
       \<or> (page_up c aes s p = Inl (HashMismatch p) \<and> tampered c aes s p)"
  using ReferencePage_safe [OF assms]
proof (elim disjE exE conjE)
  fix r s' as'
  assume r: "ReferencePage c aes s p True = Inr (r, s')" "lru_ok c s' as'"
    "case r of None \<Rightarrow> s' = s \<and> as' = as
     | Some a \<Rightarrow> a \<in> set as' \<and> pageNumber (node_of s' a) = p \<and> \<not> tampered c aes s p"
    and seals: "seals c aes s s'"
  show ?thesis
  proof (cases r)
    case None
    with r(1) show ?thesis by (simp add: page_up_def)
  next
    case (Some a)
    then obtain n where "nodes s' a = Some n" using cached_node [OF r(2)] r(3) by auto
    with r Some seals show ?thesis by (auto simp: page_up_def access_simps)
  qed
qed (simp add: page_up_def)

lemma page_down_safe:
  assumes "lru_ok c s as" "p < COLD_PAGES c" "hash_get s p \<noteq> Inr None"
  shows "\<exists>s' as'. page_down s p = Inr s' \<and> lru_ok c s' as' \<and> seals c aes s s'"
proof -
  obtain a where "a \<in> set as" and pg: "pageNumber (node_of s a) = p"
    using lru_uncached [OF assms(1,2)] assms(3) by auto
  then obtain xs ys where "as = xs @ a # ys" using split_list by fast
  with DeReferencePage_hit [of c s xs a ys] assms(1) pg obtain s' where
    s': "page_down s p = Inr s'" "s' = s\<lparr>nodes := nodes s', vq := vq s'\<rparr>" "lru_ok c s' (xs @ ys @ [a])"
    by (auto simp: page_down_def)
  have "cold s' = cold s" "hashes s' = hashes s" by (subst s'(2), simp)+
  with s'(1,3) show ?thesis by auto
qed

lemma page_down_uncached:
  assumes "lru_ok c s as" "hash_get s p = Inr None"
  shows "page_down s p = Inl NullDeref"
proof -
  obtain qu where "vq s = Some qu" using assms(1) by (auto simp: lru_ok_def links_ok_def)
  with assms(2) show ?thesis
    by (auto simp: page_down_def DeReferencePage_def get_queue_def move_to_rear_def deref_def store_def)
qed

text \<open>A call that writes less than a page to the page.\<close>

fun short_write :: "vme_cfg \<Rightarrow> vme_op \<Rightarrow> nat \<Rightarrow> bool" where
  "short_write c (CopyTo p src) q \<longleftrightarrow> q = p \<and> length src < PAGE_SIZE c"
| "short_write c (CopyFrom p len) q \<longleftrightarrow> False"
| "short_write c (PageUp p) q \<longleftrightarrow> False"
| "short_write c (PageDown p) q \<longleftrightarrow> False"

lemma vme_exec_safe:
  assumes "cfg_ok c" "aes_ok aes" "lru_ok c s as" "op_in_range c x"
  shows "(\<exists>out s' as'. vme_exec c aes s x = Inr (out, s') \<and> lru_ok c s' as'
        \<and> (\<forall>q<COLD_PAGES c. untouched c s s' q \<or> sealed c aes s' q \<or> short_write c x q))
    \<or> (\<exists>p<COLD_PAGES c. vme_exec c aes s x = Inl (HashMismatch p) \<and> tampered c aes s p)
    \<or> (\<exists>p. x = PageUp p \<and> vme_exec c aes s x = Inl MissingReturn)
    \<or> (\<exists>p. x = PageDown p \<and> hash_get s p = Inr None \<and> vme_exec c aes s x = Inl NullDeref)"
proof (cases x)
  case (CopyTo p src)
  with copy_to_safe [OF assms(1-3), of p src] assms(4) show ?thesis by fastforce
next
  case (CopyFrom p len)
  with copy_from_safe [OF assms(1-3), of p len] assms(4) show ?thesis by (fastforce simp: seals_def)
next
  case (PageUp p)
  with page_up_safe [OF assms(1-3), of p] assms(4) show ?thesis by (fastforce simp: seals_def)
next
  case (PageDown p)
  with page_down_safe [OF assms(3), of p aes] page_down_uncached [OF assms(3), of p] assms(4) show ?thesis
    by (cases "hash_get s p = Inr None") (fastforce simp: seals_def)+
qed

section \<open>Reachable states\<close>

text \<open>
  A run of the engine: calls in range that return, and between them the untrusted
  application writes whatever it likes into the cold store.
\<close>

inductive reachable :: "vme_cfg \<Rightarrow> ipp_aes \<Rightarrow> vme \<Rightarrow> bool" for c aes where
  init: "vmem_init c aes (vme_static c) gcold = Some (Inr s) \<Longrightarrow> reachable c aes s"
| call: "reachable c aes s \<Longrightarrow> op_in_range c x \<Longrightarrow> vme_exec c aes s x = Inr (out, s') \<Longrightarrow>
    reachable c aes s'"
| tamper: "reachable c aes s \<Longrightarrow> length mem = length (cold s) \<Longrightarrow> reachable c aes (s\<lparr>cold := mem\<rparr>)"

lemma reachable_lru_ok:
  assumes "cfg_ok c" "aes_ok aes"
  shows "reachable c aes s \<Longrightarrow> \<exists>as. lru_ok c s as"
proof (induction rule: reachable.induct)
  case (init gcold s)
  then have "s = cache_fresh c ((vme_static c)\<lparr>cold := gcold\<rparr>)" "COLD_MEM_SIZE c \<le> length gcold"
    by (auto simp: vmem_init_first split: if_splits)
  then show ?case
    using cache_fresh_inv [OF assms(1), of "(vme_static c)\<lparr>cold := gcold\<rparr>"] by (auto simp: vme_inv_def)
next
  case (call s x out s')
  then obtain as where "lru_ok c s as" by auto
  from vme_exec_safe [OF assms this call.hyps(2)] call.hyps(3) show ?case by auto
next
  case (tamper s mem)
  then show ?case using lru_ok_memory(2) by blast
qed

text \<open>
  The same runs with two sets of pages on the side: the pages whose cold frame the application has
  overwritten with other bytes since the engine last wrote it, and the pages the engine last wrote,
  past the cache, with less than a page of data.
\<close>

inductive history :: "vme_cfg \<Rightarrow> ipp_aes \<Rightarrow> vme \<Rightarrow> nat set \<Rightarrow> nat set \<Rightarrow> bool" for c aes where
  init: "vmem_init c aes (vme_static c) gcold = Some (Inr s) \<Longrightarrow> history c aes s {} {}"
| call: "history c aes s changed short \<Longrightarrow> op_in_range c x \<Longrightarrow> vme_exec c aes s x = Inr (out, s') \<Longrightarrow>
    history c aes s' {q \<in> changed. untouched c s s' q}
      {q. if untouched c s s' q then q \<in> short else short_write c x q}"
| tamper: "history c aes s changed short \<Longrightarrow> length mem = length (cold s) \<Longrightarrow>
    history c aes (s\<lparr>cold := mem\<rparr>) (changed \<union> {q. frame c q mem \<noteq> frame c q (cold s)}) short"

lemma history_reachable: "history c aes s changed short \<Longrightarrow> reachable c aes s"
  by (induction rule: history.induct) (blast intro: reachable.intros)+

lemma reachable_history: "reachable c aes s \<Longrightarrow> \<exists>changed short. history c aes s changed short"
  by (induction rule: reachable.induct) (blast intro: history.intros)+

text \<open>The checksums on record are those of the frames, save for the pages of the two sets.\<close>

lemma history_sealed:
  assumes "cfg_ok c" "aes_ok aes"
  shows "history c aes s changed short \<Longrightarrow> p < COLD_PAGES c \<Longrightarrow> p \<notin> changed \<union> short \<Longrightarrow>
    hashes s ! p = 0 \<or> sealed c aes s p"
proof (induction rule: history.induct)
  case (init gcold s)
  then have "s = cache_fresh c ((vme_static c)\<lparr>cold := gcold\<rparr>)"
    by (auto simp: vmem_init_first split: if_splits)
  with init.prems(1) show ?case by (simp add: cache_fresh_def)
next
  case (call s changed short x out s')
  obtain as where "lru_ok c s as" using reachable_lru_ok [OF assms history_reachable [OF call.hyps(1)]] by blast
  from vme_exec_safe [OF assms this call.hyps(2)] call.hyps(3) call.prems(1)
  have "untouched c s s' p \<or> sealed c aes s' p \<or> short_write c x p" by auto
  then show ?case
  proof (elim disjE)
    assume same: "untouched c s s' p"
    then have "hashes s ! p = 0 \<or> sealed c aes s p" using call.prems call.IH by auto
    with same show ?thesis by (simp add: untouched_def sealed_def)
  next
    assume "short_write c x p"
    with call.prems(2) have same: "untouched c s s' p" by (auto split: if_splits)
    then have "hashes s ! p = 0 \<or> sealed c aes s p" using call.prems call.IH by auto
    with same show ?thesis by (simp add: untouched_def sealed_def)
  qed simp
next
  case (tamper s changed short mem)
  then show ?case by (simp add: sealed_def)
qed

end
