(* ===== verification/VmeProps.thy ===== *)
theory VmeProps
  imports VmeSafety
begin

text \<open>
  The properties of the virtual memory engine \<^verbatim>\<open>Enclave/vmem.c\<close>: what it promises
  (a store of pages, pinned pages that stay put, memory safety and detection of tampering
  under a hostile backing store, a reset that ends) and the edges of its contract where the
  code does something other than what its callers need.
\<close>

section \<open>A small instance\<close>

text \<open>
  Four pages of eight bytes over two frames, and a cipher with a constant keystream: the
  instance the properties are exercised on.
\<close>

definition small_config :: vme_cfg where
  "small_config = \<lparr>PAGE_SIZE = 8, COLD_MEM_SIZE = 32, WARM_MEM_SIZE = 16\<rparr>"

definition xor_ctr :: ipp_aes where
  "xor_ctr = \<lparr>EncryptCTR = (\<lambda>k ctr xs. map (\<lambda>x. x XOR 0x5a) xs),
              DecryptCTR = (\<lambda>k ctr xs. map (\<lambda>x. x XOR 0x5a) xs)\<rparr>"

lemma small_config_ok: "cfg_ok small_config"
  by (auto simp: cfg_ok_def small_config_def WARM_PAGES_def intro: exI [of _ 3])

lemma xor_ctr_ok: "aes_ok xor_ctr"
  by (auto simp: aes_ok_def xor_ctr_def xor.assoc comp_def)

lemma small_zero_page: "page_hash (replicate (PAGE_SIZE small_config) 0) \<noteq> 0"
  by code_simp

lemmas small_ok = small_config_ok xor_ctr_ok small_zero_page

definition small_cold :: bytes where
  "small_cold = replicate 32 0xaa"

definition small_start :: vme where
  "small_start = cache_fresh small_config ((vme_static small_config)\<lparr>cold := small_cold\<rparr>)"

lemma small_cold_fits: "COLD_MEM_SIZE small_config \<le> length small_cold"
  by (simp add: small_config_def small_cold_def)

lemma small_start_init: "vmem_init small_config xor_ctr (vme_static small_config) small_cold = Some (Inr small_start)"
  using small_cold_fits by (simp add: vmem_init_first small_start_def)

lemma small_start_simulates: "simulates small_config xor_ctr small_start (fresh_store small_config)"
  unfolding small_start_def using small_cold_fits by (intro cache_fresh_simulates small_ok) simp

lemmas small_start_history = history.init [OF small_start_init]
lemmas small_start_reachable = reachable.init [OF small_start_init]

lemma spec_run_output:
  "map_option fst (spec_run c A ops) = Some outs \<Longrightarrow> \<exists>A'. spec_run c A ops = Some (outs, A')"
  by auto

text \<open>
  To run the code's model on it: the rewrite rules, and the congruences that make the
  simplifier evaluate a step before the steps that follow it.
\<close>

lemma bindE_weak_cong: "m = m' \<Longrightarrow> bindE m f = bindE m' f"
  by simp

lemmas run_congs = bindE_weak_cong let_weak_cong

lemmas vme_eval = copy_to_def copy_from_def page_up_def page_down_def ReferencePage_def
  DeReferencePage_def Enqueue_def Enqueue_room_def Enqueue_load_def deQueue_def move_to_front_def
  move_to_rear_def newQNode_def deref_def store_def get_queue_def upd_queue_def hash_get_def
  hash_set_def hashes_get_def hashes_set_def mem_read_def mem_write_def frame_off_def page_of_def
  AreAllFramesFull_def isQueueEmpty_def get_free_warm_def set_free_warm_def createQueue_def
  createHash_def cache_fresh_def vme_static_def small_start_def small_cold_def COLD_PAGES_def WARM_PAGES_def
  buf_read_def buf_write_def ext_encrypt_def ext_decrypt_def signed_divide_int_def Let_def
  small_config_def xor_ctr_def

section \<open>The promises\<close>

text \<open>
  C1: After the engine is initialised over memory that holds its cold store, every sequence of page-aligned calls within its contract
  (copy to and from pages, map a page, unmap a page) returns exactly what the abstract page
  store returns, whatever was evicted to and fetched from the encrypted cold store on the way,
  and ends in a state that simulates the abstract one: paging, LRU order, encryption and checksums
  do not show.
\<close>
theorem vme_refines_page_store:
  assumes "cfg_ok c" "aes_ok aes" "page_hash (replicate (PAGE_SIZE c) 0) \<noteq> 0"
    and "COLD_MEM_SIZE c \<le> length gcold" "spec_run c (fresh_store c) ops = Some (outs, A)"
  shows "\<exists>s s'. vmem_init c aes (vme_static c) gcold = Some (Inr s)
    \<and> vme_run c aes s ops = Inr (outs, s') \<and> simulates c aes s' A"
  using vme_run_simulates [OF assms(1,2) cache_fresh_simulates [OF assms(1,3)] assms(5),
      of "(vme_static c)\<lparr>cold := gcold\<rparr>"] assms(4)
  by (auto simp: vmem_init_first)

theorem vme_refines_page_store_witness:
  "\<exists>s s'. vmem_init small_config xor_ctr (vme_static small_config) small_cold = Some (Inr s)
    \<and> vme_run small_config xor_ctr s
        [CopyTo 1 [1, 2, 3, 4, 5, 6, 7, 8], PageDown 1, CopyTo 2 [9, 9], PageDown 2, PageUp 3, PageDown 3,
         CopyFrom 1 8, CopyFrom 2 4]
      = Inr ([Done, Done, Done, Done, Mapped 8, Done, Data 0 [1, 2, 3, 4, 5, 6, 7, 8], Data 0 [9, 9, 0, 0]], s')"
proof -
  have "map_option fst (spec_run small_config (fresh_store small_config)
        [CopyTo 1 [1, 2, 3, 4, 5, 6, 7, 8], PageDown 1, CopyTo 2 [9, 9], PageDown 2, PageUp 3, PageDown 3,
         CopyFrom 1 8, CopyFrom 2 4])
      = Some [Done, Done, Done, Done, Mapped 8, Done, Data 0 [1, 2, 3, 4, 5, 6, 7, 8], Data 0 [9, 9, 0, 0]]"
    by code_simp
  from spec_run_output [OF this] vme_refines_page_store [OF small_ok small_cold_fits] show ?thesis by blast
qed

text \<open>A pinned entry of the abstract queue is not evicted.\<close>

lemma lru_ref_keeps_pinned:
  "distinct (map fst es) \<Longrightarrow> (p, w, True) \<in> set es \<Longrightarrow> lru_ref frames q es = Some es' \<Longrightarrow> (p, w, True) \<in> set es'"
proof (cases "find (\<lambda>e. fst e = q) es")
  case None
  assume "(p, w, True) \<in> set es" "lru_ref frames q es = Some es'"
  with None show ?thesis
    by (cases es rule: rev_cases) (auto simp: lru_ref_def split: if_splits prod.splits)
next
  case (Some e)
  assume h: "distinct (map fst es)" "(p, w, True) \<in> set es" "lru_ref frames q es = Some es'"
  from Some have e: "e \<in> set es" "fst e = q" by (auto simp: find_Some_iff)
  then have "p = q \<Longrightarrow> e = (p, w, True)"
    using h(1,2) by (metis eq_key_imp_eq_value prod.collapse)
  with h Some show ?thesis by (auto simp: lru_ref_def)
qed

lemma lru_unpin_keeps_pinned:
  "(p, w, True) \<in> set es \<Longrightarrow> p \<noteq> q \<Longrightarrow> (p, w, True) \<in> set (lru_unpin q es)"
  by (auto simp: lru_unpin_def split: option.split)

lemma simulates_distinct:
  assumes "simulates c aes s A" shows "distinct (map fst (lru A))"
proof -
  obtain as where as: "vme_inv c aes s as" "entries s as = lru A"
    using assms by (auto simp: simulates_def)
  then have "hash_ok c s as" "distinct as" by (auto simp: vme_inv_def lru_ok_def links_ok_def)
  then have "distinct (map (\<lambda>a. pageNumber (node_of s a)) as)"
    using hash_ok_inj by (fastforce simp: distinct_map inj_on_def)
  moreover have "map fst (lru A) = map (\<lambda>a. pageNumber (node_of s a)) as"
    by (simp add: payload_def entries_def flip: as(2))
  ultimately show ?thesis by simp
qed

lemma spec_exec_keeps_pinned:
  assumes "distinct (map fst (lru A))" "(p, w, True) \<in> set (lru A)" "x \<noteq> PageDown p"
    and "spec_exec c A x = Some (out, A')"
  shows "(p, w, True) \<in> set (lru A')"
  using assms lru_ref_keeps_pinned [OF assms(1,2)] lru_unpin_keeps_pinned [OF assms(2)]
  by (cases x) (auto simp: touch_def Let_def split: if_splits option.splits)

lemma vme_run_keeps_pinned:
  assumes "cfg_ok c" "aes_ok aes"
  shows "simulates c aes s A \<Longrightarrow> (p, w, True) \<in> set (lru A) \<Longrightarrow> PageDown p \<notin> set ops \<Longrightarrow>
    spec_run c A ops = Some (outs, A') \<Longrightarrow> (p, w, True) \<in> set (lru A')"
proof (induction ops arbitrary: s A outs)
  case Nil
  then show ?case by simp
next
  case (Cons x xs)
  then obtain out A1 outs1 where step: "spec_exec c A x = Some (out, A1)" "spec_run c A1 xs = Some (outs1, A')"
    by (auto split: option.splits)
  obtain s1 where "simulates c aes s1 A1"
    using vme_exec_simulates [OF assms Cons.prems(1) step(1)] by blast
  moreover have "(p, w, True) \<in> set (lru A1)"
    using spec_exec_keeps_pinned [OF simulates_distinct [OF Cons.prems(1)] Cons.prems(2) _ step(1)] Cons.prems(3)
    by auto
  ultimately show ?case using Cons.IH step(2) Cons.prems(3) by auto
qed

lemma simulates_lru_entry:
  assumes "simulates c aes s A" "(p, w, b) \<in> set (lru A)"
  shows "\<exists>a n. hash_get s p = Inr (Some a) \<and> nodes s a = Some n \<and> warm_slot n = w \<and> stick n = b
    \<and> frame c w (warm s) = contents A p"
proof -
  obtain as where as: "vme_inv c aes s as" "entries s as = lru A"
      "\<forall>p<COLD_PAGES c. page_view c aes s p = contents A p"
    using assms(1) by (auto simp: simulates_def)
  then obtain a where a: "a \<in> set as" "payload (node_of s a) = (p, w, b)"
    using assms(2) by (auto simp: entries_def simp flip: as(2))
  have h: "hash_ok c s as" "links_ok c s as" using as(1) by (auto simp: vme_inv_def lru_ok_def)
  then obtain n where n: "nodes s a = Some n" using node_exists a(1) by blast
  with a h(1) have "p < COLD_PAGES c" "pageNumber n = p" "warm_slot n = w" "stick n = b"
    by (auto simp: payload_def hash_ok_def)
  with n a(1) as(3) hash_get_cached [OF h(1) a(1)] page_view_cached [OF h(1) a(1), of aes] show ?thesis by auto
qed

text \<open>
  C5: A page that is mapped (pinned by \<^verbatim>\<open>page_up\<close>, say) stays in the frame it was mapped
  to, and that frame holds the page's current contents, through every sequence of calls that
  does not unmap it: the pointer \<^verbatim>\<open>page_up\<close> returned stays good.
\<close>
theorem pinned_page_stays_mapped:
  assumes "cfg_ok c" "aes_ok aes" "simulates c aes s A" "(p, w, True) \<in> set (lru A)"
    and "PageDown p \<notin> set ops" "spec_run c A ops = Some (outs, A')"
  shows "\<exists>s' a n. vme_run c aes s ops = Inr (outs, s') \<and> hash_get s' p = Inr (Some a)
    \<and> nodes s' a = Some n \<and> warm_slot n = w \<and> stick n \<and> frame c w (warm s') = contents A' p"
  using vme_run_simulates [OF assms(1-3,6)] vme_run_keeps_pinned [OF assms] simulates_lru_entry by blast

theorem pinned_page_stays_mapped_witness:
  "\<exists>A s. simulates small_config xor_ctr s A \<and> (1, 0, True) \<in> set (lru A)
    \<and> (\<exists>s' a n. vme_run small_config xor_ctr s [CopyTo 2 [7], PageDown 2, CopyTo 3 [5], PageDown 3, CopyTo 1 [4]]
          = Inr ([Done, Done, Done, Done, Done], s')
        \<and> hash_get s' 1 = Inr (Some a) \<and> nodes s' a = Some n \<and> warm_slot n = 0)"
proof -
  let ?ops = "[CopyTo 2 [7], PageDown 2, CopyTo 3 [5], PageDown 3, CopyTo 1 [4]]"
  have "map_option (\<lambda>(_, A). (lru A, map_option fst (spec_run small_config A ?ops)))
      (spec_run small_config (fresh_store small_config) [PageUp 1])
    = Some ([(1, 0, True)], Some [Done, Done, Done, Done, Done])"
    by code_simp
  then obtain o1 A A' where A: "spec_run small_config (fresh_store small_config) [PageUp 1] = Some (o1, A)"
    "lru A = [(1, 0, True)]" "spec_run small_config A ?ops = Some ([Done, Done, Done, Done, Done], A')"
    by (auto simp del: spec_run.simps spec_exec.simps)
  obtain s where s: "simulates small_config xor_ctr s A"
    using vme_run_simulates [OF small_ok(1,2) small_start_simulates A(1)] by blast
  have "(1, 0, True) \<in> set (lru A)" "PageDown 1 \<notin> set ?ops" using A(2) by simp_all
  with s pinned_page_stays_mapped [OF small_ok(1,2) s this A(3)] show ?thesis by blast
qed

text \<open>
  C2: Memory safety under a hostile cold store. After any history of calls in range and of the
  untrusted application overwriting the cold store at any moment, every call in range returns, or
  stops at the checksum of a page whose cold frame the application has overwritten with other bytes
  since the engine wrote it, or that the engine itself wrote past a full cache with less than a page
  of data; or it finds no frame for a page to map, or it unmaps a page that is not cached, the one case
  in which it follows a \<^verbatim>\<open>NULL\<close> pointer. It follows no other \<^verbatim>\<open>NULL\<close> or freed node
  pointer, and never reads or writes outside the page table, the frames or the checksum table.
\<close>
theorem reachable_calls_are_safe:
  assumes "cfg_ok c" "aes_ok aes" "history c aes s changed short" "op_in_range c x"
  shows "(\<exists>out s'. vme_exec c aes s x = Inr (out, s'))
    \<or> (\<exists>p. vme_exec c aes s x = Inl (HashMismatch p) \<and> tampered c aes s p \<and> p \<in> changed \<union> short)
    \<or> (\<exists>p. x = PageUp p \<and> vme_exec c aes s x = Inl MissingReturn)
    \<or> (\<exists>p. x = PageDown p \<and> hash_get s p = Inr None \<and> vme_exec c aes s x = Inl NullDeref)"
proof -
  obtain as where lru: "lru_ok c s as"
    using reachable_lru_ok [OF assms(1,2) history_reachable [OF assms(3)]] by blast
  have "p \<in> changed \<union> short" if "p < COLD_PAGES c" "tampered c aes s p" for p
    using history_sealed [OF assms(1-3) that(1)] that(2) by (auto simp: tampered_def sealed_def)
  with vme_exec_safe [OF assms(1,2) lru assms(4)] show ?thesis by blast
qed

text \<open>
  The engine stops although nobody touched the cold store: with every frame pinned, a single byte is
  written to page 3; when a frame is free again the page does not pass its own checksum.
\<close>

definition short_write_ops :: "vme_op list" where
  "short_write_ops = [PageUp 1, PageUp 2, CopyTo 3 [7], PageDown 1]"

lemma untouched_history:
  "history c aes s {} short \<Longrightarrow> \<forall>x\<in>set xs. op_in_range c x \<Longrightarrow> vme_run c aes s xs = Inr (outs, s') \<Longrightarrow>
    \<exists>short'. history c aes s' {} short'"
proof (induction xs arbitrary: s short outs)
  case Nil
  then show ?case by auto
next
  case (Cons x xs)
  then obtain out s1 outs1 where s1: "vme_exec c aes s x = Inr (out, s1)" "vme_run c aes s1 xs = Inr (outs1, s')"
    by (auto simp: bindE_eq_Inr)
  with history.call [OF Cons.prems(1) _ s1(1)] Cons.prems(2)
  have "\<exists>short'. history c aes s1 {} short'" by auto
  with Cons.IH s1(2) Cons.prems(2) show ?case by auto
qed

lemma short_write_stops_engine:
  "case vme_run small_config xor_ctr small_start short_write_ops of Inl _ \<Rightarrow> False
   | Inr (_, s) \<Rightarrow> vme_exec small_config xor_ctr s (PageUp 3) = Inl (HashMismatch 3)"
  by (simp add: vme_eval short_write_ops_def cong: run_congs) code_simp

theorem reachable_calls_are_safe_witness:
  "\<exists>s short. history small_config xor_ctr s {} short
    \<and> vme_exec small_config xor_ctr s (PageUp 3) = Inl (HashMismatch 3) \<and> 3 \<in> short"
proof -
  obtain outs s where s: "vme_run small_config xor_ctr small_start short_write_ops = Inr (outs, s)"
    "vme_exec small_config xor_ctr s (PageUp 3) = Inl (HashMismatch 3)"
    using short_write_stops_engine by (auto split: sum.splits prod.splits)
  have "\<forall>x\<in>set short_write_ops. op_in_range small_config x"
    by (simp add: short_write_ops_def small_config_def COLD_PAGES_def)
  then obtain short where h: "history small_config xor_ctr s {} short"
    using untouched_history [OF small_start_history _ s(1)] by blast
  have "op_in_range small_config (PageUp 3)" by (simp add: small_config_def COLD_PAGES_def)
  from reachable_calls_are_safe [OF small_ok(1,2) h this] s(2) h show ?thesis by auto
qed

text \<open>
  C4: Tampering is detected. When the application has changed the ciphertext of a page so that it
  decrypts to data with another checksum than the one on record, then in every reachable state
  neither a read of the page nor a mapping of it succeeds: the read stops or reports status 1, and the
  mapping stops or fails.
\<close>
theorem tampered_page_rejected:
  assumes "cfg_ok c" "aes_ok aes" "reachable c aes s" "0 < p" "p < COLD_PAGES c" "tampered c aes s p"
  shows "(copy_from c aes s (int (PAGE_SIZE c * p)) (PAGE_SIZE c) = Inl (HashMismatch p)
      \<or> (\<exists>dst s'. copy_from c aes s (int (PAGE_SIZE c * p)) (PAGE_SIZE c) = Inr (1, dst, s')))
    \<and> (page_up c aes s p = Inl (HashMismatch p) \<or> page_up c aes s p = Inl MissingReturn)"
proof -
  obtain as where lru: "lru_ok c s as" using reachable_lru_ok [OF assms(1-3)] by blast
  from copy_from_safe [OF assms(1,2) lru assms(5) order_refl] page_up_safe [OF assms(1,2) lru assms(5)] assms(4,6)
  show ?thesis by blast
qed

text \<open>Runs of the abstract engine are runs of calls in range.\<close>

lemma spec_exec_in_range:
  assumes "simulates c aes s A" "spec_exec c A x = Some (out, A')"
  shows "op_in_range c x"
proof (cases x)
  case (PageDown p)
  then obtain w b where e: "(p, w, b) \<in> set (lru A)" using assms(2) by (auto split: if_splits)
  obtain as where "vme_inv c aes s as" "entries s as = lru A" using assms(1) by (auto simp: simulates_def)
  with e have "p < COLD_PAGES c"
    by (auto simp: vme_inv_def lru_ok_def hash_ok_def entries_def payload_def simp flip: \<open>entries s as = lru A\<close>)
  with PageDown show ?thesis by simp
qed (use assms(2) in \<open>auto simp: Let_def split: if_splits\<close>)

lemma spec_run_reachable:
  assumes "cfg_ok c" "aes_ok aes"
  shows "simulates c aes s A \<Longrightarrow> reachable c aes s \<Longrightarrow> spec_run c A xs = Some (outs, A') \<Longrightarrow>
    \<exists>s'. vme_run c aes s xs = Inr (outs, s') \<and> simulates c aes s' A' \<and> reachable c aes s'"
proof (induction xs arbitrary: s A outs)
  case Nil
  then show ?case by auto
next
  case (Cons x xs)
  then obtain out A1 outs1 where step: "spec_exec c A x = Some (out, A1)" "spec_run c A1 xs = Some (outs1, A')"
      "outs = out # outs1"
    by (auto split: option.splits)
  obtain s1 where s1: "vme_exec c aes s x = Inr (out, s1)" "simulates c aes s1 A1"
    using vme_exec_simulates [OF assms Cons.prems(1) step(1)] by blast
  with reachable.call [OF Cons.prems(2) spec_exec_in_range [OF Cons.prems(1) step(1)]]
  have "reachable c aes s1" by blast
  with Cons.IH [OF s1(2) _ step(2)] s1(1) step(3) show ?case by fastforce
qed

theorem tampered_page_rejected_witness:
  "\<exists>s. reachable small_config xor_ctr s \<and> tampered small_config xor_ctr s 2
    \<and> (page_up small_config xor_ctr s 2 = Inl (HashMismatch 2) \<or> page_up small_config xor_ctr s 2 = Inl MissingReturn)"
proof -
  let ?ops = "[CopyTo 1 [1], PageDown 1, CopyTo 2 [9, 9], PageDown 2, PageUp 3]"
  have "map_option fst (spec_run small_config (fresh_store small_config) ?ops) = Some [Done, Done, Done, Done, Mapped 8]"
    by code_simp
  from spec_run_output [OF this] obtain A where
    "spec_run small_config (fresh_store small_config) ?ops = Some ([Done, Done, Done, Done, Mapped 8], A)" by blast
  from spec_run_reachable [OF small_ok(1,2) small_start_simulates small_start_reachable this]
  obtain s where s: "vme_run small_config xor_ctr small_start ?ops = Inr ([Done, Done, Done, Done, Mapped 8], s)"
    "simulates small_config xor_ctr s A" "reachable small_config xor_ctr s" by blast
  let ?s = "s\<lparr>cold := replicate (length (cold s)) 255\<rparr>"
  have "case vme_run small_config xor_ctr small_start ?ops of
      Inr (_, s) \<Rightarrow> tampered small_config xor_ctr (s\<lparr>cold := replicate (length (cold s)) 255\<rparr>) 2 | Inl _ \<Rightarrow> False"
    by (simp add: vme_eval tampered_def frame_def cong: run_congs) code_simp
  then have t: "tampered small_config xor_ctr ?s 2" using s(1) by simp
  then have r: "reachable small_config xor_ctr ?s" by (intro reachable.tamper s(3)) simp
  have "2 < COLD_PAGES small_config" by (simp add: COLD_PAGES_def small_config_def)
  with tampered_page_rejected [OF small_ok(1,2) r _ this t] r t show ?thesis by auto
qed

text \<open>
  C30: \<^verbatim>\<open>cache_reset\<close> on a running engine ends: the purge evicts every cached page without
  a fault, pinned or not, whatever the cold store holds, and the engine is then a store of
  zeroed pages with an empty cache.
\<close>
theorem cache_reset_empties:
  assumes "cfg_ok c" "aes_ok aes" "page_hash (replicate (PAGE_SIZE c) 0) \<noteq> 0" "reachable c aes s"
  shows "\<exists>s'. cache_reset c aes s = Some (Inr s') \<and> simulates c aes s' (fresh_store c)"
proof -
  obtain as where "lru_ok c s as" using reachable_lru_ok [OF assms(1,2,4)] by blast
  moreover from this obtain s1 where "cache_purge c aes s = Some (Inr s1)" "purgeable c s1 []"
    using cache_purge_total [OF assms(1,2) lru_ok_purgeable] by blast
  ultimately have "vq s \<noteq> None" "cache_purge c aes s = Some (Inr s1)" "COLD_MEM_SIZE c \<le> length (cold s1)"
    by (auto simp: lru_ok_def links_ok_def purgeable_def sizes_ok_def)
  with cache_fresh_simulates [OF assms(1,3)] show ?thesis by (auto simp: cache_reset_def cache_clear_def)
qed

theorem cache_reset_empties_witness:
  "\<exists>s'. cache_reset small_config xor_ctr small_start = Some (Inr s')
    \<and> simulates small_config xor_ctr s' (fresh_store small_config)"
  by (rule cache_reset_empties [OF small_ok small_start_reachable])

end
