(* ===== verification/VmeEdges.thy ===== *)
theory VmeEdges
  imports VmeProps
begin

text \<open>
  The edges of the contract of \<^verbatim>\<open>Enclave/vmem.c\<close>: calls whose result is not what the
  caller needs, each stated on the model as the code behaves.
\<close>

section \<open>Checksums\<close>

text \<open>
  \<^verbatim>\<open>ReferencePage\<close> of a page that is not cached, with a full queue and an unpinned
  page at its rear: that page leaves its frame, which goes to the new one.
\<close>

lemma ReferencePage_evict:
  assumes "cfg_ok c" "aes_ok aes" and lru: "lru_ok c s (xs @ [a])" "Suc (length xs) = WARM_PAGES c"
    and "\<not> stick (node_of s a)" and p: "p < COLD_PAGES c" "p \<notin> (\<lambda>b. pageNumber (node_of s b)) ` set (xs @ [a])"
    and intact: "hashes s ! p = 0 \<or> sealed c aes s p"
  defines "q \<equiv> pageNumber (node_of s a)" and "w \<equiv> warm_slot (node_of s a)"
  shows "\<exists>b s'. ReferencePage c aes s p True = Inr (Some b, s') \<and> lru_ok c s' (b # xs)
    \<and> map_option payload (nodes s' b) = Some (p, w, True)
    \<and> (\<forall>x\<in>set xs. pageNumber (node_of s' x) = pageNumber (node_of s x))
    \<and> warm s' = set_frame c w (fetched c aes s p) (warm s)
    \<and> hashes s' = (hashes s)[q := page_hash (frame c w (warm s))]"
proof -
  obtain t where t: "Enqueue_room c aes s = Inr (True, t)" "room_ok c t xs" "warm t = warm s"
    "brk t = brk s" "free_warm t = w" "cold t = set_frame c q (ext_encrypt aes (frame c w (warm s))) (cold s)"
    "hashes t = (hashes s)[q := page_hash (frame c w (warm s))]"
    "\<forall>b. b \<noteq> a \<longrightarrow> map_option payload (nodes t b) = map_option payload (nodes s b)"
    using Enqueue_room_evict [OF assms(1,2) lru assms(5)] by (auto simp: q_def w_def)
  have s: "sizes_ok c s" "distinct (xs @ [a])" "brk s \<notin> set (xs @ [a])" "q < COLD_PAGES c" "w < WARM_PAGES c"
    using lru by (auto simp: lru_ok_def links_ok_def hash_ok_def slots_ok_def q_def w_def)
  have pq: "p \<noteq> q" using p(2) by (auto simp: q_def)
  have "length (ext_encrypt aes (frame c w (warm s))) = PAGE_SIZE c"
    using assms(2) s(1) warm_frame_fits [OF s(5)] by (simp add: aes_ok_def ext_encrypt_def sizes_ok_def)
  then have fp: "frame c p (cold t) = frame c p (cold s)" "hashes t ! p = hashes s ! p"
    using pq s(1) cold_frame_fits [OF s(4)] cold_frame_fits [OF p(1)] t(6,7)
    by (auto simp: sizes_ok_def frame_set_frame_other)
  then have fe: "fetched c aes t p = fetched c aes s p" by (simp add: fetched_def)
  have pg: "pageNumber (node_of t x) = pageNumber (node_of s x)" if "x \<in> set xs" for x
  proof -
    have "x \<noteq> a" using s(2) that by auto
    with t(8) show ?thesis by (metis payload_eqD(1))
  qed
  then have miss: "p \<notin> (\<lambda>b. pageNumber (node_of t b)) ` set xs" using p(2) by auto
  have ok: "hashes t ! p = 0 \<or> page_hash (fetched c aes t p) = hashes t ! p"
    using intact fp by (auto simp: fetched_def sealed_def)
  obtain s' where s': "ReferencePage c aes s p True = Inr (Some (brk t), s')" "lru_ok c s' (brk t # xs)"
    "warm s' = set_frame c w (fetched c aes s p) (warm s)" "hashes s' = hashes t"
    "\<forall>b. b \<noteq> brk t \<longrightarrow> map_option payload (nodes s' b) = map_option payload (nodes t b)"
    "map_option payload (nodes s' (brk t)) = Some (p, w, True)"
    using ReferencePage_load [OF assms(1,2) lru(1) p t(1,2) miss ok] t(3,5) fe by auto
  have "pageNumber (node_of s' x) = pageNumber (node_of s x)" if "x \<in> set xs" for x
  proof -
    have "x \<noteq> brk t" using s(3) that t(4) by auto
    with s'(5) have "pageNumber (node_of s' x) = pageNumber (node_of t x)" by (metis payload_eqD(1))
    with pg that show ?thesis by simp
  qed
  with s' t(7) show ?thesis by auto
qed

lemma reachable_rear:
  assumes "cfg_ok c" "aes_ok aes" "reachable c aes s" "vq s = Some qu" "AreAllFramesFull qu" "rear qu = Some a"
  obtains xs where "lru_ok c s (xs @ [a])" "Suc (length xs) = WARM_PAGES c"
proof -
  obtain as where as: "lru_ok c s as" using reachable_lru_ok [OF assms(1-3)] by blast
  then have qu: "qu = \<lparr>q_count = length as, numberOfFrames = WARM_PAGES c, front = first_of as None,
      rear = last_of None as\<rparr>"
    using assms(4) by (auto simp: lru_ok_def links_ok_def)
  with assms(6) obtain xs where "as = xs @ [a]"
    by (cases as rule: rev_cases) (auto simp: last_of_def)
  with as qu assms(5) that [of xs] show ?thesis by (auto simp: AreAllFramesFull_def)
qed

lemma vme_result: "(case m of Inl _ \<Rightarrow> False | Inr (x, y) \<Rightarrow> P x y) \<Longrightarrow> \<exists>x y. m = Inr (x, y) \<and> P x y"
  by (auto split: sum.splits)

text \<open>
  C32: A page whose checksum happens to be 0 is lost when it is evicted, because the engine takes the
  checksum 0 for a page that was never written. In every reachable state with a full cache and such a
  page, unpinned, at the rear of the queue, mapping and unmapping any other page that passes its own
  check evicts it, and the next read of it returns zeros with status 0, whatever it held.
\<close>
theorem zero_checksum_page_lost:
  assumes "cfg_ok c" "aes_ok aes" "reachable c aes s"
    and "vq s = Some qu" "AreAllFramesFull qu" "rear qu = Some a" "nodes s a = Some n" "\<not> stick n"
    and "0 < pageNumber n" "page_hash (page_view c aes s (pageNumber n)) = 0"
    and "r < COLD_PAGES c" "hash_get s r = Inr None" "\<not> tampered c aes s r"
  shows "\<exists>off s'. vme_run c aes s [PageUp r, PageDown r, CopyFrom (pageNumber n) (PAGE_SIZE c)]
    = Inr ([Mapped off, Done, Data 0 (replicate (PAGE_SIZE c) 0)], s')"
proof -
  let ?p = "pageNumber n" and ?w = "warm_slot n"
  obtain xs where lru: "lru_ok c s (xs @ [a])" and full: "Suc (length xs) = WARM_PAGES c"
    using reachable_rear [OF assms(1-6)] .
  have h: "hash_ok c s (xs @ [a])" "sizes_ok c s" using lru by (auto simp: lru_ok_def)
  have p: "?p < COLD_PAGES c" "?w < WARM_PAGES c" "\<not> stick (node_of s a)"
    using lru assms(7,8) by (auto simp: lru_ok_def hash_ok_def slots_ok_def)
  have r: "r \<notin> (\<lambda>b. pageNumber (node_of s b)) ` set (xs @ [a])"
    using lru_uncached [OF lru assms(11)] assms(12) by simp
  then have rp: "r \<noteq> ?p" using assms(7) by auto
  have "page_hash (frame c ?w (warm s)) = 0"
    using page_view_cached [OF h(1), of a aes] assms(7,10) by simp
  moreover have "hashes s ! r = 0 \<or> sealed c aes s r"
    using assms(12,13) by (auto simp: tampered_def sealed_def)
  ultimately obtain b s1 where s1: "ReferencePage c aes s r True = Inr (Some b, s1)" "lru_ok c s1 (b # xs)"
    "map_option payload (nodes s1 b) = Some (r, ?w, True)" "hashes s1 = (hashes s)[?p := 0]"
    "\<forall>x\<in>set xs. pageNumber (node_of s1 x) = pageNumber (node_of s x)"
    using ReferencePage_evict [OF assms(1,2) lru full p(3) assms(11) r] assms(7) by auto
  have up: "page_up c aes s r = Inr (frame_off c ?w, s1)"
    using s1(1,3) by (auto simp: page_up_def access_simps payload_def)
  have pb: "pageNumber (node_of s1 b) = r" using s1(3) by (auto simp: payload_def)
  obtain s2 where s2: "page_down s1 r = Inr s2" "s2 = s1\<lparr>nodes := nodes s2, vq := vq s2\<rparr>" "lru_ok c s2 (xs @ [b])"
    "\<forall>x. x \<noteq> b \<longrightarrow> map_option payload (nodes s2 x) = map_option payload (nodes s1 x)"
    "map_option payload (nodes s2 b) = Some (r, warm_slot (node_of s1 b), False)"
    using DeReferencePage_hit [of c s1 "[]" b xs] s1(2) pb by (auto simp: page_down_def)
  have h2: "hashes s2 ! ?p = 0"
    using s1(4) h(2) p(1) by (subst s2(2)) (simp add: sizes_ok_def)
  have nb: "\<not> stick (node_of s2 b)" "pageNumber (node_of s2 b) = r" using s2(5) by (auto simp: payload_def)
  have d: "distinct (xs @ [a])" "distinct (xs @ [b])" using lru s2(3) by (auto simp: lru_ok_def links_ok_def)
  have other: "?p \<noteq> pageNumber (node_of s2 x)" if "x \<in> set xs" for x
  proof -
    have "x \<noteq> a" "x \<noteq> b" using d that by auto
    have "pageNumber (node_of s2 x) = pageNumber (node_of s1 x)"
      using s2(4) \<open>x \<noteq> b\<close> by (metis payload_eqD(1))
    moreover have "pageNumber (node_of s x) \<noteq> ?p"
      using hash_ok_inj [OF h(1), of x a] that \<open>x \<noteq> a\<close> assms(7) by auto
    ultimately show ?thesis using s1(5) that by (simp add: not_sym)
  qed
  have miss: "?p \<notin> (\<lambda>x. pageNumber (node_of s2 x)) ` set (xs @ [b])"
  proof
    assume "?p \<in> (\<lambda>x. pageNumber (node_of s2 x)) ` set (xs @ [b])"
    then obtain x where x: "x \<in> set (xs @ [b])" "?p = pageNumber (node_of s2 x)" by (rule imageE)
    with other nb(2) rp show False by (cases "x = b") auto
  qed
  from ReferencePage_evict [OF assms(1,2) s2(3) full nb(1) p(1) miss] h2
  obtain e s3 where s3: "ReferencePage c aes s2 ?p True = Inr (Some e, s3)" "lru_ok c s3 (e # xs)"
    "map_option payload (nodes s3 e) = Some (?p, warm_slot (node_of s2 b), True)"
    "warm s3 = set_frame c (warm_slot (node_of s2 b)) (fetched c aes s2 ?p) (warm s2)" by auto
  let ?v = "warm_slot (node_of s2 b)"
  have v: "?v < WARM_PAGES c" "length (warm s2) = WARM_MEM_SIZE c" "length (warm s3) = WARM_MEM_SIZE c"
    using s2(3) s3(2) by (auto simp: lru_ok_def slots_ok_def sizes_ok_def)
  obtain m where m: "nodes s3 e = Some m" "warm_slot m = ?v" using s3(3) by (auto simp: payload_def)
  have fr: "frame c ?v (warm s3) = replicate (PAGE_SIZE c) 0"
    using h2 v warm_frame_fits [OF v(1)] by (simp add: s3(4) fetched_def frame_set_frame_same buf_write_all)
  have al: "int (PAGE_SIZE c * ?p) AND int (PAGE_SIZE c - Suc 0) = 0"
    using page_aligned [OF assms(1), of ?p] by (simp del: of_nat_mult)
  have "copy_from c aes s2 (int (PAGE_SIZE c * ?p)) (PAGE_SIZE c) = Inr (0, replicate (PAGE_SIZE c) 0, s3)"
    using s3(1) m v fr assms(9) read_warm_frame [OF assms(1) v(1,3)]
    by (simp add: copy_from_def page_of_page [OF assms(1) p(1)] al access_simps del: of_nat_mult)
  with up s2(1) show ?thesis by auto
qed

theorem zero_checksum_page_lost_witness:
  "\<exists>s s'. vme_run small_config xor_ctr small_start
        [CopyTo 1 [135, 168, 135, 120, 134, 251, 11, 172], PageDown 1, PageUp 2] = Inr ([Done, Done, Mapped 8], s)
    \<and> vme_exec small_config xor_ctr s (CopyFrom 1 8) = Inr (Data 0 [135, 168, 135, 120, 134, 251, 11, 172], s')
    \<and> (\<exists>off s'. vme_run small_config xor_ctr s [PageUp 3, PageDown 3, CopyFrom 1 8]
        = Inr ([Mapped off, Done, Data 0 (replicate 8 0)], s'))"
proof -
  let ?data = "[135, 168, 135, 120, 134, 251, 11, 172] :: bytes" and ?ops = "[CopyTo 1 [135, 168, 135, 120, 134, 251, 11, 172], PageDown 1, PageUp 2]"
  have h: "page_hash ?data = 0" by code_simp
  have run: "case vme_run small_config xor_ctr small_start ?ops of Inl _ \<Rightarrow> False
    | Inr (outs, s) \<Rightarrow> outs = [Done, Done, Mapped 8]
      \<and> (\<exists>s'. vme_exec small_config xor_ctr s (CopyFrom 1 8) = Inr (Data 0 ?data, s'))
      \<and> vq s \<noteq> None \<and> AreAllFramesFull (the (vq s)) \<and> rear (the (vq s)) = Some 0
      \<and> nodes s 0 \<noteq> None \<and> \<not> stick (node_of s 0) \<and> pageNumber (node_of s 0) = 1
      \<and> page_view small_config xor_ctr s 1 = ?data \<and> hash_get s 3 = Inr None \<and> hashes s ! 3 = 0"
    by (simp add: vme_eval page_view_def frame_def cong: run_congs)
  from vme_result [OF run] obtain s where s: "vme_run small_config xor_ctr small_start ?ops = Inr ([Done, Done, Mapped 8], s)"
    "\<exists>s'. vme_exec small_config xor_ctr s (CopyFrom 1 8) = Inr (Data 0 ?data, s')"
    "vq s \<noteq> None \<and> AreAllFramesFull (the (vq s)) \<and> rear (the (vq s)) = Some 0"
    "nodes s 0 \<noteq> None \<and> \<not> stick (node_of s 0) \<and> pageNumber (node_of s 0) = 1"
    "page_view small_config xor_ctr s 1 = ?data" "hash_get s 3 = Inr None" "hashes s ! 3 = 0"
    by blast
  obtain qu n where q: "vq s = Some qu" "AreAllFramesFull qu" "rear qu = Some 0" "nodes s 0 = Some n" "\<not> stick n"
      "pageNumber n = 1"
    using s(3,4) by auto
  have "\<forall>x\<in>set ?ops. op_in_range small_config x" by (simp add: small_config_def COLD_PAGES_def)
  then have r: "reachable small_config xor_ctr s"
    using untouched_history [OF small_start_history _ s(1)] history_reachable by blast
  have "0 < pageNumber n" "page_hash (page_view small_config xor_ctr s (pageNumber n)) = 0"
    "3 < COLD_PAGES small_config" "\<not> tampered small_config xor_ctr s 3"
    using q(6) s(5,7) h by (simp_all add: tampered_def small_config_def COLD_PAGES_def)
  from zero_checksum_page_lost [OF small_ok(1,2) r q(1-5) this(1-3) s(6) this(4)] q(6) s(1,2) show ?thesis
    by (auto simp: small_config_def simp del: vme_run.simps vme_exec.simps)
qed

definition xor_bytes :: "bytes \<Rightarrow> bytes \<Rightarrow> bytes" where
  "xor_bytes xs ys = map2 (XOR) xs ys"

lemma xor_bytes_cancel:
  "length xs = length ks \<Longrightarrow> length ks = length ys \<Longrightarrow>
    xor_bytes (xor_bytes xs ks) (xor_bytes ys ks) = xor_bytes xs ys"
  unfolding xor_bytes_def
  by (induction xs ks ys rule: list_induct3) (auto simp: xor.assoc xor.left_commute xor.commute)

lemma simulates_uncached:
  assumes "simulates c aes s A" "p < COLD_PAGES c" "p \<notin> fst ` set (lru A)"
  shows "hash_get s p = Inr None"
proof -
  obtain as where as: "vme_inv c aes s as" "entries s as = lru A" using assms(1) by (auto simp: simulates_def)
  then have "p \<notin> (\<lambda>a. pageNumber (node_of s a)) ` set as"
    using assms(3) by (simp add: entries_def payload_def image_image flip: as(2))
  with as(1) assms(2) show ?thesis by (simp add: hash_get_page)
qed

lemma simulates_cold:
  assumes "simulates c aes s A" "p < COLD_PAGES c" "p \<notin> fst ` set (lru A)" "p \<in> stored A"
  shows "ext_decrypt aes (frame c p (cold s)) = contents A p" "length (frame c p (cold s)) = PAGE_SIZE c"
proof -
  note none = simulates_uncached [OF assms(1-3)]
  have "known s p" using assms(1,2,4) by (simp add: simulates_def)
  then have "hashes s ! p \<noteq> 0" using none by (simp add: known_def)
  then show "ext_decrypt aes (frame c p (cold s)) = contents A p"
    using assms(1,2) none by (auto simp: simulates_def page_view_def)
  show "length (frame c p (cold s)) = PAGE_SIZE c"
    using assms(1) cold_frame_fits [OF assms(2)]
    by (auto simp: simulates_def vme_inv_def lru_ok_def sizes_ok_def)
qed

text \<open>
  C34: With one keystream for every page (the key and the initial counter are constants), the cold
  store gives away the exclusive or of the contents of any two pages that were evicted to it.
\<close>
theorem cold_store_reveals_xor:
  assumes "simulates c aes s A" "\<forall>xs. DecryptCTR aes key ctr0 xs = xor_bytes xs (stream (length xs))"
    and "\<forall>n. length (stream n) = n"
    and "p < COLD_PAGES c" "p \<notin> fst ` set (lru A)" "p \<in> stored A"
    and "q < COLD_PAGES c" "q \<notin> fst ` set (lru A)" "q \<in> stored A"
  shows "xor_bytes (frame c p (cold s)) (frame c q (cold s)) = xor_bytes (contents A p) (contents A q)"
proof -
  note p = simulates_cold [OF assms(1,4-6)] and q = simulates_cold [OF assms(1,7-9)]
  have "contents A x = xor_bytes (frame c x (cold s)) (stream (PAGE_SIZE c))"
    if "ext_decrypt aes (frame c x (cold s)) = contents A x" "length (frame c x (cold s)) = PAGE_SIZE c" for x
    using that assms(2) by (simp add: ext_decrypt_def flip: that(1))
  from this [OF p] this [OF q] show ?thesis
    using p(2) q(2) assms(3) by (simp add: xor_bytes_cancel)
qed

text \<open>Four pages over a single frame.\<close>

definition tiny_config :: vme_cfg where
  "tiny_config = \<lparr>PAGE_SIZE = 8, COLD_MEM_SIZE = 32, WARM_MEM_SIZE = 8\<rparr>"

lemma tiny_config_ok: "cfg_ok tiny_config" "page_hash (replicate (PAGE_SIZE tiny_config) 0) \<noteq> 0"
  by (auto simp: cfg_ok_def tiny_config_def WARM_PAGES_def intro: exI [of _ 3]) code_simp

definition tiny_start :: vme where
  "tiny_start = cache_fresh tiny_config ((vme_static tiny_config)\<lparr>cold := small_cold\<rparr>)"

lemma tiny_start_simulates: "simulates tiny_config xor_ctr tiny_start (fresh_store tiny_config)"
  unfolding tiny_start_def
  by (intro cache_fresh_simulates tiny_config_ok) (simp add: tiny_config_def small_cold_def)

theorem cold_store_reveals_xor_witness:
  "\<exists>A s. simulates tiny_config xor_ctr s A \<and> xor_bytes (frame tiny_config 1 (cold s)) (frame tiny_config 2 (cold s)) =
    xor_bytes [1, 2, 3, 4, 5, 6, 7, 8] [9, 9, 9, 9, 9, 9, 9, 9]"
proof -
  let ?ops = "[CopyTo 1 [1, 2, 3, 4, 5, 6, 7, 8], PageDown 1, CopyTo 2 (replicate 8 9), PageDown 2, PageUp 3]"
  have "map_option (\<lambda>(_, A). (lru A, 1 \<in> stored A, 2 \<in> stored A, contents A 1, contents A 2))
      (spec_run tiny_config (fresh_store tiny_config) ?ops)
    = Some ([(3, 0, True)], True, True, [1, 2, 3, 4, 5, 6, 7, 8], replicate 8 9)"
    by code_simp
  then obtain outs A where A: "spec_run tiny_config (fresh_store tiny_config) ?ops = Some (outs, A)"
    "lru A = [(3, 0, True)]" "1 \<in> stored A" "2 \<in> stored A"
    "contents A 1 = [1, 2, 3, 4, 5, 6, 7, 8]" "contents A 2 = replicate 8 9"
    by (auto simp del: spec_run.simps spec_exec.simps)
  obtain s where s: "simulates tiny_config xor_ctr s A"
    using vme_run_simulates [OF tiny_config_ok(1) xor_ctr_ok tiny_start_simulates A(1)] by blast
  have ctr: "\<forall>xs. DecryptCTR xor_ctr key ctr0 xs = xor_bytes xs (replicate (length xs) 0x5a)"
  proof
    fix xs show "DecryptCTR xor_ctr key ctr0 xs = xor_bytes xs (replicate (length xs) 0x5a)"
      by (induction xs) (auto simp: xor_ctr_def xor_bytes_def)
  qed
  have n: "(1 :: nat) < COLD_PAGES tiny_config" "(2 :: nat) < COLD_PAGES tiny_config"
    "1 \<notin> fst ` set (lru A)" "2 \<notin> fst ` set (lru A)"
    using A(2) by (simp_all add: COLD_PAGES_def tiny_config_def)
  have r8: "replicate 8 (9 :: u8) = [9, 9, 9, 9, 9, 9, 9, 9]" by code_simp
  from cold_store_reveals_xor [OF s ctr _ n(1,3) A(3) n(2,4) A(4)] A(5,6) s show ?thesis
    by (auto simp: r8 simp del: One_nat_def)
qed

section \<open>Offsets inside a page\<close>

lemma page_of_inside:
  assumes "cfg_ok c" "p < COLD_PAGES c" "d < PAGE_SIZE c"
  shows "int (PAGE_SIZE c * p + d) sdiv int (PAGE_SIZE c) = int p" "page_of c (int (PAGE_SIZE c * p + d)) = p"
proof -
  have "(PAGE_SIZE c * p + d) div PAGE_SIZE c = p"
    using assms(3) by (simp add: div_mult_self4)
  then show *: "int (PAGE_SIZE c * p + d) sdiv int (PAGE_SIZE c) = int p"
    using assms(3) by (simp add: signed_divide_int_def sgn_if flip: of_nat_div of_nat_add of_nat_mult)
  have "p < COLD_MEM_SIZE c"
    using assms(2) unfolding COLD_PAGES_def by (meson div_le_dividend le_trans not_le)
  then have "p < 2 ^ 32" using assms(1) by (simp add: cfg_ok_def)
  then show "page_of c (int (PAGE_SIZE c * p + d)) = p"
    unfolding page_of_def * by simp
qed

text \<open>
  C35: \<^verbatim>\<open>copy_to\<close> at an offset inside a page drops the offset: the data goes to the start
  of the page's frame, and for the first page to a frame that \<^verbatim>\<open>copy_from\<close> does not
  read, while the copy of the first page that it does read stays as it was.
\<close>
theorem copy_to_drops_page_offset:
  assumes "cfg_ok c" "aes_ok aes" "simulates c aes s A" "p < COLD_PAGES c" "0 < d" "d < PAGE_SIZE c"
    and "length src \<le> PAGE_SIZE c" "lru_ref (WARM_PAGES c) p (lru A) \<noteq> None"
  shows "\<exists>s'. copy_to c aes s (int (PAGE_SIZE c * p + d)) src = Inr s' \<and> zero_page s' = zero_page s
    \<and> page_view c aes s' p = buf_write 0 src (contents A p)"
proof -
  obtain es where es: "lru_ref (WARM_PAGES c) p (lru A) = Some es" using assms(8) by auto
  obtain s1 as' n where R: "ReferencePage c aes s p True = Inr (Some (hd as'), s1)" "vme_inv c aes s1 as'"
    "zero_page s1 = zero_page s" "\<forall>x<COLD_PAGES c. page_view c aes s1 x = contents A x"
    "hd as' \<in> set as'" "nodes s1 (hd as') = Some n" "pageNumber n = p" "warm_slot n < WARM_PAGES c"
    using ReferencePage_simulates [OF assms(1-4)] es by auto
  have lens: "length (warm s1) = WARM_MEM_SIZE c"
    using R(2) by (auto simp: vme_inv_def lru_ok_def sizes_ok_def)
  let ?s' = "s1\<lparr>warm := set_frame c (warm_slot n) src (warm s1)\<rparr>"
  have "copy_to c aes s (int (PAGE_SIZE c * p + d)) src = Inr ?s'"
    using R(1,6,8) lens assms(5,7) page_of_inside [OF assms(1,4,6)]
    by (simp add: copy_to_def access_simps write_warm_frame [OF assms(1)] del: of_nat_mult of_nat_add)
  moreover have "page_view c aes ?s' p = buf_write 0 src (contents A p)"
    using write_cached(4) [OF assms(1) R(2,5) assms(7)] R(4,6,7) assms(4) by simp
  ultimately show ?thesis using R(3) by auto
qed

theorem copy_to_drops_page_offset_witness:
  "\<exists>s'. copy_to small_config xor_ctr small_start 2 [7, 7] = Inr s' \<and> zero_page s' = zero_page small_start
    \<and> page_view small_config xor_ctr s' 0 = buf_write 0 [7, 7] (replicate 8 0)"
proof -
  have "0 < COLD_PAGES small_config" "2 < PAGE_SIZE small_config" "length [7, 7 :: u8] \<le> PAGE_SIZE small_config"
    "lru_ref (WARM_PAGES small_config) 0 (lru (fresh_store small_config)) \<noteq> None"
    by code_simp+
  from copy_to_drops_page_offset [OF small_ok(1,2) small_start_simulates this(1) _ this(2-4)] show ?thesis
    by (simp add: fresh_store_def small_config_def)
qed

text \<open>
  C36: \<^verbatim>\<open>copy_from\<close> on the first page tests the page number plus the length, not the
  offset plus the length, so a read that starts inside the first page and runs past its end
  reads beyond the buffer \<^verbatim>\<open>zero_page\<close>.
\<close>
theorem copy_from_overreads_zero_page:
  assumes "reachable c aes s" "cfg_ok c" "aes_ok aes" "off < PAGE_SIZE c" "len \<le> PAGE_SIZE c"
    and "PAGE_SIZE c < off + len"
  shows "copy_from c aes s (int off) len = Inl OutOfBounds"
proof -
  have "length (zero_page s) = PAGE_SIZE c"
    using reachable_lru_ok [OF assms(2,3,1)] by (auto simp: lru_ok_def sizes_ok_def)
  moreover have "int off sdiv int (PAGE_SIZE c) = 0"
    using assms(4) by (simp add: signed_divide_int_def sgn_if flip: of_nat_div)
  ultimately show ?thesis
    using assms(5,6) by (simp add: copy_from_def mem_read_def)
qed

theorem copy_from_overreads_zero_page_witness:
  "copy_from small_config xor_ctr small_start 4 8 = Inl OutOfBounds"
  using copy_from_overreads_zero_page [OF small_start_reachable small_ok(1,2), of 4 8]
  by (simp add: small_config_def)

section \<open>Pins\<close>

text \<open>
  C37: When every frame is pinned, mapping one more page falls off the end of
  \<^verbatim>\<open>page_up\<close>, which has no return statement on that path, and reading a page that
  was never written reports status 1, which the VFS takes for an intrusion.
\<close>
theorem all_frames_pinned:
  assumes "cfg_ok c" "aes_ok aes" "simulates c aes s A" "0 < p" "p < COLD_PAGES c"
    and "lru_ref (WARM_PAGES c) p (lru A) = None" "\<not> known s p"
    and "page_hash (ext_decrypt aes (frame c p (cold s))) \<noteq> 0"
  shows "page_up c aes s p = Inl MissingReturn
    \<and> copy_from c aes s (int (PAGE_SIZE c * p)) (PAGE_SIZE c) = Inr (1, ext_decrypt aes (frame c p (cold s)), s)"
proof -
  obtain as where as: "vme_inv c aes s as" "entries s as = lru A" "hashes_nonzero c aes s"
    using assms(3) by (auto simp: simulates_def hashes_nonzero_def)
  obtain r s1 as' where r: "ReferencePage c aes s p True = Inr (r, s1)"
    "case lru_ref (WARM_PAGES c) p (entries s as) of None \<Rightarrow> r = None \<and> s1 = s \<and> as' = as
     | Some es \<Rightarrow> entries s1 as' = es \<and> as' \<noteq> [] \<and> r = Some (hd as')"
    using ReferencePage_spec [OF assms(1,2) as(1) assms(5) as(3)] by blast
  have ref: "ReferencePage c aes s p True = Inr (None, s)" using r as(2) assms(6) by simp
  have lens: "COLD_MEM_SIZE c \<le> length (cold s)" "length (hashes s) = COLD_PAGES c"
    using as(1) by (auto simp: vme_inv_def lru_ok_def sizes_ok_def)
  have al: "int (PAGE_SIZE c * p) AND int (PAGE_SIZE c - Suc 0) = 0"
    using page_aligned [OF assms(1), of p] by (simp del: of_nat_mult)
  have "hashes s ! p = 0" using assms(7) by (simp add: known_def)
  with lens assms(4,5,8) cold_frame_fits [OF assms(5)] show ?thesis
    by (simp add: page_up_def copy_from_def page_of_page [OF assms(1,5)] al ref mem_read_def
        hashes_get_def frame_def del: of_nat_mult)
qed

theorem all_frames_pinned_witness:
  "\<exists>s. vme_run tiny_config xor_ctr tiny_start [PageUp 1] = Inr ([Mapped 0], s)
    \<and> page_up tiny_config xor_ctr s 2 = Inl MissingReturn"
proof -
  have "map_option (\<lambda>(outs, A). (outs, lru A)) (spec_run tiny_config (fresh_store tiny_config) [PageUp 1])
    = Some ([Mapped 0], [(1, 0, True)])"
    by code_simp
  then obtain A where A: "spec_run tiny_config (fresh_store tiny_config) [PageUp 1] = Some ([Mapped 0], A)"
    "lru A = [(1, 0, True)]"
    by (auto simp del: spec_run.simps spec_exec.simps)
  obtain s where s: "vme_run tiny_config xor_ctr tiny_start [PageUp 1] = Inr ([Mapped 0], s)"
    "simulates tiny_config xor_ctr s A"
    using vme_run_simulates [OF tiny_config_ok(1) xor_ctr_ok tiny_start_simulates A(1)] by blast
  have n: "(2 :: nat) < COLD_PAGES tiny_config" "(0 :: nat) < 2"
    "lru_ref (WARM_PAGES tiny_config) 2 (lru A) = None"
    unfolding A(2) by code_simp+
  have "case vme_run tiny_config xor_ctr tiny_start [PageUp 1] of
      Inr (_, s) \<Rightarrow> \<not> known s 2 \<and> frame tiny_config 2 (cold s) = replicate 8 0 | Inl _ \<Rightarrow> False"
    by (simp add: vme_eval tiny_start_def tiny_config_def known_def frame_def cong: run_congs)
  then have k: "\<not> known s 2" "frame tiny_config 2 (cold s) = replicate 8 0" using s(1) by simp_all
  have "page_hash (ext_decrypt xor_ctr (frame tiny_config 2 (cold s))) \<noteq> 0"
    unfolding k(2) by code_simp
  from all_frames_pinned [OF tiny_config_ok(1) xor_ctr_ok s(2) n(2,1,3) k(1) this] s(1) show ?thesis by blast
qed

lemma filter_key_unique:
  assumes "distinct (map fst (us @ e # vs))"
  shows "filter (\<lambda>x. fst x \<noteq> fst e) (us @ e # vs) = us @ vs"
proof -
  have "fst x \<noteq> fst e" if "x \<in> set us \<union> set vs" for x
  proof -
    have "fst x \<in> fst ` set us \<union> fst ` set vs" using that by blast
    then show ?thesis using assms by (metis Un_iff distinct.simps(2) distinct_append list.set_map map_append
          list.simps(9) disjoint_iff list.set_intros(1))
  qed
  then show ?thesis by (simp add: filter_id_conv)
qed

text \<open>
  C33: A pin is a flag and not a count. After two users have mapped a page and one of them has
  unmapped it, the next page mapped into a full cache takes over its frame: the second user's pointer
  now shows another page.
\<close>
theorem second_mapping_is_overwritten:
  assumes "cfg_ok c" "aes_ok aes" "simulates c aes s A" "length (lru A) = WARM_PAGES c"
    and "p \<in> fst ` set (lru A)" "q \<notin> fst ` set (lru A)"
    and "spec_run c A [PageUp p, PageUp p, PageDown p, PageUp q] = Some (outs, A')"
  shows "\<exists>w s'. vme_run c aes s [PageUp p, PageUp p, PageDown p, PageUp q]
      = Inr ([Mapped w, Mapped w, Done, Mapped w], s')
    \<and> (\<exists>i. w = int (PAGE_SIZE c * i) \<and> frame c i (warm s') = contents A' q)"
proof -
  obtain e where e: "find (\<lambda>e. fst e = p) (lru A) = Some e"
    using assms(5) by (cases "find (\<lambda>e. fst e = p) (lru A)") (auto simp: find_None_iff)
  let ?rest = "filter (\<lambda>e. fst e \<noteq> p) (lru A)" and ?i = "fst (snd e)"
  have q: "q \<noteq> p" using assms(5,6) by auto
  have nof: "find (\<lambda>e. fst e = q) ?rest = None" using assms(6) by (force simp: find_None_iff)
  have dist: "distinct (map fst (lru A))" by (rule simulates_distinct [OF assms(3)])
  have "e \<in> set (lru A)" "fst e = p" using e by (auto simp: find_Some_iff)
  then obtain us vs where uv: "lru A = us @ e # vs" by (meson split_list)
  have "?rest = us @ vs" using filter_key_unique [of us e vs] dist uv \<open>fst e = p\<close> by simp
  then have len: "Suc (length ?rest) = WARM_PAGES c" using uv assms(4) by simp
  have out: "outs = [Mapped (int (PAGE_SIZE c * ?i)), Mapped (int (PAGE_SIZE c * ?i)), Done, Mapped (int (PAGE_SIZE c * ?i))]"
    and A': "(q, ?i, True) \<in> set (lru A')"
    using assms(7) e nof len q
    by (auto simp: lru_ref_def lru_unpin_def touch_def find_append split: if_splits)
  obtain s' where s': "vme_run c aes s [PageUp p, PageUp p, PageDown p, PageUp q] = Inr (outs, s')" "simulates c aes s' A'"
    using vme_run_simulates [OF assms(1-3,7)] by blast
  with simulates_lru_entry [OF s'(2) A'] out show ?thesis by blast
qed

theorem second_mapping_is_overwritten_witness:
  "\<exists>w s s'. vme_run tiny_config xor_ctr s [PageUp 1, PageUp 1, PageDown 1, PageUp 2]
      = Inr ([Mapped w, Mapped w, Done, Mapped w], s')
    \<and> simulates tiny_config xor_ctr s (snd (the (spec_run tiny_config (fresh_store tiny_config) [PageUp 1])))"
proof -
  have "map_option (\<lambda>(outs, A). (lru A, map_option fst
        (spec_run tiny_config A [PageUp 1, PageUp 1, PageDown 1, PageUp 2])))
      (spec_run tiny_config (fresh_store tiny_config) [PageUp 1])
    = Some ([(1, 0, True)], Some [Mapped 0, Mapped 0, Done, Mapped 0])"
    by code_simp
  then obtain outs A A' where A: "spec_run tiny_config (fresh_store tiny_config) [PageUp 1] = Some (outs, A)"
    "lru A = [(1, 0, True)]"
    "spec_run tiny_config A [PageUp 1, PageUp 1, PageDown 1, PageUp 2] = Some ([Mapped 0, Mapped 0, Done, Mapped 0], A')"
    by (auto simp del: spec_run.simps spec_exec.simps)
  obtain s where s: "simulates tiny_config xor_ctr s A"
    using vme_run_simulates [OF tiny_config_ok(1) xor_ctr_ok tiny_start_simulates A(1)] by blast
  have "length (lru A) = WARM_PAGES tiny_config" "1 \<in> fst ` set (lru A)" "2 \<notin> fst ` set (lru A)"
    using A(2) by (simp_all add: WARM_PAGES_def tiny_config_def)
  from second_mapping_is_overwritten [OF tiny_config_ok(1) xor_ctr_ok s this A(3)] s A(1) show ?thesis by fastforce
qed

text \<open>
  C38: \<^verbatim>\<open>page_down\<close> on a page that is not cached, which \<^verbatim>\<open>xUnfetch\<close> requests
  with offset 0 to drop every mapping, prints a message and then follows the \<^verbatim>\<open>NULL\<close>
  pointer it has just tested for.
\<close>
theorem page_down_uncached_faults:
  assumes "cfg_ok c" "aes_ok aes" "reachable c aes s" "hash_get s p = Inr None"
  shows "page_down s p = Inl NullDeref"
  using reachable_lru_ok [OF assms(1-3)] page_down_uncached assms(4) by blast

theorem page_down_uncached_faults_witness:
  "page_down small_start 0 = Inl NullDeref"
  by (rule page_down_uncached_faults [OF small_ok(1,2) small_start_reachable])
    (simp add: small_start_def hash_get_def cache_fresh_def createHash_def small_config_def COLD_PAGES_def)

end
