(* ===== verification/Sqlite.thy ===== *)
theory Sqlite
  imports Prelude
begin

text \<open>
  What the SQLite sources share: result codes and the conversions between C's integer types.
\<close>

section \<open>Result codes\<close>

definition SQLITE_OK :: int where "SQLITE_OK = 0"
definition SQLITE_ERROR :: int where "SQLITE_ERROR = 1"
definition SQLITE_NOMEM :: int where "SQLITE_NOMEM = 7"
definition SQLITE_NOTFOUND :: int where "SQLITE_NOTFOUND = 12"
definition SQLITE_IOERR_SHORT_READ :: int where "SQLITE_IOERR_SHORT_READ = 10 + 2 * 256"
definition SQLITE_IOERR_NOMEM :: int where "SQLITE_IOERR_NOMEM = 10 + 12 * 256"
definition SQLITE_OPEN_MAIN_DB :: u32 where "SQLITE_OPEN_MAIN_DB = 0x100"

lemmas sqlite_codes = SQLITE_OK_def SQLITE_ERROR_def SQLITE_NOMEM_def SQLITE_NOTFOUND_def
  SQLITE_IOERR_SHORT_READ_def SQLITE_IOERR_NOMEM_def

section \<open>Text encodings\<close>

definition SQLITE_UTF8 :: nat where "SQLITE_UTF8 = 1"
definition SQLITE_UTF16LE :: nat where "SQLITE_UTF16LE = 2"
definition SQLITE_UTF16BE :: nat where "SQLITE_UTF16BE = 3"

section \<open>Integer conversions\<close>

text \<open>Conversions to \<^verbatim>\<open>int\<close> and to \<^verbatim>\<open>size_t\<close>.\<close>

definition c_int :: "int \<Rightarrow> int" where
  "c_int x = (x + 2 ^ 31) mod 2 ^ 32 - 2 ^ 31"

definition c_size_t :: "int \<Rightarrow> nat" where
  "c_size_t x = nat (x mod 2 ^ 64)"

lemma c_int_id: "- (2 ^ 31) \<le> x \<Longrightarrow> x < 2 ^ 31 \<Longrightarrow> c_int x = x"
  by (simp add: c_int_def)

lemma c_size_t_id: "0 \<le> x \<Longrightarrow> x < 2 ^ 64 \<Longrightarrow> c_size_t x = nat x"
  by (simp add: c_size_t_def)

lemma c_size_t_negative:
  assumes "- (2 ^ 31) \<le> x" "x < 0" shows "2 ^ 63 \<le> c_size_t x"
proof -
  have "x mod 2 ^ 64 = (x + 2 ^ 64) mod 2 ^ 64" by (simp only: mod_add_self2)
  also have "\<dots> = x + 2 ^ 64" using assms by (intro mod_pos_pos_trivial) auto
  finally show ?thesis using assms by (simp add: c_size_t_def)
qed

end
