(* ===== verification/Vfs.thy ===== *)
theory Vfs
  imports VmeEdges Sqlite Complex_Main
begin

text \<open>
  The SQLite VFS over the engine, \<^verbatim>\<open>Enclave/sgxvfs.c\<close>: the file methods, the VFS
  methods, the environment that hands buffers to files, and the open and close of a database.
  A main database file lives in the virtual memory engine; every other file (journals, temporary
  files) is a growing \<^verbatim>\<open>malloc\<close>ed buffer. Buffers are shared by pointer between a
  file, the environment and the database handle, so they live in a heap of their own.
\<close>

section \<open>State\<close>

record sgxbuffer_t =
  buf_data :: "bytes option"
  used :: int
  total :: int

record sgxVmem_t =
  file_path :: "string option"
  file_flags :: u32
  file_mem :: ptr

text \<open>
  \<^theory_text>\<open>env\<close> is the list of \<^verbatim>\<open>g_sgxvfs_env\<close>, \<^theory_text>\<open>None\<close> for
  \<^verbatim>\<open>NULL\<close>: the paths and buffers of databases about to be opened.
\<close>

record vfs =
  eng :: vme
  bufs :: "addr \<Rightarrow> sgxbuffer_t option"
  bnext :: addr
  env :: "(string \<times> ptr) list option"
  sector_size :: nat
  gmem :: ptr
  registered :: bool

datatype vfs_fault =
    VmeFault vme_fault | NullBuffer | FreedBuffer | BufferBounds | NullPath
  | OomHang | IntrusionHang int | ShmHang | DivByZero | NullEnv

type_synonym 'a fres = "vfs_fault + 'a"

text \<open>
  The C library's \<^verbatim>\<open>realloc\<close>, as a function of the old block and the new size; the
  bytes it adds are arbitrary and it may fail.
\<close>

type_synonym realloc_fn = "bytes option \<Rightarrow> nat \<Rightarrow> bytes option"

definition realloc_ok :: "realloc_fn \<Rightarrow> bool" where
  "realloc_ok rea \<longleftrightarrow> (\<forall>old n new. rea old n = Some new \<longrightarrow> length new = n
     \<and> (\<forall>bs. old = Some bs \<longrightarrow> take (length bs) new = take n bs))"

definition get_buf :: "vfs \<Rightarrow> ptr \<Rightarrow> sgxbuffer_t fres" where
  "get_buf s p = (case p of None \<Rightarrow> Inl NullBuffer
     | Some a \<Rightarrow> (case bufs s a of None \<Rightarrow> Inl FreedBuffer | Some b \<Rightarrow> Inr b))"

definition set_buf :: "vfs \<Rightarrow> ptr \<Rightarrow> sgxbuffer_t \<Rightarrow> vfs" where
  "set_buf s p b = s\<lparr>bufs := (bufs s)(the p := Some b)\<rparr>"

definition free_buf :: "vfs \<Rightarrow> ptr \<Rightarrow> vfs" where
  "free_buf s p = s\<lparr>bufs := (bufs s)(the p := None)\<rparr>"

definition new_buf :: "vfs \<Rightarrow> sgxbuffer_t \<Rightarrow> ptr \<times> vfs" where
  "new_buf s b = (Some (bnext s), s\<lparr>bufs := (bufs s)(bnext s := Some b), bnext := bnext s + 1\<rparr>)"

definition calloc_buf :: sgxbuffer_t where
  "calloc_buf = \<lparr>buf_data = None, used = 0, total = 0\<rparr>"

definition in_engine :: "vme_fault + 'a \<Rightarrow> 'a fres" where
  "in_engine r = (case r of Inl e \<Rightarrow> Inl (VmeFault e) | Inr x \<Rightarrow> Inr x)"

definition is_main_db :: "sgxVmem_t \<Rightarrow> bool" where
  "is_main_db f \<longleftrightarrow> SQLITE_OPEN_MAIN_DB AND file_flags f \<noteq> 0"

section \<open>File methods\<close>

definition sgxVmemClose :: "vfs \<Rightarrow> sgxVmem_t \<Rightarrow> (int \<times> vfs) fres" where
  "sgxVmemClose s f =
    (if is_main_db f then Inr (SQLITE_OK, s)
     else if file_mem f \<noteq> None then bindE (get_buf s (file_mem f)) (\<lambda>_. Inr (SQLITE_OK, free_buf s (file_mem f)))
     else Inr (SQLITE_OK, s))"

text \<open>The caller's buffer goes in and comes out.\<close>

definition sgxVmemRead ::
    "vme_cfg \<Rightarrow> ipp_aes \<Rightarrow> vfs \<Rightarrow> sgxVmem_t \<Rightarrow> bytes \<Rightarrow> nat \<Rightarrow> int \<Rightarrow> (int \<times> bytes \<times> vfs) fres" where
  "sgxVmemRead c aes s f buffer len offset =
    bindE (get_buf s (file_mem f)) (\<lambda>mem.
    if offset + int len > used mem then Inr (SQLITE_IOERR_SHORT_READ, buffer, s)
    else if is_main_db f then
      bindE (in_engine (copy_from c aes (eng s) (c_int offset) len)) (\<lambda>(rc, dst, e).
      if rc \<noteq> 0 then Inl (IntrusionHang offset)
      else Inr (SQLITE_OK, buf_write 0 dst buffer, s\<lparr>eng := e\<rparr>))
    else
      (if len = 0 then Inr (SQLITE_OK, buffer, s) else
       case buf_data mem of None \<Rightarrow> Inl NullBuffer
       | Some bs \<Rightarrow>
           if 0 \<le> offset \<and> nat offset + len \<le> length bs
           then Inr (SQLITE_OK, buf_write 0 (buf_read (nat offset) len bs) buffer, s)
           else Inl BufferBounds))"

text \<open>
  \<^verbatim>\<open>sgxVmemWrite\<close> in two parts: making room, and storing the bytes. The first
  gives the return code when it ends the call.
\<close>

definition sgxVmemWrite_grow ::
    "vme_cfg \<Rightarrow> realloc_fn \<Rightarrow> vfs \<Rightarrow> sgxVmem_t \<Rightarrow> nat \<Rightarrow> int \<Rightarrow> (int option \<times> vfs) fres" where
  "sgxVmemWrite_grow c rea s f len offset =
    bindE (get_buf s (file_mem f)) (\<lambda>mem.
    if offset + int len > total mem then
      (if is_main_db f then
         (if total mem = 0
          then Inr (None, (set_buf s (file_mem f) (mem\<lparr>total := c_int (int (vmem_max c))\<rparr>))\<lparr>gmem := file_mem f\<rparr>)
          else Inl OomHang)
       else
         let newTotal = c_int (2 * (offset + int len + total mem)) in
         case rea (buf_data mem) (c_size_t newTotal) of
           None \<Rightarrow> Inr (Some SQLITE_NOMEM, s)
         | Some newBuffer \<Rightarrow>
             Inr (None, set_buf s (file_mem f) (mem\<lparr>total := newTotal, buf_data := Some newBuffer\<rparr>)))
    else Inr (None, s))"

definition sgxVmemWrite ::
    "vme_cfg \<Rightarrow> ipp_aes \<Rightarrow> realloc_fn \<Rightarrow> vfs \<Rightarrow> sgxVmem_t \<Rightarrow> bytes \<Rightarrow> int \<Rightarrow> (int \<times> vfs) fres" where
  "sgxVmemWrite c aes rea s f buffer offset =
    bindE (sgxVmemWrite_grow c rea s f (length buffer) offset) (\<lambda>(done, s).
    case done of Some rc \<Rightarrow> Inr (rc, s)
    | None \<Rightarrow>
    bindE (get_buf s (file_mem f)) (\<lambda>mem.
    bindE (if is_main_db f
           then bindE (in_engine (copy_to c aes (eng s) (c_int offset) buffer)) (\<lambda>e. Inr (mem, s\<lparr>eng := e\<rparr>))
           else if buffer = [] then Inr (mem, s)
           else (case buf_data mem of None \<Rightarrow> Inl NullBuffer
                 | Some bs \<Rightarrow>
                     if 0 \<le> offset \<and> nat offset + length buffer \<le> length bs
                     then Inr (mem\<lparr>buf_data := Some (buf_write (nat offset) buffer bs)\<rparr>, s)
                     else Inl BufferBounds)) (\<lambda>(mem, s).
    Inr (SQLITE_OK, set_buf s (file_mem f)
           (mem\<lparr>used := c_int (max (used mem) (offset + int (length buffer)))\<rparr>)))))"

definition sgxVmemTruncate :: "vfs \<Rightarrow> sgxVmem_t \<Rightarrow> int \<Rightarrow> (int \<times> vfs) fres" where
  "sgxVmemTruncate s f sz =
    bindE (get_buf s (file_mem f)) (\<lambda>mem.
    Inr (SQLITE_OK, set_buf s (file_mem f) (mem\<lparr>used := c_int (min (used mem) sz)\<rparr>)))"

definition sgxVmemFileSize :: "vfs \<Rightarrow> sgxVmem_t \<Rightarrow> (int \<times> int) fres" where
  "sgxVmemFileSize s f = bindE (get_buf s (file_mem f)) (\<lambda>mem. Inr (SQLITE_OK, used mem))"

definition sgxVmemSync :: "sgxVmem_t \<Rightarrow> int \<Rightarrow> int" where
  "sgxVmemSync f sync_flags = SQLITE_OK"

definition sgxVmemLock :: "sgxVmem_t \<Rightarrow> int \<Rightarrow> int" where
  "sgxVmemLock f lock_type = SQLITE_OK"

definition sgxVmemUnlock :: "sgxVmem_t \<Rightarrow> int \<Rightarrow> int" where
  "sgxVmemUnlock f lock_type = SQLITE_OK"

definition sgxVmemCheckReservedLock :: "sgxVmem_t \<Rightarrow> int \<times> int" where
  "sgxVmemCheckReservedLock f = (SQLITE_OK, 0)"

definition sgxVmemFileControl :: "sgxVmem_t \<Rightarrow> int \<Rightarrow> int" where
  "sgxVmemFileControl f op = SQLITE_NOTFOUND"

definition sgxVmemSectorSize :: "vme_cfg \<Rightarrow> vfs \<Rightarrow> nat \<times> vfs" where
  "sgxVmemSectorSize c s =
    (let s = s\<lparr>sector_size := vmem_sector_size c\<rparr> in (sector_size s, s))"

definition sgxVmemDeviceCharacteristics :: "sgxVmem_t \<Rightarrow> int" where
  "sgxVmemDeviceCharacteristics f = 0"

text \<open>The shared-memory methods all print and spin.\<close>

definition sgxVmemShmLock :: "sgxVmem_t \<Rightarrow> int fres" where
  "sgxVmemShmLock f = Inl ShmHang"

definition sgxVmemShmMap :: "sgxVmem_t \<Rightarrow> int fres" where
  "sgxVmemShmMap f = Inl ShmHang"

definition sgxVmemShmBarrier :: "sgxVmem_t \<Rightarrow> unit fres" where
  "sgxVmemShmBarrier f = Inl ShmHang"

definition sgxVmemShmUnmap :: "sgxVmem_t \<Rightarrow> int fres" where
  "sgxVmemShmUnmap f = Inl ShmHang"

text \<open>The page number of a file offset, as \<^verbatim>\<open>page_up\<close> and \<^verbatim>\<open>page_down\<close> take it.\<close>

definition fetch_page :: "vfs \<Rightarrow> int \<Rightarrow> nat fres" where
  "fetch_page s iOfst =
    (if sector_size s = 0 then Inl DivByZero
     else Inr (nat ((iOfst sdiv int (sector_size s)) mod 2 ^ 32)))"

text \<open>The mapped address comes back as an offset into \<^theory_text>\<open>warm\<close>; \<^theory_text>\<open>None\<close> is 0.\<close>

definition sgxVmemFetch ::
    "vme_cfg \<Rightarrow> ipp_aes \<Rightarrow> vfs \<Rightarrow> sgxVmem_t \<Rightarrow> int \<Rightarrow> int \<Rightarrow> (int \<times> int option \<times> vfs) fres" where
  "sgxVmemFetch c aes s f iOfst iAmt =
    (if is_main_db f then
       bindE (get_buf s (file_mem f)) (\<lambda>mem.
       if iOfst + iAmt \<le> total mem then
         bindE (fetch_page s iOfst) (\<lambda>page.
         bindE (in_engine (page_up c aes (eng s) page)) (\<lambda>(off, e).
         Inr (SQLITE_OK, Some off, s\<lparr>eng := e\<rparr>)))
       else Inr (SQLITE_OK, None, s))
     else Inr (SQLITE_OK, None, s))"

definition sgxVmemUnfetch :: "vfs \<Rightarrow> sgxVmem_t \<Rightarrow> int \<Rightarrow> (int \<times> vfs) fres" where
  "sgxVmemUnfetch s f iOfst =
    bindE (fetch_page s iOfst) (\<lambda>page.
    bindE (in_engine (page_down (eng s) page)) (\<lambda>e.
    Inr (SQLITE_OK, s\<lparr>eng := e\<rparr>)))"

section \<open>The environment\<close>

text \<open>\<^verbatim>\<open>sgxbuffer_link_remove\<close>: the first link with the path, and the list without it.\<close>

primrec sgxbuffer_link_remove :: "(string \<times> ptr) list \<Rightarrow> string \<Rightarrow> (string \<times> ptr) option \<times> (string \<times> ptr) list" where
  "sgxbuffer_link_remove [] path = (None, [])"
| "sgxbuffer_link_remove (l # ls) path =
     (if path = fst l then (Some l, ls)
      else (case sgxbuffer_link_remove ls path of (r, ls') \<Rightarrow> (r, l # ls')))"

definition sgxbuffer_link_free :: "vfs \<Rightarrow> string \<times> ptr \<Rightarrow> vfs fres" where
  "sgxbuffer_link_free s l = bindE (get_buf s (snd l)) (\<lambda>_. Inr (free_buf s (snd l)))"

definition load_cb :: "vfs \<Rightarrow> string option \<Rightarrow> (ptr \<times> vfs) fres" where
  "load_cb s path =
    (case env s of None \<Rightarrow> Inl NullEnv
     | Some links \<Rightarrow>
         (case path of
            None \<Rightarrow> if links = [] then Inr (None, s) else Inl NullPath
          | Some p \<Rightarrow>
              (case sgxbuffer_link_remove links p of
                 (None, _) \<Rightarrow> Inr (None, s)
               | (Some l, rest) \<Rightarrow> Inr (snd l, s\<lparr>env := Some rest\<rparr>))))"

section \<open>VFS methods\<close>

definition sgxvfsOpen :: "vfs \<Rightarrow> string option \<Rightarrow> u32 \<Rightarrow> (int \<times> sgxVmem_t \<times> vfs) fres" where
  "sgxvfsOpen s path flags =
    (let f = \<lparr>file_path = path, file_flags = flags, file_mem = None\<rparr> in
     bindE (if is_main_db f then load_cb s path else Inr (new_buf s calloc_buf)) (\<lambda>(mem, s).
     Inr (if mem \<noteq> None then SQLITE_OK else SQLITE_ERROR, f\<lparr>file_mem := mem\<rparr>, s)))"

definition sgxvfsDelete :: "string \<Rightarrow> int \<Rightarrow> int" where
  "sgxvfsDelete path syncDir = SQLITE_OK"

definition sgxvfsAccess :: "string \<Rightarrow> int \<Rightarrow> int \<times> int" where
  "sgxvfsAccess path flags = (SQLITE_OK, 0)"

text \<open>
  \<^verbatim>\<open>strncpy\<close> into the caller's buffer of \<^theory_text>\<open>len\<close> bytes, then a zero in the
  last one. Strings are the bytes before the terminator.
\<close>

definition c_strncpy :: "bytes \<Rightarrow> nat \<Rightarrow> bytes" where
  "c_strncpy src n = take n src @ replicate (n - length src) 0"

definition sgxvfsFullPathname :: "bytes \<Rightarrow> nat \<Rightarrow> int \<times> bytes" where
  "sgxvfsFullPathname path len = (SQLITE_OK, (c_strncpy path len)[len - 1 := 0])"

text \<open>\<^verbatim>\<open>ocall_get_time\<close> gives milliseconds; the result is a number of days, kept exact.\<close>

definition sgxvfsCurrentTime :: "int \<Rightarrow> int \<times> real" where
  "sgxvfsCurrentTime time = (SQLITE_OK, of_int time / 86400000)"

definition sgxvfsRandomness :: "bytes \<Rightarrow> int \<times> bytes" where
  "sgxvfsRandomness buffer = (SQLITE_OK, buffer)"

definition sgxvfsSleep :: "int \<Rightarrow> int" where
  "sgxvfsSleep microseconds = SQLITE_OK"

definition sgxvfsDlOpen :: "string \<Rightarrow> ptr" where
  "sgxvfsDlOpen path = None"

definition sgxvfsDlSym :: "ptr \<Rightarrow> string \<Rightarrow> ptr" where
  "sgxvfsDlSym handle symbol = None"

section \<open>Opening and closing a database\<close>

definition sgxvfs_env_init :: "vfs \<Rightarrow> vfs" where
  "sgxvfs_env_init s =
    (if env s = None then s\<lparr>env := Some [], registered := True\<rparr> else s)"

fun free_links :: "vfs \<Rightarrow> (string \<times> ptr) list \<Rightarrow> vfs fres" where
  "free_links s [] = Inr s"
| "free_links s (l # ls) = bindE (sgxbuffer_link_free s l) (\<lambda>s. free_links s ls)"

definition sgxvfs_env_fini :: "vfs \<Rightarrow> vfs fres" where
  "sgxvfs_env_fini s =
    (case env s of None \<Rightarrow> Inr s
     | Some links \<Rightarrow> bindE (free_links (s\<lparr>registered := False\<rparr>) links) (\<lambda>s. Inr (s\<lparr>env := None\<rparr>)))"

text \<open>
  \<^verbatim>\<open>sqlite3_open_v2\<close> and \<^verbatim>\<open>sqlite3_close\<close> are the SQLite core: arguments
  of the two functions that call them, as state transformers that give a return code.
  \<^theory_text>\<open>None\<close> from \<^theory_text>\<open>sgxvfs_open_db\<close> would be a cache purge that does not end.
\<close>

definition sgxvfs_open_db ::
    "vme_cfg \<Rightarrow> ipp_aes \<Rightarrow> (string \<Rightarrow> vfs \<Rightarrow> (int \<times> ptr \<times> vfs) fres) \<Rightarrow> vfs \<Rightarrow> string \<Rightarrow> ptr \<Rightarrow>
      (int \<times> ptr \<times> ptr \<times> vfs) fres option" where
  "sgxvfs_open_db c aes open_v2 s path mem =
    map_option (\<lambda>r.
      bindE (in_engine r) (\<lambda>e.
      case env s of None \<Rightarrow> Inl NullEnv
      | Some links \<Rightarrow>
          bindE (open_v2 path (s\<lparr>eng := e, env := Some ((path, mem) # links)\<rparr>)) (\<lambda>(ret, handle, s).
          if ret = 0 then Inr (ret, handle, mem, s)
          else (case env s of None \<Rightarrow> Inl NullEnv
                | Some links \<Rightarrow>
                    (case sgxbuffer_link_remove links path of
                       (None, _) \<Rightarrow> Inr (ret, handle, None, s)
                     | (Some l, rest) \<Rightarrow>
                         bindE (sgxbuffer_link_free (s\<lparr>env := Some rest\<rparr>) l) (\<lambda>s. Inr (ret, handle, None, s)))))))
      (cache_reset c aes (eng s))"

definition sgxvfs_close_db ::
    "(ptr \<Rightarrow> vfs \<Rightarrow> (int \<times> vfs) fres) \<Rightarrow> vfs \<Rightarrow> ptr \<Rightarrow> ptr \<Rightarrow> (int \<times> vfs) fres" where
  "sgxvfs_close_db sqlite_close s handle mem =
    bindE (if handle \<noteq> None then sqlite_close handle s else Inr (0, s)) (\<lambda>(ret, s).
    if mem \<noteq> None then bindE (get_buf s mem) (\<lambda>_. Inr (ret, free_buf s mem))
    else Inr (ret, s))"

end
