(* ===== verification/ByteFile.thy ===== *)
theory ByteFile
  imports Prelude
begin

text \<open>
  The contract of a file that is an array of bytes, which the private files of
  \<^verbatim>\<open>Enclave/sgxvfs.c\<close> fulfil and the spilling journal of
  \<^verbatim>\<open>sqlite/memjournal.c\<close> relies on.
\<close>

section \<open>Byte files\<close>

text \<open>Runs of writes through a partial write operation, what they build, and that they leave no holes.\<close>

fun writes :: "('s \<Rightarrow> nat \<Rightarrow> bytes \<Rightarrow> 's option) \<Rightarrow> 's \<Rightarrow> (nat \<times> bytes) list \<Rightarrow> 's option" where
  "writes wr s [] = Some s"
| "writes wr s ((off, bs) # ws) = (case wr s off bs of None \<Rightarrow> None | Some s \<Rightarrow> writes wr s ws)"

fun overwrites :: "bytes \<Rightarrow> (nat \<times> bytes) list \<Rightarrow> bytes" where
  "overwrites xs [] = xs"
| "overwrites xs ((off, bs) # ws) = overwrites (buf_write off bs xs) ws"

fun no_holes :: "nat \<Rightarrow> (nat \<times> bytes) list \<Rightarrow> bool" where
  "no_holes n [] \<longleftrightarrow> True"
| "no_holes n ((off, bs) # ws) \<longleftrightarrow> off \<le> n \<and> no_holes (max n (off + length bs)) ws"

text \<open>
  The interface of a file as an array of bytes: a write that succeeds overwrites or extends it, a
  read inside it returns its bytes.
\<close>

locale byte_file =
  fixes ok :: "'s \<Rightarrow> bool"
    and content :: "'s \<Rightarrow> bytes"
    and wr :: "'s \<Rightarrow> nat \<Rightarrow> bytes \<Rightarrow> 's option"
    and rd :: "'s \<Rightarrow> nat \<Rightarrow> nat \<Rightarrow> bytes option"
  assumes write_law: "ok s \<Longrightarrow> off \<le> length (content s) \<Longrightarrow> wr s off bs = Some s' \<Longrightarrow>
      ok s' \<and> content s' = buf_write off bs (content s)"
    and read_law: "ok s \<Longrightarrow> off + n \<le> length (content s) \<Longrightarrow> rd s off n = Some (buf_read off n (content s))"
begin

lemma length_overwrite: "off \<le> length xs \<Longrightarrow> length (buf_write off bs xs) = max (length xs) (off + length bs)"
  by (simp add: buf_write_def)

lemma writes_content:
  "ok s \<Longrightarrow> no_holes (length (content s)) ws \<Longrightarrow> writes wr s ws = Some s' \<Longrightarrow>
    ok s' \<and> content s' = overwrites (content s) ws"
proof (induction ws arbitrary: s)
  case (Cons w ws)
  obtain off bs where w: "w = (off, bs)" by (cases w)
  with Cons.prems obtain s1 where s1: "wr s off bs = Some s1" "writes wr s1 ws = Some s'"
    by (auto split: option.splits)
  have "ok s1 \<and> content s1 = buf_write off bs (content s)"
    using write_law [OF Cons.prems(1) _ s1(1)] Cons.prems(2) w by simp
  with Cons.IH [of s1] Cons.prems(2) s1(2) w show ?case by (simp add: length_overwrite)
qed simp

text \<open>A read after any such writes returns the bytes of the array they build.\<close>

lemma read_after_writes:
  assumes "ok s" "no_holes (length (content s)) ws" "writes wr s ws = Some s'"
    and "off + n \<le> length (overwrites (content s) ws)"
  shows "rd s' off n = Some (buf_read off n (overwrites (content s) ws))"
  using writes_content [OF assms(1-3)] read_law [of s' off n] assms(4) by simp

end

end
