(* ===== verification/VfsProps.thy ===== *)
theory VfsProps
  imports Vfs ByteFile
begin

text \<open>
  What \<^verbatim>\<open>Enclave/sgxvfs.c\<close> gives SQLite: private files are growing byte arrays,
  the main database file is an array of pages whatever the engine pages in and out, opening takes
  a buffer out of the environment; and where the file methods depart from what SQLite
  documents.
\<close>

section \<open>Private files\<close>

lemma get_set_buf [simp]: "p \<noteq> None \<Longrightarrow> get_buf (set_buf s p b) p = Inr b"
  by (auto simp: get_buf_def set_buf_def)

lemma get_buf_eng [simp]: "get_buf (s\<lparr>eng := e\<rparr>) p = get_buf s p"
  by (simp add: get_buf_def split: option.split)

lemma get_buf_sector [simp]: "get_buf (s\<lparr>sector_size := n\<rparr>) p = get_buf s p"
  by (simp add: get_buf_def split: option.split)

lemma get_buf_env [simp]: "get_buf (s\<lparr>env := l\<rparr>) p = get_buf s p"
  by (simp add: get_buf_def split: option.split)

lemma get_buf_not_None: "get_buf s p = Inr b \<Longrightarrow> p \<noteq> None"
  by (auto simp: get_buf_def split: option.splits)

text \<open>
  The invariant of a private file: the block is as long as the record says, and what is in use
  is inside it.
\<close>

definition private_ok :: "sgxVmem_t \<Rightarrow> vfs \<Rightarrow> bool" where
  "private_ok f s \<longleftrightarrow> \<not> is_main_db f \<and> (case get_buf s (file_mem f) of Inl _ \<Rightarrow> False
     | Inr b \<Rightarrow> 0 \<le> used b \<and> used b \<le> total b
         \<and> total b = int (case buf_data b of None \<Rightarrow> 0 | Some bs \<Rightarrow> length bs))"

definition private_content :: "sgxVmem_t \<Rightarrow> vfs \<Rightarrow> bytes" where
  "private_content f s = (case get_buf s (file_mem f) of Inl _ \<Rightarrow> []
     | Inr b \<Rightarrow> take (nat (used b)) (case buf_data b of None \<Rightarrow> [] | Some bs \<Rightarrow> bs))"

text \<open>
  A write that stays where the size arithmetic does not overflow an \<^verbatim>\<open>int\<close>, and a
  read into a buffer of zeros, as partial functions.
\<close>

definition private_write ::
    "vme_cfg \<Rightarrow> ipp_aes \<Rightarrow> realloc_fn \<Rightarrow> sgxVmem_t \<Rightarrow> vfs \<Rightarrow> nat \<Rightarrow> bytes \<Rightarrow> vfs option" where
  "private_write c aes rea f s off bs =
     (case get_buf s (file_mem f) of Inl _ \<Rightarrow> None
      | Inr b \<Rightarrow>
         if 2 * (int off + int (length bs) + total b) < 2 ^ 31 then
           (case sgxVmemWrite c aes rea s f bs (int off) of
              Inr (rc, s') \<Rightarrow> if rc = SQLITE_OK then Some s' else None
            | Inl _ \<Rightarrow> None)
         else None)"

definition private_read :: "vme_cfg \<Rightarrow> ipp_aes \<Rightarrow> sgxVmem_t \<Rightarrow> vfs \<Rightarrow> nat \<Rightarrow> nat \<Rightarrow> bytes option" where
  "private_read c aes f s off n =
     (case sgxVmemRead c aes s f (replicate n 0) n (int off) of
        Inr (rc, dst, _) \<Rightarrow> if rc = SQLITE_OK then Some dst else None
      | Inl _ \<Rightarrow> None)"

lemma take_overwrite:
  "off \<le> u \<Longrightarrow> u \<le> length xs \<Longrightarrow> off + length bs \<le> length xs \<Longrightarrow>
    take (max u (off + length bs)) (buf_write off bs xs) = buf_write off bs (take u xs)"
  by (cases "u \<le> off + length bs") (auto simp: buf_write_def max_def drop_take)

definition dat :: "sgxbuffer_t \<Rightarrow> bytes" where
  "dat b = (case buf_data b of None \<Rightarrow> [] | Some bs \<Rightarrow> bs)"

lemma dat_simps [simp]: "dat (b\<lparr>buf_data := Some d\<rparr>) = d" "dat (b\<lparr>used := u\<rparr>) = dat b"
    "dat (b\<lparr>total := t\<rparr>) = dat b" "buf_data b = Some d \<Longrightarrow> dat b = d"
  by (simp_all add: dat_def)

lemma private_ok_iff:
  "private_ok f s \<longleftrightarrow> \<not> is_main_db f \<and> (\<exists>b. get_buf s (file_mem f) = Inr b \<and> 0 \<le> used b \<and> used b \<le> total b
     \<and> total b = int (length (dat b)))"
  by (auto simp: private_ok_def dat_def split: sum.splits option.splits)

lemma private_content_eq: "get_buf s (file_mem f) = Inr b \<Longrightarrow> private_content f s = take (nat (used b)) (dat b)"
  by (simp add: private_content_def dat_def)

text \<open>What a write to a private file leaves, given that the sizes fit.\<close>

lemma sgxVmemWrite_grow_private:
  assumes "realloc_ok rea" "\<not> is_main_db f" "get_buf s (file_mem f) = Inr b" "0 \<le> used b"
    and "total b = int (length (dat b))" "2 * (int off + int len + total b) < 2 ^ 31"
    and "sgxVmemWrite_grow c rea s f len (int off) = Inr (None, s')"
  shows "\<exists>b'. get_buf s' (file_mem f) = Inr b' \<and> used b' = used b \<and> total b' = int (length (dat b'))
    \<and> take (length (dat b)) (dat b') = dat b \<and> off + len \<le> length (dat b')"
proof (cases "int off + int len > total b")
  case True
  let ?n = "2 * (int off + int len + total b)"
  have n: "c_int ?n = ?n" "c_size_t ?n = nat ?n"
    using assms(5,6) by (auto intro!: c_int_id c_size_t_id)
  obtain d where d: "rea (buf_data b) (nat ?n) = Some d"
    and s': "s' = set_buf s (file_mem f) (b\<lparr>total := ?n, buf_data := Some d\<rparr>)"
    using assms(2,3,7) True n by (auto simp: sgxVmemWrite_grow_def Let_def split: option.splits)
  have len: "length d = nat ?n" and pre: "\<forall>bs. buf_data b = Some bs \<longrightarrow> take (length bs) d = take (nat ?n) bs"
    using assms(1) d by (auto simp: realloc_ok_def)
  have "take (length (dat b)) d = dat b"
    using pre assms(5) by (cases "buf_data b") (auto simp: dat_def)
  with len s' True assms(3,5) get_buf_not_None [OF assms(3)] show ?thesis by auto
next
  case False
  with assms show ?thesis by (auto simp: sgxVmemWrite_grow_def)
qed

lemma private_write_law:
  assumes "realloc_ok rea" "private_ok f s" "off \<le> length (private_content f s)"
    and "private_write c aes rea f s off bs = Some s'"
  shows "private_ok f s' \<and> private_content f s' = buf_write off bs (private_content f s)"
proof -
  obtain b where b: "get_buf s (file_mem f) = Inr b" "0 \<le> used b" "used b \<le> total b" "\<not> is_main_db f"
    "total b = int (length (dat b))"
    using assms(2) by (auto simp: private_ok_iff)
  have p: "file_mem f \<noteq> None" using get_buf_not_None [OF b(1)] .
  have off: "off \<le> nat (used b)" using assms(3) private_content_eq [OF b(1)] b(3,5) by simp
  have small: "2 * (int off + int (length bs) + total b) < 2 ^ 31"
    and run: "sgxVmemWrite c aes rea s f bs (int off) = Inr (SQLITE_OK, s')"
    using assms(4) b(1) by (auto simp: private_write_def split: if_splits sum.splits prod.splits)
  obtain s1 where s1: "sgxVmemWrite_grow c rea s f (length bs) (int off) = Inr (None, s1)"
    using run b(4) by (auto simp: sgxVmemWrite_def sgxVmemWrite_grow_def bindE_eq_Inr sqlite_codes Let_def
        split: if_splits option.splits)
  obtain b1 where b1: "get_buf s1 (file_mem f) = Inr b1" "used b1 = used b" "total b1 = int (length (dat b1))"
    "take (length (dat b)) (dat b1) = dat b" "off + length bs \<le> length (dat b1)"
    using sgxVmemWrite_grow_private [OF assms(1) b(4,1,2,5) small s1] by blast
  have cu: "c_int (max (used b) (int off + int (length bs))) = max (used b) (int off + int (length bs))"
    using small b(2,3,5) by (intro c_int_id) auto
  let ?u = "max (used b) (int off + int (length bs))"
  obtain b2 where b2: "get_buf s' (file_mem f) = Inr b2" "used b2 = ?u" "total b2 = total b1"
    "dat b2 = buf_write off bs (dat b1)"
  proof (cases "buf_data b1")
    case None
    then have "dat b1 = []" "bs = []" using b1(5) by (auto simp: dat_def)
    with that [of "b1\<lparr>used := ?u\<rparr>"] run s1 b1 cu b(4) p show ?thesis
      by (auto simp: sgxVmemWrite_def)
  next
    case (Some d)
    with that [of "b1\<lparr>buf_data := Some (buf_write off bs d), used := ?u\<rparr>"] that [of "b1\<lparr>used := ?u\<rparr>"]
      run s1 b1 cu b(4) p show ?thesis
      by (auto simp: sgxVmemWrite_def split: if_splits)
  qed
  have le: "length (dat b) \<le> length (dat b1)" using b1(4) by (metis length_take min.cobounded1 min_def)
  have lu: "nat (used b) \<le> length (dat b)" using b(3,5) by simp
  have tk: "take (nat (used b)) (dat b1) = take (nat (used b)) (dat b)"
    using b1(4) lu by (metis min.absorb1 take_take)
  have "private_ok f s'"
    using b2 b(2,4) b1(3,5) lu le by (auto simp: private_ok_iff)
  moreover have "nat ?u = max (nat (used b)) (off + length bs)" using b(2) by auto
  then have "private_content f s' = buf_write off bs (take (nat (used b)) (dat b1))"
    using b2 private_content_eq [OF b2(1)] take_overwrite [OF off, of "dat b1" bs] lu le b1(5) by simp
  ultimately show ?thesis using private_content_eq [OF b(1)] tk by simp
qed

lemma private_read_law:
  assumes "private_ok f s" "off + n \<le> length (private_content f s)"
  shows "private_read c aes f s off n = Some (buf_read off n (private_content f s))"
proof -
  obtain b where b: "get_buf s (file_mem f) = Inr b" "0 \<le> used b" "used b \<le> total b" "\<not> is_main_db f"
    "total b = int (length (dat b))"
    using assms(1) by (auto simp: private_ok_iff)
  then have r: "off + n \<le> nat (used b)" "nat (used b) \<le> length (dat b)"
    using assms(2) private_content_eq [OF b(1)] by auto
  have "buf_read off n (take (nat (used b)) (dat b)) = buf_read off n (dat b)"
    using r by (simp add: buf_read_def drop_take min_def)
  moreover have "buf_write 0 xs (replicate n 0) = xs" if "length xs = n" for xs :: bytes
    using that by (simp add: buf_write_def)
  ultimately show ?thesis
    using b r private_content_eq [OF b(1)]
    by (cases "buf_data b") (auto simp: private_read_def sgxVmemRead_def dat_def sqlite_codes)
qed

interpretation sgx_private: byte_file "private_ok f" "private_content f"
    "\<lambda>s off bs. if realloc_ok rea then private_write c aes rea f s off bs else None"
    "private_read c aes f"
  for f c aes rea
  by unfold_locales (auto simp: private_read_law split: if_splits dest: private_write_law)

section \<open>The main database file\<close>

text \<open>
  The abstract file: its first page, which the engine keeps apart, the page store for the others,
  and the number of pages written so far.
\<close>

record db_file =
  header :: bytes
  pages :: page_store
  npages :: nat

datatype file_op = WritePage nat bytes | ReadPage nat | FetchPage nat | UnfetchPage nat

datatype file_out = Written | PageData bytes | PageMapped int | Unmapped

fun spec_file :: "vme_cfg \<Rightarrow> db_file \<Rightarrow> file_op \<Rightarrow> (file_out \<times> db_file) option" where
  "spec_file c D (WritePage p src) =
     (if length src = PAGE_SIZE c \<and> p < COLD_PAGES c then
        if p = 0 then Some (Written, D\<lparr>header := src, npages := max (npages D) 1\<rparr>)
        else (case spec_exec c (pages D) (CopyTo p src) of
                None \<Rightarrow> None
              | Some (_, A) \<Rightarrow> Some (Written, D\<lparr>pages := A, npages := max (npages D) (p + 1)\<rparr>))
      else None)"
| "spec_file c D (ReadPage p) =
     (if p < npages D then
        if p = 0 then Some (PageData (header D), D)
        else (case spec_exec c (pages D) (CopyFrom p (PAGE_SIZE c)) of
                Some (Data rc bs, A) \<Rightarrow> Some (PageData bs, D\<lparr>pages := A\<rparr>)
              | _ \<Rightarrow> None)
      else None)"
| "spec_file c D (FetchPage p) =
     (if 0 < npages D then
        (case spec_exec c (pages D) (PageUp p) of
           Some (Mapped off, A) \<Rightarrow> Some (PageMapped off, D\<lparr>pages := A\<rparr>)
         | _ \<Rightarrow> None)
      else None)"
| "spec_file c D (UnfetchPage p) =
     (case spec_exec c (pages D) (PageDown p) of
        Some (_, A) \<Rightarrow> Some (Unmapped, D\<lparr>pages := A\<rparr>)
      | None \<Rightarrow> None)"

text \<open>The same calls through the file methods; a return code other than OK is no result.\<close>

fun vfs_call :: "vme_cfg \<Rightarrow> ipp_aes \<Rightarrow> realloc_fn \<Rightarrow> sgxVmem_t \<Rightarrow> vfs \<Rightarrow> file_op \<Rightarrow> (file_out \<times> vfs) option" where
  "vfs_call c aes rea f s (WritePage p src) =
     (case sgxVmemWrite c aes rea s f src (int (PAGE_SIZE c * p)) of
        Inr (rc, s) \<Rightarrow> if rc = SQLITE_OK then Some (Written, s) else None | Inl _ \<Rightarrow> None)"
| "vfs_call c aes rea f s (ReadPage p) =
     (case sgxVmemRead c aes s f (replicate (PAGE_SIZE c) 0) (PAGE_SIZE c) (int (PAGE_SIZE c * p)) of
        Inr (rc, bs, s) \<Rightarrow> if rc = SQLITE_OK then Some (PageData bs, s) else None | Inl _ \<Rightarrow> None)"
| "vfs_call c aes rea f s (FetchPage p) =
     (case sgxVmemFetch c aes s f (int (PAGE_SIZE c * p)) (int (PAGE_SIZE c)) of
        Inr (rc, Some off, s) \<Rightarrow> if rc = SQLITE_OK then Some (PageMapped off, s) else None | _ \<Rightarrow> None)"
| "vfs_call c aes rea f s (UnfetchPage p) =
     (case sgxVmemUnfetch s f (int (PAGE_SIZE c * p)) of
        Inr (rc, s) \<Rightarrow> if rc = SQLITE_OK then Some (Unmapped, s) else None | Inl _ \<Rightarrow> None)"

fun spec_calls :: "vme_cfg \<Rightarrow> db_file \<Rightarrow> file_op list \<Rightarrow> (file_out list \<times> db_file) option" where
  "spec_calls c D [] = Some ([], D)"
| "spec_calls c D (x # xs) =
     (case spec_file c D x of None \<Rightarrow> None
      | Some (out, D) \<Rightarrow> (case spec_calls c D xs of None \<Rightarrow> None | Some (outs, D) \<Rightarrow> Some (out # outs, D)))"

fun vfs_calls ::
    "vme_cfg \<Rightarrow> ipp_aes \<Rightarrow> realloc_fn \<Rightarrow> sgxVmem_t \<Rightarrow> vfs \<Rightarrow> file_op list \<Rightarrow> (file_out list \<times> vfs) option" where
  "vfs_calls c aes rea f s [] = Some ([], s)"
| "vfs_calls c aes rea f s (x # xs) =
     (case vfs_call c aes rea f s x of None \<Rightarrow> None
      | Some (out, s) \<Rightarrow>
          (case vfs_calls c aes rea f s xs of None \<Rightarrow> None | Some (outs, s) \<Rightarrow> Some (out # outs, s)))"

definition db_sim :: "vme_cfg \<Rightarrow> ipp_aes \<Rightarrow> sgxVmem_t \<Rightarrow> vfs \<Rightarrow> db_file \<Rightarrow> bool" where
  "db_sim c aes f s D \<longleftrightarrow> is_main_db f \<and> sector_size s = PAGE_SIZE c
     \<and> simulates c aes (eng s) (pages D) \<and> npages D \<le> COLD_PAGES c
     \<and> zero_page (eng s) = header D \<and> length (header D) = PAGE_SIZE c
     \<and> (\<exists>b. get_buf s (file_mem f) = Inr b \<and> used b = int (PAGE_SIZE c * npages D)
          \<and> total b = (if npages D = 0 then 0 else int (COLD_MEM_SIZE c)))"

lemma page_offset:
  assumes "cfg_ok c" "p < COLD_PAGES c"
  shows "PAGE_SIZE c * p + PAGE_SIZE c \<le> COLD_MEM_SIZE c" "PAGE_SIZE c * p < 2 ^ 31" "COLD_MEM_SIZE c < 2 ^ 31"
  using cold_frame_fits [OF assms(2)] assms(1) by (auto simp: cfg_ok_def)

lemma simulates_zero_page:
  assumes "simulates c aes e A" "length z = PAGE_SIZE c"
  shows "simulates c aes (e\<lparr>zero_page := z\<rparr>) A"
proof -
  obtain as where as: "vme_inv c aes e as" "entries e as = lru A" using assms(1) by (auto simp: simulates_def)
  have "vme_inv c aes (e\<lparr>zero_page := z\<rparr>) as"
    using as(1) assms(2) by (simp add: vme_inv_def inv_defs cold_ok_def)
  moreover have "entries (e\<lparr>zero_page := z\<rparr>) as = lru A"
    using as(2) by (simp add: entries_def)
  moreover have "page_view c aes (e\<lparr>zero_page := z\<rparr>) p = page_view c aes e p"
      "known (e\<lparr>zero_page := z\<rparr>) p = known e p" for p
    by (simp_all add: page_view_def known_def hash_get_def split: option.split sum.split)
  ultimately show ?thesis using assms(1) by (auto simp: simulates_def)
qed

lemma write_page_sim:
  assumes "cfg_ok c" "aes_ok aes" "db_sim c aes f s D" "spec_file c D (WritePage p src) = Some (out, D')"
  shows "\<exists>s'. vfs_call c aes rea f s (WritePage p src) = Some (out, s') \<and> db_sim c aes f s' D'"
proof -
  have len: "length src = PAGE_SIZE c" and p: "p < COLD_PAGES c" and out: "out = Written"
    using assms(4) by (auto split: if_splits option.splits prod.splits)
  note off = page_offset [OF assms(1) p]
  obtain b where b: "get_buf s (file_mem f) = Inr b" "used b = int (PAGE_SIZE c * npages D)"
    "total b = (if npages D = 0 then 0 else int (COLD_MEM_SIZE c))"
    and d: "is_main_db f" "sector_size s = PAGE_SIZE c" "simulates c aes (eng s) (pages D)" "npages D \<le> COLD_PAGES c"
      "zero_page (eng s) = header D" "length (header D) = PAGE_SIZE c"
    using assms(3) by (auto simp: db_sim_def)
  have fm: "file_mem f \<noteq> None" using get_buf_not_None [OF b(1)] .
  have ci: "c_int (int (PAGE_SIZE c * p)) = int (PAGE_SIZE c * p)" "c_int (int (vmem_max c)) = int (COLD_MEM_SIZE c)"
    using off by (auto intro!: c_int_id simp: vmem_max_def simp del: of_nat_mult)
  have ps: "0 < PAGE_SIZE c" using cfg_ok_pos [OF assms(1)] .
  define s1 where "s1 = (if npages D = 0
      then (set_buf s (file_mem f) (b\<lparr>total := int (COLD_MEM_SIZE c)\<rparr>))\<lparr>gmem := file_mem f\<rparr> else s)"
  have grow: "sgxVmemWrite_grow c rea s f (length src) (int (PAGE_SIZE c * p)) = Inr (None, s1)"
    using b d(1) off(1) len ps ci(2) by (auto simp: sgxVmemWrite_grow_def s1_def simp del: of_nat_mult)
  have s1: "get_buf s1 (file_mem f) = Inr (b\<lparr>total := int (COLD_MEM_SIZE c)\<rparr>)" "eng s1 = eng s"
      "sector_size s1 = sector_size s"
    using b fm by (auto simp: s1_def set_buf_def get_buf_def split: option.splits)
  have "PAGE_SIZE c * max (npages D) (p + 1) = max (PAGE_SIZE c * npages D) (PAGE_SIZE c * (p + 1))"
    by (rule nat_mult_max_right)
  moreover have "int (PAGE_SIZE c * p) + int (length src) = int (PAGE_SIZE c * (p + 1))" using len by simp
  ultimately have mx: "max (int (PAGE_SIZE c * npages D)) (int (PAGE_SIZE c * p) + int (length src))
      = int (PAGE_SIZE c * max (npages D) (p + 1))"
    by (simp only: of_nat_max)
  have "PAGE_SIZE c * max (npages D) (p + 1) \<le> COLD_MEM_SIZE c"
    using off(1) d(4) cold_frame_fits [of "npages D - 1" c] by (cases "npages D") (auto simp: max_def)
  then have cu: "c_int (int (PAGE_SIZE c * max (npages D) (p + 1))) = int (PAGE_SIZE c * max (npages D) (p + 1))"
    using off(3) by (intro c_int_id) (auto simp del: of_nat_mult)
  obtain e D1 where e: "copy_to c aes (eng s) (int (PAGE_SIZE c * p)) src = Inr e" "simulates c aes e D1"
    "D' = D\<lparr>header := zero_page e, pages := D1, npages := max (npages D) (p + 1)\<rparr>" "length (zero_page e) = PAGE_SIZE c"
  proof (cases "p = 0")
    case True
    with assms(4) len p d(3,5,6) simulates_zero_page [OF d(3) len] that [of "(eng s)\<lparr>zero_page := src\<rparr>" "pages D"]
    show ?thesis by (auto simp: copy_to_def mem_write_def buf_write_all)
  next
    case False
    with assms(4) len p obtain o1 A where A: "spec_exec c (pages D) (CopyTo p src) = Some (o1, A)"
      "D' = D\<lparr>pages := A, npages := max (npages D) (p + 1)\<rparr>"
      by (auto split: option.splits simp del: spec_exec.simps)
    from copy_to_simulates [OF assms(1,2) d(3) A(1)] A(2) d(5,6) that show ?thesis by auto
  qed
  let ?s' = "set_buf (s1\<lparr>eng := e\<rparr>) (file_mem f)
      (b\<lparr>total := int (COLD_MEM_SIZE c), used := int (PAGE_SIZE c * max (npages D) (p + 1))\<rparr>)"
  have "vfs_call c aes rea f s (WritePage p src) = Some (out, ?s')"
    using grow s1 ci(1) d(1) e(1) out mx cu b(2)
    by (simp add: sgxVmemWrite_def in_engine_def del: of_nat_mult)
  moreover have "db_sim c aes f ?s' D'"
    using d(1,2) e s1 fm p d(4) by (auto simp: db_sim_def set_buf_def get_buf_def simp del: of_nat_mult)
  ultimately show ?thesis by blast
qed

lemma read_page_sim:
  assumes "cfg_ok c" "aes_ok aes" "db_sim c aes f s D" "spec_file c D (ReadPage p) = Some (out, D')"
  shows "\<exists>s'. vfs_call c aes rea f s (ReadPage p) = Some (out, s') \<and> db_sim c aes f s' D'"
proof -
  have p: "p < npages D" using assms(4) by (auto split: if_splits)
  obtain b where b: "get_buf s (file_mem f) = Inr b" "used b = int (PAGE_SIZE c * npages D)"
    "total b = (if npages D = 0 then 0 else int (COLD_MEM_SIZE c))"
    and d: "is_main_db f" "sector_size s = PAGE_SIZE c" "simulates c aes (eng s) (pages D)" "npages D \<le> COLD_PAGES c"
      "zero_page (eng s) = header D" "length (header D) = PAGE_SIZE c"
    using assms(3) by (auto simp: db_sim_def)
  have pc: "p < COLD_PAGES c" using p d(4) by simp
  note off = page_offset [OF assms(1) pc]
  have ci: "c_int (int (PAGE_SIZE c * p)) = int (PAGE_SIZE c * p)"
    using off by (auto intro!: c_int_id simp del: of_nat_mult)
  have "PAGE_SIZE c * Suc p \<le> PAGE_SIZE c * npages D" using p by (intro mult_le_mono2) simp
  then have "PAGE_SIZE c * p + PAGE_SIZE c \<le> PAGE_SIZE c * npages D" by simp
  then have inside: "\<not> used b < int (PAGE_SIZE c * p) + int (PAGE_SIZE c)"
    using b(2) by (simp del: of_nat_mult flip: of_nat_add)
  obtain bs e A where e: "copy_from c aes (eng s) (int (PAGE_SIZE c * p)) (PAGE_SIZE c) = Inr (0, bs, e)"
    "simulates c aes e A" "D' = D\<lparr>pages := A\<rparr>" "out = PageData bs" "zero_page e = zero_page (eng s)"
    "length bs = PAGE_SIZE c"
  proof (cases "p = 0")
    case True
    have "copy_from c aes (eng s) 0 (PAGE_SIZE c) = Inr (0, header D, eng s)"
      using d(5,6) by (simp add: copy_from_def mem_read_def buf_read_def)
    moreover have "D' = D" "out = PageData (header D)" using True assms(4) p by auto
    ultimately show ?thesis using True d(3,6) by (intro that [of "header D" "eng s" "pages D"]) simp_all
  next
    case False
    with assms(4) p obtain bs0 rc A where A: "spec_exec c (pages D) (CopyFrom p (PAGE_SIZE c)) = Some (Data rc bs0, A)"
      "out = PageData bs0" "D' = D\<lparr>pages := A\<rparr>"
      by (auto split: option.splits vme_out.splits prod.splits simp del: spec_exec.simps)
    have "length (contents (pages D) p) = PAGE_SIZE c" using d(3) pc by (simp add: simulates_def)
    then have "length bs0 = PAGE_SIZE c" using A(1) by (auto split: if_splits)
    with copy_from_simulates [OF assms(1,2) d(3) A(1)] A(2,3) that show ?thesis by auto
  qed
  have "buf_write 0 bs (replicate (PAGE_SIZE c) 0) = bs" using e(6) by (simp add: buf_write_def)
  then have "vfs_call c aes rea f s (ReadPage p) = Some (out, s\<lparr>eng := e\<rparr>)"
    using b(1) inside d(1) e(1,4) ci by (simp add: sgxVmemRead_def in_engine_def del: of_nat_mult)
  moreover have "db_sim c aes f (s\<lparr>eng := e\<rparr>) D'"
    using assms(3) e by (auto simp: db_sim_def)
  ultimately show ?thesis by blast
qed

lemma fetch_page_offset:
  assumes "cfg_ok c" "p < COLD_PAGES c" "sector_size s = PAGE_SIZE c"
  shows "fetch_page s (int (PAGE_SIZE c * p)) = Inr p"
  using page_of_page [OF assms(1,2)] assms(3) cfg_ok_pos [OF assms(1)]
  by (simp add: fetch_page_def page_of_def del: of_nat_mult)

lemma fetch_page_sim:
  assumes "cfg_ok c" "aes_ok aes" "db_sim c aes f s D" "spec_file c D (FetchPage p) = Some (out, D')"
  shows "\<exists>s'. vfs_call c aes rea f s (FetchPage p) = Some (out, s') \<and> db_sim c aes f s' D'"
proof -
  obtain off A where A: "spec_exec c (pages D) (PageUp p) = Some (Mapped off, A)" "out = PageMapped off"
    "D' = D\<lparr>pages := A\<rparr>" "0 < npages D"
    using assms(4) by (auto split: option.splits vme_out.splits prod.splits if_splits simp del: spec_exec.simps)
  have p: "p < COLD_PAGES c" using A(1) by (auto split: if_splits)
  obtain b where b: "get_buf s (file_mem f) = Inr b" "total b = int (COLD_MEM_SIZE c)"
    and d: "is_main_db f" "sector_size s = PAGE_SIZE c" "simulates c aes (eng s) (pages D)"
    using assms(3) A(4) by (auto simp: db_sim_def)
  obtain e where e: "page_up c aes (eng s) p = Inr (off, e)" "simulates c aes e A" "zero_page e = zero_page (eng s)"
    using page_up_simulates [OF assms(1,2) d(3) A(1)] by auto
  have "int (PAGE_SIZE c * p) + int (PAGE_SIZE c) \<le> total b"
    using page_offset(1) [OF assms(1) p] b(2) by (simp del: of_nat_mult flip: of_nat_add)
  then have "vfs_call c aes rea f s (FetchPage p) = Some (out, s\<lparr>eng := e\<rparr>)"
    using b(1) d(1) A(2) e(1) fetch_page_offset [OF assms(1) p d(2)]
    by (simp add: sgxVmemFetch_def in_engine_def del: of_nat_mult)
  moreover have "db_sim c aes f (s\<lparr>eng := e\<rparr>) D'"
    using assms(3) e A(3) by (auto simp: db_sim_def)
  ultimately show ?thesis by blast
qed

lemma unfetch_page_sim:
  assumes "cfg_ok c" "db_sim c aes f s D" "spec_file c D (UnfetchPage p) = Some (out, D')"
  shows "\<exists>s'. vfs_call c aes rea f s (UnfetchPage p) = Some (out, s') \<and> db_sim c aes f s' D'"
proof -
  obtain o1 A where A: "spec_exec c (pages D) (PageDown p) = Some (o1, A)" "out = Unmapped" "D' = D\<lparr>pages := A\<rparr>"
    using assms(3) by (auto split: option.splits prod.splits simp del: spec_exec.simps)
  have d: "sector_size s = PAGE_SIZE c" "simulates c aes (eng s) (pages D)" using assms(2) by (auto simp: db_sim_def)
  have "op_in_range c (PageDown p)" using spec_exec_in_range [OF d(2) A(1)] .
  then have p: "p < COLD_PAGES c" by simp
  obtain e where e: "page_down (eng s) p = Inr e" "simulates c aes e A" "zero_page e = zero_page (eng s)"
    using page_down_simulates [OF d(2) A(1)] by auto
  have "vfs_call c aes rea f s (UnfetchPage p) = Some (out, s\<lparr>eng := e\<rparr>)"
    using A(2) e(1) fetch_page_offset [OF assms(1) p d(1)]
    by (simp add: sgxVmemUnfetch_def in_engine_def del: of_nat_mult)
  moreover have "db_sim c aes f (s\<lparr>eng := e\<rparr>) D'"
    using assms(2) e A(3) by (auto simp: db_sim_def)
  ultimately show ?thesis by blast
qed

lemma vfs_call_sim:
  assumes "cfg_ok c" "aes_ok aes" "db_sim c aes f s D" "spec_file c D x = Some (out, D')"
  shows "\<exists>s'. vfs_call c aes rea f s x = Some (out, s') \<and> db_sim c aes f s' D'"
  using assms write_page_sim [OF assms(1-3)] read_page_sim [OF assms(1-3)] fetch_page_sim [OF assms(1-3)]
    unfetch_page_sim [OF assms(1,3)]
  by (cases x) blast+

lemma vfs_calls_sim:
  assumes "cfg_ok c" "aes_ok aes"
  shows "db_sim c aes f s D \<Longrightarrow> spec_calls c D xs = Some (outs, D') \<Longrightarrow>
    \<exists>s'. vfs_calls c aes rea f s xs = Some (outs, s') \<and> db_sim c aes f s' D'"
proof (induction xs arbitrary: s D outs)
  case (Cons x xs)
  then obtain out D1 outs1 where step: "spec_file c D x = Some (out, D1)" "spec_calls c D1 xs = Some (outs1, D')"
      "outs = out # outs1"
    by (auto split: option.splits)
  obtain s1 where s1: "vfs_call c aes rea f s x = Some (out, s1)" "db_sim c aes f s1 D1"
    using vfs_call_sim [OF assms Cons.prems(1) step(1)] by blast
  from Cons.IH [OF s1(2) step(2)] s1(1) step(3) show ?case by auto
qed simp

section \<open>Opening a database\<close>

text \<open>
  What \<^verbatim>\<open>sgxvfs_open_db\<close> sets up before it calls the SQLite core, and the first
  things the core does with the VFS: open the file under its path and ask for the sector size.
\<close>

definition open_main :: "vme_cfg \<Rightarrow> vfs \<Rightarrow> string \<Rightarrow> u32 \<Rightarrow> (int \<times> sgxVmem_t \<times> vfs) fres" where
  "open_main c s path flags =
     bindE (sgxvfsOpen s (Some path) flags) (\<lambda>(rc, f, s). Inr (rc, f, snd (sgxVmemSectorSize c s)))"

definition empty_file :: "vme_cfg \<Rightarrow> db_file" where
  "empty_file c = \<lparr>header = replicate (PAGE_SIZE c) 0, pages = fresh_store c, npages = 0\<rparr>"

lemma open_main_sim:
  assumes "cfg_ok c" "page_hash (replicate (PAGE_SIZE c) 0) \<noteq> 0"
    and "eng s = cache_fresh c e0" "COLD_MEM_SIZE c \<le> length (cold e0)" "get_buf s mem = Inr calloc_buf"
    and "env s = Some ((path, mem) # links)" "SQLITE_OPEN_MAIN_DB AND flags \<noteq> 0"
  shows "\<exists>f s'. open_main c s path flags = Inr (SQLITE_OK, f, s') \<and> env s' = Some links
    \<and> db_sim c aes f s' (empty_file c)"
proof -
  have "mem \<noteq> None" using get_buf_not_None [OF assms(5)] .
  moreover have "get_buf (s\<lparr>env := Some links, sector_size := PAGE_SIZE c\<rparr>) mem = Inr calloc_buf"
    using assms(5) by simp
  moreover have "zero_page (cache_fresh c e0) = replicate (PAGE_SIZE c) 0" by (simp add: cache_fresh_def)
  ultimately show ?thesis
    using assms(3,6,7) cache_fresh_simulates [OF assms(1,2,4), of aes]
    by (auto simp: open_main_def sgxvfsOpen_def is_main_db_def Let_def load_cb_def sgxVmemSectorSize_def
        vmem_sector_size_def db_sim_def empty_file_def calloc_buf_def)
qed

section \<open>Properties\<close>

lemma cache_reset_total:
  assumes "cfg_ok c" "aes_ok aes" "reachable c aes e"
  shows "\<exists>e1. cache_reset c aes e = Some (Inr (cache_fresh c e1)) \<and> COLD_MEM_SIZE c \<le> length (cold e1)"
proof -
  obtain as where as: "lru_ok c e as" using reachable_lru_ok [OF assms] by blast
  then obtain e1 where "cache_purge c aes e = Some (Inr e1)" "purgeable c e1 []"
    using cache_purge_total [OF assms(1,2) lru_ok_purgeable] by blast
  with as show ?thesis
    by (auto simp: cache_reset_def cache_clear_def lru_ok_def links_ok_def purgeable_def sizes_ok_def)
qed

text \<open>
  C3: The main database file is an array of pages. After the engine is reset and the file opened, as
  \<^verbatim>\<open>sgxvfs_open_db\<close> does, every run of page writes, page reads, mappings and
  unmappings through the file methods that the abstract file allows succeeds and returns what
  the abstract file returns, the first page included, which the engine keeps apart.
\<close>
theorem db_file_refines_pages:
  assumes "cfg_ok c" "aes_ok aes" "page_hash (replicate (PAGE_SIZE c) 0) \<noteq> 0"
    and "reachable c aes (eng s0)" "env s0 = Some links" "get_buf s0 mem = Inr calloc_buf"
    and "SQLITE_OPEN_MAIN_DB AND flags \<noteq> 0" "spec_calls c (empty_file c) ops = Some (outs, D)"
  shows "\<exists>e f s s'. cache_reset c aes (eng s0) = Some (Inr e)
    \<and> open_main c (s0\<lparr>eng := e, env := Some ((path, mem) # links)\<rparr>) path flags = Inr (SQLITE_OK, f, s)
    \<and> env s = Some links \<and> vfs_calls c aes rea f s ops = Some (outs, s')"
proof -
  obtain e e0 where e: "cache_reset c aes (eng s0) = Some (Inr e)"
    and "e = cache_fresh c e0" "COLD_MEM_SIZE c \<le> length (cold e0)"
    using cache_reset_total [OF assms(1,2,4)] by blast
  with open_main_sim [OF assms(1,3), of "s0\<lparr>eng := e, env := Some ((path, mem) # links)\<rparr>" e0 mem path links flags aes]
    assms(6,7)
  obtain f s where f: "open_main c (s0\<lparr>eng := e, env := Some ((path, mem) # links)\<rparr>) path flags = Inr (SQLITE_OK, f, s)"
    "env s = Some links" "db_sim c aes f s (empty_file c)" by auto
  with vfs_calls_sim [OF assms(1,2) f(3) assms(8)] e show ?thesis by blast
qed

definition small_vfs :: vfs where
  "small_vfs = \<lparr>eng = small_start, bufs = [0 \<mapsto> calloc_buf], bnext = 1, env = Some [], sector_size = 0,
     gmem = None, registered = True\<rparr>"

theorem db_file_refines_pages_witness:
  "\<exists>e f s s'. cache_reset small_config xor_ctr (eng small_vfs) = Some (Inr e)
    \<and> open_main small_config (small_vfs\<lparr>eng := e, env := Some [(''sgx'', Some 0)]\<rparr>) ''sgx'' 0x106 = Inr (SQLITE_OK, f, s)
    \<and> vfs_calls small_config xor_ctr (\<lambda>_ _. None) f s
        [WritePage 0 [1, 1, 1, 1, 1, 1, 1, 1], WritePage 1 [2, 2, 2, 2, 2, 2, 2, 2], FetchPage 1, UnfetchPage 1, ReadPage 0]
      = Some ([Written, Written, PageMapped 0, Unmapped, PageData [1, 1, 1, 1, 1, 1, 1, 1]], s')"
proof -
  let ?ops = "[WritePage 0 [1, 1, 1, 1, 1, 1, 1, 1], WritePage 1 [2, 2, 2, 2, 2, 2, 2, 2], FetchPage 1, UnfetchPage 1,
    ReadPage 0]"
  have "map_option fst (spec_calls small_config (empty_file small_config) ?ops)
      = Some [Written, Written, PageMapped 0, Unmapped, PageData [1, 1, 1, 1, 1, 1, 1, 1]]"
    by code_simp
  then obtain D where D: "spec_calls small_config (empty_file small_config) ?ops
      = Some ([Written, Written, PageMapped 0, Unmapped, PageData [1, 1, 1, 1, 1, 1, 1, 1]], D)"
    by (auto simp del: spec_calls.simps spec_file.simps)
  have "reachable small_config xor_ctr (eng small_vfs)" "env small_vfs = Some []"
    "get_buf small_vfs (Some 0) = Inr calloc_buf"
    using small_start_reachable by (simp_all add: small_vfs_def get_buf_def)
  from db_file_refines_pages [OF small_ok this _ D, of "0x106" "''sgx''" "\<lambda>_ _. None"] show ?thesis
    by (auto simp: SQLITE_OPEN_MAIN_DB_def)
qed

text \<open>
  C17: A file that is not the main database is a growing array of bytes: after any writes without
  holes, from any well-formed state, a read inside the file returns the bytes of the array those
  writes build, however often the block moved.
\<close>
theorem private_file_is_byte_array:
  assumes "realloc_ok rea" "private_ok f s" "no_holes (length (private_content f s)) ws"
    and "writes (\<lambda>s. private_write c aes rea f s) s ws = Some s'"
    and "off + n \<le> length (overwrites (private_content f s) ws)"
  shows "private_read c aes f s' off n = Some (buf_read off n (overwrites (private_content f s) ws))"
  using sgx_private.read_after_writes [of f s ws rea c aes s' off n] assms by simp

definition small_journal :: "sgxVmem_t" where
  "small_journal = \<lparr>file_path = None, file_flags = 0x800, file_mem = Some 0\<rparr>"

definition grow_zero :: realloc_fn where
  "grow_zero old n = Some (take n (case old of None \<Rightarrow> [] | Some bs \<Rightarrow> bs) @ replicate (n - (case old of None \<Rightarrow> 0 | Some bs \<Rightarrow> length bs)) 0)"

lemma grow_zero_ok: "realloc_ok grow_zero"
  by (auto simp: realloc_ok_def grow_zero_def min_def split: option.splits)

lemma small_journal_ok: "private_ok small_journal small_vfs" "private_content small_journal small_vfs = []"
  by (auto simp: private_ok_def private_content_def small_journal_def small_vfs_def get_buf_def calloc_buf_def
      is_main_db_def SQLITE_OPEN_MAIN_DB_def)

theorem private_file_is_byte_array_witness:
  "\<exists>s. writes (\<lambda>s. private_write small_config xor_ctr grow_zero small_journal s) small_vfs
      [(0, [1, 2, 3]), (3, [4, 5, 6, 7, 8, 9]), (1, [7])] = Some s
    \<and> private_read small_config xor_ctr small_journal s 0 9 = Some [1, 7, 3, 4, 5, 6, 7, 8, 9]"
proof -
  let ?ws = "[(0, [1, 2, 3]), (3, [4, 5, 6, 7, 8, 9]), (1, [7])] :: (nat \<times> bytes) list"
  obtain s where s: "writes (\<lambda>s. private_write small_config xor_ctr grow_zero small_journal s) small_vfs ?ws = Some s"
    by (simp add: private_write_def sgxVmemWrite_def sgxVmemWrite_grow_def small_vfs_def small_journal_def
        get_buf_def set_buf_def calloc_buf_def is_main_db_def SQLITE_OPEN_MAIN_DB_def c_int_def c_size_t_def
        grow_zero_def SQLITE_OK_def buf_write_def Let_def)
  from private_file_is_byte_array [OF grow_zero_ok small_journal_ok(1) _ s, of 0 9] s show ?thesis
    by (simp add: small_journal_ok buf_write_def buf_read_def del: writes.simps)
qed

text \<open>The environment: what an open takes out of it.\<close>

lemma link_remove_map_of:
  "sgxbuffer_link_remove links q =
     (case map_of links q of None \<Rightarrow> (None, links) | Some m \<Rightarrow> (Some (q, m), remove1 (q, m) links))"
proof (induction links)
  case (Cons l ls)
  then show ?case by (cases l; cases "map_of ls q") auto
qed simp

definition opened :: "vfs \<Rightarrow> string \<Rightarrow> u32 \<Rightarrow> ptr \<Rightarrow> int \<times> sgxVmem_t \<times> vfs" where
  "opened s q flags m = (if m \<noteq> None then SQLITE_OK else SQLITE_ERROR,
     \<lparr>file_path = Some q, file_flags = flags, file_mem = m\<rparr>, s)"

lemma sgxvfsOpen_main:
  assumes "env s = Some links" "SQLITE_OPEN_MAIN_DB AND flags \<noteq> 0"
  shows "sgxvfsOpen s (Some q) flags = Inr (case map_of links q of None \<Rightarrow> opened s q flags None
    | Some m \<Rightarrow> opened (s\<lparr>env := Some (remove1 (q, m) links)\<rparr>) q flags m)"
  using assms
  by (cases "map_of links q") (auto simp: sgxvfsOpen_def is_main_db_def load_cb_def Let_def link_remove_map_of opened_def)

text \<open>
  C31: Opening a database hands its buffer to the file, once. \<^verbatim>\<open>sgxvfs_open_db\<close> puts the
  buffer into the environment under the path and calls the core, which opens the main file
  under that path and goes on; whatever it does then, short of opening other databases, the buffer
  of the file is the one that was put, the handle keeps it exactly when the core succeeds, and the
  environment is as it was before: an open of any path afterwards finds the buffers that were
  in it, and none for a path without one, so a second open of this path fails.
\<close>
theorem database_opens_once:
  assumes "cfg_ok c" "aes_ok aes" "reachable c aes (eng s)" "env s = Some links" "mem \<noteq> None"
    and "SQLITE_OPEN_MAIN_DB AND flags \<noteq> 0" "path \<notin> fst ` set links"
    and core: "\<And>t. open_v2 path t = bindE (sgxvfsOpen t (Some path) flags)
      (\<lambda>(rc, f, t). if rc = SQLITE_OK then proceed f t else Inr (rc, None, t))"
    and keeps: "\<And>f t ret h t'. proceed f t = Inr (ret, h, t') \<Longrightarrow> env t' = env t"
  shows "\<exists>e f. cache_reset c aes (eng s) = Some (Inr e) \<and> file_path f = Some path \<and> file_mem f = mem
    \<and> sgxvfs_open_db c aes open_v2 s path mem = Some (bindE (proceed f (s\<lparr>eng := e\<rparr>))
        (\<lambda>(ret, h, t). Inr (ret, h, if ret = 0 then mem else None, t)))
    \<and> (\<forall>ret h t q. proceed f (s\<lparr>eng := e\<rparr>) = Inr (ret, h, t) \<longrightarrow>
        sgxvfsOpen t (Some q) flags = Inr (case map_of links q of None \<Rightarrow> opened t q flags None
          | Some m \<Rightarrow> opened (t\<lparr>env := Some (remove1 (q, m) links)\<rparr>) q flags m))"
proof -
  obtain e where e: "cache_reset c aes (eng s) = Some (Inr e)"
    using cache_reset_total [OF assms(1-3)] by blast
  let ?t = "s\<lparr>eng := e, env := Some ((path, mem) # links)\<rparr>" and ?u = "s\<lparr>eng := e\<rparr>"
  let ?f = "\<lparr>file_path = Some path, file_flags = flags, file_mem = mem\<rparr>"
  have u: "?t\<lparr>env := Some links\<rparr> = ?u" using assms(4) by simp
  have "sgxvfsOpen ?t (Some path) flags = Inr (SQLITE_OK, ?f, ?u)"
    using sgxvfsOpen_main [of ?t "(path, mem) # links" flags path] assms(4-6) by (simp add: opened_def)
  then have "open_v2 path ?t = proceed ?f ?u" by (simp add: core)
  moreover have none: "sgxbuffer_link_remove links path = (None, links)"
    using assms(7) by (simp add: link_remove_map_of map_of_eq_None_iff [THEN iffD2])
  have "(case env t of None \<Rightarrow> Inl NullEnv
      | Some links \<Rightarrow> (case sgxbuffer_link_remove links path of (None, _) \<Rightarrow> Inr (ret, h, None, t)
          | (Some l, rest) \<Rightarrow> bindE (sgxbuffer_link_free (t\<lparr>env := Some rest\<rparr>) l) (\<lambda>s. Inr (ret, h, None, s))))
      = Inr (ret, h, None, t)" if "proceed ?f ?u = Inr (ret, h, t)" for ret h t
    using keeps [OF that] assms(4) none by simp
  ultimately have "sgxvfs_open_db c aes open_v2 s path mem = Some (bindE (proceed ?f ?u)
        (\<lambda>(ret, h, t). Inr (ret, h, if ret = 0 then mem else None, t)))"
    using e assms(4)
    by (cases "proceed ?f ?u") (auto simp: sgxvfs_open_db_def in_engine_def split: prod.splits)
  moreover have "sgxvfsOpen t (Some q) flags = Inr (case map_of links q of None \<Rightarrow> opened t q flags None
          | Some m \<Rightarrow> opened (t\<lparr>env := Some (remove1 (q, m) links)\<rparr>) q flags m)"
    if "proceed ?f ?u = Inr (ret, h, t)" for ret h t q
    using keeps [OF that] assms(4,6) by (intro sgxvfsOpen_main) simp_all
  ultimately show ?thesis using e by (intro exI [of _ e] exI [of _ ?f]) auto
qed

theorem database_opens_once_witness:
  "\<exists>e. sgxvfs_open_db small_config xor_ctr
      (\<lambda>path t. bindE (sgxvfsOpen t (Some path) 0x106) (\<lambda>(rc, f, t). if rc = SQLITE_OK then Inr (0, Some 9, t) else Inr (rc, None, t)))
      (small_vfs\<lparr>env := Some [(''b'', Some 1)]\<rparr>) ''a'' (Some 0)
    = Some (Inr (0, Some 9, Some 0, small_vfs\<lparr>eng := e, env := Some [(''b'', Some 1)]\<rparr>))
    \<and> sgxvfsOpen (small_vfs\<lparr>eng := e, env := Some [(''b'', Some 1)]\<rparr>) (Some ''a'') 0x106
      = Inr (opened (small_vfs\<lparr>eng := e, env := Some [(''b'', Some 1)]\<rparr>) ''a'' 0x106 None)
    \<and> sgxvfsOpen (small_vfs\<lparr>eng := e, env := Some [(''b'', Some 1)]\<rparr>) (Some ''b'') 0x106
      = Inr (opened (small_vfs\<lparr>eng := e, env := Some []\<rparr>) ''b'' 0x106 (Some 1))"
  using database_opens_once [of small_config xor_ctr "small_vfs\<lparr>env := Some [(''b'', Some 1)]\<rparr>" "[(''b'', Some 1)]"
      "Some 0" "0x106" "''a''"
      "\<lambda>path t. bindE (sgxvfsOpen t (Some path) 0x106) (\<lambda>(rc, f, t). if rc = SQLITE_OK then Inr (0, Some 9, t) else Inr (rc, None, t))"
      "\<lambda>f t. Inr (0, Some 9, t)"] small_ok small_start_reachable
  by (auto simp: SQLITE_OPEN_MAIN_DB_def small_vfs_def)

text \<open>
  C39: A read that crosses the end of a private file delivers nothing: it reports a short read and
  leaves the caller's buffer as it was, where SQLite documents that the part past the end must be
  filled with zeros.
\<close>
theorem short_read_leaves_buffer:
  assumes "private_ok f s" "length (private_content f s) < off + n"
  shows "sgxVmemRead c aes s f buffer n (int off) = Inr (SQLITE_IOERR_SHORT_READ, buffer, s)"
proof -
  obtain b where b: "get_buf s (file_mem f) = Inr b" "0 \<le> used b" "used b \<le> int (length (dat b))"
    using assms(1) by (auto simp: private_ok_iff)
  then have "used b < int off + int n" using assms(2) private_content_eq [OF b(1)] by simp
  with b(1) show ?thesis by (simp add: sgxVmemRead_def)
qed

theorem short_read_leaves_buffer_witness:
  "sgxVmemRead small_config xor_ctr small_vfs small_journal [255, 255] 2 0 = Inr (SQLITE_IOERR_SHORT_READ, [255, 255], small_vfs)"
  using short_read_leaves_buffer [OF small_journal_ok(1), of 0 2] small_journal_ok(2) by simp

text \<open>
  C40: The size of the block a private file grows to, twice the sum of offset, length and old
  size, is computed in 64 bits and kept in an \<^verbatim>\<open>int\<close>. From $2^{30}$ on the sum gives a
  negative size, which \<^verbatim>\<open>realloc\<close> takes for one of more than $2^{63}$ bytes: the write
  is refused however much memory there is. From $2^{31}$ on it gives a small size, the block
  shrinks, and the write that follows is outside it.
\<close>
theorem growth_wraps_around:
  assumes "realloc_ok rea" "\<And>old n. 2 ^ 63 \<le> n \<Longrightarrow> rea old n = None"
    and "private_ok f s" "get_buf s (file_mem f) = Inr b" "bs \<noteq> []" "total b < int off + int (length bs)"
    and "2 ^ 30 \<le> int off + int (length bs) + total b" "int off + int (length bs) + total b < 2 ^ 31 + 2 ^ 30"
  shows "(int off + int (length bs) + total b < 2 ^ 31 \<longrightarrow>
      c_int (2 * (int off + int (length bs) + total b)) < 0
      \<and> sgxVmemWrite c aes rea s f bs (int off) = Inr (SQLITE_NOMEM, s))
    \<and> (2 ^ 31 \<le> int off + int (length bs) + total b \<and> int off + int (length bs) + 2 * total b < 2 ^ 32
      \<and> rea (buf_data b) (nat (2 * (int off + int (length bs) + total b) - 2 ^ 32)) \<noteq> None \<longrightarrow>
      sgxVmemWrite c aes rea s f bs (int off) = Inl BufferBounds)"
proof -
  let ?x = "int off + int (length bs) + total b"
  have "(2 * ?x + 2 ^ 31) mod 2 ^ 32 = (2 * ?x + 2 ^ 31 - 2 ^ 32) mod 2 ^ 32" by (simp only: minus_mod_self2)
  also have "\<dots> = 2 * ?x + 2 ^ 31 - 2 ^ 32" using assms(7,8) by (intro mod_pos_pos_trivial) auto
  finally have n: "c_int (2 * ?x) = 2 * ?x - 2 ^ 32" by (simp add: c_int_def)
  have priv: "\<not> is_main_db f" using assms(3) by (simp add: private_ok_def)
  note run = sgxVmemWrite_def sgxVmemWrite_grow_def Let_def
  have "sgxVmemWrite c aes rea s f bs (int off) = Inr (SQLITE_NOMEM, s)" if "?x < 2 ^ 31"
  proof -
    have "2 ^ 63 \<le> c_size_t (2 * ?x - 2 ^ 32)"
      using that assms(7) by (intro c_size_t_negative) auto
    then show ?thesis using assms(2,4,6) n priv by (simp add: run)
  qed
  moreover have "sgxVmemWrite c aes rea s f bs (int off) = Inl BufferBounds"
    if "2 ^ 31 \<le> ?x" "int off + int (length bs) + 2 * total b < 2 ^ 32"
      and mem: "rea (buf_data b) (nat (2 * ?x - 2 ^ 32)) \<noteq> None"
  proof -
    obtain new where new: "rea (buf_data b) (nat (2 * ?x - 2 ^ 32)) = Some new" using mem by blast
    have sz: "c_size_t (2 * ?x - 2 ^ 32) = nat (2 * ?x - 2 ^ 32)" using that(1) assms(8) by (intro c_size_t_id) auto
    have "length new = nat (2 * ?x - 2 ^ 32)" using assms(1) new by (auto simp: realloc_ok_def)
    then have "\<not> off + length bs \<le> length new" using that(1,2) by simp
    with assms(4-6) n sz new priv get_buf_not_None [OF assms(4)] show ?thesis by (simp add: run)
  qed
  ultimately show ?thesis using n by auto
qed

definition grow_limited :: realloc_fn where
  "grow_limited old n = (if 2 ^ 63 \<le> n then None else grow_zero old n)"

lemma grow_limited_ok: "realloc_ok grow_limited" "2 ^ 63 \<le> n \<Longrightarrow> grow_limited old n = None"
  using grow_zero_ok by (auto simp: realloc_ok_def grow_limited_def)

theorem growth_wraps_around_witness:
  "sgxVmemWrite small_config xor_ctr grow_limited small_vfs small_journal [1] (2 ^ 30) = Inr (SQLITE_NOMEM, small_vfs)
   \<and> sgxVmemWrite small_config xor_ctr grow_limited small_vfs small_journal [1] (2 ^ 31) = Inl BufferBounds"
proof -
  have "get_buf small_vfs (file_mem small_journal) = Inr calloc_buf"
    by (simp add: small_vfs_def small_journal_def get_buf_def)
  note wraps = growth_wraps_around [OF grow_limited_ok small_journal_ok(1) this, of "[1]"]
  from wraps [of "2 ^ 30"] wraps [of "2 ^ 31"] show ?thesis
    by (fastforce simp: calloc_buf_def grow_limited_def [of None] grow_zero_def)
qed

end
