(* ===== verification/Varint.thy ===== *)
theory Varint
  imports Prelude
begin

text \<open>
  The integer encodings of the SQLite file format, from \<^verbatim>\<open>sqlite/util.c\<close>: the
  variable-length integers of one to nine bytes, with the unrolled decoder the code uses and the
  short loop it stands for, and the four-byte big-endian integers.
\<close>

section \<open>Writing\<close>

text \<open>
  \<^verbatim>\<open>putVarint64\<close>: the nine-byte form when any of the top eight bits is set, else the
  loop that collects seven bits at a time, least significant first, into \<^verbatim>\<open>buf\<close>. The
  functions return what they write; its length is the C function's result.
\<close>

function varint_buf :: "u64 \<Rightarrow> bytes" where
  "varint_buf v =
     (let b = ucast ((v AND 0x7f) OR 0x80); v' = drop_bit 7 v
      in if v' \<noteq> 0 then b # varint_buf v' else [b])"
  by pat_completeness auto

termination
proof (relation "measure unat")
  show "wf (measure unat)" by simp
next
  fix v :: u64 and b v'
  assume v': "v' = drop_bit 7 v" and "v' \<noteq> 0"
  then have "unat v' \<noteq> 0" by (simp add: unat_eq_zero)
  moreover have "unat v' = unat v div 2 ^ 7" unfolding v' unat_drop_bit_eq by (simp add: drop_bit_eq_div)
  ultimately show "(v', v) \<in> measure unat" by (simp add: div_less_dividend)
qed

declare varint_buf.simps [simp del]

fun varint_high :: "nat \<Rightarrow> u64 \<Rightarrow> bytes" where
  "varint_high 0 v = []"
| "varint_high (Suc n) v = varint_high n (drop_bit 7 v) @ [ucast ((v AND 0x7f) OR 0x80)]"

definition putVarint64 :: "u64 \<Rightarrow> bytes" where
  "putVarint64 v =
     (if v AND push_bit 32 0xff000000 \<noteq> 0 then varint_high 8 (drop_bit 8 v) @ [ucast v]
      else let buf = varint_buf v; buf = buf[0 := buf ! 0 AND 0x7f] in rev buf)"

definition sqlite3PutVarint :: "u64 \<Rightarrow> bytes" where
  "sqlite3PutVarint v =
     (if v \<le> 0x7f then [ucast (v AND 0x7f)]
      else if v \<le> 0x3fff then [ucast ((drop_bit 7 v AND 0x7f) OR 0x80), ucast (v AND 0x7f)]
      else putVarint64 v)"

function varint_len :: "u64 \<Rightarrow> nat \<Rightarrow> nat" where
  "varint_len v i = (let v = drop_bit 7 v in if v \<noteq> 0 then varint_len v (i + 1) else i)"
  by pat_completeness auto

termination
proof (relation "measure (unat \<circ> fst)")
  show "wf (measure (unat \<circ> fst))" by simp
next
  fix v :: u64 and i v'
  assume v': "v' = drop_bit 7 v" and "v' \<noteq> 0"
  then have "unat v' \<noteq> 0" by (simp add: unat_eq_zero)
  moreover have "unat v' = unat v div 2 ^ 7" unfolding v' unat_drop_bit_eq by (simp add: drop_bit_eq_div)
  ultimately show "((v', i + 1), v, i) \<in> measure (unat \<circ> fst)" by (simp add: div_less_dividend)
qed

declare varint_len.simps [simp del]

definition sqlite3VarintLen :: "u64 \<Rightarrow> nat" where
  "sqlite3VarintLen v = varint_len v 1"

section \<open>Reading\<close>

definition SLOT_2_0 :: u32 where "SLOT_2_0 = 0x001fc07f"
definition SLOT_4_2_0 :: u32 where "SLOT_4_2_0 = 0xf01fc07f"

text \<open>
  \<^verbatim>\<open>sqlite3GetVarint\<close>, with the code's 32-bit accumulators \<^verbatim>\<open>a\<close>,
  \<^verbatim>\<open>b\<close> and \<^verbatim>\<open>s\<close> under their names; \<^theory_text>\<open>p ! i\<close> is byte \<^theory_text>\<open>i\<close> and the
  result is the number of bytes read and the value.
\<close>

definition sqlite3GetVarint :: "bytes \<Rightarrow> nat \<times> u64" where
  "sqlite3GetVarint p =
    (let a = ucast (p ! 0) :: u32 in
     if a AND 0x80 = 0 then (1, ucast a) else
     let b = ucast (p ! 1) in
     if b AND 0x80 = 0 then (2, ucast (push_bit 7 (a AND 0x7f) OR b)) else
     let a = push_bit 14 a OR ucast (p ! 2) in
     if a AND 0x80 = 0 then (3, ucast ((a AND SLOT_2_0) OR push_bit 7 (b AND 0x7f))) else
     let a = a AND SLOT_2_0; b = push_bit 14 b OR ucast (p ! 3) in
     if b AND 0x80 = 0 then (4, ucast (push_bit 7 a OR (b AND SLOT_2_0))) else
     let b = b AND SLOT_2_0; s = a; a = push_bit 14 a OR ucast (p ! 4) in
     if a AND 0x80 = 0
     then (5, push_bit 32 (ucast (drop_bit 18 s)) OR ucast (a OR push_bit 7 b)) else
     let s = push_bit 7 s OR b; b = push_bit 14 b OR ucast (p ! 5) in
     if b AND 0x80 = 0
     then (6, push_bit 32 (ucast (drop_bit 18 s)) OR ucast (push_bit 7 (a AND SLOT_2_0) OR b)) else
     let a = push_bit 14 a OR ucast (p ! 6) in
     if a AND 0x80 = 0
     then (7, push_bit 32 (ucast (drop_bit 11 s)) OR ucast ((a AND SLOT_4_2_0) OR push_bit 7 (b AND SLOT_2_0))) else
     let a = a AND SLOT_2_0; b = push_bit 14 b OR ucast (p ! 7) in
     if b AND 0x80 = 0
     then (8, push_bit 32 (ucast (drop_bit 4 s)) OR ucast (push_bit 7 a OR (b AND SLOT_4_2_0))) else
     let a = push_bit 15 a OR ucast (p ! 8); a = a OR push_bit 8 (b AND SLOT_2_0);
         s = push_bit 4 s; b = ucast (p ! 4); b = drop_bit 3 (b AND 0x7f); s = s OR b
     in (9, push_bit 32 (ucast s) OR ucast a))"

text \<open>\<^verbatim>\<open>sqlite3GetVarint32\<close>, in the variant that inlines the first three cases.\<close>

definition sqlite3GetVarint32 :: "bytes \<Rightarrow> nat \<times> u32" where
  "sqlite3GetVarint32 p =
    (let a = ucast (p ! 0) :: u32 in
     if a AND 0x80 = 0 then (1, a) else
     let b = ucast (p ! 1) in
     if b AND 0x80 = 0 then (2, push_bit 7 (a AND 0x7f) OR b) else
     let a = push_bit 14 a OR ucast (p ! 2) in
     if a AND 0x80 = 0 then (3, (a AND (push_bit 14 0x7f OR 0x7f)) OR push_bit 7 (b AND 0x7f)) else
     (case sqlite3GetVarint p of (n, v64) \<Rightarrow>
        (n, if v64 AND 0xffffffff \<noteq> v64 then 0xffffffff else ucast v64)))"

definition sqlite3Get4byte :: "bytes \<Rightarrow> u32" where
  "sqlite3Get4byte p =
     push_bit 24 (ucast (p ! 0)) OR push_bit 16 (ucast (p ! 1)) OR push_bit 8 (ucast (p ! 2)) OR ucast (p ! 3)"

definition sqlite3Put4byte :: "u32 \<Rightarrow> bytes" where
  "sqlite3Put4byte v = [ucast (drop_bit 24 v), ucast (drop_bit 16 v), ucast (drop_bit 8 v), ucast v]"

section \<open>Words bit by bit\<close>

lemma all_less_8: "(\<forall>n<(8::nat). P n) \<longleftrightarrow> P 0 \<and> P 1 \<and> P 2 \<and> P 3 \<and> P 4 \<and> P 5 \<and> P 6 \<and> P 7"
  by (simp add: numeral_eq_Suc All_less_Suc) blast

lemma all_less_add: "(\<forall>n<a + b. P n) \<longleftrightarrow> (\<forall>n<a. P n) \<and> (\<forall>n<(b :: nat). P (a + n))"
proof (intro iffI conjI allI impI)
  fix n assume *: "(\<forall>n<a. P n) \<and> (\<forall>n<b. P (a + n))" "n < a + b"
  show "P n"
  proof (cases "n < a")
    case False
    then have "P (a + (n - a))" using * by (intro mp [OF spec [OF conjunct2 [OF *(1)]]]) auto
    with False show ?thesis by simp
  qed (use * in simp)
qed auto

lemma all_less_64: "(\<forall>n<(64::nat). P n) \<longleftrightarrow>
    (\<forall>n<8. P n) \<and> (\<forall>n<8. P (8 + n)) \<and> (\<forall>n<8. P (16 + n)) \<and> (\<forall>n<8. P (24 + n)) \<and>
    (\<forall>n<8. P (32 + n)) \<and> (\<forall>n<8. P (40 + n)) \<and> (\<forall>n<8. P (48 + n)) \<and> (\<forall>n<8. P (56 + n))"
  using all_less_add [of 8 8 P] all_less_add [of 16 8 P] all_less_add [of 24 8 P] all_less_add [of 32 8 P]
    all_less_add [of 40 8 P] all_less_add [of 48 8 P] all_less_add [of 56 8 P]
  by simp

lemma all_less_32: "(\<forall>n<(32::nat). P n) \<longleftrightarrow>
    (\<forall>n<8. P n) \<and> (\<forall>n<8. P (8 + n)) \<and> (\<forall>n<8. P (16 + n)) \<and> (\<forall>n<8. P (24 + n))"
  using all_less_add [of 8 8 P] all_less_add [of 16 8 P] all_less_add [of 24 8 P] by simp

lemma word_eq_bits: "(x :: 'a :: len word) = y \<longleftrightarrow> (\<forall>n<LENGTH('a). bit x n = bit y n)"
  by (auto intro: bit_word_eqI)

lemmas word64_bits = word_eq_bits [where 'a = 64, simplified, unfolded all_less_64 all_less_8]
lemmas word32_bits = word_eq_bits [where 'a = 32, simplified, unfolded all_less_32 all_less_8]
lemmas word8_bits = word_eq_bits [where 'a = 8, simplified, unfolded all_less_8]

lemma byte_bit_high: "8 \<le> n \<Longrightarrow> \<not> bit (p :: u8) n"
  using bit_imp_le_length by fastforce

section \<open>The decoder is the short loop\<close>

text \<open>
  The loop the unrolled decoder stands for: seven bits from every byte with the high bit set, at
  most eight of them, and the whole last byte.
\<close>

fun varint_loop :: "nat \<Rightarrow> u64 \<Rightarrow> bytes \<Rightarrow> nat \<times> u64" where
  "varint_loop 0 v p = (1, push_bit 8 v OR ucast (hd p))"
| "varint_loop (Suc n) v p =
     (if hd p AND 0x80 = 0 then (1, push_bit 7 v OR ucast (hd p))
      else (case varint_loop n (push_bit 7 v OR ucast (hd p AND 0x7f)) (tl p) of (k, w) \<Rightarrow> (k + 1, w)))"

lemma word_bit_high: "64 \<le> n \<Longrightarrow> \<not> bit (v :: u64) n"
  using bit_imp_le_length by fastforce

lemma word32_bit_high: "32 \<le> n \<Longrightarrow> \<not> bit (v :: u32) n"
  using bit_imp_le_length by fastforce

text \<open>A buffer the decoder may read: one in which the integer ends, at the ninth byte at the latest.\<close>

fun varint_ends :: "nat \<Rightarrow> bytes \<Rightarrow> bool" where
  "varint_ends n [] \<longleftrightarrow> False"
| "varint_ends 0 (b # p) \<longleftrightarrow> True"
| "varint_ends (Suc n) (b # p) \<longleftrightarrow> b AND 0x80 = 0 \<or> varint_ends n p"

lemma flag32: "x AND 0x80 = (0 :: u32) \<longleftrightarrow> \<not> bit x 7"
  using and_exp_eq_0_iff_not_bit [of x 7] by simp

lemma flag8: "x AND 0x80 = (0 :: u8) \<longleftrightarrow> \<not> bit x 7"
  using and_exp_eq_0_iff_not_bit [of x 7] by simp

lemmas varint_bits = bit_simps byte_bit_high SLOT_2_0_def SLOT_4_2_0_def

lemma varint_loop_unfold:
  "varint_loop 8 0 p = varint_loop (Suc (Suc (Suc (Suc (Suc (Suc (Suc (Suc 0)))))))) 0 p"
  by (rule arg_cong [where f = "\<lambda>n. varint_loop n 0 p"]) simp

lemma varint_loop_short:
  shows "\<not> bit p0 7 \<Longrightarrow> varint_loop 8 0 (p0 # ps) = sqlite3GetVarint (p0 # ps)"
    and "bit p0 7 \<Longrightarrow> \<not> bit p1 7 \<Longrightarrow> varint_loop 8 0 (p0 # p1 # ps) = sqlite3GetVarint (p0 # p1 # ps)"
    and "bit p0 7 \<Longrightarrow> bit p1 7 \<Longrightarrow> \<not> bit p2 7 \<Longrightarrow>
      varint_loop 8 0 (p0 # p1 # p2 # ps) = sqlite3GetVarint (p0 # p1 # p2 # ps)"
  by (simp_all add: varint_loop_unfold sqlite3GetVarint_def Let_def flag32 flag8 bit_simps)
    (simp_all add: word64_bits varint_bits disj_ac)

lemma varint_loop_4:
  "bit p0 7 \<Longrightarrow> bit p1 7 \<Longrightarrow> bit p2 7 \<Longrightarrow> \<not> bit p3 7 \<Longrightarrow> 
    varint_loop 8 0 (p0 # p1 # p2 # p3 # ps) =
    sqlite3GetVarint (p0 # p1 # p2 # p3 # ps)"
  by (simp add: varint_loop_unfold sqlite3GetVarint_def Let_def flag32 flag8 bit_simps)
    (simp add: word64_bits varint_bits disj_ac)

lemma varint_loop_5:
  "bit p0 7 \<Longrightarrow> bit p1 7 \<Longrightarrow> bit p2 7 \<Longrightarrow> bit p3 7 \<Longrightarrow> \<not> bit p4 7 \<Longrightarrow> 
    varint_loop 8 0 (p0 # p1 # p2 # p3 # p4 # ps) =
    sqlite3GetVarint (p0 # p1 # p2 # p3 # p4 # ps)"
  by (simp add: varint_loop_unfold sqlite3GetVarint_def Let_def flag32 flag8 bit_simps)
    (simp add: word64_bits varint_bits disj_ac)

lemma varint_loop_6:
  "bit p0 7 \<Longrightarrow> bit p1 7 \<Longrightarrow> bit p2 7 \<Longrightarrow> bit p3 7 \<Longrightarrow> bit p4 7 \<Longrightarrow> \<not> bit p5 7 \<Longrightarrow> 
    varint_loop 8 0 (p0 # p1 # p2 # p3 # p4 # p5 # ps) =
    sqlite3GetVarint (p0 # p1 # p2 # p3 # p4 # p5 # ps)"
  by (simp add: varint_loop_unfold sqlite3GetVarint_def Let_def flag32 flag8 bit_simps)
    (simp add: word64_bits varint_bits disj_ac)

lemma varint_loop_7:
  "bit p0 7 \<Longrightarrow> bit p1 7 \<Longrightarrow> bit p2 7 \<Longrightarrow> bit p3 7 \<Longrightarrow> bit p4 7 \<Longrightarrow> bit p5 7 \<Longrightarrow> \<not> bit p6 7 \<Longrightarrow> 
    varint_loop 8 0 (p0 # p1 # p2 # p3 # p4 # p5 # p6 # ps) =
    sqlite3GetVarint (p0 # p1 # p2 # p3 # p4 # p5 # p6 # ps)"
  by (simp add: varint_loop_unfold sqlite3GetVarint_def Let_def flag32 flag8 bit_simps)
    (simp add: word64_bits varint_bits disj_ac)

lemma varint_loop_8:
  "bit p0 7 \<Longrightarrow> bit p1 7 \<Longrightarrow> bit p2 7 \<Longrightarrow> bit p3 7 \<Longrightarrow> bit p4 7 \<Longrightarrow> bit p5 7 \<Longrightarrow> bit p6 7 \<Longrightarrow> \<not> bit p7 7 \<Longrightarrow> 
    varint_loop 8 0 (p0 # p1 # p2 # p3 # p4 # p5 # p6 # p7 # ps) =
    sqlite3GetVarint (p0 # p1 # p2 # p3 # p4 # p5 # p6 # p7 # ps)"
  by (simp add: varint_loop_unfold sqlite3GetVarint_def Let_def flag32 flag8 bit_simps)
    (simp add: word64_bits varint_bits disj_ac)

lemma varint_loop_9:
  "bit p0 7 \<Longrightarrow> bit p1 7 \<Longrightarrow> bit p2 7 \<Longrightarrow> bit p3 7 \<Longrightarrow> bit p4 7 \<Longrightarrow> bit p5 7 \<Longrightarrow> bit p6 7 \<Longrightarrow> bit p7 7 \<Longrightarrow> 
    varint_loop 8 0 (p0 # p1 # p2 # p3 # p4 # p5 # p6 # p7 # p8 # ps) =
    sqlite3GetVarint (p0 # p1 # p2 # p3 # p4 # p5 # p6 # p7 # p8 # ps)"
  by (simp add: varint_loop_unfold sqlite3GetVarint_def Let_def flag32 flag8 bit_simps)
    (simp add: word64_bits varint_bits disj_ac)

lemmas varint_loop_cases = varint_loop_short varint_loop_4 varint_loop_5 varint_loop_6 varint_loop_7
  varint_loop_8 varint_loop_9

lemma varint_ends_unfold:
  "varint_ends 8 p = varint_ends (Suc (Suc (Suc (Suc (Suc (Suc (Suc (Suc 0)))))))) p"
  by (rule arg_cong [where f = "\<lambda>n. varint_ends n p"]) simp

lemma varint_ends_Suc:
  "varint_ends (Suc n) p \<longleftrightarrow> (\<exists>b ps. p = b # ps \<and> (\<not> bit b 7 \<or> bit b 7 \<and> varint_ends n ps))"
  "varint_ends 0 p \<longleftrightarrow> (\<exists>b ps. p = b # ps)"
  by (cases p; auto simp: flag8)+

lemma GetVarint_loop: "varint_ends 8 p \<Longrightarrow> sqlite3GetVarint p = varint_loop 8 0 p"
  unfolding varint_ends_unfold varint_ends_Suc
  by (elim exE conjE disjE) (simp_all add: varint_loop_cases del: varint_loop.simps)

section \<open>The writer and the decoder\<close>

text \<open>Flagged groups of seven bits, most significant first.\<close>

lemma varint_buf_rev:
  "varint_buf v = (if drop_bit 7 v = 0 then [ucast ((v AND 0x7f) OR 0x80)]
     else ucast ((v AND 0x7f) OR 0x80) # varint_buf (drop_bit 7 v))"
  by (subst varint_buf.simps) (simp add: Let_def)

lemma group_flag: "bit (ucast ((v AND 0x7f) OR 0x80 :: u64) :: u8) 7"
  by (simp add: bit_simps)

lemma group_data: "ucast (ucast ((v AND 0x7f) OR 0x80 :: u64) AND (0x7f :: u8)) = (v AND 0x7f)"
  by (simp add: word64_bits bit_simps)

lemma split7: "push_bit 7 (drop_bit 7 v) OR (v AND 0x7f) = (v :: u64)"
  by (simp add: word64_bits bit_simps)

text \<open>\<^verbatim>\<open>buf\<close> with its order reversed and every group flagged, most significant first.\<close>

lemma rev_varint_buf_loop:
  "length (varint_buf v) \<le> n \<Longrightarrow>
    varint_loop n acc (rev (varint_buf v) @ rest) =
      (case varint_loop (n - length (varint_buf v)) (push_bit (7 * length (varint_buf v)) acc OR v) rest of
         (k, w) \<Rightarrow> (length (varint_buf v) + k, w))"
proof (induction v arbitrary: n acc rest rule: varint_buf.induct)
  case (1 v)
  show ?case
  proof (cases "drop_bit 7 v = 0")
    case True
    then have v: "v AND 0x7f = v" using split7 [of v] by simp
    obtain m where m: "n = Suc m" using 1(2) True by (cases n) (auto simp: varint_buf_rev [of v])
    have "ucast (ucast (v OR 0x80 :: u64) AND (0x7f :: u8)) = v"
      using group_data [of v] v by simp
    moreover have "bit (ucast (v OR 0x80 :: u64) :: u8) 7" using group_flag [of v] v by simp
    ultimately show ?thesis
      using True v by (simp add: varint_buf_rev [of v] m flag8 split: prod.split)
  next
    case False
    let ?u = "drop_bit 7 v" and ?g = "ucast ((v AND 0x7f) OR 0x80) :: u8"
    have buf: "varint_buf v = ?g # varint_buf ?u" using False by (simp add: varint_buf_rev [of v])
    let ?L = "length (varint_buf ?u)"
    have len: "Suc ?L \<le> n" using 1(2) buf by simp
    have acc: "push_bit 7 (push_bit (7 * ?L) acc OR ?u) OR (v AND 0x7f) = push_bit (7 * Suc ?L) acc OR v"
      using split7 [of v] by (simp add: push_bit_or or.assoc)
    obtain m where m: "n - ?L = Suc m" using len by (cases "n - ?L") auto
    have "varint_loop n acc (rev (varint_buf v) @ rest) = varint_loop n acc (rev (varint_buf ?u) @ ?g # rest)"
      by (simp add: buf)
    also have "\<dots> = (case varint_loop (n - ?L) (push_bit (7 * ?L) acc OR ?u) (?g # rest) of
         (k, w) \<Rightarrow> (?L + k, w))"
      using 1(1) [of ?g ?u n acc "?g # rest"] False len by (simp add: Let_def)
    also have "\<dots> = (case varint_loop m (push_bit (7 * Suc ?L) acc OR v) rest of (k, w) \<Rightarrow> (Suc ?L + k, w))"
      using group_flag [of v] group_data [of v] acc by (simp add: m flag8 split: prod.split)
    finally show ?thesis
      using m buf Suc_diff_Suc [of ?L n] len by (simp split: prod.split)
  qed
qed

lemma length_varint_buf: "drop_bit (7 * k) v = 0 \<Longrightarrow> 0 < k \<Longrightarrow> length (varint_buf v) \<le> k"
proof (induction v arbitrary: k rule: varint_buf.induct)
  case (1 v)
  show ?case
  proof (cases "drop_bit 7 v = 0")
    case True
    with 1(3) show ?thesis by (simp add: varint_buf_rev [of v])
  next
    case False
    then have "1 < k" using 1(2,3) by (cases "k = 1") auto
    moreover have "drop_bit (7 * (k - 1)) (drop_bit 7 v) = 0"
      using 1(2) \<open>1 < k\<close> by (simp add: drop_bit_drop_bit add.commute [of _ 7] flip: mult_Suc_right)
    ultimately have "length (varint_buf (drop_bit 7 v)) \<le> k - 1"
      using 1(1) False by (simp add: Let_def)
    with False \<open>1 < k\<close> show ?thesis by (simp add: varint_buf_rev [of v])
  qed
qed

lemma length_varint_buf_gt: "drop_bit (7 * k) v \<noteq> 0 \<Longrightarrow> k < length (varint_buf v)"
proof (induction v arbitrary: k rule: varint_buf.induct)
  case (1 v)
  show ?case
  proof (cases k)
    case 0
    then show ?thesis by (simp add: varint_buf_rev [of v])
  next
    case (Suc j)
    then have d: "drop_bit (7 * j) (drop_bit 7 v) \<noteq> 0"
      using 1(2) by (simp add: drop_bit_drop_bit add.commute [of _ 7])
    then have "drop_bit 7 v \<noteq> 0" by (metis drop_bit_of_0)
    with 1(1) d Suc show ?thesis by (simp add: varint_buf_rev [of v] Let_def)
  qed
qed

lemma varint_len_buf: "varint_len v i + 1 = i + length (varint_buf v)"
proof (induction v i rule: varint_len.induct)
  case (1 v i)
  then show ?case by (subst varint_len.simps) (auto simp: varint_buf_rev [of v] Let_def)
qed

lemma high_byte: "v AND 0xff00000000000000 = 0 \<longleftrightarrow> drop_bit 56 (v :: u64) = 0"
  by (simp add: word64_bits bit_simps word_bit_high)

lemma drop_bit_zero: "k < 64 \<Longrightarrow> drop_bit k v = 0 \<longleftrightarrow> unat (v :: u64) < 2 ^ k"
  by (subst unat_eq_0 [symmetric], subst unat_drop_bit_eq) (simp add: drop_bit_eq_div div_eq_0_iff)

text \<open>The three forms the writer chooses between.\<close>

lemma PutVarint_forms:
  "sqlite3PutVarint v =
     (if drop_bit 56 v \<noteq> 0 then varint_high 8 (drop_bit 8 v) @ [ucast v]
      else if drop_bit 7 v = 0 then [ucast v]
      else rev (varint_buf (drop_bit 7 v)) @ [ucast (v AND 0x7f)])"
proof -
  have le7: "v \<le> 0x7f \<longleftrightarrow> drop_bit 7 v = 0" and le14: "v \<le> 0x3fff \<longleftrightarrow> drop_bit 14 v = 0"
    by (auto simp: drop_bit_zero word_le_nat_alt)
  have d: "drop_bit 7 v = 0 \<Longrightarrow> drop_bit 14 v = 0" "drop_bit 7 v = 0 \<Longrightarrow> drop_bit 56 v = 0"
    "drop_bit 14 v = 0 \<Longrightarrow> drop_bit 56 v = 0"
    by (auto simp: drop_bit_zero)
  consider (high) "drop_bit 56 v \<noteq> 0" | (one) "drop_bit 7 v = 0"
    | (two) "drop_bit 56 v = 0" "drop_bit 7 v \<noteq> 0" "drop_bit 14 v = 0"
    | (more) "drop_bit 56 v = 0" "drop_bit 7 v \<noteq> 0" "drop_bit 14 v \<noteq> 0" by blast
  then show ?thesis
  proof cases
    case high
    then have "drop_bit 7 v \<noteq> 0" "drop_bit 14 v \<noteq> 0" using d by blast+
    with high show ?thesis by (simp add: sqlite3PutVarint_def putVarint64_def le7 le14 high_byte)
  next
    case one
    then have "v AND 0x7f = v" using split7 [of v] by (metis push_bit_of_0 or.left_neutral)
    with one d show ?thesis by (simp add: sqlite3PutVarint_def le7)
  next
    case two
    then show ?thesis
      by (simp add: sqlite3PutVarint_def le7 le14 varint_buf_rev [of "drop_bit 7 v"])
  next
    case more
    have "ucast (v AND 0x7f OR 0x80) AND 0x7f = (ucast (v AND 0x7f) :: u8)"
      by (simp add: word8_bits bit_simps)
    with more show ?thesis
      by (simp add: sqlite3PutVarint_def putVarint64_def le7 le14 high_byte varint_buf_rev [of v] Let_def)
  qed
qed

lemma varint_ends_flagged: "varint_ends (n - length xs) ys \<Longrightarrow> length xs \<le> n \<Longrightarrow> varint_ends n (xs @ ys)"
proof (induction xs arbitrary: n)
  case (Cons x xs)
  then show ?case by (cases n) auto
qed simp

lemma length_PutVarint:
  "length (sqlite3PutVarint v) = (if drop_bit 56 v \<noteq> 0 then 9 else sqlite3VarintLen v)"
proof -
  have "length (varint_high n u) = n" for n u by (induction n u rule: varint_high.induct) auto
  moreover have "sqlite3VarintLen v = length (varint_buf v)"
    using varint_len_buf [of v 1] by (simp add: sqlite3VarintLen_def)
  ultimately show ?thesis
    by (auto simp: PutVarint_forms varint_buf_rev [of v])
qed

lemma GetVarint_high:
  "sqlite3GetVarint (varint_high 8 (drop_bit 8 v) @ ucast v # rest) = (9, v)"
proof -
  let ?g = "\<lambda>k. ucast ((drop_bit k v AND 0x7f) OR 0x80) :: u8"
  have "varint_high 8 (drop_bit 8 v) = varint_high (Suc (Suc (Suc (Suc (Suc (Suc (Suc (Suc 0)))))))) (drop_bit 8 v)"
    by (rule arg_cong [where f = "\<lambda>n. varint_high n (drop_bit 8 v)"]) simp
  then have high: "varint_high 8 (drop_bit 8 v) @ ucast v # rest =
      ?g 57 # ?g 50 # ?g 43 # ?g 36 # ?g 29 # ?g 22 # ?g 15 # ?g 8 # ucast v # rest"
    by (simp add: drop_bit_drop_bit)
  have flag: "bit (?g k) 7" for k by (simp add: bit_simps)
  have "varint_loop 8 0 (varint_high 8 (drop_bit 8 v) @ ucast v # rest) = (9, v)"
    unfolding high varint_loop_unfold
    by (simp add: flag8 flag) (simp add: word64_bits bit_simps byte_bit_high word_bit_high)
  moreover have "varint_ends 8 (varint_high 8 (drop_bit 8 v) @ ucast v # rest)"
    unfolding high varint_ends_unfold by simp
  ultimately show ?thesis by (simp add: GetVarint_loop)
qed

lemma GetVarint_low:
  assumes "drop_bit 56 v = 0" "drop_bit 7 v \<noteq> 0"
  shows "sqlite3GetVarint (rev (varint_buf (drop_bit 7 v)) @ ucast (v AND 0x7f) # rest) =
    (length (varint_buf (drop_bit 7 v)) + 1, v)"
proof -
  let ?u = "drop_bit 7 v"
  have "drop_bit (7 * 7) ?u = 0" using assms(1) by (simp add: drop_bit_drop_bit)
  then have len: "length (varint_buf ?u) \<le> 7" by (rule length_varint_buf) simp
  then obtain m where m: "8 - length (varint_buf ?u) = Suc m" by (cases "8 - length (varint_buf ?u)") auto
  have b: "ucast (v AND 0x7f) AND 0x80 = (0 :: u8)" "ucast (ucast (v AND 0x7f) :: u8) = v AND 0x7f"
    by (simp_all add: word8_bits word64_bits bit_simps)
  have "varint_loop 8 0 (rev (varint_buf ?u) @ ucast (v AND 0x7f) # rest) =
      (length (varint_buf ?u) + 1, push_bit 7 ?u OR (v AND 0x7f))"
    using rev_varint_buf_loop [of ?u 8 0 "ucast (v AND 0x7f) # rest"] len m b
    by simp
  moreover have "varint_ends 8 (rev (varint_buf ?u) @ ucast (v AND 0x7f) # rest)"
    using len m b(1) by (intro varint_ends_flagged) simp_all
  ultimately show ?thesis by (simp add: GetVarint_loop split7)
qed

lemma GetVarint_PutVarint: "sqlite3GetVarint (sqlite3PutVarint v @ rest) = (length (sqlite3PutVarint v), v)"
proof -
  consider "drop_bit 56 v \<noteq> 0" | "drop_bit 7 v = 0" | "drop_bit 56 v = 0" "drop_bit 7 v \<noteq> 0" by blast
  then show ?thesis
  proof cases
    case 1
    then show ?thesis using GetVarint_high [of v rest] length_PutVarint [of v] by (simp add: PutVarint_forms)
  next
    case 2
    then have v: "v AND 0x7f = v" using split7 [of v] by simp
    have d: "drop_bit 56 v = 0" using 2 by (simp add: drop_bit_zero)
    have "\<not> bit (v AND 0x7f) 7" "ucast (ucast (ucast (v AND 0x7f) :: u8) :: u32) = v AND 0x7f"
      by (simp_all add: bit_simps word64_bits)
    then have "\<not> bit v 7" "ucast (ucast (ucast v :: u8) :: u32) = v" unfolding v by blast+
    with 2 d show ?thesis
      by (simp add: PutVarint_forms sqlite3GetVarint_def flag32 bit_simps)
  next
    case 3
    with GetVarint_low [OF 3] show ?thesis by (simp add: PutVarint_forms)
  qed
qed

text \<open>The 32-bit decoder, in terms of the 64-bit one.\<close>

lemma fits32: "v AND 0xffffffff = v \<longleftrightarrow> drop_bit 32 (v :: u64) = 0"
  by (simp add: word64_bits bit_simps word_bit_high)

lemma GetVarint32_short:
  "\<not> bit (p ! 0) 7 \<Longrightarrow> sqlite3GetVarint p = (1, ucast (ucast (p ! 0) :: u32))"
  "bit (p ! 0) 7 \<Longrightarrow> \<not> bit (p ! 1) 7 \<Longrightarrow>
    sqlite3GetVarint p = (2, ucast (push_bit 7 (ucast (p ! 0) AND 0x7f) OR ucast (p ! 1) :: u32))"
  "bit (p ! 0) 7 \<Longrightarrow> bit (p ! 1) 7 \<Longrightarrow> \<not> bit (p ! 2) 7 \<Longrightarrow>
    sqlite3GetVarint p = (3, ucast (((push_bit 14 (ucast (p ! 0)) OR ucast (p ! 2)) AND SLOT_2_0)
      OR push_bit 7 (ucast (p ! 1) AND 0x7f) :: u32))"
  by (simp_all add: sqlite3GetVarint_def Let_def flag32 bit_simps)

lemma ucast32_fits: "ucast (x :: u32) AND (0xffffffff :: u64) = ucast x" "ucast (ucast x :: u64) = (x :: u32)"
  by (simp_all add: word64_bits word32_bits bit_simps word32_bit_high)

lemma GetVarint32_clamps:
  "sqlite3GetVarint32 p =
     (case sqlite3GetVarint p of (n, v) \<Rightarrow> (n, if drop_bit 32 v = 0 then ucast v else 0xffffffff))"
proof -
  have "drop_bit 32 (ucast (x :: u32) :: u64) = 0" for x
    using fits32 [of "ucast x"] ucast32_fits(1) [of x] by simp
  then show ?thesis
    using GetVarint32_short [of p]
    by (simp add: sqlite3GetVarint32_def Let_def flag32 bit_simps fits32 ucast32_fits SLOT_2_0_def
        split: prod.split)
qed

lemma varint_ends_PutVarint: "drop_bit 56 v = 0 \<Longrightarrow> varint_ends 8 (sqlite3PutVarint v @ rest)"
proof -
  assume v: "drop_bit 56 v = 0"
  have low: "ucast (u AND 0x7f) AND 0x80 = (0 :: u8)" for u :: u64 by (simp add: word8_bits bit_simps)
  have stop: "varint_ends n (b # rest)" if "b AND 0x80 = 0" for n b using that by (cases n) auto
  show ?thesis
  proof (cases "drop_bit 7 v = 0")
    case True
    then have "v AND 0x7f = v" using split7 [of v] by simp
    then have "ucast v AND 0x80 = (0 :: u8)" using low [of v] by simp
    then show ?thesis using v True stop by (simp add: PutVarint_forms)
  next
    case False
    have "length (varint_buf (drop_bit 7 v)) \<le> 7"
      using v by (intro length_varint_buf) simp_all
    then show ?thesis
      using v False stop [OF low] by (simp add: PutVarint_forms varint_ends_flagged)
  qed
qed

section \<open>Properties\<close>

text \<open>
  C26: Variable-length integers round-trip: decoding what the writer wrote, whatever bytes follow it,
  gives the value back and reads exactly the bytes written, of which there are at most nine.
\<close>
theorem varint_roundtrip:
  "sqlite3GetVarint (sqlite3PutVarint v @ rest) = (length (sqlite3PutVarint v), v)
   \<and> length (sqlite3PutVarint v) \<in> {1..9}"
proof -
  have "length (varint_buf v) \<le> 8" if "drop_bit 56 v = 0"
    using that by (intro length_varint_buf) simp_all
  moreover have "0 < length (varint_buf v)" by (simp add: varint_buf_rev [of v])
  moreover have "sqlite3VarintLen v = length (varint_buf v)"
    using varint_len_buf [of v 1] by (simp add: sqlite3VarintLen_def)
  ultimately show ?thesis using GetVarint_PutVarint [of v rest] length_PutVarint [of v]
    by (cases "drop_bit 56 v = 0") (auto simp: Suc_le_eq)
qed

text \<open>
  C27: The unrolled decoder of a variable-length integer, with its two interleaved 32-bit
  accumulators, computes what the loop over seven-bit groups computes, on every buffer in which
  the integer ends.
\<close>
theorem varint_decoder_is_loop:
  assumes "varint_ends 8 p"
  shows "sqlite3GetVarint p = varint_loop 8 0 p"
  using assms by (rule GetVarint_loop)

theorem varint_decoder_is_loop_witness:
  "sqlite3GetVarint [0x81, 0x82, 0x83, 0x84, 0x85, 0x86, 0x87, 0x88, 0x89] =
    varint_loop 8 0 [0x81, 0x82, 0x83, 0x84, 0x85, 0x86, 0x87, 0x88, 0x89]"
  by (rule varint_decoder_is_loop) code_simp

text \<open>
  \<^verbatim>\<open>sqlite3VarintLen\<close> gives the length of the encoding, except that it says ten for
  values of $2^{63}$ and more (every negative integer), which the writer stores in nine bytes.
\<close>
lemma varint_len_counts:
  "sqlite3VarintLen v = (if bit v 63 then 10 else length (sqlite3PutVarint v))"
proof -
  have buf: "sqlite3VarintLen v = length (varint_buf v)"
    using varint_len_buf [of v 1] by (simp add: sqlite3VarintLen_def)
  have "drop_bit 63 v = 0 \<longleftrightarrow> \<not> bit v 63" "drop_bit 70 v = 0"
    by (simp_all add: word64_bits bit_simps word_bit_high)
  moreover have "drop_bit 56 v = 0 \<Longrightarrow> drop_bit 63 v = 0" by (simp add: drop_bit_zero)
  ultimately show ?thesis
    using length_varint_buf_gt [of 8 v] length_varint_buf_gt [of 9 v] length_varint_buf [of 9 v]
      length_varint_buf [of 10 v] length_PutVarint [of v] buf
    by (cases "drop_bit 56 v = 0"; cases "bit v 63") auto
qed

text \<open>Four-byte integers round-trip, and they are big-endian.\<close>

lemma fourbyte_roundtrip:
  "sqlite3Get4byte (sqlite3Put4byte v @ rest) = v \<and> length (sqlite3Put4byte v) = 4
   \<and> sqlite3Put4byte v = rev (map (\<lambda>i. ucast (drop_bit (8 * i) v)) [0..<4])"
  by (simp add: sqlite3Get4byte_def sqlite3Put4byte_def word32_bits bit_simps upt_rec)

end
