(* ===== verification/MemJournal.thy ===== *)
theory MemJournal
  imports Sqlite
begin

text \<open>
  The in-memory rollback journal, \<^verbatim>\<open>sqlite/memjournal.c\<close>: a linked list of chunks
  with a cursor at its end and one behind the last read, which is spilled to a real file when it
  grows past a limit. Chunks live in a heap; a chunk holds the bytes written to it so far, so that
  reading an uninitialised byte is a fault, and allocations may fail.
\<close>

section \<open>State\<close>

record FileChunk =
  pNext :: ptr
  zChunk :: bytes

record FilePoint =
  iOffset :: nat
  pChunk :: ptr

record MemJournal =
  nChunkSize :: nat
  nSpill :: int
  nSize :: nat
  pFirst :: ptr
  endpoint :: FilePoint
  readpoint :: FilePoint
  jflags :: u32
  zJournal :: "string option"

text \<open>The heap of chunks, the next address, and how many more allocations succeed.\<close>

record jheap =
  chunks :: "addr \<Rightarrow> FileChunk option"
  jnext :: addr
  mallocs :: nat

datatype jfault = JNull | JFreed | JUninit | JBadSize | JOs

type_synonym 'a jres = "jfault + 'a"

definition jderef :: "jheap \<Rightarrow> ptr \<Rightarrow> FileChunk jres" where
  "jderef h p = (case p of None \<Rightarrow> Inl JNull
     | Some a \<Rightarrow> (case chunks h a of None \<Rightarrow> Inl JFreed | Some c \<Rightarrow> Inr c))"

definition jstore :: "jheap \<Rightarrow> ptr \<Rightarrow> (FileChunk \<Rightarrow> FileChunk) \<Rightarrow> jheap jres" where
  "jstore h p f = (case p of None \<Rightarrow> Inl JNull
     | Some a \<Rightarrow> (case chunks h a of None \<Rightarrow> Inl JFreed
        | Some c \<Rightarrow> Inr (h\<lparr>chunks := (chunks h)(a := Some (f c))\<rparr>)))"

definition null_point :: FilePoint where
  "null_point = \<lparr>iOffset = 0, pChunk = None\<rparr>"

section \<open>Reading\<close>

text \<open>The walk from the head of the list to the chunk of an offset.\<close>

function jseek :: "jheap \<Rightarrow> nat \<Rightarrow> ptr \<Rightarrow> nat \<Rightarrow> nat \<Rightarrow> ptr jres" where
  "jseek h sz p iOff iOfst =
     (if sz = 0 then Inl JBadSize
      else if p \<noteq> None \<and> iOff + sz \<le> iOfst
      then bindE (jderef h p) (\<lambda>c. jseek h sz (pNext c) (iOff + sz) iOfst)
      else Inr p)"
  by pat_completeness auto
termination by (relation "measure (\<lambda>(h, sz, p, iOff, iOfst). iOfst - iOff)") auto

declare jseek.simps [simp del]

text \<open>The copying loop: the chunk it ends on and the bytes copied.\<close>

function jcopy :: "jheap \<Rightarrow> nat \<Rightarrow> ptr \<Rightarrow> nat \<Rightarrow> nat \<Rightarrow> bytes \<Rightarrow> (ptr \<times> bytes) jres" where
  "jcopy h sz p iChunkOffset nRead zOut =
     (if sz \<le> iChunkOffset then Inl JBadSize
      else bindE (jderef h p) (\<lambda>c.
        let iSpace = sz - iChunkOffset; nCopy = min nRead iSpace in
        if length (zChunk c) < iChunkOffset + nCopy then Inl JUninit
        else
          let zOut = zOut @ buf_read iChunkOffset nCopy (zChunk c) in
          if iSpace \<le> nRead
          then (if pNext c \<noteq> None \<and> iSpace < nRead then jcopy h sz (pNext c) 0 (nRead - iSpace) zOut
                else Inr (pNext c, zOut))
          else Inr (p, zOut)))"
  by pat_completeness auto
termination by (relation "measure (\<lambda>(h, sz, p, off, n, out). n)") auto

declare jcopy.simps [simp del]

definition memjrnlRead :: "jheap \<Rightarrow> MemJournal \<Rightarrow> nat \<Rightarrow> nat \<Rightarrow> (int \<times> bytes \<times> MemJournal) jres" where
  "memjrnlRead h p iAmt iOfst =
     bindE (if iOffset (readpoint p) \<noteq> iOfst \<or> iOfst = 0
            then jseek h (nChunkSize p) (pFirst p) 0 iOfst
            else Inr (pChunk (readpoint p))) (\<lambda>c.
     if nChunkSize p = 0 then Inl JBadSize else
     bindE (jcopy h (nChunkSize p) c (iOfst mod nChunkSize p) iAmt []) (\<lambda>(c, zOut).
     Inr (SQLITE_OK, zOut,
          p\<lparr>readpoint := \<lparr>iOffset = (if c \<noteq> None then iOfst + iAmt else 0), pChunk = c\<rparr>\<rparr>)))"

section \<open>Writing in memory\<close>

definition jnew :: "jheap \<Rightarrow> (ptr \<times> jheap) option" where
  "jnew h = (if mallocs h = 0 then None
     else Some (Some (jnext h), h\<lparr>chunks := (chunks h)(jnext h := Some \<lparr>pNext = None, zChunk = []\<rparr>),
                  jnext := jnext h + 1, mallocs := mallocs h - 1\<rparr>))"

text \<open>A new chunk at the end of the list, when the end is at a chunk boundary.\<close>

definition jextend :: "jheap \<Rightarrow> MemJournal \<Rightarrow> (jheap \<times> MemJournal) option jres" where
  "jextend h p =
     (case jnew h of
        None \<Rightarrow> Inr None
      | Some (pNew, h) \<Rightarrow>
          bindE (if pChunk (endpoint p) \<noteq> None
                 then bindE (jstore h (pChunk (endpoint p)) (\<lambda>c. c\<lparr>pNext := pNew\<rparr>)) (\<lambda>h. Inr (h, p))
                 else Inr (h, p\<lparr>pFirst := pNew\<rparr>)) (\<lambda>(h, p).
          Inr (Some (h, p\<lparr>endpoint := (endpoint p)\<lparr>pChunk := pNew\<rparr>\<rparr>))))"

function jappend :: "jheap \<Rightarrow> MemJournal \<Rightarrow> bytes \<Rightarrow> (int \<times> jheap \<times> MemJournal) jres" where
  "jappend h p zWrite =
     (if zWrite = [] then Inr (SQLITE_OK, h, p)
      else if nChunkSize p = 0 then Inl JBadSize
      else
        let iChunkOffset = iOffset (endpoint p) mod nChunkSize p;
            iSpace = min (length zWrite) (nChunkSize p - iChunkOffset) in
        (case (if iChunkOffset = 0 then jextend h p else Inr (Some (h, p))) of
           Inl e \<Rightarrow> Inl e
         | Inr None \<Rightarrow> Inr (SQLITE_IOERR_NOMEM, h, p)
         | Inr (Some (h', p')) \<Rightarrow>
             (case jstore h' (pChunk (endpoint p'))
                     (\<lambda>c. c\<lparr>zChunk := buf_write iChunkOffset (take iSpace zWrite) (zChunk c)\<rparr>) of
                Inl e \<Rightarrow> Inl e
              | Inr h'' \<Rightarrow>
                  jappend h'' (p'\<lparr>endpoint := (endpoint p')\<lparr>iOffset := iOffset (endpoint p') + iSpace\<rparr>\<rparr>)
                    (drop iSpace zWrite))))"
  by pat_completeness auto
termination
proof (relation "measure (\<lambda>(h, p, z). length z)")
  fix h :: jheap and p :: MemJournal and zWrite :: bytes and off sp x aa b aaa ba
  assume "zWrite \<noteq> []" "nChunkSize p \<noteq> 0" "off = iOffset (endpoint p) mod nChunkSize p"
    "sp = min (length zWrite) (nChunkSize p - off)"
  then have "0 < sp" "0 < length zWrite" by auto
  then show "((aaa, ba\<lparr>endpoint := endpoint ba\<lparr>iOffset := iOffset (endpoint ba) + sp\<rparr>\<rparr>, drop sp zWrite), h, p, zWrite)
      \<in> measure (\<lambda>(h, p, z). length z)" for aaa ba
    by simp
qed simp

declare jappend.simps [simp del]

section \<open>The real file\<close>

text \<open>
  The methods of the underlying VFS that the journal uses when it spills, over the types of its
  files and of its own state, where \<^theory_text>\<open>None\<close> is a call that does not return
  (\<^theory_text>\<open>os_close\<close> is \<^verbatim>\<open>sqlite3OsClose\<close>, which leaves a file without methods
  alone); and what the handle is after that: the journal in memory, or the real file.
\<close>

record ('f, 'v) os_methods =
  os_open :: "'v \<Rightarrow> string option \<Rightarrow> u32 \<Rightarrow> (int \<times> 'f \<times> 'v) option"
  os_write :: "'v \<Rightarrow> 'f \<Rightarrow> bytes \<Rightarrow> nat \<Rightarrow> (int \<times> 'v) option"
  os_close :: "'v \<Rightarrow> 'f \<Rightarrow> 'v option"

datatype 'f journal = InMemory MemJournal | OnDisk 'f

fun jfree :: "jheap \<Rightarrow> ptr \<Rightarrow> nat \<Rightarrow> jheap jres" where
  "jfree h None fuel = Inr h"
| "jfree h (Some a) 0 = Inl JBadSize"
| "jfree h (Some a) (Suc fuel) =
     bindE (jderef h (Some a)) (\<lambda>c. jfree (h\<lparr>chunks := (chunks h)(a := None)\<rparr>) (pNext c) fuel)"

text \<open>
  Freeing and flushing walk the list once; the number of addresses handed out bounds its length,
  so it is fuel enough.
\<close>

definition memjrnlFreeChunks :: "jheap \<Rightarrow> MemJournal \<Rightarrow> (jheap \<times> MemJournal) jres" where
  "memjrnlFreeChunks h p = bindE (jfree h (pFirst p) (jnext h)) (\<lambda>h. Inr (h, p\<lparr>pFirst := None\<rparr>))"

fun jflush ::
    "('f, 'v) os_methods \<Rightarrow> 'f \<Rightarrow> jheap \<Rightarrow> ptr \<Rightarrow> nat \<Rightarrow> nat \<Rightarrow> nat \<Rightarrow> 'v \<Rightarrow> nat \<Rightarrow> (int \<times> 'v) jres" where
  "jflush os f h None nChunk eof iOff v fuel = Inr (SQLITE_OK, v)"
| "jflush os f h (Some a) nChunk eof iOff v 0 = Inl JBadSize"
| "jflush os f h (Some a) nChunk eof iOff v (Suc fuel) =
     bindE (jderef h (Some a)) (\<lambda>c.
     let nChunk = (if eof < iOff + nChunk then eof - iOff else nChunk) in
     if length (zChunk c) < nChunk then Inl JUninit else
     case os_write os v f (take nChunk (zChunk c)) iOff of None \<Rightarrow> Inl JOs
     | Some (rc, v) \<Rightarrow>
         if rc \<noteq> 0 then Inr (rc, v)
         else jflush os f h (pNext c) nChunk eof (iOff + nChunk) v fuel)"

text \<open>
  When the file cannot be opened or filled, it is closed, which gives back what it had, and the
  journal is restored.
\<close>

definition memjrnlCreateFile ::
    "('f, 'v) os_methods \<Rightarrow> 'v \<Rightarrow> jheap \<Rightarrow> MemJournal \<Rightarrow> (int \<times> 'v \<times> jheap \<times> 'f journal) jres" where
  "memjrnlCreateFile os v h p =
     (case os_open os v (zJournal p) (jflags p) of None \<Rightarrow> Inl JOs
      | Some (rc, pReal, v) \<Rightarrow>
        bindE (if rc = SQLITE_OK
               then bindE (jflush os pReal h (pFirst p) (nChunkSize p) (iOffset (endpoint p)) 0 v (jnext h))
                      (\<lambda>(rc, v).
                    if rc = SQLITE_OK
                    then bindE (memjrnlFreeChunks h p) (\<lambda>(h, _). Inr (rc, v, h))
                    else Inr (rc, v, h))
               else Inr (rc, v, h)) (\<lambda>(rc, v, h).
        if rc \<noteq> SQLITE_OK
        then (case os_close os v pReal of None \<Rightarrow> Inl JOs | Some v \<Rightarrow> Inr (rc, v, h, InMemory p))
        else Inr (rc, v, h, OnDisk pReal)))"

definition memjrnlWrite ::
    "('f, 'v) os_methods \<Rightarrow> 'v \<Rightarrow> jheap \<Rightarrow> MemJournal \<Rightarrow> bytes \<Rightarrow> nat \<Rightarrow>
      (int \<times> 'v \<times> jheap \<times> 'f journal) jres" where
  "memjrnlWrite os v h p zBuf iOfst =
     (if 0 < nSpill p \<and> nSpill p < int (length zBuf + iOfst)
      then bindE (memjrnlCreateFile os v h p) (\<lambda>(rc, v, h, j).
           if rc = SQLITE_OK
           then (case j of
                   OnDisk f \<Rightarrow> (case os_write os v f zBuf iOfst of None \<Rightarrow> Inl JOs
                       | Some (rc, v) \<Rightarrow> Inr (rc, v, h, OnDisk f))
                 | InMemory p \<Rightarrow> Inr (rc, v, h, InMemory p))
           else Inr (rc, v, h, j))
      else bindE (jappend h p zBuf) (\<lambda>(rc, h, p).
           Inr (rc, v, h, InMemory (if rc = SQLITE_OK then p\<lparr>nSize := length zBuf + iOfst\<rparr> else p))))"

definition memjrnlTruncate :: "jheap \<Rightarrow> MemJournal \<Rightarrow> nat \<Rightarrow> (int \<times> jheap \<times> MemJournal) jres" where
  "memjrnlTruncate h p sz =
     (if sz = 0
      then bindE (memjrnlFreeChunks h p) (\<lambda>(h, p).
           Inr (SQLITE_OK, h, p\<lparr>nSize := 0, endpoint := null_point, readpoint := null_point\<rparr>))
      else Inr (SQLITE_OK, h, p))"

definition memjrnlClose :: "jheap \<Rightarrow> MemJournal \<Rightarrow> (int \<times> jheap) jres" where
  "memjrnlClose h p = bindE (memjrnlFreeChunks h p) (\<lambda>(h, _). Inr (SQLITE_OK, h))"

definition memjrnlSync :: "MemJournal \<Rightarrow> int" where
  "memjrnlSync p = SQLITE_OK"

definition memjrnlFileSize :: "MemJournal \<Rightarrow> int \<times> nat" where
  "memjrnlFileSize p = (SQLITE_OK, iOffset (endpoint p))"

text \<open>\<^verbatim>\<open>sizeof(FileChunk)\<close> is 16 on the 64-bit targets, so a default chunk holds 1016 bytes.\<close>

definition sqlite3JournalOpen ::
    "('f, 'v) os_methods \<Rightarrow> 'v \<Rightarrow> string option \<Rightarrow> u32 \<Rightarrow> int \<Rightarrow> (int \<times> 'v \<times> 'f journal) option" where
  "sqlite3JournalOpen os v zName flags spill =
     (if spill = 0
      then (case os_open os v zName flags of None \<Rightarrow> None | Some (rc, f, v) \<Rightarrow> Some (rc, v, OnDisk f))
      else Some (SQLITE_OK, v, InMemory \<lparr>nChunkSize = (if 0 < spill then nat spill else 8 + 1024 - 16),
             nSpill = spill, nSize = 0, pFirst = None, endpoint = null_point, readpoint = null_point,
             jflags = flags, zJournal = zName\<rparr>))"

definition sqlite3MemJournalOpen :: "('f, 'v) os_methods \<Rightarrow> 'v \<Rightarrow> (int \<times> 'v \<times> 'f journal) option" where
  "sqlite3MemJournalOpen os v = sqlite3JournalOpen os v None 0 (- 1)"

definition sqlite3JournalIsInMemory :: "'f journal \<Rightarrow> bool" where
  "sqlite3JournalIsInMemory j = (case j of InMemory _ \<Rightarrow> True | OnDisk _ \<Rightarrow> False)"

end
