(* ===== verification/MemJournalProps.thy ===== *)
theory MemJournalProps
  imports MemJournal ByteFile
begin

text \<open>
  The in-memory journal of \<^verbatim>\<open>sqlite/memjournal.c\<close> is an append-only byte file: the
  invariant of its chunk list and cursors, appends and reads against the bytes written, and the
  file contract of \<^theory_text>\<open>byte_file\<close>.
\<close>

section \<open>The chunk list\<close>

primrec jpath :: "(addr \<Rightarrow> FileChunk option) \<Rightarrow> ptr \<Rightarrow> addr list \<Rightarrow> ptr \<Rightarrow> bool" where
  "jpath h p [] q \<longleftrightarrow> p = q"
| "jpath h p (a # as) q \<longleftrightarrow> p = Some a \<and> (\<exists>c. h a = Some c \<and> jpath h (pNext c) as q)"

lemma jpath_append [simp]: "jpath h p (xs @ ys) q \<longleftrightarrow> (\<exists>r. jpath h p xs r \<and> jpath h r ys q)"
  by (induction xs arbitrary: p) auto

lemma jpath_frame: "a \<notin> set as \<Longrightarrow> jpath (h(a := x)) p as q = jpath h p as q"
  by (induction as arbitrary: p) auto

lemma jpath_cong:
  "\<forall>a\<in>set as. map_option pNext (h' a) = map_option pNext (h a) \<Longrightarrow> jpath h' p as q = jpath h p as q"
proof (induction as arbitrary: p)
  case (Cons a as)
  then show ?case by (cases "h a"; cases "h' a") auto
qed simp

lemma jpath_dom: "jpath h p as q \<Longrightarrow> a \<in> set as \<Longrightarrow> \<exists>c. h a = Some c"
  by (induction as arbitrary: p) auto

lemma jpath_first: "jpath h p as q \<Longrightarrow> p = (if as = [] then q else Some (hd as))"
  by (cases as) auto

lemma jpath_next:
  "jpath h p as None \<Longrightarrow> i < length as \<Longrightarrow>
    pNext (the (h (as ! i))) = (if Suc i < length as then Some (as ! Suc i) else None)"
proof (induction as arbitrary: p i)
  case (Cons a as)
  then obtain c where c: "h a = Some c" "jpath h (pNext c) as None" by auto
  show ?case
  proof (cases i)
    case 0
    with c jpath_first [OF c(2)] show ?thesis by (auto simp: hd_conv_nth)
  next
    case (Suc j)
    with Cons.IH [OF c(2), of j] Cons.prems(2) show ?thesis by simp
  qed
qed simp

text \<open>The bytes of chunk \<^theory_text>\<open>i\<close> of a file cut into chunks of \<^theory_text>\<open>sz\<close>.\<close>

definition chunk_of :: "nat \<Rightarrow> bytes \<Rightarrow> nat \<Rightarrow> bytes" where
  "chunk_of sz xs i = take sz (drop (i * sz) xs)"

lemma length_chunk_of: "length (chunk_of sz xs i) = min sz (length xs - i * sz)"
  by (simp add: chunk_of_def)

lemma chunk_of_append: "Suc i * sz \<le> length xs \<Longrightarrow> chunk_of sz (xs @ ys) i = chunk_of sz xs i"
  by (simp add: chunk_of_def)

text \<open>
  The invariant: the list has just the chunks the file needs, each holds its part of the file, the
  end cursor is at the end, and the read cursor, when it is set, is at the chunk of its offset.
\<close>

definition jchunks :: "jheap \<Rightarrow> MemJournal \<Rightarrow> addr list \<Rightarrow> bytes \<Rightarrow> bool" where
  "jchunks h p as xs \<longleftrightarrow> 0 < nChunkSize p \<and> jpath (chunks h) (pFirst p) as None \<and> distinct as
     \<and> (\<forall>a\<in>set as. a < jnext h)
     \<and> length xs \<le> length as * nChunkSize p \<and> (as \<noteq> [] \<longrightarrow> (length as - 1) * nChunkSize p < length xs)
     \<and> (\<forall>i<length as. zChunk (the (chunks h (as ! i))) = chunk_of (nChunkSize p) xs i)
     \<and> endpoint p = \<lparr>iOffset = length xs, pChunk = (if as = [] then None else Some (last as))\<rparr>"

definition rpoint_ok :: "MemJournal \<Rightarrow> addr list \<Rightarrow> bool" where
  "rpoint_ok p as \<longleftrightarrow> iOffset (readpoint p) = 0 \<or>
     (iOffset (readpoint p) div nChunkSize p < length as
      \<and> pChunk (readpoint p) = Some (as ! (iOffset (readpoint p) div nChunkSize p)))"

definition jinv :: "jheap \<Rightarrow> MemJournal \<Rightarrow> bytes \<Rightarrow> bool" where
  "jinv h p xs \<longleftrightarrow> (\<exists>as. jchunks h p as xs \<and> rpoint_ok p as)"

lemma buf_read_append: "buf_read a m xs @ buf_read (a + m) n xs = buf_read a (m + n) xs"
  by (simp add: buf_read_def take_add add.commute)

lemma nth_last: "xs \<noteq> [] \<Longrightarrow> xs ! (length xs - 1) = last xs"
  by (simp add: last_conv_nth)

section \<open>Appending\<close>

text \<open>At a chunk boundary the list is full, and a new empty chunk goes to its end.\<close>

lemma boundary:
  assumes "jchunks h p as xs" "length xs mod nChunkSize p = 0"
  shows "length xs = length as * nChunkSize p"
proof -
  let ?sz = "nChunkSize p"
  have sz: "0 < ?sz" "length xs \<le> length as * ?sz" "as \<noteq> [] \<longrightarrow> (length as - 1) * ?sz < length xs"
    using assms(1) by (auto simp: jchunks_def)
  obtain k where k: "length xs = ?sz * k" using assms(2) by auto
  then have "k \<le> length as" using sz(1,2) by (simp add: mult.commute)
  moreover have "length as \<le> k"
  proof (cases "as = []")
    case False
    then have "(length as - 1) * ?sz < k * ?sz" using sz(3) k by (simp add: mult.commute)
    then show ?thesis using sz(1) by simp
  qed simp
  ultimately show ?thesis using k by (simp add: mult.commute)
qed

lemma inside:
  assumes "jchunks h p as xs" "length xs mod nChunkSize p \<noteq> 0"
  shows "as \<noteq> []" "length xs mod nChunkSize p = length xs - (length as - 1) * nChunkSize p"
    "length xs < length as * nChunkSize p"
proof -
  let ?sz = "nChunkSize p"
  have sz: "0 < ?sz" "length xs \<le> length as * ?sz" "as \<noteq> [] \<longrightarrow> (length as - 1) * ?sz < length xs"
    using assms(1) by (auto simp: jchunks_def)
  show ne: "as \<noteq> []" using assms(2) sz(2) by auto
  show lt: "length xs < length as * ?sz"
    using sz(2) assms(2) by (metis le_neq_implies_less mod_mult_self2_is_0)
  define m where "m = length as - 1"
  have m: "length as = Suc m" using ne by (simp add: m_def)
  have b: "m * ?sz < length xs" "length xs < m * ?sz + ?sz" using sz(3) ne lt m by simp_all
  define r where "r = length xs - m * ?sz"
  have r: "length xs = m * ?sz + r" "r < ?sz" using b by (simp_all add: r_def)
  have "(m * ?sz + r) mod ?sz = r" using r(2) by simp
  then have "length xs mod ?sz = length xs - m * ?sz" using r(1) by simp
  then show "length xs mod ?sz = length xs - (length as - 1) * ?sz" by (simp add: m_def)
qed

lemma jappend_inside:
  assumes "jchunks h p as xs" "length xs mod nChunkSize p \<noteq> 0"
    and "ys = take (nChunkSize p - length xs mod nChunkSize p) zs"
  shows "\<exists>h'. jstore h (pChunk (endpoint p)) (\<lambda>c. c\<lparr>zChunk := buf_write (length xs mod nChunkSize p) ys (zChunk c)\<rparr>) = Inr h'
    \<and> jchunks h' (p\<lparr>endpoint := (endpoint p)\<lparr>iOffset := length xs + length ys\<rparr>\<rparr>) as (xs @ ys)"
proof -
  let ?sz = "nChunkSize p" and ?off = "length xs mod nChunkSize p" and ?n = "length as - 1"
  note ins = inside [OF assms(1,2)]
  have J: "0 < ?sz" "jpath (chunks h) (pFirst p) as None" "distinct as" "\<forall>a\<in>set as. a < jnext h"
    "\<forall>i<length as. zChunk (the (chunks h (as ! i))) = chunk_of ?sz xs i"
    "endpoint p = \<lparr>iOffset = length xs, pChunk = Some (last as)\<rparr>"
    using assms(1) ins(1) by (auto simp: jchunks_def)
  obtain bs where as: "as = bs @ [last as]" using ins(1) by (metis append_butlast_last_id)
  then have nb: "length bs = ?n" by (metis add_diff_cancel_right' length_append_singleton Suc_eq_plus1)
  obtain c where c: "chunks h (last as) = Some c" using jpath_dom [OF J(2), of "last as"] ins(1) by auto
  have zc: "zChunk c = drop (?n * ?sz) xs"
    using J(5) [rule_format, of ?n] c ins(1,3) nth_last [OF ins(1)]
    by (cases as rule: rev_cases) (auto simp: chunk_of_def)
  then have len: "length (zChunk c) = ?off" using ins(2) by simp
  let ?c = "c\<lparr>zChunk := buf_write ?off ys (zChunk c)\<rparr>"
  let ?h = "h\<lparr>chunks := (chunks h)(last as := Some ?c)\<rparr>"
  have w: "zChunk ?c = drop (?n * ?sz) xs @ ys" using zc len by (simp add: buf_write_def)
  have le: "?n * ?sz \<le> length xs" using ins(2) assms(2) by simp
  have lx: "length xs = ?n * ?sz + ?off" using ins(2) le by simp
  have ly: "length ys + ?off \<le> ?sz"
    using assms(3) mod_less_divisor [OF J(1), of "length xs"] by simp
  have "jpath (chunks ?h) (pFirst p) as None"
    using J(2) c by (subst jpath_cong [of _ _ "chunks h"]) auto
  moreover have "zChunk (the (chunks ?h (as ! i))) = chunk_of ?sz (xs @ ys) i" if i: "i < length as" for i
  proof (cases "i = ?n")
    case True
    have "chunk_of ?sz (xs @ ys) ?n = drop (?n * ?sz) xs @ ys"
    proof -
      have "length (drop (?n * ?sz) xs @ ys) \<le> ?sz" using lx ly by simp
      then show ?thesis using le by (simp add: chunk_of_def)
    qed
    with True w nth_last [OF ins(1)] show ?thesis by simp
  next
    case False
    then have "Suc i \<le> ?n" using i by simp
    then have "Suc i * ?sz \<le> ?n * ?sz" by (rule mult_le_mono1)
    then have "Suc i * ?sz \<le> length xs" using le by linarith
    moreover have "as ! i \<noteq> last as"
      using False i J(3) nth_last [OF ins(1)] by (metis diff_less length_greater_0_conv less_numeral_extra(1) ins(1) nth_eq_iff_index_eq)
    ultimately show ?thesis using J(5) i by (simp add: chunk_of_append)
  qed
  moreover have "length (xs @ ys) \<le> length as * ?sz"
  proof -
    have "length as * ?sz = ?n * ?sz + ?sz" using ins(1) by (cases as) simp_all
    with lx ly show ?thesis by (simp only: length_append)
  qed
  ultimately have "jchunks ?h (p\<lparr>endpoint := (endpoint p)\<lparr>iOffset := length xs + length ys\<rparr>\<rparr>) as (xs @ ys)"
    using assms(1) ins(1) J(6) by (auto simp: jchunks_def)
  moreover have "jstore h (pChunk (endpoint p)) (\<lambda>c. c\<lparr>zChunk := buf_write ?off ys (zChunk c)\<rparr>) = Inr ?h"
    using J(6) c by (simp add: jstore_def)
  ultimately show ?thesis by blast
qed

lemma jpath_snoc:
  "jpath h p as None \<Longrightarrow> as \<noteq> [] \<Longrightarrow> distinct as \<Longrightarrow> h (last as) = Some c \<Longrightarrow>
    jpath (h(last as := Some (c\<lparr>pNext := q\<rparr>))) p as q"
proof (induction as arbitrary: p)
  case (Cons a as)
  show ?case
  proof (cases "as = []")
    case False
    then have "a \<noteq> last as" using Cons.prems(3) by auto
    with Cons False show ?thesis by auto
  qed (use Cons in auto)
qed simp

lemma jchunks_snoc:
  assumes "jchunks h p as xs" "length xs = length as * nChunkSize p" "a \<notin> set as"
    and "chunks h (last as) = Some c" "as \<noteq> []" "0 < length ys" "length ys \<le> nChunkSize p"
    and "jnext h \<le> a" "a < jnext h2"
    and "chunks h2 = (chunks h)(last as := Some (c\<lparr>pNext := Some a\<rparr>), a := Some \<lparr>pNext = None, zChunk = ys\<rparr>)"
    and "nChunkSize p2 = nChunkSize p" "pFirst p2 = pFirst p"
    and "endpoint p2 = \<lparr>iOffset = length xs + length ys, pChunk = Some a\<rparr>"
  shows "jchunks h2 p2 (as @ [a]) (xs @ ys)"
proof -
  let ?sz = "nChunkSize p"
  have J: "0 < ?sz" "jpath (chunks h) (pFirst p) as None" "distinct as" "\<forall>a\<in>set as. a < jnext h"
    "\<forall>i<length as. zChunk (the (chunks h (as ! i))) = chunk_of ?sz xs i"
    using assms(1) by (auto simp: jchunks_def)
  have "jpath (chunks h2) (pFirst p) (as @ [a]) None"
    using jpath_snoc [OF J(2) assms(5) J(3) assms(4), of "Some a"] assms(3,10) by (simp add: jpath_frame)
  moreover have "zChunk (the (chunks h2 ((as @ [a]) ! i))) = chunk_of ?sz (xs @ ys) i" if "i < length (as @ [a])" for i
  proof (cases "i = length as")
    case True
    with assms(2,7,10) show ?thesis by (simp add: chunk_of_def nth_append)
  next
    case False
    then have i: "i < length as" using that by simp
    then have "Suc i * ?sz \<le> length as * ?sz" by (intro mult_le_mono1) simp
    then have "chunk_of ?sz (xs @ ys) i = chunk_of ?sz xs i" using assms(2) by (intro chunk_of_append) simp
    moreover have "as ! i \<noteq> a" using i assms(3) by auto
    moreover have "zChunk (the (chunks h2 (as ! i))) = zChunk (the (chunks h (as ! i)))"
      using assms(4,10) \<open>as ! i \<noteq> a\<close> by (cases "as ! i = last as") simp_all
    ultimately show ?thesis using J(5) i by (simp add: nth_append)
  qed
  moreover have "\<forall>b\<in>set (as @ [a]). b < jnext h2" using J(4) assms(8,9) by force
  ultimately show ?thesis
    using assms J(1,3) by (simp add: jchunks_def)
qed

lemma jappend_boundary:
  assumes "jchunks h p as xs" "length xs mod nChunkSize p = 0" "zs \<noteq> []" "0 < mallocs h"
    and "ys = take (nChunkSize p) zs"
  shows "\<exists>h1 p1 h2. jextend h p = Inr (Some (h1, p1))
    \<and> jstore h1 (pChunk (endpoint p1)) (\<lambda>c. c\<lparr>zChunk := buf_write 0 ys (zChunk c)\<rparr>) = Inr h2
    \<and> p1 = p\<lparr>pFirst := pFirst p1, endpoint := \<lparr>iOffset = length xs, pChunk = Some (jnext h)\<rparr>\<rparr>
    \<and> jchunks h2 (p1\<lparr>endpoint := (endpoint p1)\<lparr>iOffset := length xs + length ys\<rparr>\<rparr>) (as @ [jnext h]) (xs @ ys)"
proof -
  let ?sz = "nChunkSize p" and ?a = "jnext h"
  note full = boundary [OF assms(1,2)]
  have J: "0 < ?sz" "jpath (chunks h) (pFirst p) as None" "distinct as" "\<forall>a\<in>set as. a < jnext h"
    "\<forall>i<length as. zChunk (the (chunks h (as ! i))) = chunk_of ?sz xs i"
    "endpoint p = \<lparr>iOffset = length xs, pChunk = (if as = [] then None else Some (last as))\<rparr>"
    using assms(1) by (auto simp: jchunks_def)
  have ly: "0 < length ys" "length ys \<le> ?sz" using assms(3,5) J(1) by auto
  let ?h0 = "h\<lparr>chunks := (chunks h)(?a := Some \<lparr>pNext = None, zChunk = []\<rparr>), jnext := jnext h + 1,
    mallocs := mallocs h - 1\<rparr>"
  have fresh: "?a \<notin> set as" using J(4) by auto
  show ?thesis
  proof (cases "as = []")
    case True
    let ?h2 = "?h0\<lparr>chunks := (chunks ?h0)(?a := Some \<lparr>pNext = None, zChunk = ys\<rparr>)\<rparr>"
    let ?p1 = "p\<lparr>pFirst := Some ?a, endpoint := \<lparr>iOffset = length xs, pChunk = Some ?a\<rparr>\<rparr>"
    have xs: "xs = []" using full True by simp
    have "jextend h p = Inr (Some (?h0, ?p1))"
      using assms(4) J(6) True by (simp add: jextend_def jnew_def)
    moreover have "jstore ?h0 (pChunk (endpoint ?p1)) (\<lambda>c. c\<lparr>zChunk := buf_write 0 ys (zChunk c)\<rparr>) = Inr ?h2"
      by (simp add: jstore_def buf_write_def)
    moreover have "jchunks ?h2 (?p1\<lparr>endpoint := (endpoint ?p1)\<lparr>iOffset := length xs + length ys\<rparr>\<rparr>) (as @ [?a]) (xs @ ys)"
      using ly by (simp add: jchunks_def chunk_of_def True xs J(1))
    ultimately show ?thesis by (intro exI [of _ ?h0] exI [of _ ?p1] exI [of _ ?h2]) simp
  next
    case False
    obtain c where c: "chunks h (last as) = Some c" using jpath_dom [OF J(2), of "last as"] False by auto
    have la: "last as \<noteq> ?a" using fresh False last_in_set [of as] by metis
    let ?h1 = "?h0\<lparr>chunks := (chunks ?h0)(last as := Some (c\<lparr>pNext := Some ?a\<rparr>))\<rparr>"
    let ?h2 = "?h1\<lparr>chunks := (chunks ?h1)(?a := Some \<lparr>pNext = None, zChunk = ys\<rparr>)\<rparr>"
    let ?p1 = "p\<lparr>endpoint := \<lparr>iOffset = length xs, pChunk = Some ?a\<rparr>\<rparr>"
    have "jextend h p = Inr (Some (?h1, ?p1))"
      using assms(4) J(6) False c la by (simp add: jextend_def jnew_def jstore_def)
    moreover have "jstore ?h1 (pChunk (endpoint ?p1)) (\<lambda>c. c\<lparr>zChunk := buf_write 0 ys (zChunk c)\<rparr>) = Inr ?h2"
      using la by (simp add: jstore_def buf_write_def)
    moreover have "jchunks ?h2 (?p1\<lparr>endpoint := (endpoint ?p1)\<lparr>iOffset := length xs + length ys\<rparr>\<rparr>) (as @ [?a]) (xs @ ys)"
      by (rule jchunks_snoc [OF assms(1) full fresh c False ly]) simp_all
    ultimately show ?thesis by (intro exI [of _ ?h1] exI [of _ ?p1] exI [of _ ?h2]) simp
  qed
qed

text \<open>The appending loop: all the bytes, or as many as memory allows.\<close>

lemma jappend_spec:
  "jchunks h p as xs \<Longrightarrow> \<exists>rc h' p' as' k. jappend h p zs = Inr (rc, h', p') \<and> k \<le> length zs
    \<and> jchunks h' p' (as @ as') (xs @ take k zs)
    \<and> p' = p\<lparr>pFirst := pFirst p', endpoint := endpoint p'\<rparr>
    \<and> (if rc = SQLITE_OK then k = length zs else rc = SQLITE_IOERR_NOMEM)
    \<and> (length zs \<le> mallocs h \<longrightarrow> rc = SQLITE_OK) \<and> mallocs h \<le> mallocs h' + length zs"
proof (induction h p zs arbitrary: as xs rule: jappend.induct)
  case (1 h p zs)
  let ?sz = "nChunkSize p" and ?off = "length xs mod nChunkSize p"
  have J: "0 < ?sz" "iOffset (endpoint p) = length xs" using 1(2) by (auto simp: jchunks_def)
  show ?case
  proof (cases "zs = []")
    case True
    with 1(2) show ?thesis
      by (intro exI [of _ SQLITE_OK] exI [of _ h] exI [of _ p] exI [of _ "[]"] exI [of _ 0]) (simp add: jappend.simps)
  next
    case False
    define sp where "sp = min (length zs) (?sz - ?off)"
    have sp: "0 < sp" "sp \<le> length zs" using False J(1) by (auto simp: sp_def)
    consider "?off = 0" "mallocs h = 0"
      | h1 p1 h2 as1 where "(if ?off = 0 then jextend h p else Inr (Some (h, p))) = Inr (Some (h1, p1))"
          "jstore h1 (pChunk (endpoint p1)) (\<lambda>c. c\<lparr>zChunk := buf_write ?off (take sp zs) (zChunk c)\<rparr>) = Inr h2"
          "iOffset (endpoint p1) = length xs" "p1 = p\<lparr>pFirst := pFirst p1, endpoint := endpoint p1\<rparr>"
          "jchunks h2 (p1\<lparr>endpoint := (endpoint p1)\<lparr>iOffset := length xs + sp\<rparr>\<rparr>) (as @ as1) (xs @ take sp zs)"
          "mallocs h - 1 \<le> mallocs h2"
    proof (cases "?off = 0")
      case True
      show ?thesis
      proof (cases "mallocs h = 0")
        case False
        obtain h1 p1 h2 where *: "jextend h p = Inr (Some (h1, p1))"
          "jstore h1 (pChunk (endpoint p1)) (\<lambda>c. c\<lparr>zChunk := buf_write 0 (take ?sz zs) (zChunk c)\<rparr>) = Inr h2"
          "p1 = p\<lparr>pFirst := pFirst p1, endpoint := \<lparr>iOffset = length xs, pChunk = Some (jnext h)\<rparr>\<rparr>"
          "jchunks h2 (p1\<lparr>endpoint := (endpoint p1)\<lparr>iOffset := length xs + length (take ?sz zs)\<rparr>\<rparr>) (as @ [jnext h]) (xs @ take ?sz zs)"
          using jappend_boundary [OF 1(2) True \<open>zs \<noteq> []\<close> _ refl] False by auto
        have ts: "take ?sz zs = take sp zs" "length (take ?sz zs) = sp" using True by (auto simp: sp_def min_def)
        have e: "endpoint p1 = \<lparr>iOffset = length xs, pChunk = Some (jnext h)\<rparr>" by (subst *(3)) simp
        have p1: "p1 = p\<lparr>pFirst := pFirst p1, endpoint := endpoint p1\<rparr>" by (subst *(3)) (simp add: e)
        have "mallocs h1 = mallocs h - 1" using *(1)
          by (auto simp: jextend_def jnew_def bindE_eq_Inr jstore_def split: if_splits option.splits)
        moreover have "mallocs h2 = mallocs h1" using *(2) by (auto simp: jstore_def split: option.splits)
        ultimately show ?thesis using that(2) [of h1 p1 h2 "[jnext h]"] *(1,2,4) p1 True ts e by simp
      qed (use that(1) True in simp)
    next
      case False
      have ts: "take (?sz - ?off) zs = take sp zs" by (auto simp: sp_def min_def)
      obtain h2 where *: "jstore h (pChunk (endpoint p)) (\<lambda>c. c\<lparr>zChunk := buf_write ?off (take sp zs) (zChunk c)\<rparr>) = Inr h2"
          "jchunks h2 (p\<lparr>endpoint := (endpoint p)\<lparr>iOffset := length xs + sp\<rparr>\<rparr>) as (xs @ take sp zs)"
        using jappend_inside [OF 1(2) False refl, of zs] sp(2) unfolding ts by auto
      moreover have "mallocs h2 = mallocs h" using *(1) by (auto simp: jstore_def split: option.splits)
      ultimately show ?thesis using that(2) [of h p h2 "[]"] J(2) False by simp
    qed
    then show ?thesis
    proof cases
      case 1
      with \<open>zs \<noteq> []\<close> \<open>jchunks h p as xs\<close> J show ?thesis
        by (intro exI [of _ SQLITE_IOERR_NOMEM] exI [of _ h] exI [of _ p] exI [of _ "[]"] exI [of _ 0])
          (simp add: jappend.simps [of h p zs] jextend_def jnew_def sqlite_codes Let_def)
    next
      case (2 h1 p1 h2 as1)
      let ?p2 = "p1\<lparr>endpoint := (endpoint p1)\<lparr>iOffset := length xs + sp\<rparr>\<rparr>"
      have step: "jappend h p zs = jappend h2 ?p2 (drop sp zs)"
        using 2(1-3) False J by (subst jappend.simps) (simp add: Let_def sp_def)
      have "\<exists>rc h' p' as' k. jappend h2 ?p2 (drop sp zs) = Inr (rc, h', p') \<and> k \<le> length (drop sp zs)
          \<and> jchunks h' p' ((as @ as1) @ as') ((xs @ take sp zs) @ take k (drop sp zs))
          \<and> p' = ?p2\<lparr>pFirst := pFirst p', endpoint := endpoint p'\<rparr>
          \<and> (if rc = SQLITE_OK then k = length (drop sp zs) else rc = SQLITE_IOERR_NOMEM)
          \<and> (length (drop sp zs) \<le> mallocs h2 \<longrightarrow> rc = SQLITE_OK)
          \<and> mallocs h2 \<le> mallocs h' + length (drop sp zs)"
        using "1.IH" [OF False _ refl refl, unfolded J(2), folded sp_def, OF _ 2(1) refl refl 2(2), unfolded 2(3)] J(1) 2(5)
        by blast
      then obtain rc h' p' as' k where *: "jappend h2 ?p2 (drop sp zs) = Inr (rc, h', p')" "k \<le> length (drop sp zs)"
        "jchunks h' p' ((as @ as1) @ as') ((xs @ take sp zs) @ take k (drop sp zs))"
        "p' = ?p2\<lparr>pFirst := pFirst p', endpoint := endpoint p'\<rparr>"
        "if rc = SQLITE_OK then k = length (drop sp zs) else rc = SQLITE_IOERR_NOMEM"
        "length (drop sp zs) \<le> mallocs h2 \<longrightarrow> rc = SQLITE_OK" "mallocs h2 \<le> mallocs h' + length (drop sp zs)"
        by blast
      have "take sp zs @ take k (drop sp zs) = take (sp + k) zs" by (simp add: take_add)
      moreover have "p' = p\<lparr>pFirst := pFirst p', endpoint := endpoint p'\<rparr>"
        by (subst *(4), subst 2(4)) simp
      ultimately show ?thesis using * step sp 2(6)
        by (intro exI [of _ rc] exI [of _ h'] exI [of _ p'] exI [of _ "as1 @ as'"] exI [of _ "sp + k"])
          (auto split: if_splits)
    qed
  qed
qed

section \<open>Reading\<close>

lemma jchunks_chunk:
  assumes "jchunks h p as xs" "i < length as"
  shows "\<exists>c. jderef h (Some (as ! i)) = Inr c \<and> zChunk c = chunk_of (nChunkSize p) xs i
    \<and> pNext c = (if Suc i < length as then Some (as ! Suc i) else None)"
proof -
  have J: "jpath (chunks h) (pFirst p) as None" "\<forall>i<length as. zChunk (the (chunks h (as ! i))) = chunk_of (nChunkSize p) xs i"
    using assms(1) by (auto simp: jchunks_def)
  obtain c where c: "chunks h (as ! i) = Some c" using jpath_dom [OF J(1), of "as ! i"] assms(2) by auto
  then show ?thesis using J(2) jpath_next [OF J(1) assms(2)] assms(2) by (auto simp: jderef_def)
qed

lemma jseek_spec:
  assumes "jchunks h p as xs" "iOfst < length xs"
  shows "i * nChunkSize p \<le> iOfst \<Longrightarrow> jseek h (nChunkSize p) (Some (as ! i)) (i * nChunkSize p) iOfst
    = Inr (Some (as ! (iOfst div nChunkSize p)))"
proof (induction "iOfst - i * nChunkSize p" arbitrary: i rule: less_induct)
  case less
  let ?sz = "nChunkSize p"
  have J: "0 < ?sz" "length xs \<le> length as * ?sz" using assms(1) by (auto simp: jchunks_def)
  show ?case
  proof (cases "i * ?sz + ?sz \<le> iOfst")
    case True
    have "i * ?sz + ?sz < length as * ?sz" using True assms(2) J(2) by linarith
    then have "Suc i * ?sz < length as * ?sz" by simp
    then have i: "Suc i < length as" using J(1) by (metis mult_less_cancel2)
    obtain c where "jderef h (Some (as ! i)) = Inr c" "pNext c = Some (as ! Suc i)"
      using jchunks_chunk [OF assms(1), of i] i by auto
    moreover have "jseek h ?sz (Some (as ! Suc i)) (Suc i * ?sz) iOfst = Inr (Some (as ! (iOfst div ?sz)))"
      using less True J(1) by (intro less.hyps) simp_all
    ultimately show ?thesis using True J(1) by (subst jseek.simps) (simp add: add.commute)
  next
    case False
    then have "iOfst div ?sz = i" using less.prems J(1) by (intro div_nat_eqI) (simp_all add: mult.commute)
    with False J(1) show ?thesis by (subst jseek.simps) simp
  qed
qed

lemma jcopy_spec:
  assumes "jchunks h p as xs"
  shows "off < nChunkSize p \<Longrightarrow> 0 < n \<Longrightarrow> i * nChunkSize p + off + n \<le> length xs \<Longrightarrow>
    jcopy h (nChunkSize p) (Some (as ! i)) off n out =
      Inr (if (i * nChunkSize p + off + n) div nChunkSize p < length as
           then Some (as ! ((i * nChunkSize p + off + n) div nChunkSize p)) else None,
           out @ buf_read (i * nChunkSize p + off) n xs)"
proof (induction n arbitrary: i off out rule: less_induct)
  case (less n)
  let ?sz = "nChunkSize p"
  have J: "0 < ?sz" "length xs \<le> length as * ?sz" using assms(1) by (auto simp: jchunks_def)
  have "i * ?sz < length as * ?sz" using less.prems J(2) by linarith
  then have i: "i < length as" using J(1) by (metis mult_less_cancel2)
  obtain c where c: "jderef h (Some (as ! i)) = Inr c" "zChunk c = chunk_of ?sz xs i"
    "pNext c = (if Suc i < length as then Some (as ! Suc i) else None)"
    using jchunks_chunk [OF assms i] by auto
  define m where "m = min n (?sz - off)"
  have m: "0 < m" "m \<le> n" "off + m \<le> ?sz" using less.prems by (auto simp: m_def)
  have init: "\<not> length (zChunk c) < off + m" using less.prems m by (simp add: c(2) length_chunk_of)
  have part: "buf_read off m (zChunk c) = buf_read (i * ?sz + off) m xs"
    using m by (simp add: c(2) chunk_of_def buf_read_def drop_take min_def add.commute)
  show ?case
  proof (cases "?sz - off \<le> n")
    case False
    then have "(i * ?sz + off + n) div ?sz = i" using less.prems J(1) by (intro div_nat_eqI) simp_all
    with False c init part i less.prems(1) m_def show ?thesis by (subst jcopy.simps) (simp add: Let_def m_def)
  next
    case True
    then have msz: "m = ?sz - off" by (simp add: m_def)
    show ?thesis
    proof (cases "m < n")
      case False
      then have n: "n = ?sz - off" using True m msz by simp
      then have "i * ?sz + off + n = Suc i * ?sz" using less.prems(1) by simp
      then have "(i * ?sz + off + n) div ?sz = Suc i" using J(1) by (metis nonzero_mult_div_cancel_right less_not_refl)
      with n c init part less.prems(1) msz show ?thesis by (subst jcopy.simps) (simp add: Let_def)
    next
      case mn: True
      have e: "i * ?sz + off + m = Suc i * ?sz" using msz less.prems(1) by simp
      have "Suc i * ?sz < length as * ?sz" using e mn less.prems J(2) by linarith
      then have si: "Suc i < length as" using J(1) by (metis mult_less_cancel2)
      have "jcopy h ?sz (Some (as ! Suc i)) 0 (n - m) (out @ buf_read off m (zChunk c)) =
        Inr (if (Suc i * ?sz + 0 + (n - m)) div ?sz < length as
           then Some (as ! ((Suc i * ?sz + 0 + (n - m)) div ?sz)) else None,
           (out @ buf_read off m (zChunk c)) @ buf_read (Suc i * ?sz + 0) (n - m) xs)"
        using mn m e less.prems J(1) by (intro less.IH) linarith+
      moreover have e2: "Suc i * ?sz + 0 + (n - m) = i * ?sz + off + n" using e mn by linarith
      moreover have "buf_read (i * ?sz + off) m xs @ buf_read (Suc i * ?sz) (n - m) xs = buf_read (i * ?sz + off) n xs"
        using mn e by (metis buf_read_append le_add_diff_inverse less_imp_le_nat)
      moreover have "jcopy h ?sz (Some (as ! i)) off n out =
          jcopy h ?sz (Some (as ! Suc i)) 0 (n - m) (out @ buf_read off m (zChunk c))"
        using c(1,3) si init True mn less.prems(1)
        by (subst jcopy.simps) (simp add: Let_def msz)
      ultimately show ?thesis unfolding part e2 by simp
    qed
  qed
qed

lemma memjrnlRead_spec:
  assumes "jchunks h p as xs" "rpoint_ok p as" "0 < n" "off + n \<le> length xs"
  shows "\<exists>p'. memjrnlRead h p n off = Inr (SQLITE_OK, buf_read off n xs, p')
    \<and> jchunks h p' as xs \<and> rpoint_ok p' as \<and> p' = p\<lparr>readpoint := readpoint p'\<rparr>"
proof -
  let ?sz = "nChunkSize p" and ?e = "off + n"
  have J: "0 < ?sz" "length xs \<le> length as * ?sz" "jpath (chunks h) (pFirst p) as None"
    using assms(1) by (auto simp: jchunks_def)
  have ne: "as \<noteq> []" using J(2) assms(3,4) by auto
  have "jseek h ?sz (pFirst p) 0 off = Inr (Some (as ! (off div ?sz)))"
    using jseek_spec [OF assms(1), of off 0] assms(3,4) jpath_first [OF J(3)] ne by (simp add: hd_conv_nth)
  then have seek: "(if iOffset (readpoint p) \<noteq> off \<or> off = 0 then jseek h ?sz (pFirst p) 0 off
      else Inr (pChunk (readpoint p))) = Inr (Some (as ! (off div ?sz)))"
    using assms(2) by (auto simp: rpoint_ok_def)
  have e: "off div ?sz * ?sz + off mod ?sz = off" by simp
  have copy: "jcopy h ?sz (Some (as ! (off div ?sz))) (off mod ?sz) n [] =
      Inr (if ?e div ?sz < length as then Some (as ! (?e div ?sz)) else None, buf_read off n xs)"
    using jcopy_spec [OF assms(1), of "off mod ?sz" n "off div ?sz" "[]"] J(1) assms(3,4) by simp
  let ?rp = "\<lparr>iOffset = (if ?e div ?sz < length as then ?e else 0),
    pChunk = (if ?e div ?sz < length as then Some (as ! (?e div ?sz)) else None)\<rparr>"
  have "memjrnlRead h p n off = Inr (SQLITE_OK, buf_read off n xs, p\<lparr>readpoint := ?rp\<rparr>)"
    unfolding memjrnlRead_def seek using J(1) copy by simp
  moreover have "jchunks h (p\<lparr>readpoint := ?rp\<rparr>) as xs" using assms(1) by (simp add: jchunks_def)
  moreover have "rpoint_ok (p\<lparr>readpoint := ?rp\<rparr>) as" by (simp add: rpoint_ok_def)
  ultimately show ?thesis by (intro exI [of _ "p\<lparr>readpoint := ?rp\<rparr>"]) simp
qed

section \<open>Freeing\<close>

lemma jfree_spec:
  "jpath (chunks h) p as None \<Longrightarrow> distinct as \<Longrightarrow> length as \<le> fuel \<Longrightarrow>
    \<exists>h'. jfree h p fuel = Inr h' \<and> mallocs h' = mallocs h \<and> jnext h' = jnext h
      \<and> chunks h' = (\<lambda>a. if a \<in> set as then None else chunks h a)"
proof (induction as arbitrary: h p fuel)
  case (Cons a as)
  then obtain c k where c: "p = Some a" "chunks h a = Some c" "jpath (chunks h) (pNext c) as None" "fuel = Suc k"
    by (cases fuel) auto
  let ?h = "h\<lparr>chunks := (chunks h)(a := None)\<rparr>"
  have jp: "jpath (chunks ?h) (pNext c) as None" using c(3) Cons.prems(2) by (simp add: jpath_frame)
  obtain h' where "jfree ?h (pNext c) k = Inr h'" "mallocs h' = mallocs h" "jnext h' = jnext h"
    "chunks h' = (\<lambda>b. if b \<in> set as then None else chunks ?h b)"
    using Cons.IH [OF jp, of k] Cons.prems c(4) by auto
  with c show ?case by (auto simp: jderef_def fun_eq_iff)
qed simp

lemma jchunks_length: "jchunks h p as xs \<Longrightarrow> length as \<le> jnext h"
proof -
  assume "jchunks h p as xs"
  then have "distinct as" "set as \<subseteq> {..<jnext h}" by (auto simp: jchunks_def)
  then show ?thesis by (metis card_lessThan card_mono distinct_card finite_lessThan)
qed

lemma memjrnlFreeChunks_spec:
  assumes "jchunks h p as xs"
  shows "\<exists>h'. memjrnlFreeChunks h p = Inr (h', p\<lparr>pFirst := None\<rparr>) \<and> mallocs h' = mallocs h
    \<and> chunks h' = (\<lambda>a. if a \<in> set as then None else chunks h a)"
  using jfree_spec [of h "pFirst p" as "jnext h"] jchunks_length [OF assms] assms
  by (auto simp: jchunks_def memjrnlFreeChunks_def)

section \<open>The journal as a log\<close>

datatype jrnl_op = JAppend bytes | JRead nat nat | JTruncate

datatype jrnl_out = JDone | JBytes bytes

text \<open>The calls SQLite makes on a journal that stays in memory: appends, reads inside it, truncation to nothing.\<close>

fun jrnl_exec ::
    "('f, 'v) os_methods \<Rightarrow> 'v \<times> jheap \<times> MemJournal \<Rightarrow> jrnl_op \<Rightarrow>
      (jrnl_out \<times> 'v \<times> jheap \<times> MemJournal) option" where
  "jrnl_exec os (v, h, p) (JAppend bs) =
     (case memjrnlWrite os v h p bs (snd (memjrnlFileSize p)) of
        Inr (rc, v', h', InMemory p') \<Rightarrow> if rc = SQLITE_OK then Some (JDone, v', h', p') else None
      | _ \<Rightarrow> None)"
| "jrnl_exec os (v, h, p) (JRead off n) =
     (case memjrnlRead h p n off of
        Inr (rc, bs, p') \<Rightarrow> if rc = SQLITE_OK then Some (JBytes bs, v, h, p') else None
      | Inl _ \<Rightarrow> None)"
| "jrnl_exec os (v, h, p) JTruncate =
     (case memjrnlTruncate h p 0 of
        Inr (rc, h', p') \<Rightarrow> if rc = SQLITE_OK then Some (JDone, v, h', p') else None
      | Inl _ \<Rightarrow> None)"

fun jrnl_run ::
    "('f, 'v) os_methods \<Rightarrow> 'v \<times> jheap \<times> MemJournal \<Rightarrow> jrnl_op list \<Rightarrow> jrnl_out list option" where
  "jrnl_run os s [] = Some []"
| "jrnl_run os s (op # ops) =
     (case jrnl_exec os s op of None \<Rightarrow> None | Some (out, s') \<Rightarrow> map_option ((#) out) (jrnl_run os s' ops))"

fun log_run :: "bytes \<Rightarrow> jrnl_op list \<Rightarrow> jrnl_out list option" where
  "log_run xs [] = Some []"
| "log_run xs (JAppend bs # ops) = map_option ((#) JDone) (log_run (xs @ bs) ops)"
| "log_run xs (JRead off n # ops) =
     (if 0 < n \<and> off + n \<le> length xs then map_option ((#) (JBytes (buf_read off n xs))) (log_run xs ops) else None)"
| "log_run xs (JTruncate # ops) = map_option ((#) JDone) (log_run [] ops)"

fun jrnl_cost :: "jrnl_op list \<Rightarrow> nat" where
  "jrnl_cost [] = 0"
| "jrnl_cost (JAppend bs # ops) = length bs + jrnl_cost ops"
| "jrnl_cost (_ # ops) = jrnl_cost ops"

lemma jrnl_run_log:
  "jchunks h p as xs \<Longrightarrow> rpoint_ok p as \<Longrightarrow> jrnl_cost ops \<le> mallocs h \<Longrightarrow>
    nSpill p \<le> 0 \<or> int (length xs + jrnl_cost ops) \<le> nSpill p \<Longrightarrow> log_run xs ops = Some outs \<Longrightarrow>
    jrnl_run os (v, h, p) ops = Some outs"
proof (induction xs ops arbitrary: h p as outs rule: log_run.induct)
  case (2 xs bs ops)
  obtain rc h' p' as' k where *: "jappend h p bs = Inr (rc, h', p')"
    "jchunks h' p' (as @ as') (xs @ take k bs)" "p' = p\<lparr>pFirst := pFirst p', endpoint := endpoint p'\<rparr>"
    "if rc = SQLITE_OK then k = length bs else rc = SQLITE_IOERR_NOMEM"
    "length bs \<le> mallocs h \<longrightarrow> rc = SQLITE_OK" "mallocs h \<le> mallocs h' + length bs"
    using jappend_spec [OF 2(2), of bs] by auto
  have rc: "rc = SQLITE_OK" "k = length bs" using *(4,5) 2(4) by (auto split: if_splits)
  let ?p = "p'\<lparr>nSize := length bs + length xs\<rparr>"
  have same: "nChunkSize p' = nChunkSize p" "readpoint p' = readpoint p" "nSpill p' = nSpill p" by (subst *(3), simp)+
  have "jchunks h' ?p (as @ as') (xs @ bs)" using *(2) rc by (simp add: jchunks_def)
  moreover have "rpoint_ok ?p (as @ as')" using 2(3) same by (auto simp: rpoint_ok_def nth_append)
  moreover obtain outs' where "log_run (xs @ bs) ops = Some outs'" "outs = JDone # outs'" using 2(6) by auto
  ultimately have "jrnl_run os (v, h', ?p) ops = Some outs'" "outs = JDone # outs'"
    using 2(1) [of h' ?p "as @ as'" outs'] 2(4,5) *(6) same by (auto simp: add.assoc)
  moreover have "iOffset (endpoint p) = length xs" using 2(2) by (simp add: jchunks_def)
  ultimately show ?case using *(1) rc 2(5) by (auto simp: memjrnlWrite_def memjrnlFileSize_def)
next
  case (3 xs off n ops)
  from 3(6) have n: "0 < n" "off + n \<le> length xs" by (auto split: if_splits)
  then obtain outs' where outs: "log_run xs ops = Some outs'" "outs = JBytes (buf_read off n xs) # outs'"
    using 3(6) by auto
  obtain p' where p': "memjrnlRead h p n off = Inr (SQLITE_OK, buf_read off n xs, p')"
    "jchunks h p' as xs" "rpoint_ok p' as" "p' = p\<lparr>readpoint := readpoint p'\<rparr>"
    using memjrnlRead_spec [OF 3(2,3) n] by blast
  have "nSpill p' = nSpill p" by (subst p'(4)) simp
  with 3(1) [OF _ p'(2,3) _ _ outs(1)] 3(4,5) n p'(1) outs show ?case by simp
next
  case (4 xs ops)
  obtain h' where h': "memjrnlFreeChunks h p = Inr (h', p\<lparr>pFirst := None\<rparr>)" "mallocs h' = mallocs h"
    using memjrnlFreeChunks_spec [OF 4(2)] by blast
  let ?p = "p\<lparr>pFirst := None, nSize := 0, endpoint := null_point, readpoint := null_point\<rparr>"
  have "jchunks h' ?p [] []" "rpoint_ok ?p []"
    using 4(2) by (simp_all add: jchunks_def rpoint_ok_def null_point_def)
  moreover obtain outs' where "log_run [] ops = Some outs'" "outs = JDone # outs'" using 4(6) by auto
  ultimately show ?case using 4(1) [of h' ?p "[]" outs'] 4(4,5) h' by (auto simp: memjrnlTruncate_def)
qed auto

text \<open>
  C6: A journal opened in memory is a log of bytes. As long as memory lasts and what is appended
  stays within the spill limit (when there is one), any sequence of appends, reads inside the log
  and truncations to nothing succeeds, and every read returns the bytes appended at its offset,
  whatever chunks they lie in and wherever the read cursor was left.
\<close>
theorem journal_is_byte_log:
  assumes "sqlite3JournalOpen os v zName flags spill = Some (SQLITE_OK, v', InMemory p)"
    and "jrnl_cost ops \<le> mallocs h" "spill < 0 \<or> int (jrnl_cost ops) \<le> spill"
    and "log_run [] ops = Some outs"
  shows "jrnl_run os (v, h, p) ops = Some outs"
proof -
  have p: "p = \<lparr>nChunkSize = (if 0 < spill then nat spill else 8 + 1024 - 16),
      nSpill = spill, nSize = 0, pFirst = None, endpoint = null_point, readpoint = null_point,
      jflags = flags, zJournal = zName\<rparr>"
    using assms(1) by (auto simp: sqlite3JournalOpen_def split: if_splits option.splits)
  then have "jchunks h p [] []" "rpoint_ok p []"
    by (auto simp: jchunks_def rpoint_ok_def null_point_def)
  then show ?thesis
    using assms(2-4) p by (intro jrnl_run_log [of h p "[]" "[]"]) auto
qed

definition small_heap :: "nat \<Rightarrow> jheap" where
  "small_heap n = \<lparr>chunks = (\<lambda>_. None), jnext = 0, mallocs = n\<rparr>"

definition no_os :: "(unit, unit) os_methods" where
  "no_os = \<lparr>os_open = (\<lambda>_ _ _. None), os_write = (\<lambda>_ _ _ _. None), os_close = (\<lambda>_ _. None)\<rparr>"

theorem journal_is_byte_log_witness:
  "\<exists>p. sqlite3JournalOpen no_os () None 0 5 = Some (SQLITE_OK, (), InMemory p) \<and>
    jrnl_run no_os ((), small_heap 5, p) [JAppend [1, 2, 3, 4], JRead 1 2, JAppend [9], JRead 3 2] =
      Some [JDone, JBytes [2, 3], JDone, JBytes [4, 9]]"
proof -
  let ?p = "\<lparr>nChunkSize = 5, nSpill = 5, nSize = 0, pFirst = None, endpoint = null_point,
    readpoint = null_point, jflags = 0, zJournal = None\<rparr>"
  have o: "sqlite3JournalOpen no_os () None 0 5 = Some (SQLITE_OK, (), InMemory ?p)"
    by (simp add: sqlite3JournalOpen_def)
  have "log_run [] [JAppend [1, 2, 3, 4], JRead 1 2, JAppend [9], JRead 3 2] =
      Some [JDone, JBytes [2, 3], JDone, JBytes [4, 9]]"
    by (simp add: buf_read_def)
  with journal_is_byte_log [OF o, of "[JAppend [1, 2, 3, 4], JRead 1 2, JAppend [9], JRead 3 2]" "small_heap 5"] o
  show ?thesis by (simp add: small_heap_def)
qed

end
