(* ===== verification/JournalSpill.thy ===== *)
theory JournalSpill
  imports MemJournalProps VfsProps
begin

text \<open>
  What happens when the in-memory journal outgrows its limit: it becomes a file of the underlying
  VFS. \<^theory_text>\<open>os_file\<close> extends the byte-file contract with the VFS methods the journal calls; the SGX
  VFS of \<^verbatim>\<open>Enclave/sgxvfs.c\<close> provides it.
\<close>

section \<open>The interface\<close>

locale os_file = byte_file ok content wr rd
  for ok :: "'f \<times> 'v \<Rightarrow> bool" and content :: "'f \<times> 'v \<Rightarrow> bytes" and wr rd +
  fixes os :: "('f, 'v) os_methods" and v0 :: 'v and restored :: "'v \<Rightarrow> bool"
    and bound :: nat and flags :: u32
  assumes open_law: "\<exists>rc f v. os_open os v0 name flags = Some (rc, f, v)
      \<and> (if rc = SQLITE_OK then ok (f, v) \<and> content (f, v) = [] else \<exists>v'. os_close os v f = Some v' \<and> restored v')"
    and os_law: "ok (f, v) \<Longrightarrow> off + length bs \<le> bound \<Longrightarrow>
      \<exists>rc v'. os_write os v f bs off = Some (rc, v')
        \<and> (if rc = SQLITE_OK then wr (f, v) off bs = Some (f, v') else \<exists>v''. os_close os v' f = Some v'' \<and> restored v'')"
begin

text \<open>Writing at the end appends.\<close>

lemma os_append:
  assumes "ok (f, v)" "length (content (f, v)) + length bs \<le> bound"
  shows "\<exists>rc v'. os_write os v f bs (length (content (f, v))) = Some (rc, v')
    \<and> (if rc = SQLITE_OK then ok (f, v') \<and> content (f, v') = content (f, v) @ bs
       else \<exists>v''. os_close os v' f = Some v'' \<and> restored v'')"
proof -
  obtain rc v' where w: "os_write os v f bs (length (content (f, v))) = Some (rc, v')"
    "if rc = SQLITE_OK then wr (f, v) (length (content (f, v))) bs = Some (f, v')
     else \<exists>v''. os_close os v' f = Some v'' \<and> restored v''"
    using os_law [OF assms] by blast
  then show ?thesis
    using write_law [OF assms(1) order_refl, of bs "(f, v')"] by (auto simp: buf_write_def split: if_splits)
qed

lemma jflush_spec:
  assumes J: "jchunks h p as xs" and "length xs \<le> bound"
  shows "ok (f, v) \<Longrightarrow> content (f, v) = take (i * nChunkSize p) xs \<Longrightarrow> i \<le> length as \<Longrightarrow> length as - i \<le> fuel \<Longrightarrow>
    \<exists>rc v'. jflush os f h (if i < length as then Some (as ! i) else None) (nChunkSize p) (length xs) (i * nChunkSize p) v fuel
        = Inr (rc, v') \<and> (if rc = SQLITE_OK then ok (f, v') \<and> content (f, v') = xs
            else \<exists>v''. os_close os v' f = Some v'' \<and> restored v'')"
proof (induction fuel arbitrary: i v)
  case 0
  then have "i = length as" by simp
  moreover have "length xs \<le> length as * nChunkSize p" using J by (simp add: jchunks_def)
  ultimately show ?case using 0 by simp
next
  case (Suc fuel)
  let ?sz = "nChunkSize p"
  have sz: "0 < ?sz" "length xs \<le> length as * ?sz" "as \<noteq> [] \<longrightarrow> (length as - 1) * ?sz < length xs"
    using J by (auto simp: jchunks_def)
  show ?case
  proof (cases "i < length as")
    case False
    with Suc.prems sz show ?thesis by simp
  next
    case True
    have "i * ?sz \<le> (length as - 1) * ?sz" using True by (intro mult_le_mono1) simp
    then have i: "i * ?sz < length xs" using sz(3) True by (metis le_less_trans length_greater_0_conv gr_implies_not0 neq0_conv)
    obtain c where c: "jderef h (Some (as ! i)) = Inr c" "zChunk c = chunk_of ?sz xs i"
      "pNext c = (if Suc i < length as then Some (as ! Suc i) else None)"
      using jchunks_chunk [OF J True] by auto
    define n where "n = (if length xs < i * ?sz + ?sz then length xs - i * ?sz else ?sz)"
    have n: "n = length (chunk_of ?sz xs i)" using i by (auto simp: n_def length_chunk_of min_def)
    have lc: "length (content (f, v)) = i * ?sz" using Suc.prems(2) i by simp
    have "take (i * ?sz) xs @ chunk_of ?sz xs i = take (Suc i * ?sz) xs"
      by (simp add: chunk_of_def take_add [symmetric] add.commute)
    moreover have "length (content (f, v)) + length (chunk_of ?sz xs i) \<le> bound"
      using lc i assms(2) by (auto simp: length_chunk_of min_def)
    ultimately obtain rc v' where w: "os_write os v f (chunk_of ?sz xs i) (i * ?sz) = Some (rc, v')"
      "if rc = SQLITE_OK then ok (f, v') \<and> content (f, v') = take (Suc i * ?sz) xs
       else \<exists>v''. os_close os v' f = Some v'' \<and> restored v''"
      using os_append [OF Suc.prems(1), of "chunk_of ?sz xs i"] lc Suc.prems(2) by auto
    have step: "jflush os f h (Some (as ! i)) ?sz (length xs) (i * ?sz) v (Suc fuel) =
      (if rc \<noteq> 0 then Inr (rc, v') else jflush os f h (pNext c) n (length xs) (i * ?sz + n) v' fuel)"
      using c(1,2) w(1) n by (simp add: Let_def n_def [symmetric])
    show ?thesis
    proof (cases "rc = 0")
      case rc: True
      show ?thesis
      proof (cases "Suc i < length as")
        case si: True
        have "Suc i * ?sz \<le> (length as - 1) * ?sz" using si by (intro mult_le_mono1) simp
        then have "n = ?sz" using sz(3) True by (auto simp: n_def)
        then show ?thesis
          using Suc.IH [of v' "Suc i"] w(2) rc si Suc.prems(4) step c(3) by (simp add: sqlite_codes add.commute)
      next
        case si: False
        then have "length xs \<le> Suc i * ?sz" using True sz(2) by (metis Suc_lessI mult.commute)
        then show ?thesis using step rc w(2) c(3) si True by (auto simp: sqlite_codes)
      qed
    next
      case False
      then show ?thesis using step True w(2) by (auto simp: sqlite_codes)
    qed
  qed
qed

text \<open>
  A write that crosses the limit moves the journal into the real file, with the new bytes at its
  end; when the file cannot be created or filled, the journal is the one it was.
\<close>

lemma spill:
  assumes "jchunks h p as xs" "jflags p = flags" "0 < nSpill p" "nSpill p < int (length bs + length xs)"
    and "length xs + length bs \<le> bound"
  shows "\<exists>rc v' h' j. memjrnlWrite os v0 h p bs (length xs) = Inr (rc, v', h', j) \<and>
    (case j of InMemory p' \<Rightarrow> rc \<noteq> SQLITE_OK \<and> p' = p \<and> h' = h \<and> restored v'
     | OnDisk f \<Rightarrow> (\<forall>a\<in>set as. chunks h' a = None) \<and> (rc = SQLITE_OK \<longrightarrow> ok (f, v') \<and> content (f, v') = xs @ bs))"
proof -
  have J: "pFirst p = (if 0 < length as then Some (as ! 0) else None)" "iOffset (endpoint p) = length xs"
    using assms(1) jpath_first [of "chunks h" "pFirst p" as None] by (auto simp: jchunks_def hd_conv_nth)
  obtain rc f v where o: "os_open os v0 (zJournal p) (jflags p) = Some (rc, f, v)"
    "if rc = SQLITE_OK then ok (f, v) \<and> content (f, v) = [] else \<exists>v'. os_close os v f = Some v' \<and> restored v'"
    using open_law assms(2) by blast
  show ?thesis
  proof (cases "rc = SQLITE_OK")
    case False
    with o assms(3,4) show ?thesis by (auto simp: memjrnlWrite_def memjrnlCreateFile_def)
  next
    case True
    obtain rc' v' where w: "jflush os f h (pFirst p) (nChunkSize p) (length xs) 0 v (jnext h) = Inr (rc', v')"
      "if rc' = SQLITE_OK then ok (f, v') \<and> content (f, v') = xs else \<exists>v''. os_close os v' f = Some v'' \<and> restored v''"
      using jflush_spec [OF assms(1), of f v 0 "jnext h"] o(2) True jchunks_length [OF assms(1)] assms(5) J(1) by auto
    show ?thesis
    proof (cases "rc' = SQLITE_OK")
      case False
      with o w True assms(3,4) J(2) show ?thesis by (auto simp: memjrnlWrite_def memjrnlCreateFile_def)
    next
      case ok: True
      obtain h' where h': "memjrnlFreeChunks h p = Inr (h', p\<lparr>pFirst := None\<rparr>)" "\<forall>a\<in>set as. chunks h' a = None"
        using memjrnlFreeChunks_spec [OF assms(1)] by auto
      obtain rc2 v2 where w2: "os_write os v' f bs (length xs) = Some (rc2, v2)"
        "rc2 = SQLITE_OK \<longrightarrow> ok (f, v2) \<and> content (f, v2) = xs @ bs"
        using os_append [of f v' bs] w(2) ok assms(5) by (auto split: if_splits)
      show ?thesis using o w True ok h' w2 assms(3,4) J(2)
        by (auto simp: memjrnlWrite_def memjrnlCreateFile_def)
    qed
  qed
qed

end

section \<open>The SGX VFS as the real file\<close>

definition sgx_os :: "vme_cfg \<Rightarrow> ipp_aes \<Rightarrow> realloc_fn \<Rightarrow> (sgxVmem_t, vfs) os_methods" where
  "sgx_os c aes rea =
     \<lparr>os_open = (\<lambda>s name fl. case sgxvfsOpen s name fl of Inl _ \<Rightarrow> None | Inr r \<Rightarrow> Some r),
      os_write = (\<lambda>s f bs off. case sgxVmemWrite c aes rea s f bs (int off) of Inl _ \<Rightarrow> None | Inr r \<Rightarrow> Some r),
      os_close = (\<lambda>s f. case sgxVmemClose s f of Inl _ \<Rightarrow> None | Inr (_, s) \<Rightarrow> Some s)\<rparr>"

text \<open>A state that differs from another in one buffer at most.\<close>

definition same_but :: "addr \<Rightarrow> vfs \<Rightarrow> vfs \<Rightarrow> bool" where
  "same_but a s s' \<longleftrightarrow> (\<forall>x. x \<noteq> a \<longrightarrow> bufs s' x = bufs s x) \<and> eng s' = eng s \<and> env s' = env s"

lemma same_but_simps [simp]:
  "same_but a s s" "same_but a s (set_buf s (Some a) b)"
  "same_but a s s' \<Longrightarrow> same_but a s (set_buf s' (Some a) b)"
  "same_but a s s' \<Longrightarrow> same_but a s (free_buf s' (Some a))"
  by (auto simp: same_but_def set_buf_def free_buf_def)

text \<open>
  A private file doubles its block when it grows, so a file of up to \<^theory_text>\<open>sgx_bound\<close> bytes never
  has a block of more than four times that, and its size arithmetic stays inside an
  \<^verbatim>\<open>int\<close>.
\<close>

definition sgx_bound :: nat where
  "sgx_bound = 200000000"

definition sgx_ok :: "vfs \<Rightarrow> sgxVmem_t \<times> vfs \<Rightarrow> bool" where
  "sgx_ok s0 r \<longleftrightarrow> private_ok (fst r) (snd r) \<and> file_mem (fst r) = Some (bnext s0) \<and> same_but (bnext s0) s0 (snd r)
    \<and> (\<forall>b. get_buf (snd r) (file_mem (fst r)) = Inr b \<longrightarrow> total b \<le> 4 * int sgx_bound)"

definition sgx_write ::
    "vme_cfg \<Rightarrow> ipp_aes \<Rightarrow> realloc_fn \<Rightarrow> sgxVmem_t \<times> vfs \<Rightarrow> nat \<Rightarrow> bytes \<Rightarrow> (sgxVmem_t \<times> vfs) option" where
  "sgx_write c aes rea r off bs =
     (if off + length bs \<le> sgx_bound
      then map_option (Pair (fst r)) (private_write c aes rea (fst r) (snd r) off bs) else None)"

definition some_realloc :: "realloc_fn \<Rightarrow> realloc_fn" where
  "some_realloc rea = (if realloc_ok rea then rea else grow_zero)"

lemma some_realloc_ok [simp]: "realloc_ok (some_realloc rea)"
  by (simp add: some_realloc_def grow_zero_ok)

lemma private_write_total:
  assumes "realloc_ok rea" "private_ok f s" "get_buf s (file_mem f) = Inr b"
    and "2 * (int off + int (length bs) + total b) < 2 ^ 31"
  shows "\<exists>rc s' b'. sgxVmemWrite c aes rea s f bs (int off) = Inr (rc, s') \<and> get_buf s' (file_mem f) = Inr b'
    \<and> (total b' = total b \<or> total b < int off + int (length bs) \<and> total b' = 2 * (int off + int (length bs) + total b))
    \<and> same_but (the (file_mem f)) s s' \<and> (rc \<noteq> SQLITE_OK \<longrightarrow> s' = s)"
proof -
  have b: "\<not> is_main_db f" "0 \<le> used b" "used b \<le> total b" "total b = int (length (dat b))"
    using assms(2,3) by (auto simp: private_ok_iff)
  obtain m where p: "file_mem f = Some m" using get_buf_not_None [OF assms(3)] by auto
  have ci: "c_int (2 * (int off + int (length bs) + total b)) = 2 * (int off + int (length bs) + total b)"
    using assms(4) b by (intro c_int_id) auto
  obtain d s1 where g: "sgxVmemWrite_grow c rea s f (length bs) (int off) = Inr (d, s1)"
    "d = None \<or> (\<exists>rc. d = Some rc \<and> s1 = s)"
    "\<And>b1. get_buf s1 (file_mem f) = Inr b1 \<Longrightarrow> total b1 = total b
       \<or> total b < int off + int (length bs) \<and> total b1 = 2 * (int off + int (length bs) + total b)"
    "same_but m s s1"
    using assms(3) b(1) ci p
    by (cases "rea (buf_data b) (c_size_t (2 * (int off + int (length bs) + total b)))";
        cases "total b < int off + int (length bs)")
      (auto simp: sgxVmemWrite_grow_def Let_def)
  show ?thesis
  proof (cases d)
    case (Some rc)
    then show ?thesis using g assms(3) p by (auto simp: sgxVmemWrite_def)
  next
    case None
    obtain b1 where b1: "get_buf s1 (file_mem f) = Inr b1" "off + length bs \<le> length (dat b1)"
      using sgxVmemWrite_grow_private [OF assms(1) b(1) assms(3) b(2,4) assms(4) g(1) [unfolded None]] by blast
    show ?thesis
      using g(1,3,4) None b1 b(1) p
      by (cases "buf_data b1") (auto simp: sgxVmemWrite_def dat_def)
  qed
qed

lemma and_not_flag: "x AND b = 0 \<Longrightarrow> x = x AND NOT (b :: 'a :: len word)"
  by (metis (no_types) bit.conj_disj_distrib bit.disj_cancel_right and.right_neutral or.left_neutral)

lemma flag_cleared: "b AND (x AND NOT b) = (0 :: 'a :: len word)"
  by (rule bit_word_eqI) (auto simp: bit_simps)

lemma sgx_small:
  assumes "sgx_ok s0 r" "off + length bs \<le> sgx_bound" "get_buf (snd r) (file_mem (fst r)) = Inr b"
  shows "2 * (int off + int (length bs) + total b) < 2 ^ 31"
proof -
  have "total b \<le> 4 * int sgx_bound" using assms(1,3) by (auto simp: sgx_ok_def)
  moreover have "int (off + length bs) \<le> int sgx_bound" using assms(2) by (simp only: of_nat_le_iff)
  ultimately show ?thesis by (simp add: sgx_bound_def)
qed

lemma sgx_write_law:
  assumes "sgx_ok s0 r" "off \<le> length (private_content (fst r) (snd r))"
    and "sgx_write c aes (some_realloc rea) r off bs = Some r'"
  shows "sgx_ok s0 r' \<and> private_content (fst r') (snd r') = buf_write off bs (private_content (fst r) (snd r))"
proof -
  obtain f s where r: "r = (f, s)" by (cases r)
  obtain s' where s': "off + length bs \<le> sgx_bound" "private_write c aes (some_realloc rea) f s off bs = Some s'" "r' = (f, s')"
    using assms(3) r by (auto simp: sgx_write_def split: if_splits)
  obtain b where b: "get_buf s (file_mem f) = Inr b" "total b \<le> 4 * int sgx_bound" "private_ok f s"
    using assms(1) r by (auto simp: sgx_ok_def private_ok_iff)
  have law: "private_ok f s' \<and> private_content f s' = buf_write off bs (private_content f s)"
    using private_write_law [OF some_realloc_ok b(3) _ s'(2)] assms(2) r by simp
  have small: "2 * (int off + int (length bs) + total b) < 2 ^ 31"
    using sgx_small [OF assms(1) s'(1)] b(1) r by simp
  obtain rc s1 b1 where w: "sgxVmemWrite c aes (some_realloc rea) s f bs (int off) = Inr (rc, s1)"
    "get_buf s1 (file_mem f) = Inr b1"
    "total b1 = total b \<or> total b < int off + int (length bs) \<and> total b1 = 2 * (int off + int (length bs) + total b)"
    "same_but (the (file_mem f)) s s1"
    using private_write_total [OF some_realloc_ok b(3,1) small] by blast
  have "s1 = s'" using s'(2) w(1) b(1) by (auto simp: private_write_def split: if_splits)
  moreover have "int (off + length bs) \<le> int sgx_bound" using s'(1) by (simp only: of_nat_le_iff)
  ultimately have "total b1 \<le> 4 * int sgx_bound" using w(3) b(2) by auto
  moreover have "same_but (bnext s0) s0 s1"
    using assms(1) w(4) r by (auto simp: sgx_ok_def same_but_def)
  ultimately show ?thesis using law s'(3) w(2) \<open>s1 = s'\<close> r assms(1) by (simp add: sgx_ok_def)
qed

lemma sgx_read_law:
  "sgx_ok s0 r \<Longrightarrow> off + n \<le> length (private_content (fst r) (snd r)) \<Longrightarrow>
    private_read c aes (fst r) (snd r) off n = Some (buf_read off n (private_content (fst r) (snd r)))"
  by (rule private_read_law) (simp_all add: sgx_ok_def)

text \<open>What a failed attempt leaves: everything as it was, and the file's buffer freed.\<close>

definition sgx_restored :: "vfs \<Rightarrow> vfs \<Rightarrow> bool" where
  "sgx_restored s0 s \<longleftrightarrow> same_but (bnext s0) s0 s \<and> bufs s (bnext s0) = None"

lemma sgx_open_law:
  "\<exists>rc f s. os_open (sgx_os c aes rea) s0 name (fl AND NOT SQLITE_OPEN_MAIN_DB) = Some (rc, f, s)
    \<and> (if rc = SQLITE_OK then sgx_ok s0 (f, s) \<and> private_content (fst (f, s)) (snd (f, s)) = []
       else \<exists>s'. os_close (sgx_os c aes rea) s f = Some s' \<and> sgx_restored s0 s')"
proof -
  have "\<not> is_main_db \<lparr>file_path = name, file_flags = fl AND NOT SQLITE_OPEN_MAIN_DB, file_mem = m\<rparr>" for m
    by (simp add: is_main_db_def flag_cleared)
  then show ?thesis
    by (simp add: sgx_os_def sgxvfsOpen_def Let_def new_buf_def sgx_ok_def private_ok_def private_content_def
        get_buf_def calloc_buf_def same_but_def)
qed

lemma sgx_close:
  assumes "sgx_ok s0 (f, s)"
  shows "\<exists>s'. os_close (sgx_os c aes rea) s f = Some s' \<and> sgx_restored s0 s'"
proof -
  have "\<not> is_main_db f" "file_mem f = Some (bnext s0)" "same_but (bnext s0) s0 s"
    "\<exists>b. get_buf s (file_mem f) = Inr b"
    using assms by (auto simp: sgx_ok_def private_ok_iff)
  then show ?thesis by (auto simp: sgx_os_def sgxVmemClose_def sgx_restored_def free_buf_def same_but_def)
qed

lemma sgx_os_law:
  assumes "sgx_ok s0 (f, s)" "off + length bs \<le> sgx_bound"
  shows "\<exists>rc s'. os_write (sgx_os c aes (some_realloc rea)) s f bs off = Some (rc, s')
    \<and> (if rc = SQLITE_OK then sgx_write c aes (some_realloc rea) (f, s) off bs = Some (f, s')
       else \<exists>s''. os_close (sgx_os c aes (some_realloc rea)) s' f = Some s'' \<and> sgx_restored s0 s'')"
proof -
  obtain b where b: "get_buf s (file_mem f) = Inr b" "private_ok f s"
    using assms(1) by (auto simp: sgx_ok_def private_ok_iff)
  have small: "2 * (int off + int (length bs) + total b) < 2 ^ 31"
    using sgx_small [OF assms] b(1) by simp
  obtain rc s' where w: "sgxVmemWrite c aes (some_realloc rea) s f bs (int off) = Inr (rc, s')"
    "rc \<noteq> SQLITE_OK \<longrightarrow> s' = s"
    using private_write_total [OF some_realloc_ok b(2,1) small, of c aes rea] by blast
  show ?thesis
  proof (cases "rc = SQLITE_OK")
    case True
    with w b(1) small assms(2) show ?thesis by (simp add: sgx_os_def sgx_write_def private_write_def)
  next
    case False
    with w sgx_close [OF assms(1), of c aes "some_realloc rea"] show ?thesis by (simp add: sgx_os_def)
  qed
qed

interpretation sgx_file: os_file "sgx_ok s" "\<lambda>r. private_content (fst r) (snd r)"
    "sgx_write c aes (some_realloc rea)" "\<lambda>r. private_read c aes (fst r) (snd r)"
    "sgx_os c aes (some_realloc rea)" s "sgx_restored s" sgx_bound "fl AND NOT SQLITE_OPEN_MAIN_DB"
  for c aes rea s fl
  by unfold_locales (fact sgx_write_law sgx_read_law sgx_open_law sgx_os_law)+

text \<open>
  C7: When a write crosses the journal's limit, the journal moves into a private file of the SGX
  VFS: either the file holds everything logged so far and the new bytes after it, and the chunks
  are freed, or the call reports an error and a journal that could not be moved is left as it
  was, the half-written file is closed and its buffer freed, and no other buffer of the VFS, nor
  its environment, nor the engine has changed.
\<close>
theorem journal_spills_to_vfs:
  assumes "realloc_ok rea" "jchunks h p as xs" "jflags p AND SQLITE_OPEN_MAIN_DB = 0"
    and "0 < nSpill p" "nSpill p < int (length bs + length xs)" "length xs + length bs \<le> sgx_bound"
  shows "\<exists>rc s' h' j. memjrnlWrite (sgx_os c aes rea) s h p bs (length xs) = Inr (rc, s', h', j) \<and>
    (case j of InMemory p' \<Rightarrow> rc \<noteq> SQLITE_OK \<and> p' = p \<and> h' = h \<and> sgx_restored s s'
     | OnDisk f \<Rightarrow> (\<forall>a\<in>set as. chunks h' a = None)
         \<and> (rc = SQLITE_OK \<longrightarrow> private_ok f s' \<and> private_content f s' = xs @ bs))"
proof -
  have rea: "some_realloc rea = rea" using assms(1) by (simp add: some_realloc_def)
  have fl: "jflags p = jflags p AND NOT SQLITE_OPEN_MAIN_DB"
    using assms(3) by (rule and_not_flag)
  obtain rc s' h' j where "memjrnlWrite (sgx_os c aes rea) s h p bs (length xs) = Inr (rc, s', h', j)"
    "case j of InMemory p' \<Rightarrow> rc \<noteq> SQLITE_OK \<and> p' = p \<and> h' = h \<and> sgx_restored s s'
     | OnDisk f \<Rightarrow> (\<forall>a\<in>set as. chunks h' a = None)
         \<and> (rc = SQLITE_OK \<longrightarrow> sgx_ok s (f, s') \<and> private_content (fst (f, s')) (snd (f, s')) = xs @ bs)"
    using sgx_file.spill [OF assms(2) fl assms(4-6), where rea = rea] unfolding rea by blast
  then show ?thesis by (cases j) (auto simp: sgx_ok_def)
qed

definition small_log :: "jheap \<times> MemJournal" where
  "small_log = (\<lparr>chunks = [0 \<mapsto> \<lparr>pNext = None, zChunk = [1, 2, 3]\<rparr>], jnext = 1, mallocs = 0\<rparr>,
     \<lparr>nChunkSize = 4, nSpill = 4, nSize = 3, pFirst = Some 0,
      endpoint = \<lparr>iOffset = 3, pChunk = Some 0\<rparr>, readpoint = null_point, jflags = 0x800,
      zJournal = Some ''test.db-journal''\<rparr>)"

theorem journal_spills_to_vfs_witness:
  "\<exists>s' h' f. memjrnlWrite (sgx_os small_config xor_ctr grow_zero) small_vfs (fst small_log) (snd small_log) [5, 6] 3 =
      Inr (SQLITE_OK, s', h', OnDisk f) \<and> private_content f s' = [1, 2, 3, 5, 6]"
proof -
  have J: "jchunks (fst small_log) (snd small_log) [0] [1, 2, 3]"
    by (simp add: small_log_def jchunks_def chunk_of_def)
  have run: "\<exists>s' h' f. memjrnlWrite (sgx_os small_config xor_ctr grow_zero) small_vfs (fst small_log) (snd small_log) [5, 6] 3 =
      Inr (SQLITE_OK, s', h', OnDisk f)"
    by (simp add: memjrnlWrite_def small_log_def memjrnlCreateFile_def sgx_os_def sgxvfsOpen_def Let_def new_buf_def
      is_main_db_def SQLITE_OPEN_MAIN_DB_def small_vfs_def jderef_def sgxVmemWrite_def sgxVmemWrite_grow_def get_buf_def
      calloc_buf_def c_int_def c_size_t_def grow_zero_def set_buf_def sqlite_codes memjrnlFreeChunks_def buf_write_def)
  have len: "length [1, 2, 3 :: u8] = 3" "length [5, 6 :: u8] = 2" by simp_all
  have side: "jflags (snd small_log) AND SQLITE_OPEN_MAIN_DB = 0" "nSpill (snd small_log) = 4"
    by (simp_all add: small_log_def SQLITE_OPEN_MAIN_DB_def)
  have "0 < nSpill (snd small_log)" "nSpill (snd small_log) < int (2 + 3)" "3 + 2 \<le> sgx_bound"
    by (simp_all add: side(2) sgx_bound_def)
  note th = journal_spills_to_vfs [OF grow_zero_ok J side(1), of "[5, 6]" small_config xor_ctr small_vfs, unfolded len, OF this]
  from run obtain s' h' f where r: "memjrnlWrite (sgx_os small_config xor_ctr grow_zero) small_vfs (fst small_log)
      (snd small_log) [5, 6] 3 = Inr (SQLITE_OK, s', h', OnDisk f)" by blast
  from th show ?thesis unfolding r by auto
qed

end
