(* ===== verification/RowSet.thy ===== *)
theory RowSet
  imports Prelude "HOL-Library.Tree"
begin

text \<open>
  Sets of row identifiers, \<^verbatim>\<open>sqlite/rowset.c\<close>: entries are collected in a list, which
  is merge sorted on demand. The first \<^verbatim>\<open>sqlite3RowSetNext\<close> sorts the list, and the
  calls hand out its elements; a \<^verbatim>\<open>sqlite3RowSetTest\<close> with a new batch number moves the
  list into a forest of balanced trees that it searches. No entry is shared, so the lists linked
  by \<^verbatim>\<open>pRight\<close> are lists and the trees trees.
\<close>

section \<open>State\<close>

text \<open>
  \<^theory_text>\<open>nFresh\<close> counts the entries left in the current allocation chunk and \<^theory_text>\<open>chunks_left\<close>
  how many more chunks the allocator will give. \<^verbatim>\<open>pLast\<close> is the last element of
  \<^theory_text>\<open>pEntry\<close>. An element of \<^theory_text>\<open>pForest\<close> is the tree a forest entry points to.
\<close>

record RowSet =
  pEntry :: "int list"
  pForest :: "int tree list"
  nFresh :: nat
  chunks_left :: nat
  rsFlags :: u16
  iBatch :: int

definition ROWSET_SORTED :: u16 where "ROWSET_SORTED = 0x01"
definition ROWSET_NEXT :: u16 where "ROWSET_NEXT = 0x02"

text \<open>An entry takes 24 bytes and the header 56, on the 64-bit targets.\<close>

definition ROWSET_ENTRY_PER_CHUNK :: nat where
  "ROWSET_ENTRY_PER_CHUNK = (1024 - 8) div 24"

definition sqlite3RowSetInit :: "nat \<Rightarrow> nat \<Rightarrow> RowSet" where
  "sqlite3RowSetInit chunks N =
     \<lparr>pEntry = [], pForest = [], nFresh = ((N - 56) div 24) mod 2 ^ 16, chunks_left = chunks,
      rsFlags = ROWSET_SORTED, iBatch = 0\<rparr>"

definition sqlite3RowSetClear :: "RowSet \<Rightarrow> RowSet" where
  "sqlite3RowSetClear p = p\<lparr>nFresh := 0, pEntry := [], pForest := [], rsFlags := ROWSET_SORTED\<rparr>"

text \<open>Whether an entry could be had.\<close>

definition rowSetEntryAlloc :: "RowSet \<Rightarrow> bool \<times> RowSet" where
  "rowSetEntryAlloc p =
     (if nFresh p = 0
      then (if chunks_left p = 0 then (False, p)
            else (True, p\<lparr>chunks_left := chunks_left p - 1, nFresh := ROWSET_ENTRY_PER_CHUNK - 1\<rparr>))
      else (True, p\<lparr>nFresh := nFresh p - 1\<rparr>))"

definition sqlite3RowSetInsert :: "RowSet \<Rightarrow> int \<Rightarrow> RowSet" where
  "sqlite3RowSetInsert p rowid =
     (case rowSetEntryAlloc p of
        (False, p) \<Rightarrow> p
      | (True, p) \<Rightarrow>
          (let flags = (if pEntry p \<noteq> [] \<and> rowid \<le> last (pEntry p)
                        then rsFlags p AND NOT ROWSET_SORTED else rsFlags p)
           in p\<lparr>pEntry := pEntry p @ [rowid], rsFlags := flags\<rparr>))"

section \<open>Sorting\<close>

fun rowSetEntryMerge :: "int list \<Rightarrow> int list \<Rightarrow> int list" where
  "rowSetEntryMerge [] bs = bs"
| "rowSetEntryMerge as [] = as"
| "rowSetEntryMerge (a # as) (b # bs) =
     (if a \<le> b then (if a < b then a # rowSetEntryMerge as (b # bs) else rowSetEntryMerge as (b # bs))
      else b # rowSetEntryMerge (a # as) bs)"

text \<open>
  The buckets, of which the code has 40; an empty list is a null bucket. Adding a list merges it
  with the buckets it meets up to the first null one; \<^theory_text>\<open>None\<close> is running off the array.
\<close>

fun bucket_add :: "int list \<Rightarrow> int list list \<Rightarrow> int list list option" where
  "bucket_add pIn [] = None"
| "bucket_add pIn (b # bs) =
     (if b = [] then Some (pIn # bs) else map_option ((#) []) (bucket_add (rowSetEntryMerge b pIn) bs))"

fun bucket_fill :: "int list \<Rightarrow> int list list \<Rightarrow> int list list option" where
  "bucket_fill [] bs = Some bs"
| "bucket_fill (x # xs) bs = (case bucket_add [x] bs of None \<Rightarrow> None | Some bs \<Rightarrow> bucket_fill xs bs)"

fun bucket_join :: "int list \<Rightarrow> int list list \<Rightarrow> int list" where
  "bucket_join pIn [] = pIn"
| "bucket_join pIn (b # bs) =
     (if b = [] then bucket_join pIn bs
      else bucket_join (if pIn \<noteq> [] then rowSetEntryMerge pIn b else b) bs)"

definition rowSetEntrySort :: "int list \<Rightarrow> int list option" where
  "rowSetEntrySort xs = map_option (\<lambda>bs. bucket_join (hd bs) (tl bs)) (bucket_fill xs (replicate 40 []))"

section \<open>Trees\<close>

fun rowSetTreeToList :: "int tree \<Rightarrow> int list" where
  "rowSetTreeToList Leaf = []"
| "rowSetTreeToList (Node l v r) =
     (if l \<noteq> Leaf then rowSetTreeToList l @ [v] else [v]) @ (if r \<noteq> Leaf then rowSetTreeToList r else [])"

fun rowSetNDeepTree :: "int list \<Rightarrow> nat \<Rightarrow> int tree \<times> int list" where
  "rowSetNDeepTree [] iDepth = (Leaf, [])"
| "rowSetNDeepTree (x # xs) iDepth =
     (if 1 < iDepth
      then (case rowSetNDeepTree (x # xs) (iDepth - 1) of
              (pLeft, []) \<Rightarrow> (pLeft, [])
            | (pLeft, y # ys) \<Rightarrow>
                (case rowSetNDeepTree ys (iDepth - 1) of (pRight, rest) \<Rightarrow> (Node pLeft y pRight, rest)))
      else (Node Leaf x Leaf, xs))"

lemma NDeepTree_inorder: "rowSetNDeepTree xs d = (t, rest) \<Longrightarrow> inorder t @ rest = xs"
proof (induction xs d arbitrary: t rest rule: rowSetNDeepTree.induct)
  case (2 x xs d)
  show ?case
  proof (cases "1 < d")
    case True
    obtain l r1 where l: "rowSetNDeepTree (x # xs) (d - 1) = (l, r1)" by fastforce
    with 2(1) True have il: "inorder l @ r1 = x # xs" by blast
    show ?thesis
    proof (cases r1)
      case Nil
      with 2(3) True l il show ?thesis by simp
    next
      case (Cons y ys)
      obtain r r2 where r: "rowSetNDeepTree ys (d - 1) = (r, r2)" by fastforce
      with 2(2) [OF True l [symmetric] Cons] have "inorder r @ r2 = ys" by blast
      with 2(3) True l Cons r il show ?thesis by auto
    qed
  qed (use 2(3) in auto)
qed simp

lemma NDeepTree_length: "(t, rest) = rowSetNDeepTree xs d \<Longrightarrow> length rest < Suc (length xs)"
  using arg_cong [OF NDeepTree_inorder [of xs d t rest], of length] by simp

function ListToTree_loop :: "int tree \<Rightarrow> int list \<Rightarrow> nat \<Rightarrow> int tree" where
  "ListToTree_loop p [] iDepth = p"
| "ListToTree_loop p (x # xs) iDepth =
     (case rowSetNDeepTree xs iDepth of (pRight, rest) \<Rightarrow> ListToTree_loop (Node p x pRight) rest (iDepth + 1))"
  by pat_completeness auto
termination
  by (relation "measure (\<lambda>(p, xs, d). length xs)") (simp_all add: NDeepTree_length)

definition rowSetListToTree :: "int list \<Rightarrow> int tree" where
  "rowSetListToTree xs = (case xs of [] \<Rightarrow> Leaf | x # xs \<Rightarrow> ListToTree_loop (Node Leaf x Leaf) xs 1)"

section \<open>Reading\<close>

definition sqlite3RowSetNext :: "RowSet \<Rightarrow> (int option \<times> RowSet) option" where
  "sqlite3RowSetNext p =
     (case (if rsFlags p AND ROWSET_NEXT = 0
            then map_option (\<lambda>e. p\<lparr>pEntry := e, rsFlags := rsFlags p OR (ROWSET_SORTED OR ROWSET_NEXT)\<rparr>)
                   (if rsFlags p AND ROWSET_SORTED = 0 then rowSetEntrySort (pEntry p) else Some (pEntry p))
            else Some p) of
        None \<Rightarrow> None
      | Some p \<Rightarrow>
          (case pEntry p of
             [] \<Rightarrow> Some (None, p)
           | x # xs \<Rightarrow> Some (Some x, if xs = [] then sqlite3RowSetClear (p\<lparr>pEntry := xs\<rparr>) else p\<lparr>pEntry := xs\<rparr>)))"

text \<open>
  The walk along the forest that carries the sorted list \<^theory_text>\<open>p\<close> to the first free entry: the
  list that is left over when there was none, and the forest.
\<close>

fun forest_add :: "int list \<Rightarrow> int tree list \<Rightarrow> int list option \<times> int tree list" where
  "forest_add p [] = (Some p, [])"
| "forest_add p (t # ts) =
     (if t = Leaf then (None, rowSetListToTree p # ts)
      else (case forest_add (rowSetEntryMerge (rowSetTreeToList t) p) ts of (r, ts) \<Rightarrow> (r, Leaf # ts)))"

fun tree_search :: "int tree \<Rightarrow> int \<Rightarrow> bool" where
  "tree_search Leaf x = False"
| "tree_search (Node l v r) x = (if v < x then tree_search r x else if x < v then tree_search l x else True)"

definition RowSetTest_batch :: "RowSet \<Rightarrow> RowSet option" where
  "RowSetTest_batch p =
     (if pEntry p = [] then Some p
      else map_option (\<lambda>e.
        (case forest_add e (pForest p) of
           (None, ts) \<Rightarrow> p\<lparr>pForest := ts\<rparr>
         | (Some e, ts) \<Rightarrow>
             (case rowSetEntryAlloc p of
                (False, p) \<Rightarrow> p\<lparr>pForest := ts\<rparr>
              | (True, p) \<Rightarrow> p\<lparr>pForest := ts @ [rowSetListToTree e]\<rparr>))
          \<lparr>pEntry := [], rsFlags := rsFlags p OR ROWSET_SORTED\<rparr>)
        (if rsFlags p AND ROWSET_SORTED = 0 then rowSetEntrySort (pEntry p) else Some (pEntry p)))"

definition sqlite3RowSetTest :: "RowSet \<Rightarrow> int \<Rightarrow> int \<Rightarrow> (bool \<times> RowSet) option" where
  "sqlite3RowSetTest p batch iRowid =
     map_option (\<lambda>p. (\<exists>t\<in>set (pForest p). tree_search t iRowid, p))
       (if batch \<noteq> iBatch p then map_option (\<lambda>p. p\<lparr>iBatch := batch\<rparr>) (RowSetTest_batch p) else Some p)"

end
