(* ===== verification/RowSetProps.thy ===== *)
theory RowSetProps
  imports RowSet
begin

text \<open>
  \<^verbatim>\<open>sqlite/rowset.c\<close> as sets of integers: the merge sort gives the strictly increasing
  list of the elements, the trees are balanced search trees, and the two ways of reading a row
  set return what the set and the batches of insertions before it determine.
\<close>

abbreviation strict :: "int list \<Rightarrow> bool" where
  "strict xs \<equiv> sorted_wrt (<) xs"

section \<open>Sorting\<close>

lemma merge_set [simp]: "set (rowSetEntryMerge as bs) = set as \<union> set bs"
  by (induction as bs rule: rowSetEntryMerge.induct) auto

lemma merge_strict: "strict as \<Longrightarrow> strict bs \<Longrightarrow> strict (rowSetEntryMerge as bs)"
  by (induction as bs rule: rowSetEntryMerge.induct) force+

lemma merge_Nil [simp]: "rowSetEntryMerge as bs = [] \<longleftrightarrow> as = [] \<and> bs = []"
  using merge_set [of as bs] by (metis set_empty sup_eq_bot_iff)

text \<open>The buckets count in binary the lists added.\<close>

primrec bucket_count :: "int list list \<Rightarrow> nat" where
  "bucket_count [] = 0"
| "bucket_count (b # bs) = (if b = [] then 0 else 1) + 2 * bucket_count bs"

definition buckets_ok :: "int list list \<Rightarrow> bool" where
  "buckets_ok bs \<longleftrightarrow> (\<forall>b\<in>set bs. strict b)"

lemma bucket_add_spec:
  "xs \<noteq> [] \<Longrightarrow> strict xs \<Longrightarrow> buckets_ok bs \<Longrightarrow> bucket_count bs + 1 < 2 ^ length bs \<Longrightarrow>
    \<exists>bs'. bucket_add xs bs = Some bs' \<and> buckets_ok bs' \<and> length bs' = length bs
      \<and> bucket_count bs' = bucket_count bs + 1 \<and> \<Union> (set ` set bs') = set xs \<union> \<Union> (set ` set bs)"
proof (induction xs bs rule: bucket_add.induct)
  case (2 xs b bs)
  show ?case
  proof (cases "b = []")
    case True
    with 2(2-4) show ?thesis by (auto simp: buckets_ok_def)
  next
    case False
    have "rowSetEntryMerge b xs \<noteq> []" "strict (rowSetEntryMerge b xs)" "buckets_ok bs" "bucket_count bs + 1 < 2 ^ length bs"
      using 2(2-5) False by (auto simp: buckets_ok_def merge_strict)
    from 2(1) [OF False this] obtain bs' where "bucket_add (rowSetEntryMerge b xs) bs = Some bs'" "buckets_ok bs'"
      "length bs' = length bs" "bucket_count bs' = bucket_count bs + 1"
      "\<Union> (set ` set bs') = set b \<union> set xs \<union> \<Union> (set ` set bs)" by auto
    with False show ?thesis by (auto simp: buckets_ok_def)
  qed
qed simp

lemma bucket_fill_spec:
  "buckets_ok bs \<Longrightarrow> bucket_count bs + length xs < 2 ^ length bs \<Longrightarrow>
    \<exists>bs'. bucket_fill xs bs = Some bs' \<and> buckets_ok bs' \<and> length bs' = length bs
      \<and> \<Union> (set ` set bs') = set xs \<union> \<Union> (set ` set bs)"
proof (induction xs arbitrary: bs)
  case (Cons x xs)
  obtain bs1 where 1: "bucket_add [x] bs = Some bs1" "buckets_ok bs1" "length bs1 = length bs"
    "bucket_count bs1 = bucket_count bs + 1" "\<Union> (set ` set bs1) = {x} \<union> \<Union> (set ` set bs)"
    using bucket_add_spec [of "[x]" bs] Cons.prems by auto
  from Cons.IH [OF 1(2)] Cons.prems 1(3,4) obtain bs' where "bucket_fill xs bs1 = Some bs'" "buckets_ok bs'"
    "length bs' = length bs" "\<Union> (set ` set bs') = set xs \<union> \<Union> (set ` set bs1)" by auto
  with 1 show ?case by auto
qed simp

lemma bucket_join_spec:
  "strict xs \<Longrightarrow> buckets_ok bs \<Longrightarrow> strict (bucket_join xs bs) \<and> set (bucket_join xs bs) = set xs \<union> \<Union> (set ` set bs)"
proof (induction xs bs rule: bucket_join.induct)
  case (2 xs b bs)
  then show ?case by (cases "b = []"; cases "xs = []") (auto simp: buckets_ok_def merge_strict)
qed simp

text \<open>The sort: the strictly increasing list of the elements, for fewer than $2^{40}$ of them.\<close>

lemma rowSetEntrySort_spec:
  assumes "length xs < 2 ^ 40"
  shows "\<exists>ys. rowSetEntrySort xs = Some ys \<and> strict ys \<and> set ys = set xs"
proof -
  have "bucket_count (replicate n []) = 0" for n by (induction n) simp_all
  then obtain bs where bs: "bucket_fill xs (replicate 40 []) = Some bs" "buckets_ok bs" "length bs = 40"
    "\<Union> (set ` set bs) = set xs"
    using bucket_fill_spec [of "replicate 40 []" xs] assms by (auto simp: buckets_ok_def)
  then obtain b cs where "bs = b # cs" by (cases bs) auto
  with bs bucket_join_spec [of b cs] show ?thesis by (auto simp: rowSetEntrySort_def buckets_ok_def)
qed

lemma strict_is_sorted_list: "strict ys \<Longrightarrow> ys = sorted_list_of_set (set ys)"
  by (simp add: strict_sorted_equal)

section \<open>Trees\<close>

lemma TreeToList_inorder [simp]: "rowSetTreeToList t = inorder t"
  by (induction t rule: rowSetTreeToList.induct) auto

lemma ListToTree_loop_inorder: "inorder (ListToTree_loop p xs d) = inorder p @ xs"
proof (induction p xs d rule: ListToTree_loop.induct)
  case (2 p x xs d)
  obtain r rest where r: "rowSetNDeepTree xs d = (r, rest)" by fastforce
  with 2 NDeepTree_inorder [OF r] show ?case by simp
qed simp

lemma ListToTree_inorder [simp]: "inorder (rowSetListToTree xs) = xs"
  by (simp add: rowSetListToTree_def ListToTree_loop_inorder split: list.split)

lemma tree_search_set: "bst t \<Longrightarrow> tree_search t x \<longleftrightarrow> x \<in> set_tree t"
  by (induction t) (auto simp: not_less_iff_gr_or_eq)

text \<open>A tree of depth \<^theory_text>\<open>d\<close> is full unless the list ran out.\<close>

lemma NDeepTree_full:
  "1 \<le> d \<Longrightarrow> rowSetNDeepTree xs d = (t, rest) \<Longrightarrow>
    height t \<le> d \<and> (rest \<noteq> [] \<longrightarrow> length (inorder t) = 2 ^ d - 1)"
proof (induction xs d arbitrary: t rest rule: rowSetNDeepTree.induct)
  case (2 x xs d)
  show ?case
  proof (cases "1 < d")
    case True
    obtain e where e: "d = Suc e" "1 \<le> e" using True by (cases d) auto
    then have d: "1 \<le> d - 1" by simp
    obtain l r1 where l: "rowSetNDeepTree (x # xs) (d - 1) = (l, r1)" by fastforce
    note IHl = 2(1) [OF True d(1) l]
    show ?thesis
    proof (cases r1)
      case Nil
      with 2(4) True l IHl show ?thesis by auto
    next
      case (Cons y ys)
      obtain r r2 where r: "rowSetNDeepTree ys (d - 1) = (r, r2)" by fastforce
      note IHr = 2(2) [OF True l [symmetric] Cons d(1) r]
      have t: "t = Node l y r" "rest = r2" using 2(4) True l Cons r by auto
      have "0 < (2 :: nat) ^ e" by simp
      with IHl IHr Cons t e(1) show ?thesis by auto
    qed
  qed (use 2(3,4) in auto)
qed auto

lemma ListToTree_loop_balanced:
  "1 \<le> d \<Longrightarrow> height p \<le> d \<Longrightarrow> 2 ^ (height p - 1) \<le> length (inorder p) \<Longrightarrow> (xs \<noteq> [] \<longrightarrow> length (inorder p) = 2 ^ d - 1) \<Longrightarrow>
    2 ^ (height (ListToTree_loop p xs d) - 1) \<le> length (inorder p) + length xs"
proof (induction p xs d rule: ListToTree_loop.induct)
  case (2 p x xs d)
  obtain r rest where r: "rowSetNDeepTree xs d = (r, rest)" by fastforce
  let ?p = "Node p x r"
  have full: "height r \<le> d" "rest \<noteq> [] \<longrightarrow> length (inorder r) = 2 ^ d - 1"
    using NDeepTree_full [OF 2(2) r] by auto
  have lp: "length (inorder p) = 2 ^ d - 1" "1 \<le> (2 :: nat) ^ d" using 2(5) by auto
  have "height ?p \<le> d + 1" using 2(3) full(1) by simp
  moreover have "2 ^ (height ?p - 1) \<le> length (inorder ?p)"
  proof -
    have "(2 :: nat) ^ (height ?p - 1) \<le> 2 ^ d" using \<open>height ?p \<le> d + 1\<close> by (intro power_increasing) auto
    moreover have "length (inorder ?p) = 2 ^ d + length (inorder r)" using lp by simp
    ultimately show ?thesis by linarith
  qed
  moreover have "rest \<noteq> [] \<longrightarrow> length (inorder ?p) = 2 ^ (d + 1) - 1" using full(2) lp by auto
  ultimately have "2 ^ (height (ListToTree_loop ?p rest (d + 1)) - 1) \<le> length (inorder ?p) + length rest"
    using 2(1) [OF r [symmetric]] by auto
  moreover have "length (inorder r) + length rest = length xs"
    using arg_cong [OF NDeepTree_inorder [OF r], of length] by simp
  ultimately show ?case using r by simp
qed simp

section \<open>Reading in order\<close>

definition room :: "RowSet \<Rightarrow> nat" where
  "room p = nFresh p + ROWSET_ENTRY_PER_CHUNK * chunks_left p"

lemma room_simps [simp]: "room (p\<lparr>pEntry := e, rsFlags := f\<rparr>) = room p"
  by (simp add: room_def)

lemma alloc_room:
  assumes "0 < room p"
  shows "\<exists>p'. rowSetEntryAlloc p = (True, p') \<and> room p' = room p - 1 \<and> pEntry p' = pEntry p
    \<and> pForest p' = pForest p \<and> rsFlags p' = rsFlags p \<and> iBatch p' = iBatch p"
  using assms by (cases "chunks_left p") (auto simp: rowSetEntryAlloc_def room_def ROWSET_ENTRY_PER_CHUNK_def)

lemma sorted_flag [simp]: "(f AND NOT ROWSET_SORTED) AND ROWSET_SORTED = 0"
  by (rule bit_word_eqI) (auto simp: bit_simps)

lemma sorted_flag_cleared [simp]: "(f AND NOT ROWSET_SORTED) AND ROWSET_NEXT = f AND ROWSET_NEXT"
  by (rule bit_word_eqI) (auto simp: bit_simps ROWSET_SORTED_def ROWSET_NEXT_def)

lemma sorted_flag_set [simp]: "(f OR ROWSET_SORTED) AND ROWSET_SORTED = ROWSET_SORTED"
    "(f OR (ROWSET_SORTED OR ROWSET_NEXT)) AND ROWSET_NEXT = ROWSET_NEXT"
  by (rule bit_word_eqI, auto simp: bit_simps)+

lemma flags_not_zero [simp]: "ROWSET_SORTED \<noteq> 0" "ROWSET_NEXT \<noteq> 0" "ROWSET_SORTED AND ROWSET_NEXT = 0"
  by (simp_all add: ROWSET_SORTED_def ROWSET_NEXT_def)

lemma strict_snoc: "strict (xs @ [x]) \<longleftrightarrow> strict xs \<and> (xs = [] \<or> last xs < x)"
  by (cases xs rule: rev_cases) (auto simp: sorted_wrt_append)

text \<open>The flag says that the list is sorted, and is right.\<close>

definition flag_ok :: "RowSet \<Rightarrow> bool" where
  "flag_ok p \<longleftrightarrow> (rsFlags p AND ROWSET_SORTED \<noteq> 0 \<longrightarrow> strict (pEntry p))"

lemma insert_spec:
  assumes "0 < room p" "flag_ok p"
  shows "flag_ok (sqlite3RowSetInsert p x)" "pEntry (sqlite3RowSetInsert p x) = pEntry p @ [x]"
    "room (sqlite3RowSetInsert p x) = room p - 1" "pForest (sqlite3RowSetInsert p x) = pForest p"
    "iBatch (sqlite3RowSetInsert p x) = iBatch p"
    "rsFlags (sqlite3RowSetInsert p x) AND ROWSET_NEXT = rsFlags p AND ROWSET_NEXT"
  using alloc_room [OF assms(1)] assms(2)
  by (auto simp: sqlite3RowSetInsert_def Let_def flag_ok_def strict_snoc split: if_splits)

lemma sorted_entries:
  assumes "flag_ok p" "length (pEntry p) < 2 ^ 40"
  shows "(if rsFlags p AND ROWSET_SORTED = 0 then rowSetEntrySort (pEntry p) else Some (pEntry p))
    = Some (sorted_list_of_set (set (pEntry p)))"
proof -
  obtain ys where "rowSetEntrySort (pEntry p) = Some ys" "strict ys" "set ys = set (pEntry p)"
    using rowSetEntrySort_spec [OF assms(2)] by blast
  moreover have "ys = sorted_list_of_set (set ys)" using \<open>strict ys\<close> by (rule strict_is_sorted_list)
  moreover have "rsFlags p AND ROWSET_SORTED \<noteq> 0 \<Longrightarrow> pEntry p = sorted_list_of_set (set (pEntry p))"
    using assms(1) strict_is_sorted_list unfolding flag_ok_def by blast
  ultimately show ?thesis by simp
qed

text \<open>The calls of \<^verbatim>\<open>sqlite3RowSetNext\<close> until it says there is nothing more.\<close>

fun rs_drain :: "nat \<Rightarrow> RowSet \<Rightarrow> int list option" where
  "rs_drain 0 p = None"
| "rs_drain (Suc n) p =
     (case sqlite3RowSetNext p of
        None \<Rightarrow> None
      | Some (None, p) \<Rightarrow> Some []
      | Some (Some x, p) \<Rightarrow> map_option ((#) x) (rs_drain n p))"

lemma drain_rest:
  "rsFlags p AND ROWSET_NEXT \<noteq> 0 \<Longrightarrow> length (pEntry p) < n \<Longrightarrow> rs_drain n p = Some (pEntry p)"
proof (induction n arbitrary: p)
  case (Suc n)
  show ?case
  proof (cases "pEntry p")
    case (Cons x xs)
    show ?thesis
    proof (cases "xs = []")
      case True
      with Suc.prems Cons obtain m where "n = Suc m" by (cases n) auto
      with True Cons Suc.prems(1) show ?thesis by (simp add: sqlite3RowSetNext_def sqlite3RowSetClear_def)
    next
      case False
      with Suc Cons show ?thesis by (simp add: sqlite3RowSetNext_def)
    qed
  qed (use Suc.prems in \<open>simp add: sqlite3RowSetNext_def\<close>)
qed simp

lemma drain_first:
  assumes "rsFlags p AND ROWSET_NEXT = 0" "flag_ok p" "length (pEntry p) < 2 ^ 40" "length (pEntry p) < n"
  shows "rs_drain n p = Some (sorted_list_of_set (set (pEntry p)))"
proof -
  let ?ys = "sorted_list_of_set (set (pEntry p))"
  let ?p = "p\<lparr>pEntry := ?ys, rsFlags := rsFlags p OR (ROWSET_SORTED OR ROWSET_NEXT)\<rparr>"
  have "sqlite3RowSetNext p = sqlite3RowSetNext ?p"
    using assms(1) by (simp only: sqlite3RowSetNext_def sorted_entries [OF assms(2,3)]) simp
  moreover obtain m where "n = Suc m" using assms(4) by (cases n) auto
  ultimately have "rs_drain n p = rs_drain n ?p" by simp
  moreover have "length ?ys \<le> length (pEntry p)" by (simp add: card_length)
  ultimately show ?thesis using drain_rest [of ?p n] assms(4) by simp
qed

lemma inserts_spec:
  "length xs \<le> room p \<Longrightarrow> flag_ok p \<Longrightarrow> (let q = foldl sqlite3RowSetInsert p xs in
    flag_ok q \<and> pEntry q = pEntry p @ xs \<and> rsFlags q AND ROWSET_NEXT = rsFlags p AND ROWSET_NEXT)"
proof (induction xs arbitrary: p)
  case (Cons x xs)
  then have "0 < room p" by simp
  note i = insert_spec [OF this Cons.prems(2), of x]
  with Cons.IH [OF _ i(1)] Cons.prems(1) show ?case by (simp add: Let_def)
qed (simp add: Let_def)

text \<open>
  C15: A row set hands out its rows in increasing order and each once: after any insertions for
  which there is memory, the calls of \<^verbatim>\<open>sqlite3RowSetNext\<close> return the sorted list
  of the distinct values inserted, and then end.
\<close>
theorem rowset_next_sorted:
  assumes "p = sqlite3RowSetInit chunks N" "length xs \<le> room p" "length xs < 2 ^ 40"
  shows "rs_drain (length xs + 1) (foldl sqlite3RowSetInsert p xs) = Some (sorted_list_of_set (set xs))"
proof -
  have "flag_ok p" "pEntry p = []" "rsFlags p AND ROWSET_NEXT = 0"
    using assms(1) by (simp_all add: flag_ok_def sqlite3RowSetInit_def)
  with inserts_spec [OF assms(2)] assms(3) drain_first [of "foldl sqlite3RowSetInsert p xs" "length xs + 1"]
  show ?thesis by (simp add: Let_def)
qed

theorem rowset_next_sorted_witness:
  "rs_drain 5 (foldl sqlite3RowSetInsert (sqlite3RowSetInit 0 256) [7, -2, 7, 5]) = Some [-2, 5, 7]"
proof -
  have s: "sorted_list_of_set (set [7, -2, 7, 5 :: int]) = [-2, 5, 7]"
    unfolding sorted_list_of_set_sort_remdups by simp
  have "length [7, -2, 7, 5 :: int] \<le> room (sqlite3RowSetInit 0 256)" by (simp add: room_def sqlite3RowSetInit_def)
  moreover have "length [7, -2, 7, 5 :: int] + 1 = 5" by simp
  moreover have "length [7, -2, 7, 5 :: int] < 2 ^ 40" by simp
  ultimately show ?thesis using rowset_next_sorted [OF refl, of "[7, -2, 7, 5]" 0 256] unfolding s by (simp only:)
qed

section \<open>Testing by batches\<close>

datatype rs_op = RsInsert int | RsTest int int

text \<open>
  What the calls should return: a test sees the values inserted before the last change of batch
  number, its own included.
\<close>

fun batch_run :: "int set \<Rightarrow> int set \<Rightarrow> int \<Rightarrow> rs_op list \<Rightarrow> bool list" where
  "batch_run tested pending batch [] = []"
| "batch_run tested pending batch (RsInsert x # ops) = batch_run tested (insert x pending) batch ops"
| "batch_run tested pending batch (RsTest b x # ops) =
     (if b = batch then (x \<in> tested) # batch_run tested pending batch ops
      else (x \<in> tested \<union> pending) # batch_run (tested \<union> pending) {} b ops)"

fun rs_run :: "RowSet \<Rightarrow> rs_op list \<Rightarrow> bool list option" where
  "rs_run p [] = Some []"
| "rs_run p (RsInsert x # ops) = rs_run (sqlite3RowSetInsert p x) ops"
| "rs_run p (RsTest b x # ops) =
     (case sqlite3RowSetTest p b x of None \<Rightarrow> None | Some (r, p) \<Rightarrow> map_option ((#) r) (rs_run p ops))"

definition forest_ok :: "int tree list \<Rightarrow> bool" where
  "forest_ok ts \<longleftrightarrow> (\<forall>t\<in>set ts. bst t)"

definition forest_set :: "int tree list \<Rightarrow> int set" where
  "forest_set ts = (\<Union>t\<in>set ts. set_tree t)"

lemma bst_ListToTree: "strict xs \<Longrightarrow> bst (rowSetListToTree xs)"
  by (simp add: bst_iff_sorted_wrt_less)

lemma set_ListToTree [simp]: "set_tree (rowSetListToTree xs) = set xs"
  by (metis ListToTree_inorder set_inorder)

lemma forest_add_spec:
  "strict e \<Longrightarrow> forest_ok ts \<Longrightarrow> (case forest_add e ts of
      (None, ts') \<Rightarrow> forest_ok ts' \<and> forest_set ts' = set e \<union> forest_set ts
    | (Some e', ts') \<Rightarrow> strict e' \<and> forest_ok ts' \<and> set e' \<union> forest_set ts' = set e \<union> forest_set ts)"
proof (induction e ts rule: forest_add.induct)
  case (2 e t ts)
  show ?case
  proof (cases "t = Leaf")
    case True
    with 2(2,3) bst_ListToTree [OF 2(2)] show ?thesis by (auto simp: forest_ok_def forest_set_def)
  next
    case False
    have "strict (inorder t)" using 2(3) by (simp add: forest_ok_def bst_iff_sorted_wrt_less)
    then have "strict (rowSetEntryMerge (rowSetTreeToList t) e)" using 2(2) by (simp add: merge_strict)
    with 2(1) [OF False this] 2(3) False show ?thesis
      by (auto simp: forest_ok_def forest_set_def split: prod.splits option.splits)
  qed
qed (simp add: forest_ok_def forest_set_def)

definition rs_sim :: "RowSet \<Rightarrow> int set \<Rightarrow> int set \<Rightarrow> int \<Rightarrow> bool" where
  "rs_sim p tested pending batch \<longleftrightarrow> flag_ok p \<and> forest_ok (pForest p) \<and> forest_set (pForest p) = tested
     \<and> set (pEntry p) = pending \<and> iBatch p = batch"

lemma test_batch_spec:
  assumes "rs_sim p tested pending batch" "0 < room p" "length (pEntry p) < 2 ^ 40"
  shows "\<exists>p'. RowSetTest_batch p = Some p' \<and> rs_sim p' (tested \<union> pending) {} batch \<and> room p - 1 \<le> room p'
    \<and> pEntry p' = []"
proof (cases "pEntry p = []")
  case True
  then show ?thesis using assms by (auto simp: RowSetTest_batch_def rs_sim_def)
next
  case False
  let ?e = "sorted_list_of_set (set (pEntry p))"
  have fo: "flag_ok p" "forest_ok (pForest p)" using assms(1) by (simp_all add: rs_sim_def)
  have e: "strict ?e" "set ?e = pending" using assms(1) by (auto simp: rs_sim_def)
  obtain p1 where p1: "rowSetEntryAlloc p = (True, p1)" "room p1 = room p - 1" "pForest p1 = pForest p" "iBatch p1 = iBatch p"
    using alloc_room [OF assms(2)] by blast
  obtain r ts where fa: "forest_add ?e (pForest p) = (r, ts)" by fastforce
  show ?thesis
    using forest_add_spec [OF e(1) fo(2)] fa False assms(1) p1 e(2) bst_ListToTree
    unfolding RowSetTest_batch_def sorted_entries [OF fo(1) assms(3)]
    by (cases r) (auto simp: rs_sim_def flag_ok_def forest_ok_def forest_set_def room_def)
qed

lemma rs_run_spec:
  "rs_sim p tested pending batch \<Longrightarrow> length ops \<le> room p \<Longrightarrow> length (pEntry p) + length ops < 2 ^ 40 \<Longrightarrow>
    rs_run p ops = Some (batch_run tested pending batch ops)"
proof (induction tested pending batch ops arbitrary: p rule: batch_run.induct)
  case (2 tested pending batch x ops)
  have "0 < room p" "flag_ok p" using 2(2,3) by (auto simp: rs_sim_def)
  note i = insert_spec [OF this, of x]
  have "rs_sim (sqlite3RowSetInsert p x) tested (insert x pending) batch" using 2(2) i by (simp add: rs_sim_def)
  with 2(1) [OF this] 2(3,4) i show ?case by simp
next
  case (3 tested pending batch b x ops)
  have search: "(\<exists>t\<in>set (pForest q). tree_search t x) \<longleftrightarrow> x \<in> T" if "rs_sim q T P B" for q T P B
    using that by (auto simp: rs_sim_def forest_ok_def forest_set_def tree_search_set)
  have same: "iBatch p = batch" using 3(3) by (simp add: rs_sim_def)
  show ?case
  proof (cases "b = batch")
    case True
    with 3(1) [OF True 3(3)] 3(4,5) search [OF 3(3)] same show ?thesis by (simp add: sqlite3RowSetTest_def)
  next
    case False
    have "0 < room p" "length (pEntry p) < 2 ^ 40" using 3(4,5) by auto
    then obtain p' where p': "RowSetTest_batch p = Some p'" "rs_sim p' (tested \<union> pending) {} batch" "room p - 1 \<le> room p'"
      "pEntry p' = []"
      using test_batch_spec [OF 3(3)] by blast
    have sim: "rs_sim (p'\<lparr>iBatch := b\<rparr>) (tested \<union> pending) {} b" using p'(2) by (simp add: rs_sim_def flag_ok_def)
    with 3(2) [OF False sim] 3(4,5) p' search [OF sim] same False show ?thesis
      by (simp add: sqlite3RowSetTest_def room_def)
  qed
qed simp

text \<open>
  C14: A row set answers membership by batches: in any sequence of insertions and tests for which
  there is memory, a test returns whether its value was inserted before the batch number last
  changed, the change at the test itself included. Sorting, the forest of trees and the carries
  between them do not show.
\<close>
theorem rowset_tests_batches:
  assumes "p = sqlite3RowSetInit chunks N" "length ops \<le> room p" "length ops < 2 ^ 40"
  shows "rs_run p ops = Some (batch_run {} {} 0 ops)"
proof -
  have "rs_sim p {} {} 0" "pEntry p = []"
    using assms(1) by (simp_all add: rs_sim_def flag_ok_def forest_ok_def forest_set_def sqlite3RowSetInit_def)
  then show ?thesis using assms(2,3) by (intro rs_run_spec) simp_all
qed

theorem rowset_tests_batches_witness:
  "rs_run (sqlite3RowSetInit 0 256) [RsInsert 7, RsInsert 3, RsTest 0 7, RsTest 1 7, RsInsert 5, RsTest 1 5, RsTest 2 5] =
    Some [False, True, False, True]"
  using rowset_tests_batches [OF refl, of
      "[RsInsert 7, RsInsert 3, RsTest 0 7, RsTest 1 7, RsInsert 5, RsTest 1 5, RsTest 2 5]" 0 256]
  by (simp add: room_def sqlite3RowSetInit_def)

text \<open>The trees that a row set searches are balanced.\<close>

lemma rowset_tree_balanced:
  assumes "xs \<noteq> []"
  shows "inorder (rowSetListToTree xs) = xs \<and> 2 ^ (height (rowSetListToTree xs) - 1) \<le> length xs"
proof -
  obtain x ys where "xs = x # ys" using assms by (cases xs) auto
  then show ?thesis using ListToTree_loop_balanced [of 1 "Node Leaf x Leaf" ys] by (simp add: rowSetListToTree_def ListToTree_loop_inorder)
qed

end
