(* ===== verification/Bitvec.thy ===== *)
theory Bitvec
  imports Prelude
begin

text \<open>
  Sets of page numbers, \<^verbatim>\<open>sqlite/bitvec.c\<close>: a bitmap when the range is small, a
  hash table with linear probing while few bits are set, and otherwise 62 smaller bit vectors, one
  for each part of the range. Numbers are natural; the one place where the 32-bit arithmetic of
  the code could wrap is written out.
\<close>

section \<open>Data\<close>

definition BITVEC_NELEM :: nat where "BITVEC_NELEM = 496"
definition BITVEC_NBIT :: nat where "BITVEC_NBIT = 3968"
definition BITVEC_NINT :: nat where "BITVEC_NINT = 124"
definition BITVEC_MXHASH :: nat where "BITVEC_MXHASH = 62"
definition BITVEC_NPTR :: nat where "BITVEC_NPTR = 62"

lemmas bitvec_sizes = BITVEC_NELEM_def BITVEC_NBIT_def BITVEC_NINT_def BITVEC_MXHASH_def BITVEC_NPTR_def

datatype Bitvec = Bitvec (iSize: nat) (nSet: nat) (iDivisor: nat) (bv_u: bitvec_u)
and bitvec_u = aBitmap bytes | aHash "nat list" | apSub "Bitvec option list"

text \<open>Zeroed memory is an empty bitmap or an empty hash table, by the size.\<close>

definition bitvec_new :: "nat \<Rightarrow> Bitvec" where
  "bitvec_new sz = Bitvec sz 0 0 (if sz \<le> BITVEC_NBIT then aBitmap (replicate BITVEC_NELEM 0) else aHash (replicate BITVEC_NINT 0))"

text \<open>\<^theory_text>\<open>m\<close> counts the allocations that will still succeed.\<close>

definition sqlite3BitvecCreate :: "nat \<Rightarrow> nat \<Rightarrow> Bitvec option \<times> nat" where
  "sqlite3BitvecCreate sz m = (if m = 0 then (None, 0) else (Some (bitvec_new sz), m - 1))"

definition sqlite3BitvecSize :: "Bitvec \<Rightarrow> nat" where
  "sqlite3BitvecSize p = iSize p"

section \<open>The hash table\<close>

definition BITVEC_HASH :: "nat \<Rightarrow> nat" where
  "BITVEC_HASH X = (X * 1) mod BITVEC_NINT"

text \<open>
  Probing from slot \<^theory_text>\<open>h\<close>: the value is found, or the first free slot; \<^theory_text>\<open>None\<close> when the fuel,
  one for each slot, is used up, where the code would go round forever.
\<close>

fun hash_probe :: "nat list \<Rightarrow> nat \<Rightarrow> nat \<Rightarrow> nat \<Rightarrow> (unit + nat) option" where
  "hash_probe hs h i 0 = None"
| "hash_probe hs h i (Suc n) =
     (if hs ! h = 0 then Some (Inr h)
      else if hs ! h = i then Some (Inl ())
      else hash_probe hs ((h + 1) mod BITVEC_NINT) i n)"

fun hash_free :: "nat list \<Rightarrow> nat \<Rightarrow> nat \<Rightarrow> nat option" where
  "hash_free hs h 0 = None"
| "hash_free hs h (Suc n) =
     (if hs ! h = 0 then Some h
      else hash_free hs (if BITVEC_NINT \<le> h + 1 then 0 else h + 1) n)"

section \<open>Test\<close>

lemma sub_size:
  assumes "subs ! b = Some q" "\<not> length subs \<le> b"
  shows "size q < Suc (Suc (size_list (size_option size) subs))"
proof -
  have "Some q \<in> set subs" using assms by (metis nth_mem not_le)
  then have "size_option size (Some q) \<le> size_list (size_option size) subs" by (rule size_list_estimation') simp
  then show ?thesis by simp
qed

text \<open>The loop down the tree and the look into the leaf, with \<^theory_text>\<open>i\<close> counted from 0.\<close>

function bitvec_test :: "Bitvec \<Rightarrow> nat \<Rightarrow> bool option" where
  "bitvec_test (Bitvec sz n d (apSub subs)) i =
     (if d = 0 \<or> length subs \<le> i div d then None
      else (case subs ! (i div d) of None \<Rightarrow> Some False | Some q \<Rightarrow> bitvec_test q (i mod d)))"
| "bitvec_test (Bitvec sz n d (aBitmap bs)) i =
     (if d \<noteq> 0 \<or> BITVEC_NBIT < sz \<or> length bs \<le> i div 8 then None
      else Some ((bs ! (i div 8)) AND push_bit (i mod 8) 1 \<noteq> 0))"
| "bitvec_test (Bitvec sz n d (aHash hs)) i =
     (if d \<noteq> 0 \<or> sz \<le> BITVEC_NBIT \<or> length hs < BITVEC_NINT then None
      else map_option (\<lambda>r. case r of Inl _ \<Rightarrow> True | Inr _ \<Rightarrow> False)
             (hash_probe hs (BITVEC_HASH i) (i + 1) BITVEC_NINT))"
  by pat_completeness auto
termination
  by (relation "measure (\<lambda>(p, i). size p)") (auto dest: sub_size)

text \<open>\<^theory_text>\<open>None\<close> is a null pointer in the caller's hand. \<^theory_text>\<open>i--\<close> wraps at 0.\<close>

definition sqlite3BitvecTestNotNull :: "Bitvec \<Rightarrow> nat \<Rightarrow> bool option" where
  "sqlite3BitvecTestNotNull p i =
     (let i = (i + 2 ^ 32 - 1) mod 2 ^ 32 in if iSize p \<le> i then Some False else bitvec_test p i)"

definition sqlite3BitvecTest :: "Bitvec option \<Rightarrow> nat \<Rightarrow> bool option" where
  "sqlite3BitvecTest p i = (case p of None \<Rightarrow> Some False | Some p \<Rightarrow> sqlite3BitvecTestNotNull p i)"

section \<open>Set\<close>

text \<open>
  The result code, the vector and the allocations left. \<^theory_text>\<open>fuel\<close> bounds the recursion that re-hashing
  starts; \<^theory_text>\<open>None\<close> is a vector whose parts do not fit together, or fuel used up.
\<close>

definition BITVEC_NOMEM :: nat where "BITVEC_NOMEM = 7"

primrec bitvec_set :: "nat \<Rightarrow> Bitvec \<Rightarrow> nat \<Rightarrow> nat \<Rightarrow> (nat \<times> Bitvec \<times> nat) option" where
  "bitvec_set 0 p i m = None"
| "bitvec_set (Suc fuel) p i m =
     (let j = i - 1 in
      case bv_u p of
        apSub subs \<Rightarrow>
          if iDivisor p = 0 \<or> iSize p \<le> BITVEC_NBIT \<or> length subs \<le> j div iDivisor p then None
          else
            let bin = j div iDivisor p; j = j mod iDivisor p in
            (case (case subs ! bin of Some q \<Rightarrow> (Some q, m) | None \<Rightarrow> sqlite3BitvecCreate (iDivisor p) m) of
               (None, m) \<Rightarrow> Some (BITVEC_NOMEM, p, m)
             | (Some q, m) \<Rightarrow>
                 map_option (\<lambda>(rc, q, m). (rc, Bitvec (iSize p) (nSet p) (iDivisor p) (apSub (subs[bin := Some q])), m))
                   (bitvec_set fuel q (j + 1) m))
      | aBitmap bs \<Rightarrow>
          if BITVEC_NBIT < iSize p \<or> length bs \<le> j div 8 then None
          else Some (0, Bitvec (iSize p) (nSet p) (iDivisor p)
                          (aBitmap (bs[j div 8 := (bs ! (j div 8)) OR push_bit (j mod 8) 1])), m)
      | aHash hs \<Rightarrow>
          if iSize p \<le> BITVEC_NBIT \<or> iDivisor p \<noteq> 0 \<or> length hs < BITVEC_NINT then None
          else
            (case hash_probe hs (BITVEC_HASH j) i BITVEC_NINT of
               None \<Rightarrow> None
             | Some (Inl _) \<Rightarrow> Some (0, p, m)
             | Some (Inr h) \<Rightarrow>
                 if (if hs ! (BITVEC_HASH j) = 0 then BITVEC_NINT - 1 \<le> nSet p else True) \<and> BITVEC_MXHASH \<le> nSet p
                 then
                   (if m = 0 then Some (BITVEC_NOMEM, p, 0)
                    else
                      let d = ((iSize p + BITVEC_NPTR - 1) mod 2 ^ 32) div BITVEC_NPTR;
                          p1 = Bitvec (iSize p) (nSet p) d (apSub (replicate BITVEC_NPTR None)) in
                      fold (\<lambda>v r. if v = 0 then r else
                              (case r of None \<Rightarrow> None
                               | Some (rc, p, m) \<Rightarrow>
                                   map_option (\<lambda>(rc', p, m). (or rc rc', p, m)) (bitvec_set fuel p v m)))
                        hs (bitvec_set fuel p1 i (m - 1)))
                 else Some (0, Bitvec (iSize p) (nSet p + 1) (iDivisor p) (aHash (hs[h := i])), m)))"

text \<open>
  Nine calls deep is enough for every 32-bit size: each level of re-hashing takes two, divides the
  size by 62, and four divisions bring it below that of a bitmap.
\<close>

definition sqlite3BitvecSet :: "Bitvec option \<Rightarrow> nat \<Rightarrow> nat \<Rightarrow> (nat \<times> Bitvec option \<times> nat) option" where
  "sqlite3BitvecSet p i m =
     (case p of None \<Rightarrow> Some (0, None, m)
      | Some p \<Rightarrow> map_option (\<lambda>(rc, p, m). (rc, Some p, m)) (bitvec_set 9 p i m))"

section \<open>Clear\<close>

text \<open>Rebuilding the hash table from its values without \<^theory_text>\<open>i\<close>.\<close>

fun hash_rebuild :: "nat list \<Rightarrow> nat \<Rightarrow> nat \<Rightarrow> nat list \<Rightarrow> (nat \<times> nat list) option" where
  "hash_rebuild [] i n hs = Some (n, hs)"
| "hash_rebuild (v # vs) i n hs =
     (if v \<noteq> 0 \<and> v \<noteq> i
      then (case hash_free hs (BITVEC_HASH (v - 1)) BITVEC_NINT of
              None \<Rightarrow> None | Some h \<Rightarrow> hash_rebuild vs i (n + 1) (hs[h := v]))
      else hash_rebuild vs i n hs)"

function bitvec_clear :: "Bitvec \<Rightarrow> nat \<Rightarrow> Bitvec option" where
  "bitvec_clear (Bitvec sz n d (apSub subs)) i =
     (if d = 0 \<or> length subs \<le> i div d then None
      else (case subs ! (i div d) of
              None \<Rightarrow> Some (Bitvec sz n d (apSub subs))
            | Some q \<Rightarrow> map_option (\<lambda>q. Bitvec sz n d (apSub (subs[i div d := Some q]))) (bitvec_clear q (i mod d))))"
| "bitvec_clear (Bitvec sz n d (aBitmap bs)) i =
     (if d \<noteq> 0 \<or> BITVEC_NBIT < sz \<or> length bs \<le> i div 8 then None
      else Some (Bitvec sz n d (aBitmap (bs[i div 8 := (bs ! (i div 8)) AND NOT (push_bit (i mod 8) 1)]))))"
| "bitvec_clear (Bitvec sz n d (aHash hs)) i =
     (if d \<noteq> 0 \<or> sz \<le> BITVEC_NBIT \<or> length hs < BITVEC_NINT then None
      else map_option (\<lambda>(n, hs). Bitvec sz n d (aHash hs)) (hash_rebuild hs (i + 1) 0 (replicate BITVEC_NINT 0)))"
  by pat_completeness auto
termination
  by (relation "measure (\<lambda>(p, i). size p)") (auto dest: sub_size)

definition sqlite3BitvecClear :: "Bitvec option \<Rightarrow> nat \<Rightarrow> Bitvec option option" where
  "sqlite3BitvecClear p i = (case p of None \<Rightarrow> Some None | Some p \<Rightarrow> map_option Some (bitvec_clear p (i - 1)))"

end
