(* ===== verification/BitvecProps.thy ===== *)
theory BitvecProps
  imports Bitvec
begin

text \<open>
  \<^verbatim>\<open>sqlite/bitvec.c\<close> as a set of numbers: linear probing finds what was put in, also
  after deletions rebuild the table, a table that fills up is spread over smaller vectors without
  loss, and the recursion this takes stays within the fuel of the model.
\<close>

section \<open>Linear probing\<close>

abbreviation slot :: "nat \<Rightarrow> nat \<Rightarrow> nat" where
  "slot v n \<equiv> (v - 1 + n) mod BITVEC_NINT"

text \<open>Every value in the table is reached from its hash over slots in use, and stands there once.\<close>

definition hash_ok :: "nat list \<Rightarrow> bool" where
  "hash_ok hs \<longleftrightarrow> length hs = BITVEC_NINT
     \<and> (\<forall>k<BITVEC_NINT. hs ! k \<noteq> 0 \<longrightarrow>
          (\<exists>n<BITVEC_NINT. k = slot (hs ! k) n \<and> (\<forall>t<n. hs ! slot (hs ! k) t \<noteq> 0)))
     \<and> (\<forall>k<BITVEC_NINT. \<forall>l<BITVEC_NINT. hs ! k = hs ! l \<longrightarrow> hs ! k \<noteq> 0 \<longrightarrow> k = l)"

definition hash_set :: "nat list \<Rightarrow> nat set" where
  "hash_set hs = set hs - {0}"

definition used_slots :: "nat list \<Rightarrow> nat" where
  "used_slots hs = card (hash_set hs)"

lemma N_pos [simp]: "0 < BITVEC_NINT" "slot v n < BITVEC_NINT"
  by (simp_all add: BITVEC_NINT_def)

lemma slot_inj: "slot v s = slot v t \<Longrightarrow> s < BITVEC_NINT \<Longrightarrow> t < BITVEC_NINT \<Longrightarrow> s = t"
proof -
  have "s = t" if "(a + s) mod N = (a + t) mod N" "s < N" "t < N" "s \<le> t" for a s t N :: nat
  proof -
    have "N dvd (a + t) - (a + s)" using that(1,4) by (metis mod_eq_dvd_iff_nat add_left_mono)
    then have "N dvd t - s" by simp
    then show ?thesis using that(3,4) by (metis dvd_imp_le le_antisym diff_is_0_eq less_imp_diff_less not_le zero_less_diff)
  qed
  then show "slot v s = slot v t \<Longrightarrow> s < BITVEC_NINT \<Longrightarrow> t < BITVEC_NINT \<Longrightarrow> s = t"
    by (metis nat_le_linear)
qed

lemma slot_surj: "k < BITVEC_NINT \<Longrightarrow> \<exists>n<BITVEC_NINT. k = slot v n"
proof -
  assume k: "k < BITVEC_NINT"
  let ?n = "(k + (BITVEC_NINT - (v - 1) mod BITVEC_NINT)) mod BITVEC_NINT"
  have le: "(v - 1) mod BITVEC_NINT \<le> BITVEC_NINT" by (simp add: less_imp_le)
  have "slot v ?n = ((v - 1) mod BITVEC_NINT + (k + (BITVEC_NINT - (v - 1) mod BITVEC_NINT))) mod BITVEC_NINT"
    by (simp only: mod_add_left_eq mod_add_right_eq)
  also have "\<dots> = (k + BITVEC_NINT) mod BITVEC_NINT" using le by (simp only: add.left_commute le_add_diff_inverse)
  also have "\<dots> = k" using k by simp
  finally have "k = slot v ?n" by (rule sym)
  moreover have "?n < BITVEC_NINT" by simp
  ultimately show ?thesis by blast
qed

lemma slot_next: "(slot v n + 1) mod BITVEC_NINT = slot v (Suc n)"
  by (metis Suc_eq_plus1 add_Suc_right mod_Suc_eq)

text \<open>With a free slot, probing from a value's hash ends at the first slot that is free or holds it.\<close>

lemma first_stop:
  assumes "k < BITVEC_NINT" "hs ! k = 0"
  shows "\<exists>n<BITVEC_NINT. (hs ! slot v n = 0 \<or> hs ! slot v n = v) \<and> (\<forall>t<n. hs ! slot v t \<noteq> 0 \<and> hs ! slot v t \<noteq> v)"
proof -
  obtain n where n: "n < BITVEC_NINT" "k = slot v n" using slot_surj [OF assms(1)] by blast
  let ?P = "\<lambda>n. hs ! slot v n = 0 \<or> hs ! slot v n = v"
  have "?P n" using n(2) assms(2) by simp
  then have "?P (LEAST n. ?P n)" "(LEAST n. ?P n) \<le> n" by (rule LeastI, rule Least_le)
  moreover have "\<forall>t<(LEAST n. ?P n). \<not> ?P t" using not_less_Least by blast
  ultimately show ?thesis using n(1) by (meson le_less_trans)
qed

lemma hash_probe_stop:
  "n < fuel \<Longrightarrow> (hs ! slot v (s + n) = 0 \<or> hs ! slot v (s + n) = v) \<Longrightarrow>
    (\<forall>t<n. hs ! slot v (s + t) \<noteq> 0 \<and> hs ! slot v (s + t) \<noteq> v) \<Longrightarrow>
    hash_probe hs (slot v s) v fuel =
      Some (if hs ! slot v (s + n) = 0 then Inr (slot v (s + n)) else Inl ())"
proof (induction n arbitrary: s fuel)
  case 0
  then show ?case by (cases fuel) auto
next
  case (Suc n)
  obtain f where f: "fuel = Suc f" "n < f" using Suc.prems(1) by (cases fuel) auto
  have z: "hs ! slot v s \<noteq> 0" "hs ! slot v s \<noteq> v" using Suc.prems(3) [rule_format, of 0] by auto
  have "\<forall>t<n. hs ! slot v (Suc s + t) \<noteq> 0 \<and> hs ! slot v (Suc s + t) \<noteq> v"
    using Suc.prems(3) by (metis Suc_mono add_Suc_shift)
  moreover have "hs ! slot v (Suc s + n) = 0 \<or> hs ! slot v (Suc s + n) = v" using Suc.prems(2) by simp
  ultimately have "hash_probe hs (slot v (Suc s)) v f =
      Some (if hs ! slot v (Suc s + n) = 0 then Inr (slot v (Suc s + n)) else Inl ())"
    using Suc.IH [OF f(2)] by blast
  with z f(1) show ?case by (simp only: hash_probe.simps slot_next if_False add_Suc_right add_Suc)
qed

lemma hash_free_probe: "v \<notin> set hs \<Longrightarrow> length hs = BITVEC_NINT \<Longrightarrow> h < BITVEC_NINT \<Longrightarrow>
    hash_probe hs h v n = map_option Inr (hash_free hs h n)"
proof (induction n arbitrary: h)
  case (Suc n)
  have "(h + 1) mod BITVEC_NINT = (if BITVEC_NINT \<le> h + 1 then 0 else h + 1)"
    using Suc.prems(3) by (auto simp: le_Suc_eq)
  moreover have "hs ! h \<noteq> v" using Suc.prems by (metis nth_mem)
  ultimately show ?case using Suc by (simp del: One_nat_def)
qed simp

lemma hash_probe_found:
  assumes "hash_ok hs" "v \<noteq> 0" "v \<in> set hs"
  shows "hash_probe hs (BITVEC_HASH (v - 1)) v BITVEC_NINT = Some (Inl ())"
proof -
  obtain k where k: "k < BITVEC_NINT" "hs ! k = v" using assms(1,3) by (metis hash_ok_def in_set_conv_nth)
  then obtain n where n: "n < BITVEC_NINT" "k = slot v n" "\<forall>t<n. hs ! slot v t \<noteq> 0"
    using assms(1,2) unfolding hash_ok_def by metis
  have "hs ! slot v t \<noteq> v" if "t < n" for t
  proof
    assume "hs ! slot v t = v"
    then have "slot v t = k" using assms(1,2) k by (metis N_pos(2) hash_ok_def)
    then show False using slot_inj [of v t n] n that by simp
  qed
  then have "hash_probe hs (slot v 0) v BITVEC_NINT = Some (if hs ! slot v (0 + n) = 0 then Inr (slot v (0 + n)) else Inl ())"
    using n k by (intro hash_probe_stop) auto
  with k n assms(2) show ?thesis by (simp add: BITVEC_HASH_def)
qed

lemma free_slot:
  assumes "hash_ok hs" "used_slots hs < BITVEC_NINT"
  shows "\<exists>k<BITVEC_NINT. hs ! k = 0"
proof (rule ccontr)
  assume "\<not> ?thesis"
  then have nz: "\<forall>k<BITVEC_NINT. hs ! k \<noteq> 0" by simp
  then have "distinct hs" using assms(1) by (auto simp: hash_ok_def distinct_conv_nth)
  moreover have "0 \<notin> set hs" using nz assms(1) by (auto simp: hash_ok_def in_set_conv_nth)
  ultimately have "used_slots hs = BITVEC_NINT"
    using assms(1) by (simp add: used_slots_def hash_set_def distinct_card hash_ok_def)
  then show False using assms(2) by simp
qed

lemma hash_probe_absent:
  assumes "hash_ok hs" "v \<notin> set hs" "used_slots hs < BITVEC_NINT"
  shows "\<exists>n<BITVEC_NINT. hash_probe hs (BITVEC_HASH (v - 1)) v BITVEC_NINT = Some (Inr (slot v n))
    \<and> hs ! slot v n = 0 \<and> (\<forall>t<n. hs ! slot v t \<noteq> 0)"
proof -
  obtain k where "k < BITVEC_NINT" "hs ! k = 0" using free_slot [OF assms(1,3)] by blast
  from first_stop [OF this, of v] obtain n where n: "n < BITVEC_NINT" "hs ! slot v n = 0 \<or> hs ! slot v n = v"
    "\<forall>t<n. hs ! slot v t \<noteq> 0 \<and> hs ! slot v t \<noteq> v" by blast
  have "length hs = BITVEC_NINT" using assms(1) by (simp add: hash_ok_def)
  then have "hs ! slot v n \<noteq> v" using assms(2) by (metis N_pos(2) nth_mem)
  then show ?thesis using hash_probe_stop [of n BITVEC_NINT hs v 0] n by (auto simp: BITVEC_HASH_def)
qed

text \<open>Putting a value into the free slot where its probing ends.\<close>

lemma hash_put:
  assumes "hash_ok hs" "v \<notin> set hs" "v \<noteq> 0" "n < BITVEC_NINT" "hs ! slot v n = 0" "\<forall>t<n. hs ! slot v t \<noteq> 0"
  shows "hash_ok (hs[slot v n := v]) \<and> hash_set (hs[slot v n := v]) = insert v (hash_set hs)
    \<and> used_slots (hs[slot v n := v]) = used_slots hs + 1"
proof -
  let ?h = "slot v n" and ?hs = "hs[slot v n := v]"
  have len: "length hs = BITVEC_NINT" using assms(1) by (simp add: hash_ok_def)
  have at: "?hs ! k = (if k = ?h then v else hs ! k)" if "k < BITVEC_NINT" for k
    using that len by (simp add: nth_list_update)
  have keep: "hs ! k \<noteq> 0 \<Longrightarrow> ?hs ! k \<noteq> 0" if "k < BITVEC_NINT" for k using at [OF that] assms(3) by simp
  have path: "\<exists>m<BITVEC_NINT. k = slot (?hs ! k) m \<and> (\<forall>t<m. ?hs ! slot (?hs ! k) t \<noteq> 0)"
    if k: "k < BITVEC_NINT" "?hs ! k \<noteq> 0" for k
  proof (cases "k = ?h")
    case True
    then have "?hs ! k = v" using at k(1) by simp
    with True assms(4,6) keep N_pos(2) show ?thesis by metis
  next
    case False
    then have e: "?hs ! k = hs ! k" using at k(1) by simp
    then obtain m where "m < BITVEC_NINT" "k = slot (hs ! k) m" "\<forall>t<m. hs ! slot (hs ! k) t \<noteq> 0"
      using assms(1) k unfolding hash_ok_def by metis
    then show ?thesis unfolding e using keep N_pos(2) by metis
  qed
  have once: "k = l" if "k < BITVEC_NINT" "l < BITVEC_NINT" "?hs ! k = ?hs ! l" "?hs ! k \<noteq> 0" for k l
  proof -
    have nv: "hs ! j \<noteq> v" if "j < BITVEC_NINT" for j using assms(2) that len by (metis nth_mem)
    have uniq: "\<forall>k<BITVEC_NINT. \<forall>l<BITVEC_NINT. hs ! k = hs ! l \<longrightarrow> hs ! k \<noteq> 0 \<longrightarrow> k = l"
      using assms(1) by (simp add: hash_ok_def)
    show ?thesis using that(3,4) uniq [rule_format, OF that(1,2)] nv [OF that(1)] nv [OF that(2)]
      unfolding at [OF that(1)] at [OF that(2)] by (auto split: if_splits)
  qed
  have ok: "hash_ok ?hs"
    unfolding hash_ok_def using len path once by (intro conjI allI impI) (simp_all only: length_list_update)
  have "set ?hs - {0} = insert v (set hs - {0})"
  proof
    show "set ?hs - {0} \<subseteq> insert v (set hs - {0})" using set_update_subset_insert [of hs ?h v] by blast
    have "x \<in> set ?hs" if x: "x \<in> set hs" "x \<noteq> 0" for x
    proof -
      obtain k where k: "k < BITVEC_NINT" "hs ! k = x" using x(1) len by (auto simp: in_set_conv_nth)
      then have "?hs ! k = x" using at [OF k(1)] x(2) assms(5) by auto
      then show ?thesis using k(1) len by (metis length_list_update nth_mem)
    qed
    moreover have "v \<in> set ?hs" using len by (intro set_update_memI) simp
    ultimately show "insert v (set hs - {0}) \<subseteq> set ?hs - {0}" using assms(3) by blast
  qed
  then have hs: "hash_set ?hs = insert v (hash_set hs)" by (simp add: hash_set_def)
  moreover have "used_slots ?hs = used_slots hs + 1"
    using assms(2) unfolding used_slots_def hs by (simp add: hash_set_def)
  ultimately show ?thesis using ok by blast
qed

lemma hash_put_fresh:
  assumes "hash_ok hs" "v \<notin> set hs" "v \<noteq> 0" "used_slots hs < BITVEC_NINT"
  shows "\<exists>h. hash_probe hs (BITVEC_HASH (v - 1)) v BITVEC_NINT = Some (Inr h) \<and> hash_free hs (BITVEC_HASH (v - 1)) BITVEC_NINT = Some h
    \<and> hash_ok (hs[h := v]) \<and> hash_set (hs[h := v]) = insert v (hash_set hs) \<and> used_slots (hs[h := v]) = used_slots hs + 1"
proof -
  obtain n where n: "n < BITVEC_NINT" "hash_probe hs (BITVEC_HASH (v - 1)) v BITVEC_NINT = Some (Inr (slot v n))"
    "hs ! slot v n = 0" "\<forall>t<n. hs ! slot v t \<noteq> 0"
    using hash_probe_absent [OF assms(1,2,4)] by blast
  have "length hs = BITVEC_NINT" using assms(1) by (simp add: hash_ok_def)
  then have "hash_free hs (BITVEC_HASH (v - 1)) BITVEC_NINT = Some (slot v n)"
    using hash_free_probe [OF assms(2), of "BITVEC_HASH (v - 1)" BITVEC_NINT] n(2) by (auto simp: BITVEC_HASH_def)
  with n hash_put [OF assms(1-3) n(1,3,4)] show ?thesis by blast
qed

lemma hash_empty: "hash_ok (replicate BITVEC_NINT 0)" "hash_set (replicate BITVEC_NINT 0) = {}"
    "used_slots (replicate BITVEC_NINT 0) = 0"
  by (simp_all add: hash_ok_def hash_set_def used_slots_def)

lemma hash_distinct: "hash_ok hs \<Longrightarrow> distinct (filter (\<lambda>v. v \<noteq> 0 \<and> v \<noteq> i) hs)"
proof -
  have "distinct (filter P hs)" if "\<forall>k<length hs. \<forall>l<length hs. hs ! k = hs ! l \<longrightarrow> P (hs ! k) \<longrightarrow> k = l" for P :: "nat \<Rightarrow> bool" and hs
    using that
  proof (induction hs)
    case (Cons x hs)
    have "P x \<Longrightarrow> x \<notin> set hs"
    proof
      assume "P x" "x \<in> set hs"
      then obtain k where "k < length hs" "hs ! k = x" by (auto simp: in_set_conv_nth)
      then have "Suc k = 0" using Cons.prems [rule_format, of "Suc k" 0] \<open>P x\<close> by simp
      then show False by simp
    qed
    moreover have "\<forall>k<length hs. \<forall>l<length hs. hs ! k = hs ! l \<longrightarrow> P (hs ! k) \<longrightarrow> k = l"
      using Cons.prems by (metis Suc_less_eq length_Cons nat.inject nth_Cons_Suc)
    ultimately show ?case using Cons.IH by simp
  qed simp
  note * = this
  show "hash_ok hs \<Longrightarrow> distinct (filter (\<lambda>v. v \<noteq> 0 \<and> v \<noteq> i) hs)"
    by (rule *) (simp add: hash_ok_def)
qed

text \<open>Rebuilding drops one value and keeps the others.\<close>

lemma hash_rebuild_spec:
  "hash_ok hs \<Longrightarrow> distinct (filter (\<lambda>v. v \<noteq> 0 \<and> v \<noteq> i) vs) \<Longrightarrow> set hs \<inter> set (filter (\<lambda>v. v \<noteq> 0 \<and> v \<noteq> i) vs) = {} \<Longrightarrow>
    used_slots hs + length (filter (\<lambda>v. v \<noteq> 0 \<and> v \<noteq> i) vs) < BITVEC_NINT \<Longrightarrow> n = used_slots hs \<Longrightarrow>
    \<exists>hs'. hash_rebuild vs i n hs = Some (used_slots hs', hs') \<and> hash_ok hs'
      \<and> hash_set hs' = hash_set hs \<union> (set vs - {0, i}) \<and> used_slots hs' < BITVEC_NINT"
proof (induction vs arbitrary: hs n)
  case (Cons v vs)
  show ?case
  proof (cases "v \<noteq> 0 \<and> v \<noteq> i")
    case True
    then have v: "v \<notin> set hs" "v \<noteq> 0" "used_slots hs < BITVEC_NINT" using Cons.prems by auto
    obtain h where h: "hash_free hs (BITVEC_HASH (v - 1)) BITVEC_NINT = Some h" "hash_ok (hs[h := v])"
      "hash_set (hs[h := v]) = insert v (hash_set hs)" "used_slots (hs[h := v]) = used_slots hs + 1"
      using hash_put_fresh [OF Cons.prems(1) v] by blast
    have "set (hs[h := v]) \<subseteq> insert v (set hs)" by (rule set_update_subset_insert)
    then have "set (hs[h := v]) \<inter> set (filter (\<lambda>v. v \<noteq> 0 \<and> v \<noteq> i) vs) = {}" using Cons.prems(2,3) True by auto
    with Cons.IH [OF h(2), of "n + 1"] Cons.prems True h show ?thesis by auto
  next
    case False
    with Cons show ?thesis by auto
  qed
qed simp

section \<open>What a vector represents\<close>

definition bitmap_set :: "nat \<Rightarrow> bytes \<Rightarrow> nat set" where
  "bitmap_set sz bs = {i. 1 \<le> i \<and> i \<le> sz \<and> bit (bs ! ((i - 1) div 8)) ((i - 1) mod 8)}"

text \<open>The part of a set that sub-vector \<^theory_text>\<open>b\<close> holds, counted from 1.\<close>

definition part :: "nat \<Rightarrow> nat \<Rightarrow> nat set \<Rightarrow> nat set" where
  "part d b S = {j. 1 \<le> j \<and> j \<le> d \<and> b * d + j \<in> S}"

text \<open>A vector at most \<^theory_text>\<open>k\<close> levels above bitmaps represents a set.\<close>

primrec bv_rep :: "nat \<Rightarrow> Bitvec \<Rightarrow> nat set \<Rightarrow> bool" where
  "bv_rep 0 p S \<longleftrightarrow> (case bv_u p of
      aBitmap bs \<Rightarrow> iDivisor p = 0 \<and> iSize p \<le> BITVEC_NBIT \<and> length bs = BITVEC_NELEM \<and> S = bitmap_set (iSize p) bs
    | _ \<Rightarrow> False)"
| "bv_rep (Suc k) p S \<longleftrightarrow> iSize p \<le> BITVEC_NBIT * BITVEC_NPTR ^ Suc k \<and> iSize p + BITVEC_NPTR < 2 ^ 32 \<and> (case bv_u p of
      aBitmap bs \<Rightarrow> iDivisor p = 0 \<and> iSize p \<le> BITVEC_NBIT \<and> length bs = BITVEC_NELEM \<and> S = bitmap_set (iSize p) bs
    | aHash hs \<Rightarrow> iDivisor p = 0 \<and> BITVEC_NBIT < iSize p \<and> hash_ok hs \<and> nSet p = used_slots hs
        \<and> used_slots hs < BITVEC_NINT \<and> S = hash_set hs \<and> S \<subseteq> {1..iSize p}
    | apSub subs \<Rightarrow> BITVEC_NBIT < iSize p \<and> iDivisor p = (iSize p + BITVEC_NPTR - 1) div BITVEC_NPTR
        \<and> length subs = BITVEC_NPTR \<and> S \<subseteq> {1..iSize p}
        \<and> (\<forall>b<BITVEC_NPTR. case subs ! b of None \<Rightarrow> part (iDivisor p) b S = {}
             | Some q \<Rightarrow> iSize q = iDivisor p \<and> bv_rep k q (part (iDivisor p) b S)))"

definition is_sub :: "Bitvec \<Rightarrow> bool" where
  "is_sub p \<longleftrightarrow> (case bv_u p of apSub _ \<Rightarrow> True | _ \<Rightarrow> False)"

text \<open>The three kinds of vectors, as one case distinction.\<close>

lemma bv_rep_cases:
  assumes "bv_rep k p S"
  obtains bs where "bv_u p = aBitmap bs" "iDivisor p = 0" "iSize p \<le> BITVEC_NBIT" "length bs = BITVEC_NELEM"
      "S = bitmap_set (iSize p) bs" "\<not> is_sub p"
  | hs k' where "k = Suc k'" "bv_u p = aHash hs" "iDivisor p = 0" "BITVEC_NBIT < iSize p" "hash_ok hs" "nSet p = used_slots hs"
      "used_slots hs < BITVEC_NINT" "S = hash_set hs" "S \<subseteq> {1..iSize p}" "iSize p \<le> BITVEC_NBIT * BITVEC_NPTR ^ k"
      "iSize p + BITVEC_NPTR < 2 ^ 32" "\<not> is_sub p"
  | subs k' where "k = Suc k'" "bv_u p = apSub subs" "BITVEC_NBIT < iSize p"
      "iDivisor p = (iSize p + BITVEC_NPTR - 1) div BITVEC_NPTR" "length subs = BITVEC_NPTR" "S \<subseteq> {1..iSize p}"
      "\<forall>b<BITVEC_NPTR. case subs ! b of None \<Rightarrow> part (iDivisor p) b S = {}
         | Some q \<Rightarrow> iSize q = iDivisor p \<and> bv_rep k' q (part (iDivisor p) b S)"
      "iSize p \<le> BITVEC_NBIT * BITVEC_NPTR ^ k" "iSize p + BITVEC_NPTR < 2 ^ 32" "is_sub p"
  using assms by (cases k; cases "bv_u p") (auto simp: is_sub_def)

lemma bitvec_eta: "Bitvec (iSize p) (nSet p) (iDivisor p) (bv_u p) = p"
  by (cases p) simp

text \<open>Where number \<^theory_text>\<open>i\<close> goes among the sub-vectors.\<close>

lemma sub_place:
  assumes "BITVEC_NBIT < sz" "d = (sz + BITVEC_NPTR - 1) div BITVEC_NPTR" "1 \<le> i" "i \<le> sz"
  shows "0 < d" "(i - 1) div d < BITVEC_NPTR" "1 \<le> (i - 1) mod d + 1" "(i - 1) mod d + 1 \<le> d"
    "(i - 1) div d * d + ((i - 1) mod d + 1) = i"
proof -
  show d: "0 < d" using assms(1,2) by (simp add: bitvec_sizes)
  have "sz \<le> BITVEC_NPTR * d" using assms(2) by (simp add: BITVEC_NPTR_def)
  then have "i - 1 < BITVEC_NPTR * d" using assms(3,4) by linarith
  then show "(i - 1) div d < BITVEC_NPTR" by (simp add: less_mult_imp_div_less)
  show "1 \<le> (i - 1) mod d + 1" by simp
  have "(i - 1) mod d < d" using d by simp
  then show "(i - 1) mod d + 1 \<le> d" by simp
  have "(i - 1) div d * d + (i - 1) mod d = i - 1" by simp
  then show "(i - 1) div d * d + ((i - 1) mod d + 1) = i" using assms(3) by linarith
qed

lemma part_place:
  assumes "b \<noteq> c \<or> j \<noteq> l" "1 \<le> j" "j \<le> d" "1 \<le> l" "l \<le> d"
  shows "b * d + j \<noteq> c * d + (l :: nat)"
proof
  assume e: "b * d + j = c * d + l"
  have "(a * d + m - 1) div d = a" if "1 \<le> m" "m \<le> d" for a m
    by (rule div_nat_eqI) (use that in \<open>simp_all add: mult.commute\<close>)
  then have "b = c" using e assms(2-5) by metis
  then show False using e assms(1) by simp
qed

lemma part_insert: "1 \<le> l \<Longrightarrow> l \<le> d \<Longrightarrow>
    part d b (insert (c * d + l) S) = (if b = c then insert l (part d b S) else part d b S)"
  using part_place [of b c _ l d] by (auto simp: part_def)

lemma part_remove: "1 \<le> l \<Longrightarrow> l \<le> d \<Longrightarrow>
    part d b (S - {c * d + l}) = (if b = c then part d b S - {l} else part d b S)"
  using part_place [of b c _ l d] by (auto simp: part_def)

section \<open>The operations on sets\<close>

lemma bitvec_test_spec:
  "bv_rep k p S \<Longrightarrow> 1 \<le> i \<Longrightarrow> i \<le> iSize p \<Longrightarrow> bitvec_test p (i - 1) = Some (i \<in> S)"
proof (induction k arbitrary: p S i)
  case (0 p S i)
  from 0(1) show ?case
  proof (cases rule: bv_rep_cases)
    case (1 bs)
    then have "(i - 1) div 8 < length bs" using 0(2,3) by (simp add: bitvec_sizes)
    with 1 0(2,3) show ?thesis
      by (subst bitvec_eta [symmetric]) (auto simp: bitmap_set_def bit_iff_and_push_bit_not_eq_0)
  qed auto
next
  case (Suc k p S i)
  from Suc.prems(1) show ?case
  proof (cases rule: bv_rep_cases)
    case (1 bs)
    then have "(i - 1) div 8 < length bs" using Suc.prems by (simp add: bitvec_sizes)
    with 1 Suc.prems show ?thesis
      by (subst bitvec_eta [symmetric]) (auto simp: bitmap_set_def bit_iff_and_push_bit_not_eq_0)
  next
    case (2 hs k')
    have "hash_probe hs (BITVEC_HASH (i - 1)) i BITVEC_NINT = Some (Inl ())" if "i \<in> S"
      using hash_probe_found [OF 2(5), of i] that 2(8) by (auto simp: hash_set_def)
    moreover have "\<exists>h. hash_probe hs (BITVEC_HASH (i - 1)) i BITVEC_NINT = Some (Inr h)" if "i \<notin> S"
      using hash_probe_absent [OF 2(5) _ 2(7), of i] that Suc.prems(2) 2(8) by (auto simp: hash_set_def)
    ultimately show ?thesis using 2 Suc.prems(2)
      by (subst bitvec_eta [symmetric], cases "i \<in> S") (auto simp: hash_ok_def)
  next
    case (3 subs k')
    let ?d = "iDivisor p" and ?b = "(i - 1) div iDivisor p"
    note pl = sub_place [OF 3(3,4) Suc.prems(2,3)]
    have mem: "(i - 1) mod ?d + 1 \<in> part ?d ?b S \<longleftrightarrow> i \<in> S" using pl by (simp add: part_def)
    have "k' = k" using 3(1) by simp
    show ?thesis
    proof (cases "subs ! ?b")
      case None
      with 3(7) pl(2) mem have "i \<notin> S" by auto
      with None 3 pl show ?thesis by (subst bitvec_eta [symmetric]) simp
    next
      case (Some q)
      with 3(7) pl(2) have "iSize q = ?d" "bv_rep k q (part ?d ?b S)" using \<open>k' = k\<close> by auto
      with Suc.IH [of q "part ?d ?b S" "(i - 1) mod ?d + 1"] pl mem
      have "bitvec_test q ((i - 1) mod ?d) = Some (i \<in> S)" by simp
      with Some 3 pl show ?thesis by (subst bitvec_eta [symmetric]) simp
    qed
  qed
qed

text \<open>One bit of a bitmap.\<close>

lemma bitmap_update:
  assumes "1 \<le> i" "i \<le> sz" "sz \<le> BITVEC_NBIT" "length bs = BITVEC_NELEM"
  shows "bitmap_set sz (bs[(i - 1) div 8 := (bs ! ((i - 1) div 8)) OR push_bit ((i - 1) mod 8) 1]) = insert i (bitmap_set sz bs)"
    and "bitmap_set sz (bs[(i - 1) div 8 := (bs ! ((i - 1) div 8)) AND NOT (push_bit ((i - 1) mod 8) 1)]) = bitmap_set sz bs - {i}"
proof -
  have lt: "(i - 1) div 8 < length bs" using assms by (simp add: bitvec_sizes)
  have same: "j = i" if "1 \<le> j" "(j - 1) div 8 = (i - 1) div 8" "(j - 1) mod 8 = (i - 1) mod 8" for j
    using that assms(1) by (metis div_mod_decomp le_add_diff_inverse2)
  have bits: "n < 8 \<Longrightarrow> m < 8 \<Longrightarrow> bit (x OR 2 ^ n :: u8) m \<longleftrightarrow> m = n \<or> bit x m"
    "n < 8 \<Longrightarrow> m < 8 \<Longrightarrow> bit (x AND NOT (2 ^ n) :: u8) m \<longleftrightarrow> m \<noteq> n \<and> bit x m" for x n m
    by (auto simp: bit_simps)
  show "bitmap_set sz (bs[(i - 1) div 8 := (bs ! ((i - 1) div 8)) OR push_bit ((i - 1) mod 8) 1]) = insert i (bitmap_set sz bs)"
    using assms(1,2) lt same by (auto simp: bitmap_set_def nth_list_update bits split: if_splits)
  show "bitmap_set sz (bs[(i - 1) div 8 := (bs ! ((i - 1) div 8)) AND NOT (push_bit ((i - 1) mod 8) 1)]) = bitmap_set sz bs - {i}"
    using assms(1,2) lt same by (auto simp: bitmap_set_def nth_list_update bits split: if_splits)
qed

lemma bv_rep_bitmap:
  "bv_u p = aBitmap bs \<Longrightarrow> bv_rep k p S \<longleftrightarrow> (k = 0 \<or> iSize p \<le> BITVEC_NBIT * BITVEC_NPTR ^ k \<and> iSize p + BITVEC_NPTR < 2 ^ 32)
     \<and> iDivisor p = 0 \<and> iSize p \<le> BITVEC_NBIT \<and> length bs = BITVEC_NELEM \<and> S = bitmap_set (iSize p) bs"
  by (cases k) auto

lemma bv_rep_sub:
  "BITVEC_NBIT < sz \<Longrightarrow> d = (sz + BITVEC_NPTR - 1) div BITVEC_NPTR \<Longrightarrow> length subs = BITVEC_NPTR \<Longrightarrow> S \<subseteq> {1..sz} \<Longrightarrow>
    sz \<le> BITVEC_NBIT * BITVEC_NPTR ^ Suc k \<Longrightarrow> sz + BITVEC_NPTR < 2 ^ 32 \<Longrightarrow>
    \<forall>b<BITVEC_NPTR. case subs ! b of None \<Rightarrow> part d b S = {} | Some q \<Rightarrow> iSize q = d \<and> bv_rep k q (part d b S) \<Longrightarrow>
    bv_rep (Suc k) (Bitvec sz n d (apSub subs)) S"
  by (simp only: bv_rep.simps Bitvec.sel bitvec_u.case simp_thms)

lemma rep_part_update:
  assumes "length subs = BITVEC_NPTR" "b < BITVEC_NPTR" "iSize q = d" "bv_rep k q T" "part d b S' = T"
    and "\<forall>c<BITVEC_NPTR. c \<noteq> b \<longrightarrow> part d c S' = part d c S"
    and "\<forall>c<BITVEC_NPTR. case subs ! c of None \<Rightarrow> part d c S = {}
         | Some q \<Rightarrow> iSize q = d \<and> bv_rep k q (part d c S)"
  shows "\<forall>c<BITVEC_NPTR. case subs[b := Some q] ! c of None \<Rightarrow> part d c S' = {}
         | Some q \<Rightarrow> iSize q = d \<and> bv_rep k q (part d c S')"
proof (intro allI impI)
  fix c assume c: "c < BITVEC_NPTR"
  show "case subs[b := Some q] ! c of None \<Rightarrow> part d c S' = {} | Some q \<Rightarrow> iSize q = d \<and> bv_rep k q (part d c S')"
    using assms(1-5) assms(6,7) [rule_format, OF c] by (cases "c = b"; cases "subs ! c") auto
qed

lemma bitvec_clear_spec:
  "bv_rep k p S \<Longrightarrow> 1 \<le> i \<Longrightarrow> i \<le> iSize p \<Longrightarrow>
    \<exists>p'. bitvec_clear p (i - 1) = Some p' \<and> bv_rep k p' (S - {i}) \<and> iSize p' = iSize p"
proof (induction k arbitrary: p S i)
  case (0 p S i)
  from 0(1) show ?case
  proof (cases rule: bv_rep_cases)
    case (1 bs)
    then have "(i - 1) div 8 < length bs" using 0(2,3) by (simp add: bitvec_sizes)
    with 1 0(2,3) bitmap_update(2) [OF 0(2,3) 1(3,4)] show ?thesis
      by (subst (1) bitvec_eta [symmetric]) auto
  qed auto
next
  case (Suc k p S i)
  from Suc.prems(1) show ?case
  proof (cases rule: bv_rep_cases)
    case (1 bs)
    then have "(i - 1) div 8 < length bs" using Suc.prems(2,3) by (simp add: bitvec_sizes)
    with 1 Suc.prems bitmap_update(2) [OF Suc.prems(2,3) 1(3,4)] show ?thesis
      by (subst (1) bitvec_eta [symmetric]) (auto simp: bv_rep_bitmap)
  next
    case (2 hs k')
    have d: "distinct (filter (\<lambda>v. v \<noteq> 0 \<and> v \<noteq> i) hs)"
      using 2(5) by (rule hash_distinct)
    have "length (filter (\<lambda>v. v \<noteq> 0 \<and> v \<noteq> i) hs) = card (hash_set hs - {i})"
    proof -
      have "set (filter (\<lambda>v. v \<noteq> 0 \<and> v \<noteq> i) hs) = hash_set hs - {i}" by (auto simp: hash_set_def)
      then show ?thesis using distinct_card [OF d] by simp
    qed
    also have "\<dots> \<le> used_slots hs" unfolding used_slots_def by (intro card_mono) (auto simp: hash_set_def)
    finally obtain hs' where hs': "hash_rebuild hs i 0 (replicate BITVEC_NINT 0) = Some (used_slots hs', hs')" "hash_ok hs'"
      "hash_set hs' = set hs - {0, i}" "used_slots hs' < BITVEC_NINT"
      using hash_rebuild_spec [OF hash_empty(1) d] 2(7) by (auto simp: hash_empty)
    have "S - {i} = hash_set hs'" using 2(8) hs'(3) by (auto simp: hash_set_def)
    with 2 hs' Suc.prems show ?thesis
      by (subst (1) bitvec_eta [symmetric]) (auto simp: hash_ok_def)
  next
    case (3 subs k')
    let ?d = "iDivisor p" and ?b = "(i - 1) div iDivisor p" and ?l = "(i - 1) mod iDivisor p + 1"
    note pl = sub_place [OF 3(3,4) Suc.prems(2,3)]
    have k: "k' = k" using 3(1) by simp
    show ?thesis
    proof (cases "subs ! ?b")
      case None
      with 3(7) pl(2) have "part ?d ?b S = {}" by auto
      then have "i \<notin> S" using pl by (auto simp: part_def)
      moreover have "bitvec_clear p (i - 1) = Some p"
        using None 3(2,5) pl(1,2) bitvec_eta [of p] bitvec_clear.simps(1) [of "iSize p" "nSet p" ?d subs "i - 1"] by simp
      ultimately show ?thesis using Suc.prems(1) by simp
    next
      case (Some q)
      with 3(7) pl(2) have q: "iSize q = ?d" "bv_rep k q (part ?d ?b S)" using k by auto
      obtain q' where q': "bitvec_clear q (?l - 1) = Some q'" "bv_rep k q' (part ?d ?b S - {?l})" "iSize q' = iSize q"
        using Suc.IH [OF q(2) pl(3)] pl(4) q(1) by auto
      have pr: "part ?d c (S - {i}) = (if c = ?b then part ?d c S - {?l} else part ?d c S)" for c
        using part_remove [OF pl(3,4), of c S ?b] unfolding pl(5) .
      have "\<forall>c<BITVEC_NPTR. case subs[?b := Some q'] ! c of None \<Rightarrow> part ?d c (S - {i}) = {}
         | Some q \<Rightarrow> iSize q = ?d \<and> bv_rep k q (part ?d c (S - {i}))"
        using 3(5,7) pl(2) q' q(1) pr unfolding k by (intro rep_part_update [where S = S]) auto
      then have "bv_rep (Suc k) (Bitvec (iSize p) (nSet p) ?d (apSub (subs[?b := Some q']))) (S - {i})"
        using 3(3-6,8,9) by (intro bv_rep_sub) auto
      moreover have "bitvec_clear p (i - 1) = Some (Bitvec (iSize p) (nSet p) ?d (apSub (subs[?b := Some q'])))"
        using Some q'(1) 3(2,5) pl(1,2) bitvec_eta [of p] bitvec_clear.simps(1) [of "iSize p" "nSet p" ?d subs "i - 1"] by simp
      moreover have "iSize (Bitvec (iSize p) (nSet p) ?d (apSub (subs[?b := Some q']))) = iSize p" by simp
      ultimately show ?thesis by blast
    qed
  qed
qed

text \<open>A set with one part exchanged.\<close>

definition swap_part :: "nat \<Rightarrow> nat \<Rightarrow> nat set \<Rightarrow> nat set \<Rightarrow> nat set" where
  "swap_part d b T S = {x \<in> S. \<not> (b * d + 1 \<le> x \<and> x \<le> b * d + d)} \<union> (\<lambda>j. b * d + j) ` T"

lemma swap_part:
  assumes "T \<subseteq> {1..d}"
  shows "part d b (swap_part d b T S) = T" "c \<noteq> b \<Longrightarrow> part d c (swap_part d b T S) = part d c S"
    "T \<subseteq> {l} \<union> part d b S \<Longrightarrow> swap_part d b T S \<subseteq> {b * d + l} \<union> S"
    "T = {l} \<union> part d b S \<Longrightarrow> swap_part d b T S = {b * d + l} \<union> S"
proof -
  show "part d b (swap_part d b T S) = T" using assms by (auto simp: part_def swap_part_def)
  show "part d c (swap_part d b T S) = part d c S" if "c \<noteq> b"
  proof (rule set_eqI)
    fix j
    have "c * d + j \<notin> (\<lambda>j. b * d + j) ` T" if "1 \<le> j" "j \<le> d"
      using part_place [of c b j _ d] \<open>c \<noteq> b\<close> that assms by fastforce
    moreover have "\<not> (b * d + 1 \<le> c * d + j \<and> c * d + j \<le> b * d + d)" if "1 \<le> j" "j \<le> d"
    proof
      assume "b * d + 1 \<le> c * d + j \<and> c * d + j \<le> b * d + d"
      then have "c * d + j = b * d + (c * d + j - b * d)" "1 \<le> c * d + j - b * d" "c * d + j - b * d \<le> d" by auto
      then show False using part_place [of c b j "c * d + j - b * d" d] \<open>c \<noteq> b\<close> that by simp
    qed
    ultimately show "j \<in> part d c (swap_part d b T S) \<longleftrightarrow> j \<in> part d c S"
      by (auto simp: part_def swap_part_def)
  qed
  show "T \<subseteq> {l} \<union> part d b S \<Longrightarrow> swap_part d b T S \<subseteq> {b * d + l} \<union> S"
    by (auto simp: part_def swap_part_def)
  assume T: "T = {l} \<union> part d b S"
  have "x \<in> (\<lambda>j. b * d + j) ` part d b S" if "x \<in> S" "b * d + 1 \<le> x" "x \<le> b * d + d" for x
    using that by (intro image_eqI [of _ _ "x - b * d"]) (auto simp: part_def)
  then show "swap_part d b T S = {b * d + l} \<union> S"
    unfolding T by (auto simp: part_def swap_part_def)
qed

text \<open>
  Setting bits. \<^theory_text>\<open>sets_to n I k S sz m r\<close> is the outcome of calls that set \<^theory_text>\<open>I\<close> in a vector
  for \<^theory_text>\<open>S\<close> with \<^theory_text>\<open>m\<close> allocations left, of which they use at most \<^theory_text>\<open>n\<close>: the bits are
  set, or memory has run out and no other bit was added.
\<close>

definition sets_to ::
    "nat \<Rightarrow> nat set \<Rightarrow> nat \<Rightarrow> nat set \<Rightarrow> nat \<Rightarrow> nat \<Rightarrow> bool \<Rightarrow> (nat \<times> Bitvec \<times> nat) option \<Rightarrow> bool" where
  "sets_to n I k S sz m sub r \<longleftrightarrow> (\<exists>rc p' m' S'. r = Some (rc, p', m') \<and> bv_rep k p' S' \<and> iSize p' = sz
     \<and> S' \<subseteq> I \<union> S \<and> m' \<le> m \<and> m \<le> m' + n \<and> (sub \<longrightarrow> is_sub p') \<and> (if rc = 0 then S' = I \<union> S else m' = 0))"

lemma sets_toI: "bv_rep k p' S' \<Longrightarrow> iSize p' = sz \<Longrightarrow> S' \<subseteq> I \<union> S \<Longrightarrow> m' \<le> m \<Longrightarrow> m \<le> m' + n \<Longrightarrow>
    (sub \<longrightarrow> is_sub p') \<Longrightarrow>
    (if rc = 0 then S' = I \<union> S else m' = 0) \<Longrightarrow> sets_to n I k S sz m sub (Some (rc, p', m'))"
  by (auto simp: sets_to_def)

lemma sets_to_weaken: "sets_to n I k {} sz m0 True r \<Longrightarrow> I = J \<union> S \<Longrightarrow> m0 \<le> m \<Longrightarrow> m + n \<le> m0 + n' \<Longrightarrow>
    sets_to n' J k S sz m sub r"
  by (fastforce simp: sets_to_def)

lemma sets_to_more: "sets_to n I k S sz m sub r \<Longrightarrow> n \<le> n' \<Longrightarrow> sets_to n' I k S sz m sub r"
  by (fastforce simp: sets_to_def)

text \<open>
  How many allocations one call may take: a table that is full is replaced by a vector with parts, into
  which its values and the new one go, each of which may need a new part and go on there.
\<close>

primrec set_cost :: "nat \<Rightarrow> nat" where
  "set_cost 0 = 0"
| "set_cost (Suc k) = 1 + 125 * (1 + set_cost k)"

lemma set_cost_4: "set_cost 4 = 248078376"
proof -
  have "set_cost (Suc (Suc (Suc (Suc 0)))) = 248078376" by simp
  moreover have "4 = Suc (Suc (Suc (Suc 0)))" by simp
  ultimately show ?thesis by (simp only:)
qed

definition sub_cost :: "nat \<Rightarrow> nat" where
  "sub_cost k = (case k of 0 \<Rightarrow> 0 | Suc j \<Rightarrow> 1 + set_cost j)"

lemma sub_cost_le: "sub_cost k \<le> set_cost k"
  by (simp add: sub_cost_def split: nat.split)

lemma sub_cost_Suc [simp]: "sub_cost (Suc k) = 1 + set_cost k"
  by (simp add: sub_cost_def)

text \<open>Setting the values of the old table one after the other.\<close>

lemma fold_sets:
  assumes step: "\<And>p S v m. bv_rep k p S \<Longrightarrow> is_sub p \<Longrightarrow> iSize p = sz \<Longrightarrow> 1 \<le> v \<Longrightarrow> v \<le> sz \<Longrightarrow>
      sets_to n {v} k S sz m True (g p v m)"
  shows "sets_to l I k {} sz m0 True r \<Longrightarrow> \<forall>v\<in>set vs. v \<le> sz \<Longrightarrow>
    sets_to (l + length vs * n) (I \<union> (set vs - {0})) k {} sz m0 True
      (fold (\<lambda>v r. if v = 0 then r else (case r of None \<Rightarrow> None
         | Some (rc, p, m) \<Rightarrow> map_option (\<lambda>(rc', p, m). (or rc rc', p, m)) (g p v m))) vs r)"
proof (induction vs arbitrary: I l r)
  case (Cons v vs)
  show ?case
  proof (cases "v = 0")
    case True
    with Cons.IH [OF Cons.prems(1)] Cons.prems(2) show ?thesis
      by (simp add: sets_to_more [of "l + length vs * n"])
  next
    case False
    obtain rc p m S where r: "r = Some (rc, p, m)" "bv_rep k p S" "iSize p = sz" "S \<subseteq> I" "m \<le> m0" "is_sub p" "m0 \<le> m + l"
      "if rc = 0 then S = I else m = 0"
      using Cons.prems(1) by (auto simp: sets_to_def)
    obtain rc' p' m' S' where g: "g p v m = Some (rc', p', m')" "bv_rep k p' S'" "iSize p' = sz" "S' \<subseteq> {v} \<union> S" "m' \<le> m"
      "is_sub p'" "m \<le> m' + n" "if rc' = 0 then S' = {v} \<union> S else m' = 0"
      using step [OF r(2,6,3), of v m] Cons.prems(2) False by (auto simp: sets_to_def)
    have "sets_to (l + n) (I \<union> {v}) k {} sz m0 True (Some (or rc rc', p', m'))"
      using r g by (intro sets_toI [of k p' S']) (auto simp: or_eq_0_iff split: if_splits)
    from Cons.IH [OF this] Cons.prems(2) False r(1) g(1) show ?thesis
      by (simp add: insert_Diff_if add.assoc)
  qed
qed simp

lemma bv_rep_new:
  assumes "sz \<le> BITVEC_NBIT * BITVEC_NPTR ^ k" "sz + BITVEC_NPTR < 2 ^ 32"
  shows "bv_rep k (bitvec_new sz) {}" "iSize (bitvec_new sz) = sz" "\<not> is_sub (bitvec_new sz)"
proof -
  have "bitmap_set sz (replicate BITVEC_NELEM 0) = {}" if "sz \<le> BITVEC_NBIT"
  proof -
    have "(i - 1) div 8 < BITVEC_NELEM" if "1 \<le> i" "i \<le> sz" for i
      using that \<open>sz \<le> BITVEC_NBIT\<close> by (simp add: bitvec_sizes)
    then show ?thesis by (auto simp: bitmap_set_def)
  qed
  then show "bv_rep k (bitvec_new sz) {}"
    using assms by (cases k) (auto simp: bitvec_new_def hash_empty)
  show "iSize (bitvec_new sz) = sz" "\<not> is_sub (bitvec_new sz)" by (simp_all add: bitvec_new_def is_sub_def)
qed

lemma sub_bound:
  assumes "sz \<le> BITVEC_NBIT * BITVEC_NPTR ^ Suc k" "d = (sz + BITVEC_NPTR - 1) div BITVEC_NPTR"
  shows "d \<le> BITVEC_NBIT * BITVEC_NPTR ^ k" "d \<le> sz"
proof -
  have "sz + (BITVEC_NPTR - 1) \<le> BITVEC_NPTR * (BITVEC_NBIT * BITVEC_NPTR ^ k) + (BITVEC_NPTR - 1)"
    using assms(1) by (simp add: mult.left_commute)
  then have "d \<le> (BITVEC_NPTR * (BITVEC_NBIT * BITVEC_NPTR ^ k) + (BITVEC_NPTR - 1)) div BITVEC_NPTR"
    unfolding assms(2) by (intro div_le_mono) (simp add: BITVEC_NPTR_def)
  then show "d \<le> BITVEC_NBIT * BITVEC_NPTR ^ k" by (simp add: BITVEC_NPTR_def)
  show "d \<le> sz" by (simp add: assms(2) BITVEC_NPTR_def)
qed

lemma part_empty [simp]: "part d b {} = {}"
  by (simp add: part_def)

lemma bitvec_set_bitmap:
  assumes "bv_rep k p S" "1 \<le> i" "i \<le> iSize p" "bv_u p = aBitmap bs" "0 < fuel"
  shows "sets_to n {i} k S (iSize p) m (is_sub p) (bitvec_set fuel p i m)"
proof -
  have r: "iDivisor p = 0" "iSize p \<le> BITVEC_NBIT" "length bs = BITVEC_NELEM" "S = bitmap_set (iSize p) bs"
    "k = 0 \<or> iSize p \<le> BITVEC_NBIT * BITVEC_NPTR ^ k \<and> iSize p + BITVEC_NPTR < 2 ^ 32"
    using assms(1) bv_rep_bitmap [OF assms(4)] by auto
  let ?bs = "bs[(i - 1) div 8 := (bs ! ((i - 1) div 8)) OR push_bit ((i - 1) mod 8) 1]"
  let ?p = "Bitvec (iSize p) (nSet p) (iDivisor p) (aBitmap ?bs)"
  have "(i - 1) div 8 < length bs" using assms(2,3) r(2,3) by (simp add: bitvec_sizes)
  then have "bitvec_set fuel p i m = Some (0, ?p, m)"
    using assms(4,5) r(2) by (cases fuel) (simp_all add: Let_def)
  moreover have "bv_rep k ?p ({i} \<union> S)"
    using bitmap_update(1) [OF assms(2,3) r(2,3)] r by (subst bv_rep_bitmap) auto
  moreover have "\<not> is_sub p" using assms(4) by (simp add: is_sub_def)
  ultimately show ?thesis by (simp add: sets_to_def)
qed

lemma bitvec_set_spec:
  "bv_rep k p S \<Longrightarrow> 1 \<le> i \<Longrightarrow> i \<le> iSize p \<Longrightarrow> (if is_sub p then 2 * k else 2 * k + 1) \<le> fuel \<Longrightarrow>
    sets_to (if is_sub p then sub_cost k else set_cost k) {i} k S (iSize p) m (is_sub p) (bitvec_set fuel p i m)"
proof (induction fuel arbitrary: k p S i m)
  case 0
  from 0(1,4) show ?case by (cases rule: bv_rep_cases) (auto split: if_splits)
next
  case (Suc fuel)
  from Suc.prems(1) show ?case
  proof (cases rule: bv_rep_cases)
    case (1 bs)
    then show ?thesis using bitvec_set_bitmap Suc.prems by blast
  next
    case (2 hs k')
    let ?h0 = "BITVEC_HASH (i - 1)"
    have fuel: "2 * k \<le> fuel" using Suc.prems(4) 2(12) by simp
    have len: "length hs = BITVEC_NINT" using 2(5) by (simp add: hash_ok_def)
    show ?thesis
    proof (cases "i \<in> S")
      case True
      then have "hash_probe hs ?h0 i BITVEC_NINT = Some (Inl ())"
        using hash_probe_found [OF 2(5)] 2(8) by (auto simp: hash_set_def)
      then have "bitvec_set (Suc fuel) p i m = Some (0, p, m)" using 2 len by (simp add: Let_def)
      with True Suc.prems(1) 2(12) show ?thesis by (auto simp: sets_to_def insert_absorb)
    next
      case False
      then have fresh: "i \<notin> set hs" "i \<noteq> 0" using 2(8) Suc.prems(2) by (auto simp: hash_set_def)
      obtain h where h: "hash_probe hs ?h0 i BITVEC_NINT = Some (Inr h)" "hash_ok (hs[h := i])"
        "hash_set (hs[h := i]) = insert i S" "used_slots (hs[h := i]) = nSet p + 1"
        using hash_put_fresh [OF 2(5) fresh 2(7)] 2(6,8) by auto
      let ?full = "(if hs ! ?h0 = 0 then BITVEC_NINT - 1 \<le> nSet p else True) \<and> BITVEC_MXHASH \<le> nSet p"
      let ?d = "(iSize p + BITVEC_NPTR - 1) div BITVEC_NPTR"
      let ?p1 = "Bitvec (iSize p) (nSet p) ?d (apSub (replicate BITVEC_NPTR None))"
      let ?fold = "fold (\<lambda>v r. if v = 0 then r else (case r of None \<Rightarrow> None
         | Some (rc, p, m) \<Rightarrow> map_option (\<lambda>(rc', p, m). (or rc rc', p, m)) (bitvec_set fuel p v m))) hs"
      let ?p = "Bitvec (iSize p) (nSet p + 1) 0 (aHash (hs[h := i]))"
      have wrap: "(iSize p + BITVEC_NPTR - 1) mod 2 ^ 32 = iSize p + BITVEC_NPTR - 1"
        using 2(11) by (intro mod_less) linarith
      have run: "bitvec_set (Suc fuel) p i m =
          (if ?full then (if m = 0 then Some (BITVEC_NOMEM, p, 0) else ?fold (bitvec_set fuel ?p1 i (m - 1)))
           else Some (0, ?p, m))"
        using 2(2-4) h(1) len unfolding bitvec_set.simps Let_def wrap
        by (simp only: bitvec_u.case simp_thms if_False option.case sum.case not_le [symmetric] order_refl)
      show ?thesis
      proof (cases ?full)
        case False
        then have few: "nSet p + 1 < BITVEC_NINT" by (auto simp: bitvec_sizes split: if_splits)
        have "bitvec_set (Suc fuel) p i m = Some (0, ?p, m)" unfolding run using False by (rule if_not_P)
        moreover have "bv_rep k ?p ({i} \<union> S)"
          using 2 h few Suc.prems(2,3) by (simp add: insert_commute)
        ultimately show ?thesis using 2(12) by (simp add: sets_to_def)
      next
        case full: True
        note run = run [unfolded if_P [OF full]]
        show ?thesis
        proof (cases "m = 0")
          case True
          with run Suc.prems(1) 2(12) show ?thesis by (auto simp: sets_to_def BITVEC_NOMEM_def)
        next
          case False
          have rep1: "bv_rep k ?p1 {}" "is_sub ?p1"
            using 2(1,4,10,11) by (auto simp: is_sub_def)
          have step: "sets_to (1 + set_cost k') {v} k T (iSize p) l True (bitvec_set fuel q v l)"
            if "bv_rep k q T" "is_sub q" "iSize q = iSize p" "1 \<le> v" "v \<le> iSize p" for q T v l
            using Suc.IH [OF that(1,4), of l] that fuel 2(1) by simp
          have a: "sets_to (1 + set_cost k') {i} k {} (iSize p) (m - 1) True (bitvec_set fuel ?p1 i (m - 1))"
            using step [OF rep1 _ Suc.prems(2,3)] by simp
          have b: "\<forall>v\<in>set hs. v \<le> iSize p" using 2(8,9) by (auto simp: hash_set_def)
          have "sets_to (1 + set_cost k' + length hs * (1 + set_cost k')) ({i} \<union> (set hs - {0})) k {} (iSize p) (m - 1) True (?fold (bitvec_set fuel ?p1 i (m - 1)))"
            by (rule fold_sets [where g = "bitvec_set fuel"], erule (4) step) (fact a b)+
          then have "sets_to (if is_sub p then sub_cost k else set_cost k) {i} k S (iSize p) m (is_sub p) (?fold (bitvec_set fuel ?p1 i (m - 1)))"
            by (rule sets_to_weaken)
              (use 2(1,12) False in \<open>simp_all add: 2(8) hash_set_def len BITVEC_NINT_def\<close>)
          then show ?thesis unfolding run if_not_P [OF False] .
        qed
      qed
    qed
  next
    case (3 subs k')
    let ?d = "iDivisor p" and ?b = "(i - 1) div iDivisor p" and ?l = "(i - 1) mod iDivisor p + 1"
    note pl = sub_place [OF 3(3,4) Suc.prems(2,3)]
    have fuel: "2 * k' + 1 \<le> fuel" using Suc.prems(4) 3(1,10) by simp
    obtain q m1 where q: "(case subs ! ?b of Some q \<Rightarrow> (Some q, m) | None \<Rightarrow> sqlite3BitvecCreate ?d m) = (q, m1)" by fastforce
    show ?thesis
    proof (cases q)
      case None
      then have m: "m = 0" using q by (auto simp: sqlite3BitvecCreate_def split: option.splits if_splits)
      have "m1 = 0" using q None by (auto simp: sqlite3BitvecCreate_def split: option.splits if_splits)
      then have "bitvec_set (Suc fuel) p i m = Some (BITVEC_NOMEM, p, 0)"
        using None q 3(2,3,5) pl(1,2) by (simp add: Let_def)
      with Suc.prems(1) m show ?thesis by (auto simp: sets_to_def BITVEC_NOMEM_def)
    next
      case (Some q0)
      have d: "?d \<le> BITVEC_NBIT * BITVEC_NPTR ^ k'" "?d \<le> iSize p"
        using sub_bound [of "iSize p" k' ?d] 3(1,4,8) by auto
      have q0: "bv_rep k' q0 (part ?d ?b S)" "iSize q0 = ?d" "m1 \<le> m" "m \<le> m1 + 1"
      proof -
        have "bv_rep k' q0 (part ?d ?b S) \<and> iSize q0 = ?d \<and> m1 \<le> m \<and> m \<le> m1 + 1"
        proof (cases "subs ! ?b")
          case None
          then have "q0 = bitvec_new ?d" "part ?d ?b S = {}" "m1 \<le> m" "m \<le> m1 + 1"
            using q Some 3(7) pl(2) by (auto simp: sqlite3BitvecCreate_def split: if_splits)
          then show ?thesis using bv_rep_new [OF d(1)] d(2) 3(9) by simp
        next
          case (Some r)
          then show ?thesis using q \<open>q = Some q0\<close> 3(7) pl(2) by auto
        qed
        then show "bv_rep k' q0 (part ?d ?b S)" "iSize q0 = ?d" "m1 \<le> m" "m \<le> m1 + 1" by auto
      qed
      have "sets_to (if is_sub q0 then sub_cost k' else set_cost k') {?l} k' (part ?d ?b S) ?d m1 (is_sub q0)
          (bitvec_set fuel q0 ?l m1)"
        using Suc.IH [OF q0(1) pl(3), of m1] q0(2) pl(4) fuel by auto
      then obtain rc q' m' T where q': "bitvec_set fuel q0 ?l m1 = Some (rc, q', m')" "bv_rep k' q' T" "iSize q' = ?d"
        "T \<subseteq> {?l} \<union> part ?d ?b S" "m' \<le> m1" "if rc = 0 then T = {?l} \<union> part ?d ?b S else m' = 0"
        "m1 \<le> m' + (if is_sub q0 then sub_cost k' else set_cost k')"
        by (auto simp: sets_to_def)
      have T: "T \<subseteq> {1..?d}" using q'(4) pl(3,4) by (auto simp: part_def)
      note sp = swap_part [OF T]
      let ?S = "swap_part ?d ?b T S" and ?p = "Bitvec (iSize p) (nSet p) ?d (apSub (subs[?b := Some q']))"
      have sub: "?S \<subseteq> {i} \<union> S" using sp(3) [OF q'(4)] unfolding pl(5) .
      have "\<forall>c<BITVEC_NPTR. case subs[?b := Some q'] ! c of None \<Rightarrow> part ?d c ?S = {}
         | Some q \<Rightarrow> iSize q = ?d \<and> bv_rep k' q (part ?d c ?S)"
        using 3(5,7) pl(2) q'(2,3) sp(1,2) by (intro rep_part_update [where S = S and T = T]) auto
      then have rep: "bv_rep k ?p ?S"
        unfolding 3(1) using 3(1,3-6,8,9) sub Suc.prems(2,3) by (intro bv_rep_sub) auto
      have run: "bitvec_set (Suc fuel) p i m = Some (rc, ?p, m')"
        using q Some 3(2,3,5) pl(1,2) q'(1) by (simp add: Let_def)
      have p: "iSize ?p = iSize p" "is_sub p \<longrightarrow> is_sub ?p" by (simp_all add: is_sub_def)
      have rc: "if rc = 0 then ?S = {i} \<union> S else m' = 0"
      proof (cases "rc = 0")
        case True
        then have "T = {?l} \<union> part ?d ?b S" using q'(6) by simp
        then have "?S = {?b * ?d + ?l} \<union> S" by (rule sp(4))
        then show ?thesis using True unfolding pl(5) by simp
      qed (use q'(6) in simp)
      have "m' \<le> m" "m \<le> m' + (1 + set_cost k')" using q'(5,7) q0(3,4) sub_cost_le [of k'] by (auto split: if_splits)
      moreover have "is_sub p" "k = Suc k'" using 3(1,10) by simp_all
      ultimately show ?thesis unfolding run by (intro sets_toI [OF rep p(1) sub _ _ p(2) rc]) auto
    qed
  qed
qed

section \<open>The vector as a set\<close>

datatype set_op = SetBit nat | ClearBit nat | TestBit nat

text \<open>
  The interface of a set of numbers that may run out of memory when it grows: an insertion says
  whether it succeeded, takes at most \<^theory_text>\<open>cost\<close> of the memory left, and fails only when nothing
  is left.
\<close>

locale set_impl =
  fixes rep :: "'s \<Rightarrow> nat set \<Rightarrow> bool"
    and universe :: "nat set"
    and ins :: "'s \<Rightarrow> nat \<Rightarrow> (bool \<times> 's) option"
    and del :: "'s \<Rightarrow> nat \<Rightarrow> 's option"
    and tst :: "'s \<Rightarrow> nat \<Rightarrow> bool option"
    and memory :: "'s \<Rightarrow> nat"
    and cost :: nat
  assumes ins_law: "rep s S \<Longrightarrow> i \<in> universe \<Longrightarrow>
      \<exists>ok s'. ins s i = Some (ok, s') \<and> memory s \<le> memory s' + cost
        \<and> (if ok then rep s' (insert i S) else memory s' = 0)"
    and del_law: "rep s S \<Longrightarrow> i \<in> universe \<Longrightarrow>
      \<exists>s'. del s i = Some s' \<and> rep s' (S - {i}) \<and> memory s' = memory s"
    and tst_law: "rep s S \<Longrightarrow> i < 2 ^ 32 \<Longrightarrow> tst s i = Some (i \<in> S)"

text \<open>
  Calls until one fails: the answers of the tests, whether all calls were made, and the state they
  leave.
\<close>

fun set_calls ::
    "('s \<Rightarrow> nat \<Rightarrow> (bool \<times> 's) option) \<Rightarrow> ('s \<Rightarrow> nat \<Rightarrow> 's option) \<Rightarrow> ('s \<Rightarrow> nat \<Rightarrow> bool option) \<Rightarrow>
      's \<Rightarrow> set_op list \<Rightarrow> (bool list \<times> bool \<times> 's) option" where
  "set_calls ins del tst s [] = Some ([], True, s)"
| "set_calls ins del tst s (SetBit i # ops) =
     (case ins s i of None \<Rightarrow> None
      | Some (ok, s) \<Rightarrow> if ok then set_calls ins del tst s ops else Some ([], False, s))"
| "set_calls ins del tst s (ClearBit i # ops) =
     (case del s i of None \<Rightarrow> None | Some s \<Rightarrow> set_calls ins del tst s ops)"
| "set_calls ins del tst s (TestBit i # ops) =
     (case tst s i of None \<Rightarrow> None
      | Some r \<Rightarrow> map_option (\<lambda>(rs, all, s). (r # rs, all, s)) (set_calls ins del tst s ops))"

fun set_answers :: "nat set \<Rightarrow> set_op list \<Rightarrow> bool list" where
  "set_answers S [] = []"
| "set_answers S (SetBit i # ops) = set_answers (insert i S) ops"
| "set_answers S (ClearBit i # ops) = set_answers (S - {i}) ops"
| "set_answers S (TestBit i # ops) = (i \<in> S) # set_answers S ops"

fun op_in :: "nat set \<Rightarrow> set_op \<Rightarrow> bool" where
  "op_in U (SetBit i) \<longleftrightarrow> i \<in> U"
| "op_in U (ClearBit i) \<longleftrightarrow> i \<in> U"
| "op_in U (TestBit i) \<longleftrightarrow> i < 2 ^ 32"

context set_impl
begin

lemma calls_answer:
  "rep s S \<Longrightarrow> \<forall>op\<in>set ops. op_in universe op \<Longrightarrow>
    \<exists>rs all s'. set_calls ins del tst s ops = Some (rs, all, s')
      \<and> (if all then rs = set_answers S ops
         else memory s' = 0 \<and> memory s \<le> length ops * cost \<and> (\<exists>rest. set_answers S ops = rs @ rest))"
proof (induction ops arbitrary: s S)
  case (Cons op ops)
  show ?case
  proof (cases op)
    case (SetBit i)
    then obtain ok s' where i: "ins s i = Some (ok, s')" "memory s \<le> memory s' + cost"
      "if ok then rep s' (insert i S) else memory s' = 0"
      using ins_law [OF Cons.prems(1), of i] Cons.prems(2) by auto
    show ?thesis
    proof (cases ok)
      case True
      with i(3) have "rep s' (insert i S)" by simp
      from Cons.IH [OF this] Cons.prems(2) obtain rs all t where
        t: "set_calls ins del tst s' ops = Some (rs, all, t)"
        "if all then rs = set_answers (insert i S) ops
         else memory t = 0 \<and> memory s' \<le> length ops * cost \<and> (\<exists>rest. set_answers (insert i S) ops = rs @ rest)"
        by auto
      with SetBit i(1,2) True show ?thesis by (intro exI [of _ rs] exI [of _ all] exI [of _ t]) auto
    next
      case False
      with i show ?thesis by (intro exI [of _ "[]"] exI [of _ False] exI [of _ s']) (simp add: SetBit)
    qed
  next
    case (ClearBit i)
    then obtain s' where s': "del s i = Some s'" "rep s' (S - {i})" "memory s' = memory s"
      using del_law [OF Cons.prems(1), of i] Cons.prems(2) by auto
    from Cons.IH [OF s'(2)] Cons.prems(2) obtain rs all t where
      "set_calls ins del tst s' ops = Some (rs, all, t)"
      "if all then rs = set_answers (S - {i}) ops
       else memory t = 0 \<and> memory s' \<le> length ops * cost \<and> (\<exists>rest. set_answers (S - {i}) ops = rs @ rest)"
      by auto
    with ClearBit s'(1,3) show ?thesis by (intro exI [of _ rs] exI [of _ all] exI [of _ t]) auto
  next
    case (TestBit i)
    from Cons.IH [OF Cons.prems(1)] Cons.prems(2) obtain rs all t where
      "set_calls ins del tst s ops = Some (rs, all, t)"
      "if all then rs = set_answers S ops
       else memory t = 0 \<and> memory s \<le> length ops * cost \<and> (\<exists>rest. set_answers S ops = rs @ rest)"
      by auto
    moreover have "tst s i = Some (i \<in> S)" using TestBit Cons.prems(2) by (intro tst_law [OF Cons.prems(1)]) simp
    ultimately show ?thesis
      using TestBit by (intro exI [of _ "(i \<in> S) # rs"] exI [of _ all] exI [of _ t]) auto
  qed
qed (intro exI [of _ "[]"] exI [of _ True], simp)

end

text \<open>The bit vector with its allocator, as the operations of that interface.\<close>

definition bv_insert :: "Bitvec \<times> nat \<Rightarrow> nat \<Rightarrow> (bool \<times> Bitvec \<times> nat) option" where
  "bv_insert s i = (case sqlite3BitvecSet (Some (fst s)) i (snd s) of
     Some (rc, Some p, m) \<Rightarrow> Some (rc = 0, p, m) | _ \<Rightarrow> None)"

definition bv_delete :: "Bitvec \<times> nat \<Rightarrow> nat \<Rightarrow> (Bitvec \<times> nat) option" where
  "bv_delete s i = (case sqlite3BitvecClear (Some (fst s)) i of Some (Some p) \<Rightarrow> Some (p, snd s) | _ \<Rightarrow> None)"

definition bv_test :: "Bitvec \<times> nat \<Rightarrow> nat \<Rightarrow> bool option" where
  "bv_test s i = sqlite3BitvecTest (Some (fst s)) i"

definition bv_state :: "nat \<Rightarrow> Bitvec \<times> nat \<Rightarrow> nat set \<Rightarrow> bool" where
  "bv_state sz s S \<longleftrightarrow> iSize (fst s) = sz \<and> bv_rep 4 (fst s) S"

lemma bv_rep_range: "bv_rep k p S \<Longrightarrow> S \<subseteq> {1..iSize p}"
  by (erule bv_rep_cases) (auto simp: bitmap_set_def)

interpretation bitvec: set_impl "bv_state sz" "{1..sz}" bv_insert bv_delete bv_test snd "set_cost 4" for sz
proof
  fix s S i assume s: "bv_state sz s S" and i: "i \<in> {1..sz}"
  have "sets_to (if is_sub (fst s) then sub_cost 4 else set_cost 4) {i} 4 S sz (snd s) (is_sub (fst s))
      (bitvec_set 9 (fst s) i (snd s))"
    using bitvec_set_spec [of 4 "fst s" S i 9 "snd s"] s i by (simp add: bv_state_def)
  then obtain rc p' m' S' where r: "bitvec_set 9 (fst s) i (snd s) = Some (rc, p', m')" "bv_rep 4 p' S'" "iSize p' = sz"
    "snd s \<le> m' + set_cost 4" "if rc = 0 then S' = {i} \<union> S else m' = 0"
    using sub_cost_le [of 4] by (fastforce simp: sets_to_def simp del: set_cost.simps split: if_splits)
  then show "\<exists>ok s'. bv_insert s i = Some (ok, s') \<and> snd s \<le> snd s' + set_cost 4
      \<and> (if ok then bv_state sz s' (insert i S) else snd s' = 0)"
    by (auto simp: bv_insert_def sqlite3BitvecSet_def bv_state_def)
  show "\<exists>s'. bv_delete s i = Some s' \<and> bv_state sz s' (S - {i}) \<and> snd s' = snd s"
    using bitvec_clear_spec [of 4 "fst s" S i] s i by (auto simp: bv_delete_def sqlite3BitvecClear_def bv_state_def)
next
  fix s S and i :: nat assume s: "bv_state sz s S" and i: "i < 2 ^ 32"
  have w: "(i + 2 ^ 32 - 1) mod 2 ^ 32 = (if i = 0 then 2 ^ 32 - 1 else i - 1)"
    using i by (cases i) simp_all
  have S: "bv_rep 4 (fst s) S" "iSize (fst s) = sz" using s by (simp_all add: bv_state_def)
  have "sz < 2 ^ 32" using S by (auto elim!: bv_rep_cases simp: bitvec_sizes)
  moreover have "bv_test s i = (let i = (if i = 0 then 2 ^ 32 - 1 else i - 1) in
      if iSize (fst s) \<le> i then Some False else bitvec_test (fst s) i)"
    unfolding bv_test_def sqlite3BitvecTest_def sqlite3BitvecTestNotNull_def option.case w ..
  ultimately show "bv_test s i = Some (i \<in> S)"
    using bv_rep_range [OF S(1)] bitvec_test_spec [OF S(1), of i] S(2)
    by (cases "i = 0"; cases "i \<le> sz") (auto simp: Let_def)
qed

text \<open>
  C13: A bit vector for numbers up to a size below $2^{32} - 62$ is a set of page numbers: from its
  creation on, any sequence of setting, clearing and testing numbers in its range gives the
  answers of the set, whichever of the three representations it goes through. It stops before
  the end only at a call that used up the last of the memory, with the answers so far right; with
  memory for \<^theory_text>\<open>set_cost 4\<close> allocations for each call it does not.
\<close>
theorem bitvec_is_set:
  assumes "sqlite3BitvecCreate sz m = (Some p, m')" "sz + 62 < 2 ^ 32" "\<forall>op\<in>set ops. op_in {1..sz} op"
  shows "\<exists>rs all s. set_calls bv_insert bv_delete bv_test (p, m') ops = Some (rs, all, s)
    \<and> (if all then rs = set_answers {} ops else snd s = 0 \<and> (\<exists>rest. set_answers {} ops = rs @ rest))
    \<and> (length ops * set_cost 4 < m' \<longrightarrow> all)"
proof -
  have "p = bitvec_new sz" using assms(1) by (auto simp: sqlite3BitvecCreate_def split: if_splits)
  moreover have "sz \<le> BITVEC_NBIT * BITVEC_NPTR ^ 4" "sz + BITVEC_NPTR < 2 ^ 32"
    using assms(2) by (simp_all add: bitvec_sizes)
  ultimately have "bv_state sz (p, m') {}" using bv_rep_new [of sz 4] by (simp add: bv_state_def)
  from bitvec.calls_answer [OF this assms(3)] show ?thesis
    by (elim exE conjE) (auto simp del: set_cost.simps split: if_splits)
qed

theorem bitvec_is_set_witness:
  "\<exists>s. set_calls bv_insert bv_delete bv_test (bitvec_new 5000, 10 ^ 10)
      [SetBit 125, SetBit 1, TestBit 125, ClearBit 125, TestBit 125, TestBit 1] = Some ([True, False, True], True, s)"
proof -
  have c: "sqlite3BitvecCreate 5000 (10 ^ 10 + 1) = (Some (bitvec_new 5000), 10 ^ 10)"
    by (simp add: sqlite3BitvecCreate_def)
  have a: "set_answers {} [SetBit 125, SetBit 1, TestBit 125, ClearBit 125, TestBit 125, TestBit 1] = [True, False, True]"
    by simp
  have "6 * set_cost 4 < 10 ^ 10" by (simp add: set_cost_4)
  with bitvec_is_set [OF c, of "[SetBit 125, SetBit 1, TestBit 125, ClearBit 125, TestBit 125, TestBit 1]"] show ?thesis
    unfolding a by (auto simp del: set_cost.simps set_calls.simps)
qed

text \<open>
  The comment on \<^verbatim>\<open>iSize\<close> allows any size that fits in 32 bits, but for the largest the sum
  that the divisor is computed from wraps, and the divisor is 0: when the hash table of such a vector
  fills up, it is emptied and, for want of a divisor, taken for a hash table again.
\<close>

lemma large_divisor_wraps:
  "2 ^ 32 - 62 < sz \<Longrightarrow> sz < 2 ^ 32 \<Longrightarrow> ((sz + BITVEC_NPTR - 1) mod 2 ^ 32) div BITVEC_NPTR = 0"
proof -
  assume "2 ^ 32 - 62 < sz" "sz < 2 ^ 32"
  then have "2 ^ 32 \<le> sz + 61" "sz + 61 - 2 ^ 32 < 62" by simp_all
  then have "(sz + 61) mod 2 ^ 32 < 62"
    using le_mod_geq [of "2 ^ 32" "sz + 61"] by simp
  moreover have "sz + BITVEC_NPTR - 1 = sz + 61" by (simp add: BITVEC_NPTR_def)
  ultimately show ?thesis unfolding BITVEC_NPTR_def by (metis div_less)
qed

end
