(* ===== verification/Ctype.thy ===== *)
theory Ctype
  imports Sqlite
begin

text \<open>
  Characters and strings as SQLite sees them: the tables of \<^verbatim>\<open>sqlite/global.c\<close>, the
  character tests of \<^verbatim>\<open>sqlite/sqliteInt.h\<close>, and the comparisons without case of
  \<^verbatim>\<open>sqlite/util.c\<close>. A C string is the list of its bytes before the terminator;
  \<^theory_text>\<open>char_at\<close> reads the terminator at its end.
\<close>

section \<open>Tables\<close>

definition sqlite3UpperToLower :: "u8 list" where
  "sqlite3UpperToLower =
    [0, 1, 2, 3, 4, 5, 6, 7, 8, 9, 10, 11, 12, 13, 14, 15,
     16, 17, 18, 19, 20, 21, 22, 23, 24, 25, 26, 27, 28, 29, 30, 31,
     32, 33, 34, 35, 36, 37, 38, 39, 40, 41, 42, 43, 44, 45, 46, 47,
     48, 49, 50, 51, 52, 53, 54, 55, 56, 57, 58, 59, 60, 61, 62, 63,
     64, 97, 98, 99, 100, 101, 102, 103, 104, 105, 106, 107, 108, 109, 110, 111,
     112, 113, 114, 115, 116, 117, 118, 119, 120, 121, 122, 91, 92, 93, 94, 95,
     96, 97, 98, 99, 100, 101, 102, 103, 104, 105, 106, 107, 108, 109, 110, 111,
     112, 113, 114, 115, 116, 117, 118, 119, 120, 121, 122, 123, 124, 125, 126, 127,
     128, 129, 130, 131, 132, 133, 134, 135, 136, 137, 138, 139, 140, 141, 142, 143,
     144, 145, 146, 147, 148, 149, 150, 151, 152, 153, 154, 155, 156, 157, 158, 159,
     160, 161, 162, 163, 164, 165, 166, 167, 168, 169, 170, 171, 172, 173, 174, 175,
     176, 177, 178, 179, 180, 181, 182, 183, 184, 185, 186, 187, 188, 189, 190, 191,
     192, 193, 194, 195, 196, 197, 198, 199, 200, 201, 202, 203, 204, 205, 206, 207,
     208, 209, 210, 211, 212, 213, 214, 215, 216, 217, 218, 219, 220, 221, 222, 223,
     224, 225, 226, 227, 228, 229, 230, 231, 232, 233, 234, 235, 236, 237, 238, 239,
     240, 241, 242, 243, 244, 245, 246, 247, 248, 249, 250, 251, 252, 253, 254, 255]"

definition sqlite3CtypeMap :: "u8 list" where
  "sqlite3CtypeMap =
    [0x00, 0x00, 0x00, 0x00, 0x00, 0x00, 0x00, 0x00,
     0x00, 0x01, 0x01, 0x01, 0x01, 0x01, 0x00, 0x00,
     0x00, 0x00, 0x00, 0x00, 0x00, 0x00, 0x00, 0x00,
     0x00, 0x00, 0x00, 0x00, 0x00, 0x00, 0x00, 0x00,
     0x01, 0x00, 0x80, 0x00, 0x40, 0x00, 0x00, 0x80,
     0x00, 0x00, 0x00, 0x00, 0x00, 0x00, 0x00, 0x00,
     0x0c, 0x0c, 0x0c, 0x0c, 0x0c, 0x0c, 0x0c, 0x0c,
     0x0c, 0x0c, 0x00, 0x00, 0x00, 0x00, 0x00, 0x00,
     0x00, 0x0a, 0x0a, 0x0a, 0x0a, 0x0a, 0x0a, 0x02,
     0x02, 0x02, 0x02, 0x02, 0x02, 0x02, 0x02, 0x02,
     0x02, 0x02, 0x02, 0x02, 0x02, 0x02, 0x02, 0x02,
     0x02, 0x02, 0x02, 0x80, 0x00, 0x00, 0x00, 0x40,
     0x80, 0x2a, 0x2a, 0x2a, 0x2a, 0x2a, 0x2a, 0x22,
     0x22, 0x22, 0x22, 0x22, 0x22, 0x22, 0x22, 0x22,
     0x22, 0x22, 0x22, 0x22, 0x22, 0x22, 0x22, 0x22,
     0x22, 0x22, 0x22, 0x00, 0x00, 0x00, 0x00, 0x00,
     0x40, 0x40, 0x40, 0x40, 0x40, 0x40, 0x40, 0x40,
     0x40, 0x40, 0x40, 0x40, 0x40, 0x40, 0x40, 0x40,
     0x40, 0x40, 0x40, 0x40, 0x40, 0x40, 0x40, 0x40,
     0x40, 0x40, 0x40, 0x40, 0x40, 0x40, 0x40, 0x40,
     0x40, 0x40, 0x40, 0x40, 0x40, 0x40, 0x40, 0x40,
     0x40, 0x40, 0x40, 0x40, 0x40, 0x40, 0x40, 0x40,
     0x40, 0x40, 0x40, 0x40, 0x40, 0x40, 0x40, 0x40,
     0x40, 0x40, 0x40, 0x40, 0x40, 0x40, 0x40, 0x40,
     0x40, 0x40, 0x40, 0x40, 0x40, 0x40, 0x40, 0x40,
     0x40, 0x40, 0x40, 0x40, 0x40, 0x40, 0x40, 0x40,
     0x40, 0x40, 0x40, 0x40, 0x40, 0x40, 0x40, 0x40,
     0x40, 0x40, 0x40, 0x40, 0x40, 0x40, 0x40, 0x40,
     0x40, 0x40, 0x40, 0x40, 0x40, 0x40, 0x40, 0x40,
     0x40, 0x40, 0x40, 0x40, 0x40, 0x40, 0x40, 0x40,
     0x40, 0x40, 0x40, 0x40, 0x40, 0x40, 0x40, 0x40,
     0x40, 0x40, 0x40, 0x40, 0x40, 0x40, 0x40, 0x40]"

section \<open>Character tests\<close>

definition ctype :: "u8 \<Rightarrow> u8" where
  "ctype c = sqlite3CtypeMap ! unat c"

definition sqlite3Tolower :: "u8 \<Rightarrow> u8" where
  "sqlite3Tolower c = sqlite3UpperToLower ! unat c"

definition sqlite3Toupper :: "u8 \<Rightarrow> u8" where
  "sqlite3Toupper c = c AND NOT (ctype c AND 0x20)"

definition sqlite3Isspace :: "u8 \<Rightarrow> bool" where
  "sqlite3Isspace c \<longleftrightarrow> ctype c AND 0x01 \<noteq> 0"

definition sqlite3Isalnum :: "u8 \<Rightarrow> bool" where
  "sqlite3Isalnum c \<longleftrightarrow> ctype c AND 0x06 \<noteq> 0"

definition sqlite3Isalpha :: "u8 \<Rightarrow> bool" where
  "sqlite3Isalpha c \<longleftrightarrow> ctype c AND 0x02 \<noteq> 0"

definition sqlite3Isdigit :: "u8 \<Rightarrow> bool" where
  "sqlite3Isdigit c \<longleftrightarrow> ctype c AND 0x04 \<noteq> 0"

definition sqlite3Isxdigit :: "u8 \<Rightarrow> bool" where
  "sqlite3Isxdigit c \<longleftrightarrow> ctype c AND 0x08 \<noteq> 0"

definition sqlite3Isquote :: "u8 \<Rightarrow> bool" where
  "sqlite3Isquote c \<longleftrightarrow> ctype c AND 0x80 \<noteq> 0"

definition IdChar :: "u8 \<Rightarrow> bool" where
  "IdChar c \<longleftrightarrow> ctype c AND 0x46 \<noteq> 0"

lemmas ctype_defs = ctype_def sqlite3Tolower_def sqlite3Toupper_def sqlite3Isspace_def sqlite3Isalnum_def
  sqlite3Isalpha_def sqlite3Isdigit_def sqlite3Isxdigit_def sqlite3Isquote_def IdChar_def

section \<open>Strings\<close>

definition char_at :: "bytes \<Rightarrow> nat \<Rightarrow> u8" where
  "char_at z k = (if k < length z then z ! k else 0)"

lemma char_at_0 [simp]: "char_at [] k = 0" "char_at (c # z) 0 = c" "char_at (c # z) (Suc k) = char_at z k"
  by (simp_all add: char_at_def)

lemma char_at_nonzero: "char_at z k \<noteq> 0 \<Longrightarrow> k < length z"
  by (simp add: char_at_def split: if_splits)

lemma scan_measure: "char_at z i \<noteq> 0 \<Longrightarrow> i < j \<Longrightarrow> length z - j < length z - i"
  by (auto dest!: char_at_nonzero)

text \<open>An ASCII string literal of C.\<close>

definition ascii :: "string \<Rightarrow> bytes" where
  "ascii s = map (\<lambda>c. of_nat (of_char c)) s"

function sqlite3StrICmp :: "bytes \<Rightarrow> bytes \<Rightarrow> int" where
  "sqlite3StrICmp a b =
     (let c = int (unat (sqlite3Tolower (char_at a 0))) - int (unat (sqlite3Tolower (char_at b 0))) in
      if c \<noteq> 0 \<or> char_at a 0 = 0 then c else sqlite3StrICmp (tl a) (tl b))"
  by pat_completeness auto

termination
  by (relation "measure (\<lambda>(a, b). length a)") (auto dest!: char_at_nonzero)

declare sqlite3StrICmp.simps [simp del]

definition sqlite3_stricmp :: "bytes option \<Rightarrow> bytes option \<Rightarrow> int" where
  "sqlite3_stricmp zLeft zRight =
     (case zLeft of
        None \<Rightarrow> if zRight \<noteq> None then - 1 else 0
      | Some a \<Rightarrow> (case zRight of None \<Rightarrow> 1 | Some b \<Rightarrow> sqlite3StrICmp a b))"

text \<open>\<^theory_text>\<open>N\<close> as it is when the loop ends: the code takes one more off.\<close>

fun strnicmp_loop :: "bytes \<Rightarrow> bytes \<Rightarrow> nat \<Rightarrow> int" where
  "strnicmp_loop a b 0 = 0"
| "strnicmp_loop a b (Suc N) =
     (if char_at a 0 \<noteq> 0 \<and> sqlite3Tolower (char_at a 0) = sqlite3Tolower (char_at b 0) then strnicmp_loop (tl a) (tl b) N
      else int (unat (sqlite3Tolower (char_at a 0))) - int (unat (sqlite3Tolower (char_at b 0))))"

definition sqlite3_strnicmp :: "bytes option \<Rightarrow> bytes option \<Rightarrow> nat \<Rightarrow> int" where
  "sqlite3_strnicmp zLeft zRight N =
     (case zLeft of
        None \<Rightarrow> if zRight \<noteq> None then - 1 else 0
      | Some a \<Rightarrow> (case zRight of None \<Rightarrow> 1 | Some b \<Rightarrow> strnicmp_loop a b N))"

section \<open>What the tables say\<close>

text \<open>The tables, computed from the ASCII code of a character.\<close>

definition lower_of :: "nat \<Rightarrow> nat" where
  "lower_of n = (if 65 \<le> n \<and> n \<le> 90 then n + 32 else n)"

definition class_of :: "nat \<Rightarrow> u8" where
  "class_of n =
     (if n = 32 \<or> 9 \<le> n \<and> n \<le> 13 then 0x01
      else if 48 \<le> n \<and> n \<le> 57 then 0x0c
      else if 65 \<le> n \<and> n \<le> 70 then 0x0a
      else if 71 \<le> n \<and> n \<le> 90 then 0x02
      else if 97 \<le> n \<and> n \<le> 102 then 0x2a
      else if 103 \<le> n \<and> n \<le> 122 then 0x22
      else if n = 34 \<or> n = 39 \<or> n = 91 \<or> n = 96 then 0x80
      else if n = 36 \<or> n = 95 \<or> 128 \<le> n then 0x40 else 0)"

text \<open>Ranges of numerals, for the simplifier.\<close>

lemma upt_from_0_1:
  "[0..<numeral v] = 0 # [Suc 0..<numeral v]"
  "[Suc 0..<numeral v] = (if Suc 0 < numeral v then Suc 0 # [2..<numeral v] else [])"
  by (simp_all add: upt_rec [of 0] upt_rec [of "Suc 0"] numeral_2_eq_2)

text \<open>All values of a byte.\<close>

lemma upt_split: "i \<le> j \<Longrightarrow> j \<le> k \<Longrightarrow> [i..<k] = [i..<j] @ [j..<k]"
  using upt_add_eq_append [of i j "k - j"] by simp

lemma byte_range:
  "[0..<256 :: nat] = [0..<16] @ [16..<32] @ [32..<64] @ [64..<96] @ [96..<128] @ [128..<160] @ [160..<192]
    @ [192..<224] @ [224..<256]"
  using upt_split [of 0 16 256] upt_split [of 16 32 256] upt_split [of 32 64 256] upt_split [of 64 96 256]
    upt_split [of 96 128 256] upt_split [of 128 160 256] upt_split [of 160 192 256] upt_split [of 192 224 256]
  by simp

lemma upt_first: "[0..<16 :: nat] = 0 # 1 # [2..<16]"
  by (simp add: upt_conv_Cons)

lemma lower_table: "sqlite3UpperToLower = map (\<lambda>n. of_nat (lower_of n)) [0..<256]"
  unfolding byte_range upt_first sqlite3UpperToLower_def by (simp add: upt_rec_numeral lower_of_def)

lemma class_table: "sqlite3CtypeMap = map class_of [0..<256]"
  unfolding byte_range upt_first sqlite3CtypeMap_def by (simp add: upt_rec_numeral class_of_def)

lemma byte_lt: "unat (c :: u8) < 256"
  using unsigned_less [of c] by simp

lemma ctype_class: "ctype c = class_of (unat c)"
  using byte_lt [of c] by (simp add: ctype_def class_table)

lemma Tolower_spec: "sqlite3Tolower c = of_nat (lower_of (unat c))"
  using byte_lt [of c] by (simp add: sqlite3Tolower_def lower_table)

text \<open>The classes as ranges of the code, and then of the byte.\<close>

lemma if_test: "(if P then a else b) AND m \<noteq> 0 \<longleftrightarrow> (if P then a AND m \<noteq> 0 else b AND m \<noteq> (0 :: u8))"
  by simp

lemma class_bits:
  "class_of n AND 0x01 \<noteq> 0 \<longleftrightarrow> n = 32 \<or> 9 \<le> n \<and> n \<le> 13"
  "class_of n AND 0x02 \<noteq> 0 \<longleftrightarrow> 65 \<le> n \<and> n \<le> 90 \<or> 97 \<le> n \<and> n \<le> 122"
  "class_of n AND 0x04 \<noteq> 0 \<longleftrightarrow> 48 \<le> n \<and> n \<le> 57"
  "class_of n AND 0x80 \<noteq> 0 \<longleftrightarrow> n = 34 \<or> n = 39 \<or> n = 91 \<or> n = 96"
  "class_of n AND 0x46 \<noteq> 0 \<longleftrightarrow> 65 \<le> n \<and> n \<le> 90 \<or> 97 \<le> n \<and> n \<le> 122 \<or> 48 \<le> n \<and> n \<le> 57
    \<or> n = 36 \<or> n = 95 \<or> 128 \<le> n"
  unfolding class_of_def if_test by (simp_all cong: if_weak_cong) presburger+

lemma Isspace_spec: "sqlite3Isspace c \<longleftrightarrow> c = 32 \<or> 9 \<le> c \<and> c \<le> 13"
  unfolding sqlite3Isspace_def ctype_class class_bits
  by (simp add: word_le_nat_alt word_unat_eq_iff)

lemma Isdigit_spec: "sqlite3Isdigit c \<longleftrightarrow> 48 \<le> c \<and> c \<le> 57"
  by (simp add: sqlite3Isdigit_def ctype_class class_bits word_le_nat_alt)

lemma Isalpha_spec: "sqlite3Isalpha c \<longleftrightarrow> 65 \<le> c \<and> c \<le> 90 \<or> 97 \<le> c \<and> c \<le> 122"
  by (simp add: sqlite3Isalpha_def ctype_class class_bits word_le_nat_alt)

lemma Isquote_spec: "sqlite3Isquote c \<longleftrightarrow> c = 34 \<or> c = 39 \<or> c = 91 \<or> c = 96"
  unfolding sqlite3Isquote_def ctype_class class_bits
  by (simp add: word_unat_eq_iff)

lemma IdChar_spec:
  "IdChar c \<longleftrightarrow> sqlite3Isalpha c \<or> sqlite3Isdigit c \<or> c = 36 \<or> c = 95 \<or> 128 \<le> c"
  unfolding IdChar_def Isalpha_spec Isdigit_spec ctype_class class_bits
  by (simp add: word_le_nat_alt word_unat_eq_iff)

lemma IdChar_0 [simp]: "\<not> IdChar 0"
  by (simp add: IdChar_spec Isalpha_spec Isdigit_spec word_le_nat_alt)

end
