(* ===== verification/Complete.thy ===== *)
theory Complete
  imports Ctype "HOL-Library.Sublist"
begin

text \<open>
  \<^verbatim>\<open>sqlite/complete.c\<close>: whether a text ends a statement of SQL. The characters of
  the source's cases, as their codes: \<^verbatim>\<open>;\<close> 59, space 32, carriage return 13, tab 9,
  newline 10, form feed 12, \<^verbatim>\<open>/\<close> 47, \<^verbatim>\<open>*\<close> 42, \<^verbatim>\<open>-\<close> 45, \<^verbatim>\<open>[\<close> 91, \<^verbatim>\<open>]\<close> 93, grave accent 96, quotes 34 and 39.
\<close>

section \<open>Tokens and the state machine\<close>

definition tkSEMI :: nat where "tkSEMI = 0"
definition tkWS :: nat where "tkWS = 1"
definition tkOTHER :: nat where "tkOTHER = 2"
definition tkEXPLAIN :: nat where "tkEXPLAIN = 3"
definition tkCREATE :: nat where "tkCREATE = 4"
definition tkTEMP :: nat where "tkTEMP = 5"
definition tkTRIGGER :: nat where "tkTRIGGER = 6"
definition tkEND :: nat where "tkEND = 7"

lemmas tk_defs = tkSEMI_def tkWS_def tkOTHER_def tkEXPLAIN_def tkCREATE_def tkTEMP_def tkTRIGGER_def tkEND_def

definition complete_trans :: "nat list list" where
  "complete_trans =
    [[1, 0, 2, 3, 4, 2, 2, 2],
     [1, 1, 2, 3, 4, 2, 2, 2],
     [1, 2, 2, 2, 2, 2, 2, 2],
     [1, 3, 3, 2, 4, 2, 2, 2],
     [1, 4, 2, 2, 2, 4, 5, 2],
     [6, 5, 5, 5, 5, 5, 5, 5],
     [6, 6, 5, 5, 5, 5, 5, 7],
     [1, 7, 5, 5, 5, 5, 5, 5]]"

section \<open>The scanner\<close>

text \<open>
  One turn of the loop, up to its last \<^verbatim>\<open>zSql++\<close>: either the function returns 0, or it
  returns whether the state is 1, or it has a token and the text after it.
\<close>

datatype scan = Return0 | ReturnState | Token nat bytes

definition skip_to :: "u8 \<Rightarrow> bytes \<Rightarrow> bytes" where
  "skip_to c z = dropWhile (\<lambda>x. x \<noteq> 0 \<and> x \<noteq> c) z"

fun skip_comment :: "bytes \<Rightarrow> bytes" where
  "skip_comment [] = []"
| "skip_comment (c # z) = (if c \<noteq> 0 \<and> (c \<noteq> 42 \<or> char_at z 0 \<noteq> 47) then skip_comment z else c # z)"

definition id_length :: "bytes \<Rightarrow> nat" where
  "id_length z = 1 + length (takeWhile IdChar (tl z))"

definition keyword_token :: "bytes \<Rightarrow> nat \<Rightarrow> nat" where
  "keyword_token z nId =
     (let c = char_at z 0; is = (\<lambda>n w. nId = n \<and> sqlite3_strnicmp (Some z) (Some (ascii w)) n = 0) in
      if c = 99 \<or> c = 67 then (if is 6 ''create'' then tkCREATE else tkOTHER)
      else if c = 116 \<or> c = 84 then
        (if is 7 ''trigger'' then tkTRIGGER
         else if is 4 ''temp'' then tkTEMP
         else if is 9 ''temporary'' then tkTEMP else tkOTHER)
      else if c = 101 \<or> c = 69 then
        (if is 3 ''end'' then tkEND else if is 7 ''explain'' then tkEXPLAIN else tkOTHER)
      else tkOTHER)"

definition complete_token :: "bytes \<Rightarrow> scan" where
  "complete_token z =
     (let c = char_at z 0 in
      if c = 59 then Token tkSEMI (tl z)
      else if c \<in> {32, 13, 9, 10, 12} then Token tkWS (tl z)
      else if c = 47 then
        (if char_at z 1 \<noteq> 42 then Token tkOTHER (tl z)
         else (let y = skip_comment (drop 2 z) in
               if char_at y 0 = 0 then Return0 else Token tkWS (drop 2 y)))
      else if c = 45 then
        (if char_at z 1 \<noteq> 45 then Token tkOTHER (tl z)
         else (let y = skip_to 10 z in
               if char_at y 0 = 0 then ReturnState else Token tkWS (tl y)))
      else if c = 91 then
        (let y = skip_to 93 (tl z) in
         if char_at y 0 = 0 then Return0 else Token tkOTHER (tl y))
      else if c \<in> {96, 34, 39} then
        (let y = skip_to c (tl z) in
         if char_at y 0 = 0 then Return0 else Token tkOTHER (tl y))
      else if IdChar c then
        (let nId = id_length z in Token (keyword_token z nId) (drop nId z))
      else Token tkOTHER (tl z))"

lemma length_skip_comment: "length (skip_comment z) \<le> length z"
  by (induction z) auto

lemma complete_token_shrinks:
  assumes "complete_token z = Token t y" "char_at z 0 \<noteq> 0"
  shows "length y < length z"
proof -
  have z: "z \<noteq> []" "0 < length z" using assms(2) by (auto dest: char_at_nonzero)
  have a: "length (skip_to c x) \<le> length x" for c x by (simp add: skip_to_def length_dropWhile_le)
  have b: "length (tl (skip_to c x)) < length z" if "length x \<le> length z" for c x
    using a [of c x] z(2) that by (cases "skip_to c x") auto
  have c: "length (drop 2 (skip_comment x)) < length z" if "length x \<le> length z" for x
    using length_skip_comment [of x] z(2) that unfolding length_drop by arith
  show ?thesis
    using assms(1) z b [of z] b [of "tl z"] c [of "drop 2 z"]
    by (auto simp: complete_token_def Let_def id_length_def split: if_splits)
qed

section \<open>The loop\<close>

function complete_loop :: "bytes \<Rightarrow> nat \<Rightarrow> bool" where
  "complete_loop z state =
     (if char_at z 0 = 0 then state = 1
      else (case complete_token z of
              Return0 \<Rightarrow> False
            | ReturnState \<Rightarrow> state = 1
            | Token token y \<Rightarrow> complete_loop y (complete_trans ! state ! token)))"
  by pat_completeness auto

termination
  by (relation "measure (\<lambda>(z, s). length z)") (auto dest: complete_token_shrinks)

declare complete_loop.simps [simp del]

definition sqlite3_complete :: "bytes \<Rightarrow> bool" where
  "sqlite3_complete zSql = complete_loop zSql 0"

end
