(* ===== verification/CompleteProps.thy ===== *)
theory CompleteProps
  imports Complete
begin

text \<open>
  \<^verbatim>\<open>sqlite3_complete\<close> against a grammar: the texts it accepts are those whose tokens,
  white space aside, are a sequence of statements.
\<close>

section \<open>Statements\<close>

function tokens :: "bytes \<Rightarrow> nat list option" where
  "tokens z =
     (if char_at z 0 = 0 then Some []
      else (case complete_token z of
              Return0 \<Rightarrow> None
            | ReturnState \<Rightarrow> Some []
            | Token token y \<Rightarrow> map_option ((#) token) (tokens y)))"
  by pat_completeness auto

termination
  by (relation "measure length") (auto dest: complete_token_shrinks)

declare tokens.simps [simp del]

text \<open>
  \<^theory_text>\<open>CREATE TRIGGER\<close>, with \<^verbatim>\<open>TEMP\<close> in between, after \<^verbatim>\<open>EXPLAIN\<close> or
  \<^verbatim>\<open>EXPLAIN QUERY PLAN\<close>.
\<close>

definition trigger_head :: "nat list \<Rightarrow> bool" where
  "trigger_head h \<longleftrightarrow> (\<exists>e m n. h = e @ tkCREATE # replicate m tkTEMP @ [tkTRIGGER]
     \<and> (e = [] \<or> e = tkEXPLAIN # replicate n tkOTHER))"

definition starts_trigger :: "nat list \<Rightarrow> bool" where
  "starts_trigger u \<longleftrightarrow> (\<exists>h r. u = h @ r \<and> trigger_head h)"

text \<open>A statement ends at its first semicolon, a trigger at its first \<^verbatim>\<open>;END;\<close>.\<close>

definition statement :: "nat list \<Rightarrow> bool" where
  "statement s \<longleftrightarrow>
     (\<exists>u. s = u @ [tkSEMI] \<and> tkSEMI \<notin> set u \<and> \<not> starts_trigger u)
   \<or> (\<exists>h b. s = h @ b @ [tkSEMI, tkEND, tkSEMI] \<and> trigger_head h
        \<and> \<not> sublist [tkSEMI, tkEND, tkSEMI] (b @ [tkSEMI, tkEND]))"

definition statements :: "nat list \<Rightarrow> bool" where
  "statements ts \<longleftrightarrow> (\<exists>ss. ss \<noteq> [] \<and> (\<forall>s\<in>set ss. statement s) \<and> ts = concat ss)"

section \<open>Running the machine over tokens\<close>

definition run :: "nat \<Rightarrow> nat list \<Rightarrow> nat" where
  "run s ts = foldl (\<lambda>s t. complete_trans ! s ! t) s ts"

lemma run_simps [simp]: "run s [] = s" "run s (t # ts) = run (complete_trans ! s ! t) ts"
  "run s (ts @ us) = run (run s ts) us"
  by (simp_all add: run_def)

lemma complete_loop_tokens:
  "complete_loop z s \<longleftrightarrow> (\<exists>ts. tokens z = Some ts \<and> run s ts = 1)"
proof (induction z s rule: complete_loop.induct)
  case (1 z s)
  show ?case
  proof (cases "char_at z 0 = 0")
    case False
    then show ?thesis
      using 1 by (cases "complete_token z") (auto simp: complete_loop.simps [of z s] tokens.simps [of z])
  qed (simp add: complete_loop.simps [of z s] tokens.simps [of z])
qed

definition toks :: "nat list \<Rightarrow> bool" where
  "toks ts \<longleftrightarrow> (\<forall>t\<in>set ts. t \<in> {tkSEMI, tkOTHER, tkEXPLAIN, tkCREATE, tkTEMP, tkTRIGGER, tkEND})"

lemma keyword_token_range: "keyword_token z n \<in> {tkOTHER, tkEXPLAIN, tkCREATE, tkTEMP, tkTRIGGER, tkEND}"
  by (simp add: keyword_token_def Let_def)

lemma complete_token_range:
  "complete_token z = Token t y \<Longrightarrow> t = tkWS \<or> toks [t]"
  using keyword_token_range [of z "id_length z"]
  by (auto simp: complete_token_def toks_def Let_def split: if_splits)

lemma tokens_range: "tokens z = Some ts \<Longrightarrow> toks (filter (\<lambda>t. t \<noteq> tkWS) ts)"
proof (induction z arbitrary: ts rule: tokens.induct)
  case (1 z)
  show ?case
  proof (cases "char_at z 0 = 0 \<or> complete_token z = ReturnState")
    case True
    then have "ts = []" using 1(2) by (auto simp: tokens.simps [of z] split: if_splits)
    then show ?thesis by (simp add: toks_def)
  next
    case False
    then obtain t y us where "complete_token z = Token t y" "tokens y = Some us" "ts = t # us"
      using 1(2) by (auto simp: tokens.simps [of z] split: scan.splits)
    moreover from this have "toks (filter (\<lambda>t. t \<noteq> tkWS) us)" "t = tkWS \<or> toks [t]"
      using 1(1) False complete_token_range by auto
    ultimately show ?thesis by (auto simp: toks_def)
  qed
qed

lemma state_cases: "(s :: nat) < 8 \<Longrightarrow> s = 0 \<or> s = 1 \<or> s = 2 \<or> s = 3 \<or> s = 4 \<or> s = 5 \<or> s = 6 \<or> s = 7"
  by linarith

text \<open>White space leaves the machine where it is, and the other tokens keep it inside its table.\<close>

lemma trans_WS: "s < 8 \<Longrightarrow> complete_trans ! s ! tkWS = s"
  by (drule state_cases) (auto simp: complete_trans_def tk_defs)

lemma trans_range: "s < 8 \<Longrightarrow> toks [t] \<Longrightarrow> complete_trans ! s ! t < 8"
  by (drule state_cases) (auto simp: toks_def complete_trans_def tk_defs)

lemma run_range: "s < 8 \<Longrightarrow> toks ts \<Longrightarrow> run s ts < 8"
  by (induction ts arbitrary: s) (auto simp: toks_def trans_range)

lemma run_filter: "s < 8 \<Longrightarrow> toks (filter (\<lambda>t. t \<noteq> tkWS) ts) \<Longrightarrow> run s ts = run s (filter (\<lambda>t. t \<noteq> tkWS) ts)"
proof (induction ts arbitrary: s)
  case (Cons t ts)
  then show ?case
    by (cases "t = tkWS") (simp_all add: trans_WS trans_range toks_def)
qed simp

lemma run_start: "toks ts \<Longrightarrow> ts \<noteq> [] \<Longrightarrow> run 0 ts = run 1 ts"
  by (cases ts) (auto simp: toks_def complete_trans_def tk_defs)

section \<open>What each state means\<close>

lemma head_steps:
  "complete_trans ! 1 ! tkCREATE = 4" "complete_trans ! 1 ! tkEXPLAIN = 3" "complete_trans ! 3 ! tkCREATE = 4"
  "complete_trans ! 3 ! tkOTHER = 3" "complete_trans ! 4 ! tkTEMP = 4" "complete_trans ! 4 ! tkTRIGGER = 5"
  by (simp_all add: complete_trans_def tk_defs)

lemma run_other: "run 3 (replicate n tkOTHER) = 3" "run 4 (replicate n tkTEMP) = 4"
  by (induction n) (simp_all add: head_steps)

lemma run_head: "trigger_head h \<Longrightarrow> run 1 h = 5"
  by (auto simp: trigger_head_def run_other head_steps simp flip: One_nat_def)

lemma run_body_step: "s \<in> {5, 6, 7} \<Longrightarrow> toks [t] \<Longrightarrow>
   complete_trans ! s ! t = (if t = tkSEMI then (if s = 7 then 1 else 6) else if s = 6 \<and> t = tkEND then 7 else 5)"
  by (auto simp: toks_def complete_trans_def tk_defs)

lemma run_plain: "toks u \<Longrightarrow> tkSEMI \<notin> set u \<Longrightarrow> run 5 u = 5"
  by (induction u) (auto simp: toks_def run_body_step)

lemma sublist_snoc_iff: "sublist xs (ys @ [y]) \<longleftrightarrow> sublist xs ys \<or> suffix xs (ys @ [y])"
  by (metis append_Nil2 sublist_append sublist_snoc)

lemma run_body:
  "toks b \<Longrightarrow> \<not> sublist [tkSEMI, tkEND, tkSEMI] b \<Longrightarrow>
   run 5 b = (if suffix [tkSEMI] b then 6 else if suffix [tkSEMI, tkEND] b then 7 else 5)"
proof (induction b rule: rev_induct)
  case (snoc t b)
  then have "toks b" "toks [t]" "\<not> sublist [tkSEMI, tkEND, tkSEMI] b" "\<not> (t = tkSEMI \<and> suffix [tkSEMI, tkEND] b)"
    by (auto simp: toks_def sublist_snoc_iff suffix_def)
  with snoc.IH show ?case
    by (auto simp: run_body_step suffix_def tk_defs)
qed simp

text \<open>Inside a statement, before a trigger has been recognised.\<close>

definition trigger_start :: "nat list \<Rightarrow> bool" where
  "trigger_start u \<longleftrightarrow> (\<exists>e m n. u = e @ tkCREATE # replicate m tkTEMP \<and> (e = [] \<or> e = tkEXPLAIN # replicate n tkOTHER))"

definition plain_state :: "nat \<Rightarrow> nat list \<Rightarrow> bool" where
  "plain_state s u \<longleftrightarrow> toks u \<and> tkSEMI \<notin> set u \<and> run 1 u = s \<and> s \<in> {1, 2, 3, 4}
     \<and> (s = 1 \<longrightarrow> u = []) \<and> (s = 3 \<longrightarrow> (\<exists>n. u = tkEXPLAIN # replicate n tkOTHER)) \<and> (s = 4 \<longrightarrow> trigger_start u)"

definition trigger_state :: "nat list \<Rightarrow> bool" where
  "trigger_state u \<longleftrightarrow> (\<exists>h b. u = h @ b \<and> trigger_head h \<and> toks b \<and> \<not> sublist [tkSEMI, tkEND, tkSEMI] b)"

lemma trigger_start_head: "trigger_start u \<Longrightarrow> trigger_head (u @ [tkTRIGGER])"
  unfolding trigger_start_def trigger_head_def by (elim exE conjE) (metis append.assoc append_Cons)

lemma trigger_start_temp: "trigger_start u \<Longrightarrow> trigger_start (u @ [tkTEMP])"
  unfolding trigger_start_def by (elim exE conjE) (metis append.assoc append_Cons replicate_append_same replicate_Suc)

lemma trigger_start_create: "trigger_start [tkCREATE]" "trigger_start (tkEXPLAIN # replicate n tkOTHER @ [tkCREATE])"
  unfolding trigger_start_def by (metis append_Nil replicate_0) (metis append_Cons replicate_0)

lemma no_trigger: "plain_state s u \<Longrightarrow> \<not> starts_trigger u"
proof
  assume u: "plain_state s u" "starts_trigger u"
  then obtain h r where "u = h @ r" "trigger_head h" by (auto simp: starts_trigger_def)
  with u(1) run_head [of h] run_plain [of r] show False by (auto simp: plain_state_def toks_def)
qed

lemma plain_statement: "plain_state s u \<Longrightarrow> statement (u @ [tkSEMI])"
  using no_trigger by (auto simp: statement_def plain_state_def)

lemma trigger_state_head: "trigger_head h \<Longrightarrow> trigger_state h"
  unfolding trigger_state_def by (intro exI [of _ h] exI [of _ "[]"]) (simp add: toks_def)

lemma plain_step:
  assumes "plain_state s u" "toks [t]" "t \<noteq> tkSEMI"
  shows "plain_state (complete_trans ! s ! t) (u @ [t]) \<or> complete_trans ! s ! t = 5 \<and> trigger_state (u @ [t])"
proof -
  let ?s = "complete_trans ! s ! t"
  have plain: "plain_state ?s (u @ [t])"
    if "?s = 2 \<or> ?s = 3 \<and> (\<exists>n. u @ [t] = tkEXPLAIN # replicate n tkOTHER) \<or> ?s = 4 \<and> trigger_start (u @ [t])"
  proof -
    have "toks (u @ [t])" "tkSEMI \<notin> set (u @ [t])" "run 1 (u @ [t]) = ?s"
      using assms by (simp_all add: plain_state_def toks_def)
    then show ?thesis using that unfolding plain_state_def by auto
  qed
  from assms(1) consider "s = 1" "u = []" | "s = 2" | n where "s = 3" "u = tkEXPLAIN # replicate n tkOTHER"
    | "s = 4" "trigger_start u"
    by (auto simp: plain_state_def)
  then show ?thesis
  proof cases
    case 1
    have "\<exists>n. [tkEXPLAIN] = tkEXPLAIN # replicate n tkOTHER" by (rule exI [of _ 0]) simp
    with 1 assms(2,3) trigger_start_create(1) have "?s = 2 \<or> ?s = 3 \<and> (\<exists>n. u @ [t] = tkEXPLAIN # replicate n tkOTHER)
      \<or> ?s = 4 \<and> trigger_start (u @ [t])"
      by (auto simp: toks_def complete_trans_def tk_defs)
    then show ?thesis using plain by blast
  next
    case 2
    then have "?s = 2" using assms(2,3) by (auto simp: toks_def complete_trans_def tk_defs)
    then show ?thesis using plain by blast
  next
    case 3
    have "u @ [tkOTHER] = tkEXPLAIN # replicate (Suc n) tkOTHER" by (simp add: 3 replicate_append_same)
    moreover have "trigger_start (u @ [tkCREATE])" using trigger_start_create(2) [of n] by (simp add: 3)
    moreover have "?s = 2 \<or> ?s = 3 \<and> t = tkOTHER \<or> ?s = 4 \<and> t = tkCREATE"
      using 3 assms(2,3) by (auto simp: toks_def complete_trans_def tk_defs)
    ultimately show ?thesis using plain by blast
  next
    case 4
    then have "?s = 2 \<or> ?s = 4 \<and> t = tkTEMP \<or> ?s = 5 \<and> t = tkTRIGGER"
      using assms(2,3) by (auto simp: toks_def complete_trans_def tk_defs)
    then show ?thesis
      using plain 4 trigger_start_temp trigger_start_head trigger_state_head by blast
  qed
qed

section \<open>Statements and the start state\<close>

lemma statements_append: "p = [] \<or> statements p \<Longrightarrow> statement s \<Longrightarrow> statements (p @ s)"
proof -
  assume p: "p = [] \<or> statements p" and s: "statement s"
  obtain ss where "\<forall>s\<in>set ss. statement s" "p = concat ss"
    using p by (auto simp: statements_def intro: that [of "[]"])
  then show ?thesis using s by (auto simp: statements_def intro!: exI [of _ "ss @ [s]"])
qed

lemma trigger_run: "trigger_state u \<Longrightarrow> run 1 u \<in> {5, 6, 7}"
proof -
  assume "trigger_state u"
  then obtain h b where "u = h @ b" "trigger_head h" "toks b" "\<not> sublist [tkSEMI, tkEND, tkSEMI] b"
    by (auto simp: trigger_state_def)
  then show ?thesis using run_head [of h] run_body [of b] by simp
qed

lemma trigger_step:
  assumes "trigger_state u" "toks [t]"
  shows "if run 1 (u @ [t]) = 1 then statement (u @ [t]) else trigger_state (u @ [t])"
proof -
  let ?p = "[tkSEMI, tkEND, tkSEMI]"
  obtain h b where u: "u = h @ b" "trigger_head h" "toks b" "\<not> sublist ?p b"
    using assms(1) by (auto simp: trigger_state_def)
  have r: "run 1 u = (if suffix [tkSEMI] b then 6 else if suffix [tkSEMI, tkEND] b then 7 else 5)"
    using u run_head run_body by simp
  show ?thesis
  proof (cases "t = tkSEMI \<and> suffix [tkSEMI, tkEND] b")
    case True
    then obtain c where c: "b = c @ [tkSEMI, tkEND]" by (auto simp: suffix_def)
    have "statement (u @ [t])"
      unfolding statement_def using True u(2,4) by (intro disjI2 exI [of _ h] exI [of _ c]) (simp add: u(1) c)
    moreover have "run 1 u = 7" using True r by (auto simp: suffix_def tk_defs)
    ultimately show ?thesis using assms(2) True by (simp add: run_body_step)
  next
    case False
    then have "\<not> sublist ?p (b @ [t])" using u(4) by (auto simp: sublist_snoc_iff suffix_def)
    then have t: "trigger_state (u @ [t])"
      unfolding trigger_state_def using u(1-3) assms(2) by (intro exI [of _ h] exI [of _ "b @ [t]"]) (simp add: toks_def)
    then have "run 1 (u @ [t]) \<noteq> 1" using trigger_run [OF t] by auto
    with t show ?thesis by simp
  qed
qed

text \<open>What has been read is some statements and the beginning of one.\<close>

lemma run_means:
  "toks ts \<Longrightarrow> ts \<noteq> [] \<Longrightarrow>
   \<exists>p u. ts = p @ u \<and> (p = [] \<or> statements p) \<and> run 1 ts = run 1 u
     \<and> (u = [] \<and> statements p \<or> u \<noteq> [] \<and> plain_state (run 1 u) u \<or> trigger_state u)"
proof (induction ts rule: rev_induct)
  case (snoc t ts)
  have t: "toks ts" "toks [t]" using snoc.prems(1) by (auto simp: toks_def)
  have "\<exists>p u. ts = p @ u \<and> (p = [] \<or> statements p) \<and> run 1 ts = run 1 u \<and> (plain_state (run 1 u) u \<or> trigger_state u)"
  proof (cases "ts = []")
    case True
    then show ?thesis by (intro exI [of _ "[]"]) (simp add: plain_state_def toks_def)
  next
    case False
    then obtain p u where "ts = p @ u" "p = [] \<or> statements p" "run 1 ts = run 1 u"
      "u = [] \<or> plain_state (run 1 u) u \<or> trigger_state u"
      using snoc.IH t(1) by blast
    moreover have "plain_state (run 1 []) []" by (simp add: plain_state_def toks_def)
    ultimately show ?thesis by blast
  qed
  then obtain p u where u: "ts = p @ u" "p = [] \<or> statements p" "run 1 ts = run 1 u"
    "plain_state (run 1 u) u \<or> trigger_state u"
    by blast
  have r: "run 1 (ts @ [t]) = run 1 (u @ [t])" using u(3) by simp
  have fin: ?case if "statement (u @ [t])" "run 1 (u @ [t]) = 1"
    using statements_append [OF u(2) that(1)] that(2) r u(1)
    by (intro exI [of _ "ts @ [t]"] exI [of _ "[]"]) simp
  have more: ?case if "plain_state (run 1 (u @ [t])) (u @ [t]) \<or> trigger_state (u @ [t])"
    using that r u(1,2) by (intro exI [of _ p] exI [of _ "u @ [t]"]) simp
  show ?case
  proof (cases "plain_state (run 1 u) u")
    case True
    show ?thesis
    proof (cases "t = tkSEMI")
      case semi: True
      have "complete_trans ! run 1 u ! t = 1"
        using True semi by (auto simp: plain_state_def complete_trans_def tk_defs)
      then show ?thesis using fin plain_statement [OF True] semi by simp
    next
      case False
      show ?thesis using plain_step [OF True t(2) False] by (intro more) auto
    qed
  next
    case False
    then have "trigger_state u" using u(4) by blast
    from trigger_step [OF this t(2)] show ?thesis using fin more by (auto split: if_splits)
  qed
qed simp

lemma statements_semi: "statements ts \<Longrightarrow> tkSEMI \<in> set ts"
proof -
  assume "statements ts"
  then obtain s ss where "statement s" "ts = s @ concat ss" by (auto simp: statements_def neq_Nil_conv)
  then show ?thesis by (auto simp: statement_def)
qed

lemma run_statement: "statement s \<Longrightarrow> toks s \<Longrightarrow> run 1 s = 1"
proof -
  assume s: "statement s" "toks s"
  then consider u where "s = u @ [tkSEMI]" "tkSEMI \<notin> set u" "\<not> starts_trigger u"
    | h b where "s = h @ b @ [tkSEMI, tkEND, tkSEMI]" "trigger_head h" "\<not> sublist [tkSEMI, tkEND, tkSEMI] (b @ [tkSEMI, tkEND])"
    by (auto simp: statement_def)
  then show ?thesis
  proof cases
    case 1
    show ?thesis
    proof (cases "u = []")
      case False
      then obtain p v where u: "u = p @ v" "p = [] \<or> statements p" "v \<noteq> [] \<and> plain_state (run 1 v) v \<or> trigger_state v \<or> v = []"
        using run_means [of u] s(2) 1(1) by (auto simp: toks_def)
      have "p = []" using u(1,2) 1(2) statements_semi by auto
      moreover have "\<not> trigger_state u" using 1(3) by (auto simp: trigger_state_def starts_trigger_def)
      ultimately have "plain_state (run 1 u) u" using u False by auto
      then have "run 1 u \<in> {1, 2, 3, 4}" by (simp add: plain_state_def)
      then show ?thesis by (auto simp: 1(1) complete_trans_def tk_defs)
    qed (simp add: 1(1) complete_trans_def tk_defs)
  next
    case 2
    have "toks (b @ [tkSEMI, tkEND])" using s(2) 2(1) by (auto simp: toks_def)
    then have "run 5 (b @ [tkSEMI, tkEND]) = 7"
      using run_body [OF _ 2(3)] by (simp add: suffix_def tk_defs)
    then have "run 1 (h @ (b @ [tkSEMI, tkEND])) = 7" using run_head [OF 2(2)] by simp
    then show ?thesis unfolding 2(1) by (simp add: run_body_step toks_def)
  qed
qed

lemma run_statements:
  assumes "toks ts"
  shows "run 1 ts = 1 \<and> ts \<noteq> [] \<longleftrightarrow> statements ts"
proof
  assume r: "run 1 ts = 1 \<and> ts \<noteq> []"
  then obtain p u where u: "ts = p @ u" "run 1 ts = run 1 u"
    "u = [] \<and> statements p \<or> u \<noteq> [] \<and> plain_state (run 1 u) u \<or> trigger_state u"
    using run_means [OF assms] by blast
  moreover have "\<not> (u \<noteq> [] \<and> plain_state (run 1 u) u)" using r u(2) by (auto simp: plain_state_def)
  moreover have "\<not> trigger_state u" using r u(2) trigger_run by fastforce
  ultimately show "statements ts" by auto
next
  assume s: "statements ts"
  then obtain ss where ss: "ss \<noteq> []" "\<forall>s\<in>set ss. statement s" "ts = concat ss" by (auto simp: statements_def)
  have "run 1 (concat ss) = 1" using assms ss(2) unfolding ss(3)
  proof (induction ss)
    case (Cons s ss)
    then have "toks s" "toks (concat ss)" by (auto simp: toks_def)
    with Cons show ?case using run_statement [of s] by simp
  qed simp
  then show "run 1 ts = 1 \<and> ts \<noteq> []" unfolding ss(3) [symmetric] using statements_semi [OF s] by (cases ts) simp_all
qed

text \<open>
  C19: \<^verbatim>\<open>sqlite3_complete\<close> answers 1 for the texts that are a sequence of complete
  statements and nothing more: the scanner finds no string or comment left open, and the tokens,
  white space and comments aside, split into statements, each ending at its first semicolon, or,
  when it begins as a trigger definition does, at its first semicolon, \<^verbatim>\<open>END\<close> and semicolon.
\<close>
theorem complete_recognises_statements:
  "sqlite3_complete z \<longleftrightarrow>
     (case tokens z of None \<Rightarrow> False | Some ts \<Rightarrow> statements (filter (\<lambda>t. t \<noteq> tkWS) ts))"
proof (cases "tokens z")
  case None
  then show ?thesis by (simp add: sqlite3_complete_def complete_loop_tokens)
next
  case (Some ts)
  let ?ts = "filter (\<lambda>t. t \<noteq> tkWS) ts"
  have t: "toks ?ts" using Some by (rule tokens_range)
  then have "sqlite3_complete z \<longleftrightarrow> run 0 ?ts = 1"
    using Some run_filter [of 0 ts] by (simp add: sqlite3_complete_def complete_loop_tokens)
  also have "\<dots> \<longleftrightarrow> run 1 ?ts = 1 \<and> ?ts \<noteq> []" using t run_start [of ?ts] by (cases "?ts = []") auto
  finally show ?thesis using run_statements [OF t] Some by simp
qed

end
