(* ===== verification/TokenCodes.thy ===== *)
theory TokenCodes
  imports Sqlite
begin

text \<open>
  The token codes of \<^verbatim>\<open>sqlite/parse.h\<close> that the tokenizer hands to the parser, under
  their names in the source.
\<close>

definition TK_SEMI :: nat where "TK_SEMI = 1"
definition TK_EXPLAIN :: nat where "TK_EXPLAIN = 2"
definition TK_QUERY :: nat where "TK_QUERY = 3"
definition TK_PLAN :: nat where "TK_PLAN = 4"
definition TK_BEGIN :: nat where "TK_BEGIN = 5"
definition TK_TRANSACTION :: nat where "TK_TRANSACTION = 6"
definition TK_DEFERRED :: nat where "TK_DEFERRED = 7"
definition TK_IMMEDIATE :: nat where "TK_IMMEDIATE = 8"
definition TK_EXCLUSIVE :: nat where "TK_EXCLUSIVE = 9"
definition TK_COMMIT :: nat where "TK_COMMIT = 10"
definition TK_END :: nat where "TK_END = 11"
definition TK_ROLLBACK :: nat where "TK_ROLLBACK = 12"
definition TK_SAVEPOINT :: nat where "TK_SAVEPOINT = 13"
definition TK_RELEASE :: nat where "TK_RELEASE = 14"
definition TK_TO :: nat where "TK_TO = 15"
definition TK_TABLE :: nat where "TK_TABLE = 16"
definition TK_CREATE :: nat where "TK_CREATE = 17"
definition TK_IF :: nat where "TK_IF = 18"
definition TK_NOT :: nat where "TK_NOT = 19"
definition TK_EXISTS :: nat where "TK_EXISTS = 20"
definition TK_TEMP :: nat where "TK_TEMP = 21"
definition TK_LP :: nat where "TK_LP = 22"
definition TK_RP :: nat where "TK_RP = 23"
definition TK_AS :: nat where "TK_AS = 24"
definition TK_WITHOUT :: nat where "TK_WITHOUT = 25"
definition TK_COMMA :: nat where "TK_COMMA = 26"
definition TK_OR :: nat where "TK_OR = 27"
definition TK_AND :: nat where "TK_AND = 28"
definition TK_IS :: nat where "TK_IS = 29"
definition TK_MATCH :: nat where "TK_MATCH = 30"
definition TK_LIKE_KW :: nat where "TK_LIKE_KW = 31"
definition TK_BETWEEN :: nat where "TK_BETWEEN = 32"
definition TK_IN :: nat where "TK_IN = 33"
definition TK_ISNULL :: nat where "TK_ISNULL = 34"
definition TK_NOTNULL :: nat where "TK_NOTNULL = 35"
definition TK_NE :: nat where "TK_NE = 36"
definition TK_EQ :: nat where "TK_EQ = 37"
definition TK_GT :: nat where "TK_GT = 38"
definition TK_LE :: nat where "TK_LE = 39"
definition TK_LT :: nat where "TK_LT = 40"
definition TK_GE :: nat where "TK_GE = 41"
definition TK_ESCAPE :: nat where "TK_ESCAPE = 42"
definition TK_BITAND :: nat where "TK_BITAND = 43"
definition TK_BITOR :: nat where "TK_BITOR = 44"
definition TK_LSHIFT :: nat where "TK_LSHIFT = 45"
definition TK_RSHIFT :: nat where "TK_RSHIFT = 46"
definition TK_PLUS :: nat where "TK_PLUS = 47"
definition TK_MINUS :: nat where "TK_MINUS = 48"
definition TK_STAR :: nat where "TK_STAR = 49"
definition TK_SLASH :: nat where "TK_SLASH = 50"
definition TK_REM :: nat where "TK_REM = 51"
definition TK_CONCAT :: nat where "TK_CONCAT = 52"
definition TK_COLLATE :: nat where "TK_COLLATE = 53"
definition TK_BITNOT :: nat where "TK_BITNOT = 54"
definition TK_ID :: nat where "TK_ID = 55"
definition TK_INDEXED :: nat where "TK_INDEXED = 56"
definition TK_ABORT :: nat where "TK_ABORT = 57"
definition TK_ACTION :: nat where "TK_ACTION = 58"
definition TK_AFTER :: nat where "TK_AFTER = 59"
definition TK_ANALYZE :: nat where "TK_ANALYZE = 60"
definition TK_ASC :: nat where "TK_ASC = 61"
definition TK_ATTACH :: nat where "TK_ATTACH = 62"
definition TK_BEFORE :: nat where "TK_BEFORE = 63"
definition TK_BY :: nat where "TK_BY = 64"
definition TK_CASCADE :: nat where "TK_CASCADE = 65"
definition TK_CAST :: nat where "TK_CAST = 66"
definition TK_COLUMNKW :: nat where "TK_COLUMNKW = 67"
definition TK_CONFLICT :: nat where "TK_CONFLICT = 68"
definition TK_DATABASE :: nat where "TK_DATABASE = 69"
definition TK_DESC :: nat where "TK_DESC = 70"
definition TK_DETACH :: nat where "TK_DETACH = 71"
definition TK_EACH :: nat where "TK_EACH = 72"
definition TK_FAIL :: nat where "TK_FAIL = 73"
definition TK_FOR :: nat where "TK_FOR = 74"
definition TK_IGNORE :: nat where "TK_IGNORE = 75"
definition TK_INITIALLY :: nat where "TK_INITIALLY = 76"
definition TK_INSTEAD :: nat where "TK_INSTEAD = 77"
definition TK_NO :: nat where "TK_NO = 78"
definition TK_KEY :: nat where "TK_KEY = 79"
definition TK_OF :: nat where "TK_OF = 80"
definition TK_OFFSET :: nat where "TK_OFFSET = 81"
definition TK_PRAGMA :: nat where "TK_PRAGMA = 82"
definition TK_RAISE :: nat where "TK_RAISE = 83"
definition TK_RECURSIVE :: nat where "TK_RECURSIVE = 84"
definition TK_REPLACE :: nat where "TK_REPLACE = 85"
definition TK_RESTRICT :: nat where "TK_RESTRICT = 86"
definition TK_ROW :: nat where "TK_ROW = 87"
definition TK_TRIGGER :: nat where "TK_TRIGGER = 88"
definition TK_VACUUM :: nat where "TK_VACUUM = 89"
definition TK_VIEW :: nat where "TK_VIEW = 90"
definition TK_VIRTUAL :: nat where "TK_VIRTUAL = 91"
definition TK_WITH :: nat where "TK_WITH = 92"
definition TK_REINDEX :: nat where "TK_REINDEX = 93"
definition TK_RENAME :: nat where "TK_RENAME = 94"
definition TK_CTIME_KW :: nat where "TK_CTIME_KW = 95"
definition TK_STRING :: nat where "TK_STRING = 97"
definition TK_JOIN_KW :: nat where "TK_JOIN_KW = 98"
definition TK_CONSTRAINT :: nat where "TK_CONSTRAINT = 99"
definition TK_DEFAULT :: nat where "TK_DEFAULT = 100"
definition TK_NULL :: nat where "TK_NULL = 101"
definition TK_PRIMARY :: nat where "TK_PRIMARY = 102"
definition TK_UNIQUE :: nat where "TK_UNIQUE = 103"
definition TK_CHECK :: nat where "TK_CHECK = 104"
definition TK_REFERENCES :: nat where "TK_REFERENCES = 105"
definition TK_AUTOINCR :: nat where "TK_AUTOINCR = 106"
definition TK_ON :: nat where "TK_ON = 107"
definition TK_INSERT :: nat where "TK_INSERT = 108"
definition TK_DELETE :: nat where "TK_DELETE = 109"
definition TK_UPDATE :: nat where "TK_UPDATE = 110"
definition TK_SET :: nat where "TK_SET = 111"
definition TK_DEFERRABLE :: nat where "TK_DEFERRABLE = 112"
definition TK_FOREIGN :: nat where "TK_FOREIGN = 113"
definition TK_DROP :: nat where "TK_DROP = 114"
definition TK_UNION :: nat where "TK_UNION = 115"
definition TK_ALL :: nat where "TK_ALL = 116"
definition TK_EXCEPT :: nat where "TK_EXCEPT = 117"
definition TK_INTERSECT :: nat where "TK_INTERSECT = 118"
definition TK_SELECT :: nat where "TK_SELECT = 119"
definition TK_VALUES :: nat where "TK_VALUES = 120"
definition TK_DISTINCT :: nat where "TK_DISTINCT = 121"
definition TK_DOT :: nat where "TK_DOT = 122"
definition TK_FROM :: nat where "TK_FROM = 123"
definition TK_JOIN :: nat where "TK_JOIN = 124"
definition TK_USING :: nat where "TK_USING = 125"
definition TK_ORDER :: nat where "TK_ORDER = 126"
definition TK_GROUP :: nat where "TK_GROUP = 127"
definition TK_HAVING :: nat where "TK_HAVING = 128"
definition TK_LIMIT :: nat where "TK_LIMIT = 129"
definition TK_WHERE :: nat where "TK_WHERE = 130"
definition TK_INTO :: nat where "TK_INTO = 131"
definition TK_FLOAT :: nat where "TK_FLOAT = 132"
definition TK_BLOB :: nat where "TK_BLOB = 133"
definition TK_INTEGER :: nat where "TK_INTEGER = 134"
definition TK_VARIABLE :: nat where "TK_VARIABLE = 135"
definition TK_CASE :: nat where "TK_CASE = 136"
definition TK_WHEN :: nat where "TK_WHEN = 137"
definition TK_THEN :: nat where "TK_THEN = 138"
definition TK_ELSE :: nat where "TK_ELSE = 139"
definition TK_INDEX :: nat where "TK_INDEX = 140"
definition TK_ALTER :: nat where "TK_ALTER = 141"
definition TK_ADD :: nat where "TK_ADD = 142"
definition TK_SPACE :: nat where "TK_SPACE = 162"
definition TK_ILLEGAL :: nat where "TK_ILLEGAL = 163"

lemmas TK_defs =
  TK_SEMI_def TK_EXPLAIN_def TK_QUERY_def TK_PLAN_def TK_BEGIN_def TK_TRANSACTION_def
  TK_DEFERRED_def TK_IMMEDIATE_def TK_EXCLUSIVE_def TK_COMMIT_def TK_END_def TK_ROLLBACK_def
  TK_SAVEPOINT_def TK_RELEASE_def TK_TO_def TK_TABLE_def TK_CREATE_def TK_IF_def TK_NOT_def
  TK_EXISTS_def TK_TEMP_def TK_LP_def TK_RP_def TK_AS_def TK_WITHOUT_def TK_COMMA_def
  TK_OR_def TK_AND_def TK_IS_def TK_MATCH_def TK_LIKE_KW_def TK_BETWEEN_def TK_IN_def
  TK_ISNULL_def TK_NOTNULL_def TK_NE_def TK_EQ_def TK_GT_def TK_LE_def TK_LT_def TK_GE_def
  TK_ESCAPE_def TK_BITAND_def TK_BITOR_def TK_LSHIFT_def TK_RSHIFT_def TK_PLUS_def
  TK_MINUS_def TK_STAR_def TK_SLASH_def TK_REM_def TK_CONCAT_def TK_COLLATE_def
  TK_BITNOT_def TK_ID_def TK_INDEXED_def TK_ABORT_def TK_ACTION_def TK_AFTER_def
  TK_ANALYZE_def TK_ASC_def TK_ATTACH_def TK_BEFORE_def TK_BY_def TK_CASCADE_def TK_CAST_def
  TK_COLUMNKW_def TK_CONFLICT_def TK_DATABASE_def TK_DESC_def TK_DETACH_def TK_EACH_def
  TK_FAIL_def TK_FOR_def TK_IGNORE_def TK_INITIALLY_def TK_INSTEAD_def TK_NO_def TK_KEY_def
  TK_OF_def TK_OFFSET_def TK_PRAGMA_def TK_RAISE_def TK_RECURSIVE_def TK_REPLACE_def
  TK_RESTRICT_def TK_ROW_def TK_TRIGGER_def TK_VACUUM_def TK_VIEW_def TK_VIRTUAL_def
  TK_WITH_def TK_REINDEX_def TK_RENAME_def TK_CTIME_KW_def TK_STRING_def TK_JOIN_KW_def
  TK_CONSTRAINT_def TK_DEFAULT_def TK_NULL_def TK_PRIMARY_def TK_UNIQUE_def TK_CHECK_def
  TK_REFERENCES_def TK_AUTOINCR_def TK_ON_def TK_INSERT_def TK_DELETE_def TK_UPDATE_def
  TK_SET_def TK_DEFERRABLE_def TK_FOREIGN_def TK_DROP_def TK_UNION_def TK_ALL_def
  TK_EXCEPT_def TK_INTERSECT_def TK_SELECT_def TK_VALUES_def TK_DISTINCT_def TK_DOT_def
  TK_FROM_def TK_JOIN_def TK_USING_def TK_ORDER_def TK_GROUP_def TK_HAVING_def TK_LIMIT_def
  TK_WHERE_def TK_INTO_def TK_FLOAT_def TK_BLOB_def TK_INTEGER_def TK_VARIABLE_def
  TK_CASE_def TK_WHEN_def TK_THEN_def TK_ELSE_def TK_INDEX_def TK_ALTER_def TK_ADD_def
  TK_SPACE_def TK_ILLEGAL_def

end
