(* ===== verification/KeywordsProps.thy ===== *)
theory KeywordsProps
  imports Keywords
begin

text \<open>
  The keyword recogniser against the list of keywords it was generated from.
\<close>

definition keyword_list :: "(string \<times> nat) list" where
  "keyword_list =
    [(''REINDEX'', TK_REINDEX), (''INDEXED'', TK_INDEXED), (''INDEX'', TK_INDEX),
     (''DESC'', TK_DESC), (''ESCAPE'', TK_ESCAPE), (''EACH'', TK_EACH), (''CHECK'', TK_CHECK),
     (''KEY'', TK_KEY), (''BEFORE'', TK_BEFORE), (''FOREIGN'', TK_FOREIGN), (''FOR'', TK_FOR),
     (''IGNORE'', TK_IGNORE), (''REGEXP'', TK_LIKE_KW), (''EXPLAIN'', TK_EXPLAIN),
     (''INSTEAD'', TK_INSTEAD), (''ADD'', TK_ADD), (''DATABASE'', TK_DATABASE), (''AS'', TK_AS),
     (''SELECT'', TK_SELECT), (''TABLE'', TK_TABLE), (''LEFT'', TK_JOIN_KW), (''THEN'', TK_THEN),
     (''END'', TK_END), (''DEFERRABLE'', TK_DEFERRABLE), (''ELSE'', TK_ELSE),
     (''EXCEPT'', TK_EXCEPT), (''TRANSACTION'', TK_TRANSACTION), (''ACTION'', TK_ACTION),
     (''ON'', TK_ON), (''NATURAL'', TK_JOIN_KW), (''ALTER'', TK_ALTER), (''RAISE'', TK_RAISE),
     (''EXCLUSIVE'', TK_EXCLUSIVE), (''EXISTS'', TK_EXISTS), (''SAVEPOINT'', TK_SAVEPOINT),
     (''INTERSECT'', TK_INTERSECT), (''TRIGGER'', TK_TRIGGER), (''REFERENCES'', TK_REFERENCES),
     (''CONSTRAINT'', TK_CONSTRAINT), (''INTO'', TK_INTO), (''OFFSET'', TK_OFFSET),
     (''OF'', TK_OF), (''SET'', TK_SET), (''TEMPORARY'', TK_TEMP), (''TEMP'', TK_TEMP),
     (''OR'', TK_OR), (''UNIQUE'', TK_UNIQUE), (''QUERY'', TK_QUERY), (''WITHOUT'', TK_WITHOUT),
     (''WITH'', TK_WITH), (''OUTER'', TK_JOIN_KW), (''RELEASE'', TK_RELEASE),
     (''ATTACH'', TK_ATTACH), (''HAVING'', TK_HAVING), (''GROUP'', TK_GROUP),
     (''UPDATE'', TK_UPDATE), (''BEGIN'', TK_BEGIN), (''INNER'', TK_JOIN_KW),
     (''RECURSIVE'', TK_RECURSIVE), (''BETWEEN'', TK_BETWEEN), (''NOTNULL'', TK_NOTNULL),
     (''NOT'', TK_NOT), (''NO'', TK_NO), (''NULL'', TK_NULL), (''LIKE'', TK_LIKE_KW),
     (''CASCADE'', TK_CASCADE), (''ASC'', TK_ASC), (''DELETE'', TK_DELETE), (''CASE'', TK_CASE),
     (''COLLATE'', TK_COLLATE), (''CREATE'', TK_CREATE), (''CURRENT_DATE'', TK_CTIME_KW),
     (''DETACH'', TK_DETACH), (''IMMEDIATE'', TK_IMMEDIATE), (''JOIN'', TK_JOIN),
     (''INSERT'', TK_INSERT), (''MATCH'', TK_MATCH), (''PLAN'', TK_PLAN),
     (''ANALYZE'', TK_ANALYZE), (''PRAGMA'', TK_PRAGMA), (''ABORT'', TK_ABORT),
     (''VALUES'', TK_VALUES), (''VIRTUAL'', TK_VIRTUAL), (''LIMIT'', TK_LIMIT),
     (''WHEN'', TK_WHEN), (''WHERE'', TK_WHERE), (''RENAME'', TK_RENAME), (''AFTER'', TK_AFTER),
     (''REPLACE'', TK_REPLACE), (''AND'', TK_AND), (''DEFAULT'', TK_DEFAULT),
     (''AUTOINCREMENT'', TK_AUTOINCR), (''TO'', TK_TO), (''IN'', TK_IN), (''CAST'', TK_CAST),
     (''COLUMN'', TK_COLUMNKW), (''COMMIT'', TK_COMMIT), (''CONFLICT'', TK_CONFLICT),
     (''CROSS'', TK_JOIN_KW), (''CURRENT_TIMESTAMP'', TK_CTIME_KW),
     (''CURRENT_TIME'', TK_CTIME_KW), (''PRIMARY'', TK_PRIMARY), (''DEFERRED'', TK_DEFERRED),
     (''DISTINCT'', TK_DISTINCT), (''IS'', TK_IS), (''DROP'', TK_DROP), (''FAIL'', TK_FAIL),
     (''FROM'', TK_FROM), (''FULL'', TK_JOIN_KW), (''GLOB'', TK_LIKE_KW), (''BY'', TK_BY),
     (''IF'', TK_IF), (''ISNULL'', TK_ISNULL), (''ORDER'', TK_ORDER), (''RESTRICT'', TK_RESTRICT),
     (''RIGHT'', TK_JOIN_KW), (''ROLLBACK'', TK_ROLLBACK), (''ROW'', TK_ROW),
     (''UNION'', TK_UNION), (''USING'', TK_USING), (''VACUUM'', TK_VACUUM), (''VIEW'', TK_VIEW),
     (''INITIALLY'', TK_INITIALLY), (''ALL'', TK_ALL)]"

section \<open>The links\<close>

text \<open>The keywords that the loop visits, in order.\<close>

function chain :: "nat \<Rightarrow> nat list" where
  "chain v = (if v = 0 \<or> 124 < v then [] else (v - 1) # chain (aNext ! (v - 1)))"
  by pat_completeness auto

termination
  by (relation "measure id") (auto simp: aNext_descends not_less)

declare chain.simps [simp del]

definition hash_of :: "string \<Rightarrow> nat" where
  "hash_of w = nat ((int (lower_of (of_char (hd w))) * 4 XOR int (lower_of (of_char (last w))) * 3 XOR int (length w)) mod 127)"

lemma upt_553: "[0..<553 :: nat] = 0 # 1 # [2..<553]" and upt_124: "[0..<124 :: nat] = 0 # 1 # [2..<124]" and upt_127: "[0..<127 :: nat] = 0 # 1 # [2..<127]"
  by (simp_all add: upt_conv_Cons)

text \<open>The entries of the tables as equations.\<close>

lemma table_lengths: "length aNext = 124" "length aHash = 127" "length zText = 553" "length keyword_list = 124"
    "length aLen = 124" "length aOffset = 124" "length aCode = 124"
  by (simp_all add: aNext_def aHash_def zText_def keyword_list_def aLen_def aOffset_def aCode_def)

lemmas aNext_entries =
  trans [OF map_nth [of aNext, unfolded table_lengths] aNext_def, unfolded upt_124, simplified upt_rec_numeral, simplified]

lemmas aHash_entries =
  trans [OF map_nth [of aHash, unfolded table_lengths] aHash_def, unfolded upt_127, simplified upt_rec_numeral, simplified]

lemma keyword_hashes:
  "map (hash_of \<circ> fst) keyword_list =
    [40, 16, 74, 62, 62, 41, 73, 69, 34, 86, 78, 14, 31, 90, 16, 44, 56, 96, 23, 123, 105, 31, 60,
     54, 64, 79, 18, 73, 117, 124, 88, 99, 51, 76, 26, 114, 2, 28, 91, 110, 103, 13, 20, 51, 5,
     105, 126, 43, 8, 97, 112, 97, 59, 20, 74, 126, 72, 120, 111, 70, 124, 104, 120, 121, 28,
     37, 47, 58, 40, 37, 38, 48, 47, 3, 103, 0, 10, 15, 45, 102, 94, 8, 28, 106, 19, 119, 98,
     88, 97, 44, 76, 86, 32, 109, 85, 65, 87, 89, 81, 78, 48, 45, 53, 69, 1, 69, 89, 92, 89,
     63, 98, 21, 103, 112, 29, 18, 2, 47, 28, 101, 26, 58, 71, 68]"
  by (simp add: keyword_list_def hash_of_def lower_of_def)

lemma hash_chains:
  "list_all2 (\<lambda>h k. k \<in> set (chain (aHash ! h)))
    [40, 16, 74, 62, 62, 41, 73, 69, 34, 86, 78, 14, 31, 90, 16, 44, 56, 96, 23, 123, 105, 31, 60,
     54, 64, 79, 18, 73, 117, 124, 88, 99, 51, 76, 26, 114, 2, 28, 91, 110, 103, 13, 20, 51, 5,
     105, 126, 43, 8, 97, 112, 97, 59, 20, 74, 126, 72, 120, 111, 70, 124, 104, 120, 121, 28,
     37, 47, 58, 40, 37, 38, 48, 47, 3, 103, 0, 10, 15, 45, 102, 94, 8, 28, 106, 19, 119, 98,
     88, 97, 44, 76, 86, 32, 109, 85, 65, 87, 89, 81, 78, 48, 45, 53, 69, 1, 69, 89, 92, 89,
     63, 98, 21, 103, 112, 29, 18, 2, 47, 28, 101, 26, 58, 71, 68]
    [0..<124]"
  unfolding upt_124 by (simp add: upt_rec_numeral aHash_entries chain.simps aNext_entries)

section \<open>The texts\<close>

lemmas zText_entries =
  trans [OF map_nth [of zText, unfolded table_lengths] zText_def, unfolded upt_553, simplified upt_rec_numeral, simplified]

lemma keyword_texts:
  "list_all2 (\<lambda>(off, l) (w, t). off + l \<le> 553 \<and> l = length w \<and> map ((!) zText) [off..<off + l] = ascii w)
    (zip aOffset aLen) keyword_list"
  unfolding keyword_list_def aOffset_def aLen_def
  by (simp add: upt_rec_numeral upt_from_0_1 zText_entries ascii_def)

lemma keyword_codes: "aCode = map snd keyword_list"
  by (simp add: aCode_def keyword_list_def)

lemma keywords_distinct: "distinct (map fst keyword_list)"
  by (simp add: keyword_list_def)


text \<open>What the tables say of keyword \<^theory_text>\<open>i\<close>.\<close>

lemma keyword_entry:
  assumes "i < 124"
  shows "aLen ! i = length (fst (keyword_list ! i))"
    "aOffset ! i + aLen ! i \<le> 553"
    "map ((!) zText) [aOffset ! i..<aOffset ! i + aLen ! i] = ascii (fst (keyword_list ! i))"
    "aCode ! i = snd (keyword_list ! i)"
    "i \<in> set (chain (aHash ! hash_of (fst (keyword_list ! i))))"
proof -
  have z: "zip aOffset aLen ! i = (aOffset ! i, aLen ! i)" and l: "i < length (zip aOffset aLen)"
    using assms by (simp_all add: table_lengths)
  have e: "aOffset ! i + aLen ! i \<le> 553 \<and> aLen ! i = length (fst (keyword_list ! i))
      \<and> map ((!) zText) [aOffset ! i..<aOffset ! i + aLen ! i] = ascii (fst (keyword_list ! i))"
    by (rule list_all2_nthD [OF keyword_texts l, unfolded z split_beta fst_conv snd_conv])
  from e show "aLen ! i = length (fst (keyword_list ! i))" by blast
  from e show "aOffset ! i + aLen ! i \<le> 553" by blast
  from e show "map ((!) zText) [aOffset ! i..<aOffset ! i + aLen ! i] = ascii (fst (keyword_list ! i))" by blast
  show "aCode ! i = snd (keyword_list ! i)" using assms by (simp add: keyword_codes table_lengths)
  have "map (hash_of \<circ> fst) keyword_list ! i = hash_of (fst (keyword_list ! i))"
    using assms by (simp add: table_lengths)
  then show "i \<in> set (chain (aHash ! hash_of (fst (keyword_list ! i))))"
    using list_all2_nthD2 [OF hash_chains, of i] assms by (simp add: keyword_hashes)
qed

section \<open>The loop\<close>

lemma keyword_loop_chain:
  "keyword_loop z n v = find (\<lambda>i. aLen ! i = n \<and> text_match z (drop (aOffset ! i) zText) n) (chain v)"
proof (induction z n v rule: keyword_loop.induct)
  case (1 z n v)
  then show ?case
    by (cases "v = 0 \<or> 124 < v")
      (auto simp: keyword_loop.simps [of z n v] chain.simps [of v] Let_def)
qed

lemma chain_range: "i \<in> set (chain v) \<Longrightarrow> i < 124"
proof (induction v rule: chain.induct)
  case (1 v)
  then show ?case by (cases "v = 0 \<or> 124 < v") (auto simp: chain.simps [of v])
qed

lemma text_match_map:
  "n \<le> length z \<Longrightarrow> n \<le> length k \<Longrightarrow>
   text_match z k n \<longleftrightarrow> map (\<lambda>c. c AND NOT 0x20) (take n z) = take n k"
proof (induction z k n rule: text_match.induct)
  case (2 z k n)
  then show ?case by (cases z; cases k) simp_all
qed simp

text \<open>Letters and the underscore, the only characters of keywords.\<close>

definition kwchar :: "u8 \<Rightarrow> bool" where
  "kwchar c \<longleftrightarrow> sqlite3Isalpha c \<or> c = 95"

lemma kwchar_cases:
  assumes "kwchar c"
  obtains "65 \<le> unat c" "unat c \<le> 90" | "97 \<le> unat c" "unat c \<le> 122" | "c = 95"
  using assms by (auto simp: kwchar_def Isalpha_spec word_le_nat_alt)

lemma letter_bits: "\<forall>n\<in>set [65..<91]. (of_nat n :: u8) AND NOT 0x20 = of_nat n \<and> (of_nat (n + 32) :: u8) AND NOT 0x20 = of_nat n"
  by (simp add: upt_rec_numeral)

lemma upper_bits:
  assumes "kwchar c"
  shows "c AND NOT 0x20 = sqlite3Toupper c" "lower_of (unat (c AND NOT 0x20)) = lower_of (unat c)"
proof -
  have *: "c AND NOT 0x20 = sqlite3Toupper c \<and> lower_of (unat (c AND NOT 0x20)) = lower_of (unat c)"
    using assms
  proof (cases rule: kwchar_cases)
    case 1
    then have "unat c \<in> set [65..<91]" unfolding set_upt by simp
    from bspec [OF letter_bits this] have "c AND NOT 0x20 = c" by simp
    moreover have "class_of (unat c) AND 0x20 = 0" using 1 by (simp add: class_of_def)
    ultimately show ?thesis by (simp add: sqlite3Toupper_def ctype_class)
  next
    case 2
    then have n: "unat c - 32 \<in> set [65..<91]" "unat c - 32 + 32 = unat c" unfolding set_upt by auto
    then have "c AND NOT 0x20 = of_nat (unat c - 32)"
      using bspec [OF letter_bits n(1)] n(2) by simp
    moreover have "unat (of_nat (unat c - 32) :: u8) = unat c - 32"
      using byte_lt [of c] by (simp add: unat_of_nat)
    moreover have "class_of (unat c) AND 0x20 = 0x20" using 2 by (simp add: class_of_def)
    ultimately show ?thesis using 2 by (simp add: sqlite3Toupper_def ctype_class lower_of_def) arith
  next
    case 3
    then show ?thesis by (simp add: sqlite3Toupper_def ctype_class class_of_def lower_of_def)
  qed
  then show "c AND NOT 0x20 = sqlite3Toupper c" "lower_of (unat (c AND NOT 0x20)) = lower_of (unat c)"
    by blast+
qed

lemma keyword_hash_upper:
  assumes "\<forall>c\<in>set z. kwchar c" "z \<noteq> []" "map sqlite3Toupper z = ascii w"
  shows "keyword_hash z (length z) = hash_of w"
proof -
  have w: "w \<noteq> []" "length w = length z" using assms(2,3) by (auto simp: ascii_def dest: map_eq_imp_length_eq)
  have one: "lower_of (unat (z ! k)) = lower_of (of_char (w ! k))" if k: "k < length z" for k
  proof -
    have "sqlite3Toupper (z ! k) = of_nat (of_char (w ! k))"
      using assms(3) k w(2) by (metis ascii_def nth_map)
    moreover have "unat (of_nat (of_char (w ! k)) :: u8) = of_char (w ! k)"
      using nat_of_char_less_256 [of "w ! k"] by (simp add: unat_of_nat)
    ultimately show ?thesis using upper_bits [of "z ! k"] assms(1) k by (metis nth_mem)
  qed
  have low: "unat (charMap c) = lower_of (unat c)" for c
  proof -
    have "lower_of (unat c) < 256" using byte_lt [of c] by (simp add: lower_of_def)
    then show ?thesis using Tolower_spec [of c] by (simp add: charMap_def sqlite3Tolower_def unat_of_nat)
  qed
  show ?thesis
    using one [of 0] one [of "length z - 1"] assms(2) w
    by (simp add: keyword_hash_def hash_of_def low char_at_def hd_conv_nth last_conv_nth)
qed

lemma map_nth_upt: "off + l \<le> length t \<Longrightarrow> map ((!) t) [off..<off + l] = take l (drop off t)"
  by (rule nth_equalityI) simp_all

lemma keyword_match:
  assumes "\<forall>c\<in>set z. kwchar c" "i < 124"
  shows "aLen ! i = length z \<and> text_match z (drop (aOffset ! i) zText) (length z)
    \<longleftrightarrow> map sqlite3Toupper z = ascii (fst (keyword_list ! i))"
proof -
  have m: "map (\<lambda>c. c AND NOT 0x20) z = map sqlite3Toupper z" using assms(1) upper_bits by simp
  have k: "ascii (fst (keyword_list ! i)) = take (aLen ! i) (drop (aOffset ! i) zText)"
    using keyword_entry [OF assms(2)] map_nth_upt [of "aOffset ! i" "aLen ! i" zText] by (simp add: table_lengths)
  have l: "length (ascii (fst (keyword_list ! i))) = aLen ! i"
    using keyword_entry [OF assms(2)] by (simp add: ascii_def)
  show ?thesis
  proof (cases "aLen ! i = length z")
    case True
    have "length z \<le> length (drop (aOffset ! i) zText)"
      using keyword_entry(2) [OF assms(2)] True by (simp add: table_lengths)
    then show ?thesis using text_match_map [of "length z" z "drop (aOffset ! i) zText"] k True
      by (simp add: m [symmetric])
  next
    case False
    then show ?thesis using l by (metis length_map)
  qed
qed

lemma ascii_inj: "ascii v = ascii w \<Longrightarrow> v = w"
proof -
  have "inj (\<lambda>c :: char. of_nat (of_char c) :: u8)"
  proof (rule injI)
    fix c d :: char assume "(of_nat (of_char c) :: u8) = of_nat (of_char d)"
    then have "unat (of_nat (of_char c) :: u8) = unat (of_nat (of_char d) :: u8)" by simp
    then show "c = d" by (simp add: unat_of_nat)
  qed
  then show "ascii v = ascii w \<Longrightarrow> v = w" unfolding ascii_def by (metis inj_map_eq_map)
qed

lemma keyword_unique:
  "i < 124 \<Longrightarrow> j < 124 \<Longrightarrow> fst (keyword_list ! i) = fst (keyword_list ! j) \<Longrightarrow> i = j"
  using keywords_distinct by (simp add: distinct_conv_nth table_lengths) blast

lemma keyword_lengths: "\<forall>(w, t)\<in>set keyword_list. 2 \<le> length w"
  by (simp add: keyword_list_def)

lemma find_unique:
  assumes "i \<in> set xs" "P i" "\<And>j. j \<in> set xs \<Longrightarrow> P j \<Longrightarrow> j = i"
  shows "find P xs = Some i"
proof (cases "find P xs")
  case None
  then show ?thesis using assms(1,2) by (auto simp: find_None_iff)
next
  case (Some j)
  then have "j \<in> set xs" "P j" by (auto simp: find_Some_iff)
  then show ?thesis using assms(3) Some by simp
qed

definition keyword_spec :: "bytes \<Rightarrow> nat" where
  "keyword_spec z =
     (case map_of (map (\<lambda>(w, t). (ascii w, t)) keyword_list) z of Some t \<Rightarrow> t | None \<Rightarrow> TK_ID)"

lemma keyword_spec_entry: "i < 124 \<Longrightarrow> keyword_spec (ascii (fst (keyword_list ! i))) = snd (keyword_list ! i)"
proof -
  assume i: "i < 124"
  let ?l = "map (\<lambda>(w, t). (ascii w, t)) keyword_list"
  have "map fst ?l = map ascii (map fst keyword_list)" by (simp add: split_beta comp_def)
  then have d: "distinct (map fst ?l)"
    using keywords_distinct ascii_inj by (metis distinct_map inj_onI)
  have "?l ! i \<in> set ?l" using i by (intro nth_mem) (simp add: table_lengths)
  then have "(ascii (fst (keyword_list ! i)), snd (keyword_list ! i)) \<in> set ?l"
    using i by (simp add: table_lengths split_beta)
  then have "map_of ?l (ascii (fst (keyword_list ! i))) = Some (snd (keyword_list ! i))"
    using d by simp
  then show ?thesis by (simp add: keyword_spec_def)
qed

lemma keyword_spec_none: "(\<And>i. i < 124 \<Longrightarrow> z \<noteq> ascii (fst (keyword_list ! i))) \<Longrightarrow> keyword_spec z = TK_ID"
proof -
  let ?l = "map (\<lambda>(w, t). (ascii w, t)) keyword_list"
  assume n: "\<And>i. i < 124 \<Longrightarrow> z \<noteq> ascii (fst (keyword_list ! i))"
  have "\<forall>p\<in>set keyword_list. z \<noteq> ascii (fst p)"
    using n by (metis in_set_conv_nth table_lengths(4))
  then have "z \<notin> fst ` set ?l" by (force simp: split_beta)
  then have "map_of ?l z = None" by (auto simp: map_of_eq_None_iff)
  then show ?thesis by (simp add: keyword_spec_def)
qed

text \<open>
  C21: The keyword recogniser answers for a text of letters and underscores as a search of the list
  of keywords does: upper and lower case are the same, a text equal to a keyword gets its token
  type, and any other text the type of an identifier. The hash links lead to every keyword.
\<close>
theorem keyword_code_correct:
  assumes "\<forall>c\<in>set z. kwchar c"
  shows "sqlite3KeywordCode z (length z) = keyword_spec (map sqlite3Toupper z)"
proof (cases "\<exists>i<124. map sqlite3Toupper z = ascii (fst (keyword_list ! i))")
  case True
  then obtain i where i: "i < 124" "map sqlite3Toupper z = ascii (fst (keyword_list ! i))" by blast
  have "length z = length (fst (keyword_list ! i))" using i(2) by (metis ascii_def length_map)
  moreover have "keyword_list ! i \<in> set keyword_list" using i(1) by (simp add: table_lengths)
  ultimately have l: "2 \<le> length z" using keyword_lengths by (auto simp: split_beta)
  have h: "keyword_hash z (length z) = hash_of (fst (keyword_list ! i))"
    using l by (intro keyword_hash_upper [OF assms _ i(2)]) auto
  have "keyword_loop z (length z) (aHash ! keyword_hash z (length z)) = Some i"
    unfolding keyword_loop_chain
  proof (rule find_unique)
    show "i \<in> set (chain (aHash ! keyword_hash z (length z)))" using keyword_entry(5) [OF i(1)] h by simp
    show "aLen ! i = length z \<and> text_match z (drop (aOffset ! i) zText) (length z)"
      using keyword_match [OF assms i(1)] i(2) by simp
    fix j assume "j \<in> set (chain (aHash ! keyword_hash z (length z)))"
      "aLen ! j = length z \<and> text_match z (drop (aOffset ! j) zText) (length z)"
    then show "j = i" using keyword_match [OF assms] chain_range keyword_unique i ascii_inj by metis
  qed
  then show ?thesis
    using l keyword_spec_entry [OF i(1)] keyword_entry(4) [OF i(1)] i(2)
    by (simp add: sqlite3KeywordCode_def keywordCode_def)
next
  case False
  have "keyword_loop z (length z) v = None" for v
    unfolding keyword_loop_chain find_None_iff using keyword_match [OF assms] chain_range False by blast
  moreover have "keyword_spec (map sqlite3Toupper z) = TK_ID" using False by (intro keyword_spec_none) blast
  ultimately show ?thesis by (simp add: sqlite3KeywordCode_def keywordCode_def)
qed

theorem keyword_code_correct_witness:
  "sqlite3KeywordCode (ascii ''Select'') 6 = TK_SELECT \<and> sqlite3KeywordCode (ascii ''selects'') 7 = TK_ID"
proof -
  have l: "length (ascii ''Select'') = 6" "length (ascii ''selects'') = 7" by (simp_all add: ascii_def)
  have "\<forall>c\<in>set (ascii ''Select''). kwchar c" "\<forall>c\<in>set (ascii ''selects''). kwchar c"
    by (simp_all add: ascii_def kwchar_def Isalpha_spec)
  from keyword_code_correct [OF this(1)] keyword_code_correct [OF this(2)]
  have "sqlite3KeywordCode (ascii ''Select'') 6 = keyword_spec (map sqlite3Toupper (ascii ''Select''))"
    "sqlite3KeywordCode (ascii ''selects'') 7 = keyword_spec (map sqlite3Toupper (ascii ''selects''))"
    unfolding l by blast+
  moreover have "keyword_spec (map sqlite3Toupper (ascii ''Select'')) = TK_SELECT"
    "keyword_spec (map sqlite3Toupper (ascii ''selects'')) = TK_ID"
    by (simp_all add: ascii_def keyword_spec_def keyword_list_def sqlite3Toupper_def ctype_class class_of_def)
  ultimately show ?thesis by simp
qed

end
