(* ===== verification/Tokenize.thy ===== *)
theory Tokenize
  imports Keywords
begin

text \<open>
  \<^verbatim>\<open>sqlite/tokenize.c\<close>: the next token of an SQL text, its length and its type. A text is
  its bytes up to the terminator. The cases of the large switch that have a loop are definitions of
  their own. Characters are written as their codes: \<^verbatim>\<open>(\<close> 40, \<^verbatim>\<open>)\<close> 41,
  \<^verbatim>\<open>*\<close> 42, \<^verbatim>\<open>+\<close> 43, \<^verbatim>\<open>-\<close> 45, \<^verbatim>\<open>.\<close> 46, \<^verbatim>\<open>/\<close> 47, \<^verbatim>\<open>:\<close> 58,
  \<^verbatim>\<open><\<close> 60, \<^verbatim>\<open>=\<close> 61, \<^verbatim>\<open>>\<close> 62, \<^verbatim>\<open>]\<close> 93, \<^verbatim>\<open>|\<close> 124, the single quote 39.
\<close>

section \<open>Character classes\<close>

definition CC_X :: nat where "CC_X = 0"
definition CC_KYWD :: nat where "CC_KYWD = 1"
definition CC_ID :: nat where "CC_ID = 2"
definition CC_DIGIT :: nat where "CC_DIGIT = 3"
definition CC_DOLLAR :: nat where "CC_DOLLAR = 4"
definition CC_VARALPHA :: nat where "CC_VARALPHA = 5"
definition CC_VARNUM :: nat where "CC_VARNUM = 6"
definition CC_SPACE :: nat where "CC_SPACE = 7"
definition CC_QUOTE :: nat where "CC_QUOTE = 8"
definition CC_QUOTE2 :: nat where "CC_QUOTE2 = 9"
definition CC_PIPE :: nat where "CC_PIPE = 10"
definition CC_MINUS :: nat where "CC_MINUS = 11"
definition CC_LT :: nat where "CC_LT = 12"
definition CC_GT :: nat where "CC_GT = 13"
definition CC_EQ :: nat where "CC_EQ = 14"
definition CC_BANG :: nat where "CC_BANG = 15"
definition CC_SLASH :: nat where "CC_SLASH = 16"
definition CC_LP :: nat where "CC_LP = 17"
definition CC_RP :: nat where "CC_RP = 18"
definition CC_SEMI :: nat where "CC_SEMI = 19"
definition CC_PLUS :: nat where "CC_PLUS = 20"
definition CC_STAR :: nat where "CC_STAR = 21"
definition CC_PERCENT :: nat where "CC_PERCENT = 22"
definition CC_COMMA :: nat where "CC_COMMA = 23"
definition CC_AND :: nat where "CC_AND = 24"
definition CC_TILDA :: nat where "CC_TILDA = 25"
definition CC_DOT :: nat where "CC_DOT = 26"
definition CC_ILLEGAL :: nat where "CC_ILLEGAL = 27"

lemmas CC_defs =
  CC_X_def CC_KYWD_def CC_ID_def CC_DIGIT_def CC_DOLLAR_def CC_VARALPHA_def CC_VARNUM_def
  CC_SPACE_def CC_QUOTE_def CC_QUOTE2_def CC_PIPE_def CC_MINUS_def CC_LT_def CC_GT_def CC_EQ_def
  CC_BANG_def CC_SLASH_def CC_LP_def CC_RP_def CC_SEMI_def CC_PLUS_def CC_STAR_def CC_PERCENT_def
  CC_COMMA_def CC_AND_def CC_TILDA_def CC_DOT_def CC_ILLEGAL_def

definition aiClass :: "nat list" where
  "aiClass =
    [27, 27, 27, 27, 27, 27, 27, 27, 27, 7, 7, 27, 7, 7, 27, 27,
     27, 27, 27, 27, 27, 27, 27, 27, 27, 27, 27, 27, 27, 27, 27, 27,
     7, 15, 8, 5, 4, 22, 24, 8, 17, 18, 21, 20, 23, 11, 26, 16,
     3, 3, 3, 3, 3, 3, 3, 3, 3, 3, 5, 19, 12, 14, 13, 6,
     5, 1, 1, 1, 1, 1, 1, 1, 1, 1, 1, 1, 1, 1, 1, 1,
     1, 1, 1, 1, 1, 1, 1, 1, 0, 1, 1, 9, 27, 27, 27, 1,
     8, 1, 1, 1, 1, 1, 1, 1, 1, 1, 1, 1, 1, 1, 1, 1,
     1, 1, 1, 1, 1, 1, 1, 1, 0, 1, 1, 27, 10, 27, 25, 27,
     2, 2, 2, 2, 2, 2, 2, 2, 2, 2, 2, 2, 2, 2, 2, 2,
     2, 2, 2, 2, 2, 2, 2, 2, 2, 2, 2, 2, 2, 2, 2, 2,
     2, 2, 2, 2, 2, 2, 2, 2, 2, 2, 2, 2, 2, 2, 2, 2,
     2, 2, 2, 2, 2, 2, 2, 2, 2, 2, 2, 2, 2, 2, 2, 2,
     2, 2, 2, 2, 2, 2, 2, 2, 2, 2, 2, 2, 2, 2, 2, 2,
     2, 2, 2, 2, 2, 2, 2, 2, 2, 2, 2, 2, 2, 2, 2, 2,
     2, 2, 2, 2, 2, 2, 2, 2, 2, 2, 2, 2, 2, 2, 2, 2,
     2, 2, 2, 2, 2, 2, 2, 2, 2, 2, 2, 2, 2, 2, 2, 2]"

definition char_class :: "u8 \<Rightarrow> nat" where
  "char_class c = aiClass ! unat c"

section \<open>Loops\<close>

text \<open>
  \<^verbatim>\<open>for(; p(z[i]); i++)\<close>, for a test that fails at the terminator.
\<close>

definition scan_while :: "(u8 \<Rightarrow> bool) \<Rightarrow> bytes \<Rightarrow> nat \<Rightarrow> nat" where
  "scan_while p z i = i + length (takeWhile p (drop i z))"

function slash_loop :: "u8 \<Rightarrow> bytes \<Rightarrow> nat \<Rightarrow> u8 \<times> nat" where
  "slash_loop c z i =
     (if c \<noteq> 42 \<or> char_at z i \<noteq> 47
      then (let c' = char_at z i in if c' \<noteq> 0 then slash_loop c' z (i + 1) else (c', i))
      else (c, i))"
  by pat_completeness auto

termination
  by (relation "measure (\<lambda>(c, z, i). length z - i)") (auto intro!: scan_measure)

function quote_loop :: "u8 \<Rightarrow> bytes \<Rightarrow> nat \<Rightarrow> u8 \<times> nat" where
  "quote_loop delim z i =
     (if char_at z i = 0 then (char_at z i, i)
      else if char_at z i = delim
      then (if char_at z (i + 1) = delim then quote_loop delim z (i + 2) else (char_at z i, i))
      else quote_loop delim z (i + 1))"
  by pat_completeness auto

termination
  by (relation "measure (\<lambda>(d, z, i). length z - i)") (auto intro!: scan_measure)

function bracket_loop :: "u8 \<Rightarrow> bytes \<Rightarrow> nat \<Rightarrow> u8 \<times> nat" where
  "bracket_loop c z i =
     (if c \<noteq> 93
      then (let c' = char_at z i in if c' \<noteq> 0 then bracket_loop c' z (i + 1) else (c', i))
      else (c, i))"
  by pat_completeness auto

termination
  by (relation "measure (\<lambda>(c, z, i). length z - i)") (auto intro!: scan_measure)

text \<open>A variable: its end, the number of identifier characters in it, its token type.\<close>

function variable_loop :: "bytes \<Rightarrow> nat \<Rightarrow> nat \<Rightarrow> nat \<times> nat \<times> nat" where
  "variable_loop z i n =
     (let c = char_at z i in
      if c = 0 then (i, n, TK_VARIABLE)
      else if IdChar c then variable_loop z (i + 1) (n + 1)
      else if c = 40 \<and> 0 < n then
        (let j = scan_while (\<lambda>c. c \<noteq> 0 \<and> \<not> sqlite3Isspace c \<and> c \<noteq> 41) z (i + 1) in
         if char_at z j = 41 then (j + 1, n, TK_VARIABLE) else (j, n, TK_ILLEGAL))
      else if c = 58 \<and> char_at z (i + 1) = 58 then variable_loop z (i + 2) n
      else (i, n, TK_VARIABLE))"
  by pat_completeness auto

termination
  by (relation "measure (\<lambda>(z, i, n). length z - i)") (auto intro!: scan_measure)

declare slash_loop.simps [simp del] quote_loop.simps [simp del] bracket_loop.simps [simp del]
  variable_loop.simps [simp del]

section \<open>The cases with loops\<close>

text \<open>Each gives the length and the type of the token.\<close>

definition token_slash :: "bytes \<Rightarrow> nat \<times> nat" where
  "token_slash z =
     (if char_at z 1 \<noteq> 42 \<or> char_at z 2 = 0 then (1, TK_SLASH)
      else (let (c, i) = slash_loop (char_at z 2) z 3 in
            (if c \<noteq> 0 then i + 1 else i, TK_SPACE)))"

definition token_quote :: "bytes \<Rightarrow> nat \<times> nat" where
  "token_quote z =
     (let (c, i) = quote_loop (char_at z 0) z 1 in
      if c = 39 then (i + 1, TK_STRING)
      else if c \<noteq> 0 then (i + 1, TK_ID)
      else (i, TK_ILLEGAL))"

definition number_fraction :: "bytes \<Rightarrow> nat \<Rightarrow> nat \<times> nat" where
  "number_fraction z i =
     (if char_at z i = 46 then (scan_while sqlite3Isdigit z (i + 1), TK_FLOAT) else (i, TK_INTEGER))"

definition number_exponent :: "bytes \<Rightarrow> nat \<Rightarrow> nat \<Rightarrow> nat \<times> nat" where
  "number_exponent z i t =
     (if (char_at z i = 101 \<or> char_at z i = 69)
        \<and> (sqlite3Isdigit (char_at z (i + 1))
           \<or> (char_at z (i + 1) = 43 \<or> char_at z (i + 1) = 45) \<and> sqlite3Isdigit (char_at z (i + 2)))
      then (scan_while sqlite3Isdigit z (i + 2), TK_FLOAT) else (i, t))"

definition token_number :: "bytes \<Rightarrow> nat \<times> nat" where
  "token_number z =
     (if char_at z 0 = 48 \<and> (char_at z 1 = 120 \<or> char_at z 1 = 88) \<and> sqlite3Isxdigit (char_at z 2)
      then (scan_while sqlite3Isxdigit z 3, TK_INTEGER)
      else
        (let (i, t) = number_fraction z (scan_while sqlite3Isdigit z 0);
             (i, t) = number_exponent z i t
         in (scan_while IdChar z i, if IdChar (char_at z i) then TK_ILLEGAL else t)))"

definition token_bracket :: "bytes \<Rightarrow> nat \<times> nat" where
  "token_bracket z =
     (let (c, i) = bracket_loop (char_at z 0) z 1 in (i, if c = 93 then TK_ID else TK_ILLEGAL))"

definition token_variable :: "bytes \<Rightarrow> nat \<times> nat" where
  "token_variable z =
     (let (i, n, t) = variable_loop z 1 0 in (i, if n = 0 then TK_ILLEGAL else t))"

text \<open>An identifier of which \<^theory_text>\<open>i\<close> characters are known.\<close>

definition token_id :: "bytes \<Rightarrow> nat \<Rightarrow> nat \<times> nat" where
  "token_id z i = (scan_while IdChar z i, TK_ID)"

definition token_keyword :: "bytes \<Rightarrow> nat \<times> nat" where
  "token_keyword z =
     (let i = scan_while (\<lambda>c. char_class c \<le> CC_KYWD) z 1 in
      if IdChar (char_at z i) then token_id z (i + 1) else keywordCode z i TK_ID)"

definition token_blob :: "bytes \<Rightarrow> nat \<times> nat" where
  "token_blob z =
     (let i = scan_while sqlite3Isxdigit z 2;
          (i, t) = (if char_at z i \<noteq> 39 \<or> i mod 2 \<noteq> 0
                    then (scan_while (\<lambda>c. c \<noteq> 0 \<and> c \<noteq> 39) z i, TK_ILLEGAL) else (i, TK_BLOB))
      in (if char_at z i \<noteq> 0 then i + 1 else i, t))"

section \<open>The tokenizer\<close>

definition sqlite3GetToken :: "bytes \<Rightarrow> nat \<times> nat" where
  "sqlite3GetToken z =
     (let k = char_class (char_at z 0); c = char_at z 1 in
      if k = CC_SPACE then (scan_while sqlite3Isspace z 1, TK_SPACE)
      else if k = CC_MINUS then
        (if c = 45 then (scan_while (\<lambda>c. c \<noteq> 0 \<and> c \<noteq> 10) z 2, TK_SPACE) else (1, TK_MINUS))
      else if k = CC_LP then (1, TK_LP)
      else if k = CC_RP then (1, TK_RP)
      else if k = CC_SEMI then (1, TK_SEMI)
      else if k = CC_PLUS then (1, TK_PLUS)
      else if k = CC_STAR then (1, TK_STAR)
      else if k = CC_SLASH then token_slash z
      else if k = CC_PERCENT then (1, TK_REM)
      else if k = CC_EQ then (if c = 61 then 2 else 1, TK_EQ)
      else if k = CC_LT then
        (if c = 61 then (2, TK_LE) else if c = 62 then (2, TK_NE) else if c = 60 then (2, TK_LSHIFT) else (1, TK_LT))
      else if k = CC_GT then
        (if c = 61 then (2, TK_GE) else if c = 62 then (2, TK_RSHIFT) else (1, TK_GT))
      else if k = CC_BANG then (if c \<noteq> 61 then (1, TK_ILLEGAL) else (2, TK_NE))
      else if k = CC_PIPE then (if c \<noteq> 124 then (1, TK_BITOR) else (2, TK_CONCAT))
      else if k = CC_COMMA then (1, TK_COMMA)
      else if k = CC_AND then (1, TK_BITAND)
      else if k = CC_TILDA then (1, TK_BITNOT)
      else if k = CC_QUOTE then token_quote z
      else if k = CC_DOT then (if \<not> sqlite3Isdigit c then (1, TK_DOT) else token_number z)
      else if k = CC_DIGIT then token_number z
      else if k = CC_QUOTE2 then token_bracket z
      else if k = CC_VARNUM then (scan_while sqlite3Isdigit z 1, TK_VARIABLE)
      else if k = CC_DOLLAR \<or> k = CC_VARALPHA then token_variable z
      else if k = CC_KYWD then token_keyword z
      else if k = CC_X then (if c = 39 then token_blob z else token_id z 1)
      else if k = CC_ID then token_id z 1
      else (1, TK_ILLEGAL))"

end
