(* ===== verification/UtilText.thy ===== *)
theory UtilText
  imports Ctype
begin

text \<open>
  Texts in \<^verbatim>\<open>sqlite/util.c\<close>: quotes removed, hexadecimal digits, and integers read from
  decimal and hexadecimal literals. A 64-bit signed integer is a word, read by \<^theory_text>\<open>sint\<close>.
\<close>

section \<open>Quotes\<close>

definition sqlite3Strlen30 :: "bytes option \<Rightarrow> nat" where
  "sqlite3Strlen30 z = (case z of None \<Rightarrow> 0 | Some s \<Rightarrow> nat (0x3fffffff AND c_int (int (length s))))"

text \<open>
  The loop of \<^verbatim>\<open>sqlite3Dequote\<close> from position \<^theory_text>\<open>i\<close>: the bytes it stores at
  \<^theory_text>\<open>j\<close> and on. It writes at or before the byte it reads. \<^theory_text>\<open>None\<close> is a read past the
  terminator, which an assertion of the code rules out.
\<close>

function dequote_loop :: "u8 \<Rightarrow> bytes \<Rightarrow> nat \<Rightarrow> bytes option" where
  "dequote_loop quote z i =
     (if char_at z i = 0 then None
      else if char_at z i = quote then
        (if char_at z (i + 1) = quote then map_option ((#) quote) (dequote_loop quote z (i + 2)) else Some [])
      else map_option ((#) (char_at z i)) (dequote_loop quote z (i + 1)))"
  by pat_completeness auto

termination
  by (relation "measure (\<lambda>(q, z, i). length z - i)") (auto intro!: scan_measure)

declare dequote_loop.simps [simp del]

definition sqlite3Dequote :: "bytes \<Rightarrow> bytes option" where
  "sqlite3Dequote z =
     (let quote = char_at z 0 in
      if \<not> sqlite3Isquote quote then Some z
      else dequote_loop (if quote = 91 then 93 else quote) z 1)"

section \<open>Hexadecimal digits\<close>

definition sqlite3HexToInt :: "u8 \<Rightarrow> u8" where
  "sqlite3HexToInt h = (let h' = (ucast h :: u32) + 9 * (1 AND drop_bit 6 (ucast h)) in ucast (h' AND 0xf))"

text \<open>The blob of \<^theory_text>\<open>n\<close> characters of hexadecimal digits.\<close>

fun hex_pairs :: "bytes \<Rightarrow> nat \<Rightarrow> nat \<Rightarrow> bytes" where
  "hex_pairs z i 0 = []"
| "hex_pairs z i (Suc k) =
     (push_bit 4 (sqlite3HexToInt (char_at z i)) OR sqlite3HexToInt (char_at z (i + 1))) # hex_pairs z (i + 2) k"

definition sqlite3HexToBlob :: "bool \<Rightarrow> bytes \<Rightarrow> nat \<Rightarrow> bytes option" where
  "sqlite3HexToBlob malloc_ok z n =
     (if malloc_ok then Some (hex_pairs z 0 (n div 2) @ [0]) else None)"

section \<open>Decimal integers of 64 bits\<close>

definition LARGEST_INT64 :: u64 where "LARGEST_INT64 = 0x7fffffffffffffff"
definition SMALLEST_INT64 :: u64 where "SMALLEST_INT64 = 0x8000000000000000"

fun pow63_loop :: "bytes \<Rightarrow> bytes \<Rightarrow> int" where
  "pow63_loop zs (p # ps) =
     (let c = (int (unat (char_at zs 0)) - int (unat p)) * 10 in
      if c = 0 then pow63_loop (tl zs) ps else c)"
| "pow63_loop zs [] = 0"

definition compare2pow63 :: "bytes \<Rightarrow> int" where
  "compare2pow63 zNum =
     (let c = pow63_loop zNum (ascii ''922337203685477580'') in
      if c = 0 then int (unat (char_at zNum 18)) - 56 else c)"

text \<open>
  In UTF-16 the text ends at the first unit whose high byte is not 0. The units from
  \<^theory_text>\<open>zNum\<close> to \<^theory_text>\<open>zEnd\<close>, as their low bytes, and whether there are others.
\<close>

function utf16_end :: "bytes \<Rightarrow> nat \<Rightarrow> nat \<Rightarrow> nat" where
  "utf16_end z len i = (if i < len \<and> z ! i = 0 then utf16_end z len (i + 2) else i)"
  by pat_completeness auto

termination
  by (relation "measure (\<lambda>(z, len, i). len - i)") auto

declare utf16_end.simps [simp del]

definition num_units :: "bytes \<Rightarrow> nat \<Rightarrow> nat \<Rightarrow> bytes \<times> bool" where
  "num_units z len enc =
     (if enc = SQLITE_UTF8 then (take len z, False)
      else (let i = utf16_end z len (3 - enc); zEnd = i XOR 1; zNum = enc mod 2
            in (map ((!) z) (filter (\<lambda>k. k mod 2 = zNum) [zNum..<zEnd]), i < len)))"

definition digit :: "u8 \<Rightarrow> bool" where
  "digit c \<longleftrightarrow> 48 \<le> c \<and> c \<le> 57"

definition skip_sign :: "bytes \<Rightarrow> bool \<times> bytes" where
  "skip_sign z = (if z \<noteq> [] \<and> hd z = 45 then (True, tl z) else if z \<noteq> [] \<and> hd z = 43 then (False, tl z) else (False, z))"

text \<open>The result code and the integer.\<close>

definition sqlite3Atoi64 :: "bytes \<Rightarrow> nat \<Rightarrow> nat \<Rightarrow> nat \<times> u64" where
  "sqlite3Atoi64 z len enc =
     (let (zNum, nonNum) = num_units z len enc;
          (neg, zStart) = skip_sign (dropWhile sqlite3Isspace zNum);
          zs = dropWhile (\<lambda>c. c = 48) zStart;
          ds = takeWhile digit zs;
          i = length ds;
          u = foldl (\<lambda>u c. u * 10 + ucast c - 48) (0 :: u64) ds;
          pNum = (if LARGEST_INT64 < u then (if neg then SMALLEST_INT64 else LARGEST_INT64)
                  else if neg then - u else u);
          rc = (if i < length zs \<or> i = 0 \<and> zStart = zs \<or> 19 < i \<or> nonNum then 1
                else if i < 19 then 0
                else (let c = compare2pow63 zs in
                      if c < 0 then 0 else if 0 < c then 1 else if neg then 0 else 2))
      in (rc, pNum))"

section \<open>Other integer literals\<close>

definition sqlite3DecOrHexToI64 :: "bytes \<Rightarrow> nat \<times> u64" where
  "sqlite3DecOrHexToI64 z =
     (if char_at z 0 = 48 \<and> (char_at z 1 = 120 \<or> char_at z 1 = 88) then
        (let zs = dropWhile (\<lambda>c. c = 48) (drop 2 z);
             ds = takeWhile sqlite3Isxdigit zs;
             u = foldl (\<lambda>u c. u * 16 + ucast (sqlite3HexToInt c)) (0 :: u64) ds
         in (if length ds = length zs \<and> length ds \<le> 16 then 0 else 1, u))
      else sqlite3Atoi64 z (sqlite3Strlen30 (Some z)) SQLITE_UTF8)"

text \<open>The value, when the text begins with a 32-bit integer.\<close>

definition GetInt32_dec :: "bytes \<Rightarrow> bool \<Rightarrow> int option" where
  "GetInt32_dec z neg =
     (let ds = takeWhile digit (take 11 (dropWhile (\<lambda>c. c = 48) z));
          v = foldl (\<lambda>v c. v * 10 + (int (unat c) - 48)) 0 ds
      in if 10 < length ds then None
         else if 2147483647 < v - (if neg then 1 else 0) then None
         else Some (if neg then - v else v))"

definition GetInt32_hex :: "bytes \<Rightarrow> int option" where
  "GetInt32_hex z =
     (let zs = dropWhile (\<lambda>c. c = 48) z;
          ds = takeWhile sqlite3Isxdigit (take 8 zs);
          u = foldl (\<lambda>u c. u * 16 + ucast (sqlite3HexToInt c)) (0 :: u32) ds
      in if u AND 0x80000000 = 0 \<and> \<not> sqlite3Isxdigit (char_at zs (length ds)) then Some (sint u) else None)"

definition sqlite3GetInt32 :: "bytes \<Rightarrow> int option" where
  "sqlite3GetInt32 z =
     (if char_at z 0 = 45 then GetInt32_dec (tl z) True
      else if char_at z 0 = 43 then GetInt32_dec (tl z) False
      else if char_at z 0 = 48 \<and> (char_at z 1 = 120 \<or> char_at z 1 = 88) \<and> sqlite3Isxdigit (char_at z 2)
      then GetInt32_hex (drop 2 z)
      else GetInt32_dec z False)"

definition sqlite3Atoi :: "bytes option \<Rightarrow> int" where
  "sqlite3Atoi z = (case z of None \<Rightarrow> 0 | Some s \<Rightarrow> (case sqlite3GetInt32 s of None \<Rightarrow> 0 | Some x \<Rightarrow> x))"

end
