(* ===== verification/TokenizeProps.thy ===== *)
theory TokenizeProps
  imports Tokenize UtilText
begin

text \<open>
  The tokenizer: every token is a non-empty prefix of the text, and quoted texts are read back.
\<close>

section \<open>Lengths\<close>

lemma scan_while_bounds: "i \<le> length z \<Longrightarrow> i \<le> scan_while p z i \<and> scan_while p z i \<le> length z"
  using length_takeWhile_le [of p "drop i z"] by (simp add: scan_while_def)

lemma scan_while_one: "p (char_at z i) \<Longrightarrow> char_at z i \<noteq> 0 \<Longrightarrow> i < scan_while p z i"
  by (auto simp: scan_while_def char_at_def Cons_nth_drop_Suc [symmetric] split: if_splits)

lemma slash_loop_bounds:
  "slash_loop c z i = (c', j) \<Longrightarrow> i \<le> length z \<Longrightarrow> i \<le> j \<and> j \<le> length z \<and> (c' \<noteq> 0 \<longrightarrow> c \<noteq> 0 \<longrightarrow> j < length z)"
proof (induction c z i arbitrary: c' j rule: slash_loop.induct)
  case (1 c z i)
  show ?case
  proof (cases "(c \<noteq> 42 \<or> char_at z i \<noteq> 47) \<and> char_at z i \<noteq> 0")
    case True
    then have "i < length z" by (auto dest: char_at_nonzero)
    with True show ?thesis using 1 by (fastforce simp: slash_loop.simps [of c z i] Let_def)
  next
    case False
    then show ?thesis using 1(2,3)
      by (auto simp: slash_loop.simps [of c z i] Let_def char_at_def split: if_splits)
  qed
qed

lemma quote_loop_bounds:
  "quote_loop d z i = (c', j) \<Longrightarrow> i \<le> length z \<Longrightarrow> i \<le> j \<and> j \<le> length z \<and> (c' \<noteq> 0 \<longrightarrow> j < length z)"
proof (induction d z i arbitrary: c' j rule: quote_loop.induct)
  case (1 d z i)
  show ?case
  proof (cases "char_at z i = 0")
    case False
    then have i: "i < length z" by (rule char_at_nonzero)
    show ?thesis
    proof (cases "char_at z i = d")
      case True
      show ?thesis
      proof (cases "char_at z (i + 1) = d")
        case two: True
        then have "i + 1 < length z" using False True by (intro char_at_nonzero [of z]) auto
        then show ?thesis
          using 1(1)[OF False True two, of c' j] 1(3) two True False
          by (simp add: quote_loop.simps [of d z i])
      qed (use 1(3) True False i in \<open>auto simp: quote_loop.simps [of d z i]\<close>)
    next
      case other: False
      then show ?thesis using 1(2)[OF False other, of c' j] 1(3) False i
        by (simp add: quote_loop.simps [of d z i])
    qed
  qed (use 1 in \<open>auto simp: quote_loop.simps [of d z i]\<close>)
qed

lemma bracket_loop_bounds: "bracket_loop c z i = (c', j) \<Longrightarrow> i \<le> length z \<Longrightarrow> i \<le> j \<and> j \<le> length z"
proof (induction c z i arbitrary: c' j rule: bracket_loop.induct)
  case (1 c z i)
  show ?case
  proof (cases "c \<noteq> 93 \<and> char_at z i \<noteq> 0")
    case True
    then have "i < length z" by (auto dest: char_at_nonzero)
    with True show ?thesis using 1 by (fastforce simp: bracket_loop.simps [of c z i] Let_def)
  next
    case False
    then show ?thesis using 1(2,3) by (auto simp: bracket_loop.simps [of c z i] Let_def split: if_splits)
  qed
qed

lemma variable_loop_bounds:
  "variable_loop z i n = (j, m, t) \<Longrightarrow> i \<le> length z \<Longrightarrow> i \<le> j \<and> j \<le> length z"
proof (induction z i n arbitrary: j m t rule: variable_loop.induct)
  case (1 z i n)
  let ?c = "char_at z i"
  consider "?c = 0" | "?c \<noteq> 0" "IdChar ?c" | "?c = 40" "\<not> IdChar ?c" "0 < n"
    | "?c = 58" "\<not> IdChar ?c" "char_at z (i + 1) = 58"
    | "?c \<noteq> 0" "\<not> IdChar ?c" "\<not> (?c = 40 \<and> 0 < n)" "\<not> (?c = 58 \<and> char_at z (i + 1) = 58)"
    by fastforce
  then show ?case
  proof cases
    case 2
    then have "i < length z" by (auto dest: char_at_nonzero)
    then show ?thesis using 1(1)[OF refl 2] 1(3) 2 by (simp add: variable_loop.simps [of z i n])
  next
    case 3
    let ?j = "scan_while (\<lambda>c. c \<noteq> 0 \<and> \<not> sqlite3Isspace c \<and> c \<noteq> 41) z (i + 1)"
    have "i < length z" using 3 by (intro char_at_nonzero [of z]) simp
    then have "i + 1 \<le> ?j \<and> ?j \<le> length z" by (intro scan_while_bounds) simp
    moreover have "char_at z ?j = 41 \<Longrightarrow> ?j < length z" by (intro char_at_nonzero) simp
    ultimately show ?thesis using 1(3) 3 by (auto simp: variable_loop.simps [of z i n] Let_def split: if_splits)
  next
    case 4
    then have "i + 1 < length z" by (intro char_at_nonzero) simp
    then show ?thesis using 1(2)[OF refl _ 4(2) _ _, of j m t] 1(3) 4 by (simp add: variable_loop.simps [of z i n])
  qed (use 1(3,4) in \<open>auto simp: variable_loop.simps [of z i n]\<close>)
qed

text \<open>A length that is at least 1 and within the text.\<close>

definition inside :: "bytes \<Rightarrow> nat \<times> nat \<Rightarrow> bool" where
  "inside z r \<longleftrightarrow> 1 \<le> fst r \<and> fst r \<le> length z"

lemma inside_if: "(b \<Longrightarrow> inside z x) \<Longrightarrow> (\<not> b \<Longrightarrow> inside z y) \<Longrightarrow> inside z (if b then x else y)"
  by simp

lemma inside_scan: "0 < i \<Longrightarrow> i \<le> length z \<Longrightarrow> inside z (scan_while p z i, t)"
  using scan_while_bounds [of i z p] by (simp add: inside_def)

lemma second_char: "char_at z 1 \<noteq> 0 \<Longrightarrow> 2 \<le> length z"
  using char_at_nonzero [of z 1] by simp

lemma token_slash_inside: "z \<noteq> [] \<Longrightarrow> inside z (token_slash z)"
proof -
  assume z: "z \<noteq> []"
  show ?thesis
  proof (cases "char_at z 1 \<noteq> 42 \<or> char_at z 2 = 0")
    case False
    obtain c i where l: "slash_loop (char_at z 2) z 3 = (c, i)" by fastforce
    have "2 < length z" using False by (intro char_at_nonzero) simp
    then show ?thesis using slash_loop_bounds [OF l] False by (auto simp: token_slash_def inside_def l)
  qed (use z in \<open>auto simp: token_slash_def inside_def Suc_le_eq\<close>)
qed

lemma token_quote_inside: "z \<noteq> [] \<Longrightarrow> inside z (token_quote z)"
proof -
  assume z: "z \<noteq> []"
  obtain c i where l: "quote_loop (char_at z 0) z 1 = (c, i)" by fastforce
  show ?thesis using quote_loop_bounds [OF l] z by (auto simp: token_quote_def inside_def l [simplified] Suc_le_eq)
qed

lemma token_bracket_inside: "z \<noteq> [] \<Longrightarrow> inside z (token_bracket z)"
proof -
  assume z: "z \<noteq> []"
  obtain c i where l: "bracket_loop (char_at z 0) z 1 = (c, i)" by fastforce
  show ?thesis using bracket_loop_bounds [OF l] z by (auto simp: token_bracket_def inside_def l [simplified] Suc_le_eq)
qed

lemma token_variable_inside: "z \<noteq> [] \<Longrightarrow> inside z (token_variable z)"
proof -
  assume z: "z \<noteq> []"
  obtain i n t where l: "variable_loop z 1 0 = (i, n, t)" using prod_cases3 by blast
  show ?thesis using variable_loop_bounds [OF l] z by (auto simp: token_variable_def inside_def l [simplified] Suc_le_eq)
qed

lemma token_id_inside: "0 < i \<Longrightarrow> i \<le> length z \<Longrightarrow> inside z (token_id z i)"
  by (simp add: token_id_def inside_scan)

lemma token_keyword_inside: "z \<noteq> [] \<Longrightarrow> inside z (token_keyword z)"
proof -
  assume z: "z \<noteq> []"
  let ?i = "scan_while (\<lambda>c. char_class c \<le> CC_KYWD) z 1"
  have i: "1 \<le> ?i" "?i \<le> length z" using scan_while_bounds [of 1 z] z by (auto simp: Suc_le_eq)
  show ?thesis
  proof (cases "IdChar (char_at z ?i)")
    case True
    then have "?i < length z" by (intro char_at_nonzero) auto
    then show ?thesis using True by (simp add: token_keyword_def Let_def token_id_inside)
  next
    case False
    then show ?thesis using i by (simp add: token_keyword_def Let_def inside_def keywordCode_def)
  qed
qed

lemma token_blob_inside: "char_at z 1 = 39 \<Longrightarrow> inside z (token_blob z)"
proof -
  assume "char_at z 1 = 39"
  then have z: "2 \<le> length z" by (intro second_char) simp
  let ?i = "scan_while sqlite3Isxdigit z 2"
  let ?j = "scan_while (\<lambda>c. c \<noteq> 0 \<and> c \<noteq> 39) z ?i"
  have i: "2 \<le> ?i" "?i \<le> length z" using scan_while_bounds [OF z] by auto
  then have j: "?i \<le> ?j" "?j \<le> length z" using scan_while_bounds [OF i(2)] by auto
  have "char_at z k \<noteq> 0 \<Longrightarrow> k + 1 \<le> length z" for k using char_at_nonzero [of z k] by simp
  then show ?thesis using i j by (auto simp: token_blob_def Let_def inside_def)
qed

lemma Isdigit_nonzero: "sqlite3Isdigit c \<Longrightarrow> c \<noteq> 0"
  by (auto simp: Isdigit_spec)

lemma number_fraction_inside:
  assumes "sqlite3Isdigit (char_at z 0) \<or> char_at z 0 = 46"
  shows "inside z (number_fraction z (scan_while sqlite3Isdigit z 0))"
proof -
  let ?i = "scan_while sqlite3Isdigit z 0"
  have "?i \<le> length z" using scan_while_bounds [of 0 z] by simp
  moreover have "char_at z ?i = 46 \<Longrightarrow> ?i + 1 \<le> length z" using char_at_nonzero [of z ?i] by simp
  moreover have "sqlite3Isdigit (char_at z 0) \<Longrightarrow> 1 \<le> ?i"
    using scan_while_one [of sqlite3Isdigit z 0] Isdigit_nonzero by (auto simp: Suc_le_eq)
  moreover have "char_at z 0 = 46 \<Longrightarrow> ?i = 0"
    by (cases z) (simp_all add: scan_while_def Isdigit_spec)
  ultimately show ?thesis
    using assms inside_scan [of "?i + 1" z sqlite3Isdigit] by (auto simp: number_fraction_def inside_def)
qed

lemma number_exponent_inside: "inside z (i, t) \<Longrightarrow> inside z (number_exponent z i t)"
proof -
  assume i: "inside z (i, t)"
  let ?e = "(char_at z i = 101 \<or> char_at z i = 69) \<and> (sqlite3Isdigit (char_at z (i + 1))
      \<or> (char_at z (i + 1) = 43 \<or> char_at z (i + 1) = 45) \<and> sqlite3Isdigit (char_at z (i + 2)))"
  have "?e \<Longrightarrow> i + 2 \<le> length z" using char_at_nonzero [of z "i + 1"] Isdigit_nonzero [of "char_at z (i + 1)"] by auto
  then have "?e \<Longrightarrow> inside z (scan_while sqlite3Isdigit z (i + 2), TK_FLOAT)" by (intro inside_scan) auto
  then show ?thesis using i unfolding number_exponent_def by presburger
qed

lemma token_number_inside:
  assumes "sqlite3Isdigit (char_at z 0) \<or> char_at z 0 = 46"
  shows "inside z (token_number z)"
proof (cases "char_at z 0 = 48 \<and> (char_at z 1 = 120 \<or> char_at z 1 = 88) \<and> sqlite3Isxdigit (char_at z 2)")
  case True
  then have "2 < length z" by (intro char_at_nonzero) (auto simp: sqlite3Isxdigit_def ctype_class class_of_def)
  then show ?thesis using True by (auto simp: token_number_def inside_scan)
next
  case False
  obtain i t where f: "number_fraction z (scan_while sqlite3Isdigit z 0) = (i, t)" by fastforce
  obtain j u where e: "number_exponent z i t = (j, u)" by fastforce
  have "inside z (j, u)"
    using number_exponent_inside number_fraction_inside [OF assms] unfolding f e [symmetric] by blast
  then have "inside z (scan_while IdChar z j, v)" for v using inside_scan [of j z] by (simp add: inside_def)
  then show ?thesis unfolding token_number_def using False by (simp only: f e if_False Let_def prod.case)
qed

section \<open>Classes\<close>

lemma length_aiClass: "length aiClass = 256"
  by (simp add: aiClass_def)

lemmas aiClass_entries =
  trans [OF map_nth [of aiClass, unfolded length_aiClass] aiClass_def, unfolded byte_range upt_first,
    simplified upt_rec_numeral, simplified]

lemma class_digits:
  "filter (\<lambda>n. aiClass ! n = CC_DOT) [0..<256] = [46]"
  "filter (\<lambda>n. aiClass ! n = CC_DIGIT) [0..<256] = [48..<58]"
  unfolding byte_range upt_first by (simp_all add: upt_rec_numeral aiClass_entries CC_defs)

lemma char_class_digits:
  "char_class c = CC_DOT \<Longrightarrow> c = 46" "char_class c = CC_DIGIT \<Longrightarrow> sqlite3Isdigit c"
proof -
  have m: "char_class c = k \<Longrightarrow> unat c \<in> set (filter (\<lambda>n. aiClass ! n = k) [0..<256])" for k
    using byte_lt [of c] by (simp add: char_class_def)
  show "char_class c = CC_DOT \<Longrightarrow> c = 46"
    using m [of CC_DOT] unfolding class_digits by (simp add: word_unat_eq_iff)
  show "char_class c = CC_DIGIT \<Longrightarrow> sqlite3Isdigit c"
    using m [of CC_DIGIT] unfolding class_digits set_upt by (simp add: Isdigit_spec word_le_nat_alt)
qed

lemma GetToken_inside:
  assumes "char_at z 0 \<noteq> 0"
  shows "1 \<le> fst (sqlite3GetToken z) \<and> fst (sqlite3GetToken z) \<le> length z"
proof -
  have z: "z \<noteq> []" "1 \<le> length z" using char_at_nonzero [OF assms] by (auto simp: Suc_le_eq)
  have two: "char_at z 1 = k \<Longrightarrow> k \<noteq> 0 \<Longrightarrow> 2 \<le> length z" for k using second_char [of z] by auto
  have "inside z (sqlite3GetToken z)"
    unfolding sqlite3GetToken_def Let_def
    by (intro inside_if inside_scan token_slash_inside token_quote_inside token_number_inside
        token_bracket_inside token_variable_inside token_keyword_inside token_blob_inside token_id_inside z)
      (use z two in \<open>auto simp: inside_def dest: char_class_digits\<close>)
  then show ?thesis by (simp add: inside_def)
qed

text \<open>
  C28: The tokenizer always moves on and never past the end: for a text that is not at its
  terminator, the token has at least one byte and ends at or before the terminator, whatever the
  text holds, so that reading token after token ends.
\<close>
theorem token_in_bounds:
  assumes "char_at z 0 \<noteq> 0"
  shows "1 \<le> fst (sqlite3GetToken z) \<and> fst (sqlite3GetToken z) \<le> length z"
  by (rule GetToken_inside [OF assms])

theorem token_in_bounds_witness:
  "1 \<le> fst (sqlite3GetToken (ascii ''/*'')) \<and> fst (sqlite3GetToken (ascii ''/*'')) \<le> 2"
  using token_in_bounds [of "ascii ''/*''"] by (simp add: ascii_def)

section \<open>Quoted texts\<close>

text \<open>A text in quotes, the quotes in it doubled.\<close>

definition sql_quote :: "u8 \<Rightarrow> bytes \<Rightarrow> bytes" where
  "sql_quote d s = d # concat (map (\<lambda>c. if c = d then [d, d] else [c]) s) @ [d]"

definition quoted_body :: "u8 \<Rightarrow> bytes \<Rightarrow> bytes" where
  "quoted_body d s = concat (map (\<lambda>c. if c = d then [d, d] else [c]) s) @ [d]"

lemma quoted_body_simps [simp]:
  "quoted_body d [] = [d]"
  "quoted_body d (c # s) = (if c = d then d # d # quoted_body d s else c # quoted_body d s)"
  by (simp_all add: quoted_body_def)

lemma sql_quote_body: "sql_quote d s = d # quoted_body d s"
  by (simp add: sql_quote_def quoted_body_def)

lemma char_at_append: "char_at (p @ z) (length p + k) = char_at z k"
  by (simp add: char_at_def nth_append)

lemma quote_loop_body:
  assumes "d \<noteq> 0" "0 \<notin> set s" "char_at rest 0 \<noteq> d"
  shows "quote_loop d (p @ quoted_body d s @ rest) (length p) = (d, length p + length (quoted_body d s) - 1)"
  using assms(2)
proof (induction s arbitrary: p)
  case Nil
  show ?case
    using assms(1,3) char_at_append [of p "[d] @ rest" 0] char_at_append [of p "[d] @ rest" 1]
    by (simp add: quote_loop.simps [of d _ "length p"])
next
  case (Cons c s)
  let ?z = "p @ quoted_body d (c # s) @ rest"
  have at: "char_at ?z (length p + k) = char_at (quoted_body d (c # s) @ rest) k" for k
    by (rule char_at_append)
  show ?case
  proof (cases "c = d")
    case True
    have "quote_loop d ?z (length p) = quote_loop d ?z (length p + 2)"
      using at [of 0] at [of 1] True assms(1) by (simp add: quote_loop.simps [of d _ "length p"])
    then show ?thesis using Cons.IH [of "p @ [d, d]"] Cons.prems True by simp
  next
    case False
    have "quote_loop d ?z (length p) = quote_loop d ?z (length p + 1)"
      using at [of 0] False Cons.prems by (simp add: quote_loop.simps [of d _ "length p"])
    then show ?thesis using Cons.IH [of "p @ [c]"] Cons.prems False by simp
  qed
qed

lemma dequote_loop_body:
  assumes "d \<noteq> 0" "0 \<notin> set s"
  shows "dequote_loop d (p @ quoted_body d s) (length p) = Some s"
  using assms(2)
proof (induction s arbitrary: p)
  case Nil
  show ?case
    using assms(1) char_at_append [of p "[d]" 0] char_at_append [of p "[d]" 1]
    by (simp add: dequote_loop.simps [of d _ "length p"])
next
  case (Cons c s)
  let ?z = "p @ quoted_body d (c # s)"
  have at: "char_at ?z (length p + k) = char_at (quoted_body d (c # s)) k" for k
    by (rule char_at_append)
  show ?case
  proof (cases "c = d")
    case True
    have "dequote_loop d ?z (length p) = map_option ((#) d) (dequote_loop d ?z (length p + 2))"
      using at [of 0] at [of 1] True assms(1) by (simp add: dequote_loop.simps [of d _ "length p"])
    then show ?thesis using Cons.IH [of "p @ [d, d]"] Cons.prems True by simp
  next
    case False
    have "dequote_loop d ?z (length p) = map_option ((#) c) (dequote_loop d ?z (length p + 1))"
      using at [of 0] False Cons.prems by (simp add: dequote_loop.simps [of d _ "length p"])
    then show ?thesis using Cons.IH [of "p @ [c]"] Cons.prems False by simp
  qed
qed

lemma quote_class: "d \<in> {34, 39, 96} \<Longrightarrow> char_class d = CC_QUOTE \<and> sqlite3Isquote d \<and> d \<noteq> 91 \<and> d \<noteq> 0"
  by (auto simp: char_class_def aiClass_entries CC_defs Isquote_spec)

text \<open>
  C23: A text put in single quotes, double quotes or grave accents, with the quotes inside it
  doubled, is one token whatever it holds and whatever follows it, short of another such quote:
  a string for single quotes and an identifier for the others; and removing the quotes from the
  token gives the text back. No content breaks out of its quotes.
\<close>
theorem quoted_text_roundtrip:
  assumes "d \<in> {34, 39, 96}" "0 \<notin> set s" "char_at rest 0 \<noteq> d"
  shows "sqlite3GetToken (sql_quote d s @ rest) = (length (sql_quote d s), if d = 39 then TK_STRING else TK_ID)
    \<and> sqlite3Dequote (sql_quote d s) = Some s"
proof -
  note d = quote_class [OF assms(1)]
  have l: "0 < length (quoted_body d s)" by (simp add: quoted_body_def)
  have "token_quote (sql_quote d s @ rest) = (length (sql_quote d s), if d = 39 then TK_STRING else TK_ID)"
    using quote_loop_body [OF _ assms(2,3), of "[d]"] d l by (simp add: token_quote_def sql_quote_body)
  moreover have "sqlite3GetToken (sql_quote d s @ rest) = token_quote (sql_quote d s @ rest)"
    using d by (simp add: sqlite3GetToken_def sql_quote_body CC_defs)
  moreover have "sqlite3Dequote (sql_quote d s) = Some s"
    using dequote_loop_body [OF _ assms(2), of d "[d]"] d by (simp add: sqlite3Dequote_def sql_quote_body)
  ultimately show ?thesis by simp
qed

theorem quoted_text_roundtrip_witness:
  "sqlite3GetToken (ascii ''`a``b`; '') = (6, TK_ID) \<and> sqlite3Dequote (ascii ''`a``b`'') = Some (ascii ''a`b'')"
  using quoted_text_roundtrip [of 96 "ascii ''a`b''" "ascii ''; ''"] by (simp add: ascii_def sql_quote_def)

end
