(* ===== verification/UtilTextProps.thy ===== *)
theory UtilTextProps
  imports UtilText
begin

text \<open>
  \<^verbatim>\<open>sqlite3Atoi64\<close> against the integers that decimal texts denote.
\<close>

section \<open>Decimal texts\<close>

definition dval :: "u8 \<Rightarrow> int" where
  "dval c = int (unat c) - 48"

fun dec :: "bytes \<Rightarrow> int" where
  "dec [] = 0"
| "dec (c # cs) = dval c * 10 ^ length cs + dec cs"

text \<open>White space, a sign or none, and one digit or more.\<close>

definition int_text :: "bytes \<Rightarrow> int \<Rightarrow> bool" where
  "int_text s v \<longleftrightarrow> (\<exists>sp sg ds. s = sp @ sg @ ds \<and> (\<forall>c\<in>set sp. sqlite3Isspace c)
     \<and> ds \<noteq> [] \<and> (\<forall>c\<in>set ds. digit c)
     \<and> ((sg = [] \<or> sg = [43]) \<and> v = dec ds \<or> sg = [45] \<and> v = - dec ds))"

lemma dval_bounds: "digit c \<Longrightarrow> 0 \<le> dval c \<and> dval c \<le> 9"
  by (simp add: digit_def dval_def word_le_def)

lemma dec_bounds: "\<forall>c\<in>set ds. digit c \<Longrightarrow> 0 \<le> dec ds \<and> dec ds < 10 ^ length ds"
proof (induction ds)
  case (Cons c ds)
  define P :: int where "P = 10 ^ length ds"
  have "dval c * P \<le> 9 * P" "0 \<le> dval c * P"
    using dval_bounds [of c] Cons.prems by (auto simp: P_def intro!: mult_right_mono)
  moreover have "0 \<le> dec ds" "dec ds < P" using Cons by (simp_all add: P_def)
  moreover have "dec (c # ds) = dval c * P + dec ds" "(10 :: int) ^ length (c # ds) = 10 * P" by (simp_all add: P_def)
  ultimately show ?case by linarith
qed simp

lemma dec_zeros: "\<forall>c\<in>set zs. c = 48 \<Longrightarrow> dec (zs @ ds) = dec ds"
  by (induction zs) (auto simp: dval_def)

lemma dec_append1: "dec (ds @ [c]) = 10 * dec ds + dval c"
  by (induction ds) (simp_all add: algebra_simps)

text \<open>The accumulator of the loop is the value modulo $2^{64}$.\<close>

lemma fold_dec:
  "foldl (\<lambda>u c. u * 10 + ucast c - 48) (0 :: u64) ds = of_int (dec ds)"
proof (induction ds rule: rev_induct)
  case (snoc c ds)
  have "(of_int (dval c) :: u64) = of_int (uint c) - 48" unfolding dval_def by simp
  also have "of_int (uint c) = (ucast c :: u64)" by (simp only: ucast_eq)
  finally have c: "(of_int (dval c) :: u64) = ucast c - 48" .
  have "foldl (\<lambda>u c. u * 10 + ucast c - 48) (0 :: u64) (ds @ [c]) = of_int (dec ds) * 10 + ucast c - 48"
    by (simp only: foldl_append foldl.simps snoc.IH)
  also have "\<dots> = of_int (10 * dec ds + dval c)" by (simp only: of_int_add of_int_mult c) simp
  finally show ?case by (simp only: dec_append1)
qed simp

section \<open>The comparison with $2^{63}$\<close>

lemma pow63_loop_dec:
  "\<forall>c\<in>set zs. digit c \<Longrightarrow> \<forall>c\<in>set ps. digit c \<Longrightarrow> length ps \<le> length zs \<Longrightarrow>
   (pow63_loop zs ps < 0 \<longleftrightarrow> dec (take (length ps) zs) < dec ps)
   \<and> (pow63_loop zs ps = 0 \<longleftrightarrow> dec (take (length ps) zs) = dec ps)"
proof (induction zs ps rule: pow63_loop.induct)
  case (1 zs p ps)
  then obtain z zt where z: "zs = z # zt" by (cases zs) auto
  let ?t = "take (length ps) zt"
  have l: "length ?t = length ps" using 1(4) z by simp
  have t: "0 \<le> dec ?t" "dec ?t < 10 ^ length ps" "0 \<le> dec ps" "dec ps < 10 ^ length ps"
    using dec_bounds [of ?t] dec_bounds [of ps] 1(2,3) l z by (auto dest: in_set_takeD)
  have d: "dec (take (length (p # ps)) zs) = dval z * 10 ^ length ps + dec ?t"
    using l by (simp add: z)
  consider "dval z < dval p" | "dval z = dval p" | "dval p < dval z" by linarith
  then show ?case
  proof cases
    case 1
    then have "(dval z + 1) * 10 ^ length ps \<le> dval p * 10 ^ length ps" by (intro mult_right_mono) auto
    then have "dec (take (length (p # ps)) zs) < dec (p # ps)" using t d by (simp add: distrib_right)
    then show ?thesis using 1 by (simp add: z dval_def Let_def)
  next
    case 2
    then have "int (unat z) = int (unat p)" by (simp add: dval_def)
    then show ?thesis using 1 2 d by (simp add: z Let_def)
  next
    case 3
    then have "(dval p + 1) * 10 ^ length ps \<le> dval z * 10 ^ length ps" by (intro mult_right_mono) auto
    then have "dec (p # ps) < dec (take (length (p # ps)) zs)" using t d by (simp add: distrib_right)
    then show ?thesis using 3 by (simp add: z dval_def Let_def)
  qed
qed simp

definition pow63_digits :: bytes where
  "pow63_digits = ascii ''922337203685477580''"

lemma pow63_digits: "length pow63_digits = 18" "\<forall>c\<in>set pow63_digits. digit c" "dec pow63_digits = 922337203685477580"
  by (simp_all add: pow63_digits_def ascii_def digit_def dval_def)

lemma compare2pow63_dec:
  assumes "length zs = 19" "\<forall>c\<in>set zs. digit c"
  shows "compare2pow63 zs < 0 \<longleftrightarrow> dec zs < 2 ^ 63" "compare2pow63 zs = 0 \<longleftrightarrow> dec zs = 2 ^ 63"
proof -
  obtain ds c where z: "zs = ds @ [c]" "length ds = 18" using assms(1) by (cases zs rule: rev_cases) auto
  have t: "take 18 zs = ds" "char_at zs 18 = c" using z by (simp_all add: char_at_def nth_append)
  have c: "0 \<le> dval c" "dval c \<le> 9" using dval_bounds [of c] assms(2) z by auto
  have p: "pow63_loop zs pow63_digits < 0 \<longleftrightarrow> dec ds < 922337203685477580"
    "pow63_loop zs pow63_digits = 0 \<longleftrightarrow> dec ds = 922337203685477580"
    using pow63_loop_dec [of zs pow63_digits] assms pow63_digits t by auto
  have v: "dec zs = 10 * dec ds + dval c" using z by (simp add: dec_append1)
  have k: "compare2pow63 zs = (if pow63_loop zs pow63_digits = 0 then dval c - 8 else pow63_loop zs pow63_digits)"
    using t by (simp add: compare2pow63_def Let_def pow63_digits_def dval_def)
  show "compare2pow63 zs < 0 \<longleftrightarrow> dec zs < 2 ^ 63" "compare2pow63 zs = 0 \<longleftrightarrow> dec zs = 2 ^ 63"
    using p v c k by (auto split: if_splits)
qed

section \<open>The parts of an integer\<close>

lemma digit_plain: "digit c \<Longrightarrow> \<not> sqlite3Isspace c \<and> c \<noteq> 43 \<and> c \<noteq> 45"
  by (auto simp: digit_def Isspace_spec word_le_nat_alt)

lemma int_text_parts:
  "int_text s v \<longleftrightarrow> (let (neg, ds) = skip_sign (dropWhile sqlite3Isspace s) in
     ds \<noteq> [] \<and> (\<forall>c\<in>set ds. digit c) \<and> v = (if neg then - dec ds else dec ds))"
proof
  assume "int_text s v"
  then obtain sp sg ds where s: "s = sp @ sg @ ds" "\<forall>c\<in>set sp. sqlite3Isspace c" "ds \<noteq> []"
    "\<forall>c\<in>set ds. digit c" "(sg = [] \<or> sg = [43]) \<and> v = dec ds \<or> sg = [45] \<and> v = - dec ds"
    unfolding int_text_def by blast
  have h: "digit (hd ds)" using s(3,4) by simp
  have "\<not> sqlite3Isspace (hd (sg @ ds))" using s(3,5) digit_plain [OF h] by (auto simp: Isspace_spec)
  then have "dropWhile sqlite3Isspace (sg @ ds) = sg @ ds" using s(3) by (simp add: dropWhile_eq_self_iff)
  then have "dropWhile sqlite3Isspace s = sg @ ds" using s(1,2) by (simp add: dropWhile_append2)
  moreover have "skip_sign (sg @ ds) = (sg = [45], ds)" using s(3,5) digit_plain [OF h] by (auto simp: skip_sign_def)
  ultimately show "let (neg, ds) = skip_sign (dropWhile sqlite3Isspace s) in
     ds \<noteq> [] \<and> (\<forall>c\<in>set ds. digit c) \<and> v = (if neg then - dec ds else dec ds)"
    using s(3-5) by auto
next
  assume r: "let (neg, ds) = skip_sign (dropWhile sqlite3Isspace s) in
     ds \<noteq> [] \<and> (\<forall>c\<in>set ds. digit c) \<and> v = (if neg then - dec ds else dec ds)"
  obtain neg ds where d: "skip_sign (dropWhile sqlite3Isspace s) = (neg, ds)" by fastforce
  obtain sg where g: "dropWhile sqlite3Isspace s = sg @ ds" "if neg then sg = [45] else sg = [] \<or> sg = [43]"
    using d by (cases "dropWhile sqlite3Isspace s") (auto simp: skip_sign_def split: if_splits)
  have "s = takeWhile sqlite3Isspace s @ sg @ ds" using g(1) takeWhile_dropWhile_id [of sqlite3Isspace s] by simp
  moreover have "\<forall>c\<in>set (takeWhile sqlite3Isspace s). sqlite3Isspace c" by (auto dest: set_takeWhileD)
  ultimately show "int_text s v"
    using r g(2) d unfolding int_text_def
    by (intro exI [of _ "takeWhile sqlite3Isspace s"] exI [of _ sg] exI [of _ ds]) (auto split: if_splits)
qed

lemma sint_of_int: "- (2 ^ 63) \<le> k \<Longrightarrow> k < 2 ^ 63 \<Longrightarrow> sint (of_int k :: u64) = k"
  by (simp add: signed_of_int signed_take_bit_int_eq_self)

lemma uint_of_int64: "0 \<le> k \<Longrightarrow> k < 2 ^ 64 \<Longrightarrow> uint (of_int k :: u64) = k"
  by (simp add: uint_word_of_int)

text \<open>Without leading zeros, the number of digits bounds the value from both sides.\<close>

lemma dec_lower:
  assumes "\<forall>c\<in>set zs. digit c" "zs \<noteq> []" "hd zs \<noteq> 48"
  shows "10 ^ (length zs - 1) \<le> dec zs"
proof -
  obtain c cs where z: "zs = c # cs" using assms(2) by (cases zs) auto
  have "dval c \<noteq> 0" using assms(3) z by (simp add: dval_def word_uint_eq_iff)
  then have "1 \<le> dval c" using dval_bounds [of c] assms(1) z by auto
  then have "1 * 10 ^ length cs \<le> dval c * 10 ^ length cs" by (intro mult_right_mono) auto
  moreover have "0 \<le> dec cs" using dec_bounds [of cs] assms(1) z by auto
  ultimately have "10 ^ length cs \<le> dval c * 10 ^ length cs + dec cs" by linarith
  then show ?thesis by (simp add: z)
qed

text \<open>The digits after the leading zeros give the value, and decide the code.\<close>

lemma Atoi64_code:
  assumes "skip_sign (dropWhile sqlite3Isspace (take len z)) = (neg, ds)" "ds \<noteq> []" "\<forall>c\<in>set ds. digit c"
    and "m = dec ds" "sqlite3Atoi64 z len SQLITE_UTF8 = (rc, n)"
  shows "rc = (if m < 2 ^ 63 then 0 else if 2 ^ 63 < m then 1 else if neg then 0 else 2)"
    "rc \<noteq> 1 \<Longrightarrow> sint n = (if neg then - m else if m < 2 ^ 63 then m else 2 ^ 63 - 1)"
proof -
  define zs where "zs = dropWhile (\<lambda>c. c = 48) ds"
  have zd: "\<forall>c\<in>set zs. digit c" using assms(3) by (auto simp: zs_def dest: set_dropWhileD)
  have "\<forall>c\<in>set (takeWhile (\<lambda>c. c = 48) ds). c = 48" by (auto dest: set_takeWhileD)
  from dec_zeros [OF this, of zs] have m: "m = dec zs" using assms(4) by (simp add: zs_def)
  have t: "takeWhile digit zs = zs" using zd by simp
  have ne: "\<not> (length zs = 0 \<and> ds = zs)" using assms(2) by auto
  have bounds: "0 \<le> m" "m < 10 ^ length zs" using dec_bounds [OF zd] m by auto
  have lower: "zs \<noteq> [] \<Longrightarrow> 10 ^ (length zs - 1) \<le> m"
    using dec_lower [OF zd] m hd_dropWhile [of "\<lambda>c. c = 48" ds] by (auto simp: zs_def)
  have e: "sqlite3Atoi64 z len SQLITE_UTF8 =
      (if length zs < length zs \<or> length zs = 0 \<and> ds = zs \<or> 19 < length zs \<or> False then 1
       else if length zs < 19 then 0
       else if compare2pow63 zs < 0 then 0 else if 0 < compare2pow63 zs then 1 else if neg then 0 else 2,
       if LARGEST_INT64 < of_int m then (if neg then SMALLEST_INT64 else LARGEST_INT64)
       else if neg then - of_int m else of_int m)"
    unfolding sqlite3Atoi64_def num_units_def Let_def m fold_dec [symmetric]
    by (simp only: if_True refl prod.case assms(1) zs_def [symmetric] t)
  have r: "rc = (if 19 < length zs then 1 else if length zs < 19 then 0
      else if compare2pow63 zs < 0 then 0 else if 0 < compare2pow63 zs then 1 else if neg then 0 else 2)"
    and n: "n = (if LARGEST_INT64 < of_int m then (if neg then SMALLEST_INT64 else LARGEST_INT64)
        else if neg then - of_int m else of_int m)"
    using assms(5) e ne by auto
  have small: "m < 10 ^ 18" if "length zs < 19"
    using bounds(2) power_increasing [of "length zs" 18 "10 :: int"] that by linarith
  have large: "10 ^ 19 \<le> m" if "19 < length zs"
    using lower power_increasing [of 19 "length zs - 1" "10 :: int"] that by fastforce
  have cmp: "compare2pow63 zs < 0 \<longleftrightarrow> m < 2 ^ 63" "compare2pow63 zs = 0 \<longleftrightarrow> m = 2 ^ 63" if "length zs = 19"
    using compare2pow63_dec [OF that zd] m by auto
  consider "length zs < 19" | "length zs = 19" | "19 < length zs" by linarith
  then show rc: "rc = (if m < 2 ^ 63 then 0 else if 2 ^ 63 < m then 1 else if neg then 0 else 2)"
    by cases (use r small large cmp in \<open>auto split: if_splits\<close>)
  assume "rc \<noteq> 1"
  then have v: "m < 2 ^ 63 \<or> m = 2 ^ 63" using rc by (auto split: if_splits)
  have u: "uint (of_int m :: u64) = m" using v bounds(1) by (intro uint_of_int64) auto
  then have l: "LARGEST_INT64 < of_int m \<longleftrightarrow> m = 2 ^ 63" using v by (auto simp: word_less_def LARGEST_INT64_def)
  have neg_word: "- of_int m = (of_int (- m) :: u64)" by simp
  show "sint n = (if neg then - m else if m < 2 ^ 63 then m else 2 ^ 63 - 1)"
    using v bounds(1) sint_of_int [of m] sint_of_int [of "- m"] unfolding n l neg_word
    by (auto simp: SMALLEST_INT64_def LARGEST_INT64_def simp del: of_int_minus)
qed

text \<open>
  C24: \<^verbatim>\<open>sqlite3Atoi64\<close> reads decimal integers exactly: for a text of white space, a sign
  or none, and digits, of any length, the result code says whether the value fits 64 bits signed,
  singling out $2^{63}$, and when it fits it is the integer stored; any other text gets code 1.
  Sums that wrap around on the way do not show.
\<close>
theorem Atoi64_reads_integers:
  assumes "sqlite3Atoi64 z len SQLITE_UTF8 = (rc, n)"
  shows "(\<forall>v. int_text (take len z) v \<longrightarrow>
      (if - (2 ^ 63) \<le> v \<and> v < 2 ^ 63 then rc = 0 \<and> sint n = v
       else if v = 2 ^ 63 then rc = 2 \<and> sint n = 2 ^ 63 - 1
       else rc = 1))
    \<and> ((\<nexists>v. int_text (take len z) v) \<longrightarrow> rc = 1)"
proof (intro conjI allI impI)
  fix v assume "int_text (take len z) v"
  then obtain neg ds where d: "skip_sign (dropWhile sqlite3Isspace (take len z)) = (neg, ds)" "ds \<noteq> []"
    "\<forall>c\<in>set ds. digit c" and v: "v = (if neg then - dec ds else dec ds)"
    unfolding int_text_parts by (auto simp: Let_def split: prod.splits)
  show "if - (2 ^ 63) \<le> v \<and> v < 2 ^ 63 then rc = 0 \<and> sint n = v
      else if v = 2 ^ 63 then rc = 2 \<and> sint n = 2 ^ 63 - 1 else rc = 1"
    using Atoi64_code [OF d refl assms] dec_bounds [OF d(3)] v by (auto split: if_splits)
next
  assume no: "\<nexists>v. int_text (take len z) v"
  obtain neg ds where d: "skip_sign (dropWhile sqlite3Isspace (take len z)) = (neg, ds)" by fastforce
  define zs where "zs = dropWhile (\<lambda>c. c = 48) ds"
  have zeros: "\<forall>c\<in>set (takeWhile (\<lambda>c. c = 48) ds). digit c" by (auto simp: digit_def dest: set_takeWhileD)
  have "ds = [] \<or> \<not> (\<forall>c\<in>set ds. digit c)"
    using no d unfolding int_text_parts by (auto simp: Let_def)
  moreover have "(\<forall>c\<in>set ds. digit c) \<longleftrightarrow> (\<forall>c\<in>set zs. digit c)"
    using zeros by (metis Un_iff set_append takeWhile_dropWhile_id zs_def)
  moreover have "length (takeWhile digit zs) < length zs" if "\<not> (\<forall>c\<in>set zs. digit c)"
    using that length_takeWhile_le [of digit zs] takeWhile_eq_all_conv [of digit zs]
    by (metis le_neq_implies_less takeWhile_eq_take take_all_iff)
  ultimately have "length (takeWhile digit zs) < length zs \<or> length (takeWhile digit zs) = 0 \<and> ds = zs"
    by (auto simp: zs_def)
  then show "rc = 1"
    using assms d unfolding sqlite3Atoi64_def num_units_def Let_def
    by (auto simp: zs_def [symmetric])
qed

theorem Atoi64_reads_integers_witness:
  "\<exists>n. sqlite3Atoi64 (ascii '' -9223372036854775808'') 21 SQLITE_UTF8 = (0, n) \<and> sint n = - (2 ^ 63)"
proof -
  let ?z = "ascii '' -9223372036854775808''"
  obtain rc n where r: "sqlite3Atoi64 ?z 21 SQLITE_UTF8 = (rc, n)" by fastforce
  have "int_text (take 21 ?z) (- (2 ^ 63))"
    unfolding int_text_def
    by (rule exI [of _ "[32]"], rule exI [of _ "[45]"], rule exI [of _ "ascii ''9223372036854775808''"])
      (simp add: ascii_def digit_def Isspace_spec dval_def)
  then show ?thesis using Atoi64_reads_integers [OF r] r by auto
qed

end
