(* ===== verification/UtilInt.thy ===== *)
theory UtilInt
  imports Sqlite
begin

text \<open>
  Integer arithmetic in \<^verbatim>\<open>sqlite/util.c\<close>: sums, differences and products of 64-bit
  signed integers with a test for overflow, as the code does them where the compiler has no
  builtin for it, and the absolute value. C leaves signed overflow undefined, so an operation is
  \<^theory_text>\<open>None\<close> when it overflows.
\<close>

section \<open>Signed arithmetic of C\<close>

definition i64_max :: int where "i64_max = 2 ^ 63 - 1"
definition i64_min :: int where "i64_min = - (2 ^ 63)"

definition in_i64 :: "int \<Rightarrow> bool" where
  "in_i64 x \<longleftrightarrow> i64_min \<le> x \<and> x \<le> i64_max"

definition i64_op :: "(int \<Rightarrow> int \<Rightarrow> int) \<Rightarrow> int option \<Rightarrow> int option \<Rightarrow> int option" where
  "i64_op f x y =
     (case (x, y) of (Some a, Some b) \<Rightarrow> (if in_i64 (f a b) then Some (f a b) else None) | _ \<Rightarrow> None)"

abbreviation iadd :: "int option \<Rightarrow> int option \<Rightarrow> int option" where "iadd \<equiv> i64_op (+)"
abbreviation isub :: "int option \<Rightarrow> int option \<Rightarrow> int option" where "isub \<equiv> i64_op (-)"
abbreviation imul :: "int option \<Rightarrow> int option \<Rightarrow> int option" where "imul \<equiv> i64_op (*)"
abbreviation idiv :: "int option \<Rightarrow> int option \<Rightarrow> int option" where "idiv \<equiv> i64_op (sdiv)"

definition ineg :: "int option \<Rightarrow> int option" where
  "ineg x = isub (Some 0) x"

definition iless :: "int option \<Rightarrow> int option \<Rightarrow> bool option" where
  "iless x y = (case (x, y) of (Some a, Some b) \<Rightarrow> Some (a < b) | _ \<Rightarrow> None)"

text \<open>\<^verbatim>\<open>if( c ) return 1\<close>, with a condition that may be undefined.\<close>

definition refuse :: "bool option \<Rightarrow> int \<Rightarrow> (bool \<times> int) option \<Rightarrow> (bool \<times> int) option" where
  "refuse c pA rest = (case c of None \<Rightarrow> None | Some True \<Rightarrow> Some (True, pA) | Some False \<Rightarrow> rest)"

text \<open>\<^verbatim>\<open>*pA = e; return 0\<close>.\<close>

definition accept :: "int option \<Rightarrow> (bool \<times> int) option" where
  "accept e = map_option (Pair False) e"

section \<open>Overflow tests\<close>

definition sqlite3AddInt64 :: "int \<Rightarrow> int \<Rightarrow> (bool \<times> int) option" where
  "sqlite3AddInt64 iA iB =
     (if 0 \<le> iB
      then refuse (if 0 < iA then iless (isub (Some i64_max) (Some iA)) (Some iB) else Some False) iA
        (accept (iadd (Some iA) (Some iB)))
      else refuse (if iA < 0 then iless (iadd (Some iB) (Some 1)) (ineg (iadd (Some iA) (Some i64_max)))
                   else Some False) iA
        (accept (iadd (Some iA) (Some iB))))"

definition sqlite3SubInt64 :: "int \<Rightarrow> int \<Rightarrow> (bool \<times> int) option" where
  "sqlite3SubInt64 iA iB =
     (if iB = i64_min
      then refuse (Some (0 \<le> iA)) iA (accept (isub (Some iA) (Some iB)))
      else (case ineg (Some iB) of None \<Rightarrow> None | Some b \<Rightarrow> sqlite3AddInt64 iA b))"

definition sqlite3MulInt64 :: "int \<Rightarrow> int \<Rightarrow> (bool \<times> int) option" where
  "sqlite3MulInt64 iA iB =
     (let product = accept (imul (Some iA) (Some iB)) in
      if 0 < iB
      then refuse (iless (idiv (Some i64_max) (Some iB)) (Some iA)) iA
        (refuse (iless (Some iA) (idiv (Some i64_min) (Some iB))) iA product)
      else if iB < 0
      then (if 0 < iA
            then refuse (iless (Some iB) (idiv (Some i64_min) (Some iA))) iA product
            else if iA < 0
            then refuse (Some (iB = i64_min)) iA (refuse (Some (iA = i64_min)) iA
              (refuse (iless (idiv (Some i64_max) (ineg (Some iB))) (ineg (Some iA))) iA product))
            else product)
      else product)"

definition sqlite3AbsInt32 :: "int \<Rightarrow> int" where
  "sqlite3AbsInt32 x = (if 0 \<le> x then x else if x = - (2 ^ 31) then 0x7fffffff else - x)"

section \<open>They are exact\<close>

text \<open>What a checked operation is to do: the exact result when it fits, or nothing but a report.\<close>

definition checked :: "int \<Rightarrow> int \<Rightarrow> (bool \<times> int) option" where
  "checked r pA = Some (if in_i64 r then (False, r) else (True, pA))"

lemmas int64_defs = i64_op_def ineg_def iless_def refuse_def accept_def checked_def

lemmas i64_bounds = in_i64_def i64_max_def i64_min_def

lemma AddInt64_checked: "in_i64 a \<Longrightarrow> in_i64 b \<Longrightarrow> sqlite3AddInt64 a b = checked (a + b) a"
  by (simp add: sqlite3AddInt64_def int64_defs i64_bounds)

lemma SubInt64_checked: "in_i64 a \<Longrightarrow> in_i64 b \<Longrightarrow> sqlite3SubInt64 a b = checked (a - b) a"
  using AddInt64_checked [of a "- b"]
  by (simp add: sqlite3SubInt64_def int64_defs i64_bounds)

lemma refuse_Some [simp]: "refuse (Some c) pA r = (if c then Some (True, pA) else r)"
  by (simp add: refuse_def)

lemma div_less_mult:
  assumes "0 < b"
  shows "k div b < a \<longleftrightarrow> k < a * (b :: int)"
proof -
  have k: "b * (k div b) + k mod b = k" "0 \<le> k mod b" "k mod b < b"
    using assms by (simp_all only: mult_div_mod_eq pos_mod_sign pos_mod_bound)
  show ?thesis
  proof (cases "k div b < a")
    case True
    then have "b * (k div b + 1) \<le> b * a" using assms by (intro mult_left_mono) auto
    then have "b * (k div b) + b \<le> b * a" by (simp only: distrib_left mult_1_right)
    then have "k < b * a" using k by linarith
    then show ?thesis using True by (simp add: mult.commute)
  next
    case False
    then have "b * a \<le> b * (k div b)" using assms by (intro mult_left_mono) auto
    then have "\<not> k < b * a" using k by linarith
    then show ?thesis using False by (simp add: mult.commute)
  qed
qed

text \<open>C's division rounds towards 0.\<close>

lemma sdiv_signs: "0 < b \<Longrightarrow> 0 \<le> k \<Longrightarrow> k sdiv b = k div b" "0 < b \<Longrightarrow> 0 \<le> k \<Longrightarrow> (- k) sdiv b = - (k div (b :: int))"
  by (simp_all add: signed_divide_int_def sgn_if)

lemma quotient_range: "0 < b \<Longrightarrow> 0 \<le> k \<Longrightarrow> 0 \<le> k div b \<and> k div b \<le> (k :: int)"
  using zdiv_mono2 [of k 1 b] by (simp add: pos_imp_zdiv_nonneg_iff)

lemma idiv_max: "0 < b \<Longrightarrow> idiv (Some i64_max) (Some b) = Some (i64_max div b)"
  using quotient_range [of b i64_max] by (simp add: i64_op_def sdiv_signs i64_bounds)

lemma idiv_min: "0 < b \<Longrightarrow> idiv (Some i64_min) (Some b) = Some (- (2 ^ 63 div b))"
  using quotient_range [of b "2 ^ 63"] sdiv_signs(2) [of b "2 ^ 63"] by (simp add: i64_op_def i64_bounds)

lemma max_exceeded: "0 < b \<Longrightarrow> i64_max div b < a \<longleftrightarrow> i64_max < a * b"
  by (rule div_less_mult)

lemma min_exceeded: "0 < b \<Longrightarrow> a < - (2 ^ 63 div b) \<longleftrightarrow> a * b < i64_min"
  using div_less_mult [of b "2 ^ 63" "- a"] by (simp add: i64_min_def less_minus_iff)

lemma MulInt64_checked:
  assumes "in_i64 a" "in_i64 b"
  shows "sqlite3MulInt64 a b = checked (a * b) a"
proof -
  consider "0 < b" | "b < 0" "0 < a" | "b < 0" "a < 0" | "b = 0" | "b < 0" "a = 0" by linarith
  then show ?thesis
  proof cases
    case 1
    have "sqlite3MulInt64 a b = (if i64_max < a * b \<or> a * b < i64_min then Some (True, a)
        else map_option (Pair False) (imul (Some a) (Some b)))"
      using 1 min_exceeded [of b a] by (simp add: sqlite3MulInt64_def idiv_max idiv_min max_exceeded min_exceeded iless_def accept_def)
    then show ?thesis by (simp add: checked_def i64_op_def in_i64_def not_less not_le)
  next
    case 2
    have "a * b \<le> 0" using 2 by (simp add: mult_le_0_iff)
    moreover have "sqlite3MulInt64 a b = (if b * a < i64_min then Some (True, a)
        else map_option (Pair False) (imul (Some a) (Some b)))"
      using 2 min_exceeded [of a b] by (simp add: sqlite3MulInt64_def idiv_min iless_def accept_def)
    ultimately show ?thesis by (simp add: checked_def i64_op_def i64_bounds mult.commute)
  next
    case 3
    have pos: "0 < a * b" using 3 by (simp add: mult_neg_neg)
    show ?thesis
    proof (cases "a = i64_min \<or> b = i64_min")
      case True
      have "- a * 1 \<le> (- a) * (- b)" "1 * - b \<le> (- a) * (- b)" using 3 by (intro mult_left_mono mult_right_mono; simp)+
      then have "\<not> in_i64 (a * b)" using True by (auto simp: i64_bounds)
      then show ?thesis using True 3 by (auto simp: sqlite3MulInt64_def checked_def)
    next
      case False
      then have "ineg (Some a) = Some (- a)" "ineg (Some b) = Some (- b)"
        using assms by (auto simp: ineg_def i64_op_def i64_bounds)
      then have "sqlite3MulInt64 a b = (if i64_max < a * b then Some (True, a)
          else map_option (Pair False) (imul (Some a) (Some b)))"
        using 3 False max_exceeded [of "- b" "- a"]
        by (simp add: sqlite3MulInt64_def idiv_max iless_def accept_def)
      then show ?thesis using pos by (simp add: checked_def i64_op_def i64_bounds)
    qed
  next
    case 4
    then show ?thesis by (simp add: sqlite3MulInt64_def int64_defs i64_bounds)
  next
    case 5
    then show ?thesis by (simp add: sqlite3MulInt64_def int64_defs i64_bounds)
  qed
qed

text \<open>
  C25: The tests for overflow are exact and safe: on 64-bit signed integers, addition, subtraction and
  multiplication give the exact result when it fits, and otherwise report and leave the operand
  alone; and nothing the tests compute on the way overflows itself.
\<close>
theorem int64_arithmetic_exact:
  assumes "in_i64 a" "in_i64 b"
  shows "sqlite3AddInt64 a b = checked (a + b) a \<and> sqlite3SubInt64 a b = checked (a - b) a
    \<and> sqlite3MulInt64 a b = checked (a * b) a"
  using AddInt64_checked [OF assms] SubInt64_checked [OF assms] MulInt64_checked [OF assms] by simp

theorem int64_arithmetic_exact_witness:
  "sqlite3SubInt64 0 i64_min = Some (True, 0) \<and> sqlite3MulInt64 (- 3) 4 = Some (False, - 12)"
  using int64_arithmetic_exact [of 0 i64_min] int64_arithmetic_exact [of "- 3" 4]
  by (simp add: checked_def i64_bounds)

end
