(* ===== verification/Utf.thy ===== *)
theory Utf
  imports Ctype
begin

text \<open>
  \<^verbatim>\<open>sqlite/utf.c\<close>: characters of Unicode in UTF-8 and UTF-16, and the conversion of a
  value from one encoding to another. A reader takes the bytes from \<^verbatim>\<open>zIn\<close> to
  \<^verbatim>\<open>zTerm\<close> and gives the character and the bytes left.
\<close>

section \<open>UTF-8\<close>

definition sqlite3Utf8Trans1 :: "u32 list" where
  "sqlite3Utf8Trans1 =
    [0x00, 0x01, 0x02, 0x03, 0x04, 0x05, 0x06, 0x07,
     0x08, 0x09, 0x0a, 0x0b, 0x0c, 0x0d, 0x0e, 0x0f,
     0x10, 0x11, 0x12, 0x13, 0x14, 0x15, 0x16, 0x17,
     0x18, 0x19, 0x1a, 0x1b, 0x1c, 0x1d, 0x1e, 0x1f,
     0x00, 0x01, 0x02, 0x03, 0x04, 0x05, 0x06, 0x07,
     0x08, 0x09, 0x0a, 0x0b, 0x0c, 0x0d, 0x0e, 0x0f,
     0x00, 0x01, 0x02, 0x03, 0x04, 0x05, 0x06, 0x07,
     0x00, 0x01, 0x02, 0x03, 0x00, 0x01, 0x00, 0x00]"

definition WRITE_UTF8 :: "u32 \<Rightarrow> bytes" where
  "WRITE_UTF8 c =
     (if c < 0x00080 then [ucast (c AND 0xFF)]
      else if c < 0x00800 then
        [0xC0 + ucast (drop_bit 6 c AND 0x1F), 0x80 + ucast (c AND 0x3F)]
      else if c < 0x10000 then
        [0xE0 + ucast (drop_bit 12 c AND 0x0F), 0x80 + ucast (drop_bit 6 c AND 0x3F), 0x80 + ucast (c AND 0x3F)]
      else
        [0xF0 + ucast (drop_bit 18 c AND 0x07), 0x80 + ucast (drop_bit 12 c AND 0x3F),
         0x80 + ucast (drop_bit 6 c AND 0x3F), 0x80 + ucast (c AND 0x3F)])"

fun read_continuation :: "u32 \<Rightarrow> bytes \<Rightarrow> u32 \<times> bytes" where
  "read_continuation c [] = (c, [])"
| "read_continuation c (b # z) =
     (if b AND 0xc0 = 0x80 then read_continuation (push_bit 6 c + (0x3f AND ucast b)) z else (c, b # z))"

definition READ_UTF8 :: "bytes \<Rightarrow> u32 \<times> bytes" where
  "READ_UTF8 zIn =
     (let c = ucast (char_at zIn 0) :: u32 in
      if 0xc0 \<le> c then
        (let (c, z) = read_continuation (sqlite3Utf8Trans1 ! unat (c - 0xc0)) (tl zIn) in
         (if c < 0x80 \<or> c AND 0xFFFFF800 = 0xD800 \<or> c AND 0xFFFFFFFE = 0xFFFE then 0xFFFD else c, z))
      else (c, tl zIn))"

text \<open>The same on a text that ends with a 0, which is no continuation byte.\<close>

definition sqlite3Utf8Read :: "bytes \<Rightarrow> u32 \<times> bytes" where
  "sqlite3Utf8Read pz = READ_UTF8 pz"

fun skip_continuation :: "bytes \<Rightarrow> bytes" where
  "skip_continuation [] = []"
| "skip_continuation (b # z) = (if b AND 0xc0 = 0x80 then skip_continuation z else b # z)"

definition SQLITE_SKIP_UTF8 :: "bytes \<Rightarrow> bytes" where
  "SQLITE_SKIP_UTF8 z = (if 0xc0 \<le> char_at z 0 then skip_continuation (tl z) else tl z)"

lemma length_skip_continuation: "length (skip_continuation z) \<le> length z"
  by (induction z) auto

text \<open>
  The number of characters in a text with \<^theory_text>\<open>k\<close> bytes left to look at, all of it when the
  length is negative. Skipping a character may pass the last of them.
\<close>

function utf8_count :: "bytes \<Rightarrow> int \<Rightarrow> nat" where
  "utf8_count z k =
     (if char_at z 0 \<noteq> 0 \<and> 0 < k
      then Suc (utf8_count (SQLITE_SKIP_UTF8 z) (k - int (length z - length (SQLITE_SKIP_UTF8 z)))) else 0)"
  by pat_completeness auto

termination
proof (relation "measure (\<lambda>(z, k). length z)", simp, clarify)
  fix z :: bytes and k :: int assume "char_at z 0 \<noteq> 0"
  then have "0 < length z" by (auto dest: char_at_nonzero)
  then have "length (SQLITE_SKIP_UTF8 z) < length z"
    using length_skip_continuation [of "tl z"] by (cases z) (auto simp: SQLITE_SKIP_UTF8_def le_imp_less_Suc)
  then show "((SQLITE_SKIP_UTF8 z, k - int (length z - length (SQLITE_SKIP_UTF8 z))), z, k)
      \<in> measure (\<lambda>(z, k). length z)"
    by simp
qed

declare utf8_count.simps [simp del]

definition sqlite3Utf8CharLen :: "bytes \<Rightarrow> int \<Rightarrow> nat" where
  "sqlite3Utf8CharLen zIn nByte = utf8_count zIn (if 0 \<le> nByte then nByte else int (length zIn) + 1)"

section \<open>UTF-16\<close>

text \<open>A 16-bit unit from and to its bytes, in the two byte orders.\<close>

definition unit_le :: "u8 \<Rightarrow> u8 \<Rightarrow> u32" where
  "unit_le b0 b1 = ucast b0 + push_bit 8 (ucast b1)"

definition unit_be :: "u8 \<Rightarrow> u8 \<Rightarrow> u32" where
  "unit_be b0 b1 = push_bit 8 (ucast b0) + ucast b1"

definition WRITE_UTF16LE :: "u32 \<Rightarrow> bytes" where
  "WRITE_UTF16LE c =
     (if c \<le> 0xFFFF then [ucast (c AND 0x00FF), ucast (drop_bit 8 c AND 0x00FF)]
      else [ucast ((drop_bit 10 c AND 0x003F) + (drop_bit 10 (c - 0x10000) AND 0x00C0)),
            ucast (0x00D8 + (drop_bit 18 (c - 0x10000) AND 0x03)),
            ucast (c AND 0x00FF),
            ucast (0x00DC + (drop_bit 8 c AND 0x03))])"

definition WRITE_UTF16BE :: "u32 \<Rightarrow> bytes" where
  "WRITE_UTF16BE c =
     (if c \<le> 0xFFFF then [ucast (drop_bit 8 c AND 0x00FF), ucast (c AND 0x00FF)]
      else [ucast (0x00D8 + (drop_bit 18 (c - 0x10000) AND 0x03)),
            ucast ((drop_bit 10 c AND 0x003F) + (drop_bit 10 (c - 0x10000) AND 0x00C0)),
            ucast (0x00DC + (drop_bit 8 c AND 0x03)),
            ucast (c AND 0x00FF)])"

definition surrogate_pair :: "u32 \<Rightarrow> u32 \<Rightarrow> u32" where
  "surrogate_pair c c2 = (c2 AND 0x03FF) + push_bit 10 (c AND 0x003F) + push_bit 10 ((c AND 0x03C0) + 0x0040)"

text \<open>
  The readers have \<^verbatim>\<open>zIn<zTerm\<close> as their test before the second unit. A text of an even
  number of bytes has whole units; the bytes of a unit that is not there are read as 0.
\<close>

definition READ_UTF16LE :: "bytes \<Rightarrow> u32 \<times> bytes" where
  "READ_UTF16LE zIn =
     (let c = unit_le (char_at zIn 0) (char_at zIn 1); z = drop 2 zIn in
      if 0xD800 \<le> c \<and> c < 0xE000 \<and> z \<noteq> []
      then (surrogate_pair c (unit_le (char_at z 0) (char_at z 1)), drop 2 z) else (c, z))"

definition READ_UTF16BE :: "bytes \<Rightarrow> u32 \<times> bytes" where
  "READ_UTF16BE zIn =
     (let c = unit_be (char_at zIn 0) (char_at zIn 1); z = drop 2 zIn in
      if 0xD800 \<le> c \<and> c < 0xE000 \<and> z \<noteq> []
      then (surrogate_pair c (unit_be (char_at z 0) (char_at z 1)), drop 2 z) else (c, z))"

section \<open>Translating a value\<close>

definition MEM_Str :: u16 where "MEM_Str = 0x0002"
definition MEM_AffMask :: u16 where "MEM_AffMask = 0x001f"
definition MEM_Term :: u16 where "MEM_Term = 0x0200"
definition MEM_Subtype :: u16 where "MEM_Subtype = 0x8000"

text \<open>The fields of \<^verbatim>\<open>Mem\<close> in play: the bytes \<^verbatim>\<open>z[0..n)\<close>, the encoding, the flags.\<close>

record Mem =
  mz :: bytes
  menc :: nat
  mflags :: u16

fun swap_bytes :: "bytes \<Rightarrow> bytes" where
  "swap_bytes (a # b # z) = b # a # swap_bytes z"
| "swap_bytes z = z"

lemma length_read_continuation: "length (snd (read_continuation c z)) \<le> length z"
  by (induction c z rule: read_continuation.induct) auto

lemma READ_UTF8_shrinks: "z \<noteq> [] \<Longrightarrow> length (snd (READ_UTF8 z)) < length z"
  using length_read_continuation [of "sqlite3Utf8Trans1 ! unat (ucast (char_at z 0) - 0xc0 :: u32)" "tl z"]
  by (cases z) (simp_all add: READ_UTF8_def Let_def split_beta)

lemma READ_UTF16_rest:
  "snd (READ_UTF16LE z) \<in> {drop 2 z, drop 4 z}" "snd (READ_UTF16BE z) \<in> {drop 2 z, drop 4 z}"
  unfolding READ_UTF16LE_def READ_UTF16BE_def Let_def by (simp_all only: snd_conv drop_drop split: if_split) simp_all

lemma READ_UTF16_shrinks:
  assumes "z \<noteq> []"
  shows "length (snd (READ_UTF16LE z)) < length z" "length (snd (READ_UTF16BE z)) < length z"
  using READ_UTF16_rest [of z] assms by auto

text \<open>\<^verbatim>\<open>while( zIn<zTerm )\<close>: read a character, write it.\<close>

function recode :: "(bytes \<Rightarrow> u32 \<times> bytes) \<Rightarrow> (u32 \<Rightarrow> bytes) \<Rightarrow> bytes \<Rightarrow> bytes" where
  "recode rd wr zIn =
     (if zIn = [] \<or> length zIn \<le> length (snd (rd zIn)) then []
      else (let (c, z) = rd zIn in wr c @ recode rd wr z))"
  by pat_completeness auto

termination
  by (relation "measure (\<lambda>(rd, wr, z). length z)") (auto simp: not_le dest: sym)

declare recode.simps [simp del]

definition encode :: "nat \<Rightarrow> nat \<Rightarrow> bytes \<Rightarrow> bytes" where
  "encode enc desiredEnc z =
     (if enc = SQLITE_UTF8
      then (if desiredEnc = SQLITE_UTF16LE then recode READ_UTF8 WRITE_UTF16LE z
            else recode READ_UTF8 WRITE_UTF16BE z)
      else (if enc = SQLITE_UTF16LE then recode READ_UTF16LE WRITE_UTF8 z
            else recode READ_UTF16BE WRITE_UTF8 z))"

text \<open>The size of the output buffer.\<close>

definition encode_room :: "nat \<Rightarrow> nat \<Rightarrow> nat" where
  "encode_room desiredEnc n = (if desiredEnc = SQLITE_UTF8 then n * 2 + 1 else n * 2 + 2)"

text \<open>\<^theory_text>\<open>mem_ok\<close>: whether memory can be had. A length is made even before units are read.\<close>

definition sqlite3VdbeMemTranslate :: "bool \<Rightarrow> nat \<Rightarrow> Mem \<Rightarrow> int \<times> Mem" where
  "sqlite3VdbeMemTranslate mem_ok desiredEnc pMem =
     (if menc pMem \<noteq> SQLITE_UTF8 \<and> desiredEnc \<noteq> SQLITE_UTF8 then
        (if \<not> mem_ok then (SQLITE_NOMEM, pMem)
         else (SQLITE_OK, pMem\<lparr>mz := swap_bytes (mz pMem), menc := desiredEnc\<rparr>))
      else
        (let pMem = (if desiredEnc = SQLITE_UTF8 then pMem\<lparr>mz := take (length (mz pMem) div 2 * 2) (mz pMem)\<rparr> else pMem) in
         if \<not> mem_ok then (SQLITE_NOMEM, pMem)
         else (SQLITE_OK, pMem\<lparr>mz := encode (menc pMem) desiredEnc (mz pMem), menc := desiredEnc,
                 mflags := MEM_Str OR MEM_Term OR (mflags pMem AND (MEM_AffMask OR MEM_Subtype))\<rparr>)))"

text \<open>A byte-order mark at the front is taken off and sets the encoding.\<close>

definition sqlite3VdbeMemHandleBom :: "bool \<Rightarrow> Mem \<Rightarrow> int \<times> Mem" where
  "sqlite3VdbeMemHandleBom mem_ok pMem =
     (let b1 = char_at (mz pMem) 0; b2 = char_at (mz pMem) 1;
          bom = (if 1 < length (mz pMem)
                 then (if b1 = 0xFE \<and> b2 = 0xFF then SQLITE_UTF16BE
                       else if b1 = 0xFF \<and> b2 = 0xFE then SQLITE_UTF16LE else 0)
                 else 0)
      in if bom = 0 then (SQLITE_OK, pMem)
         else if \<not> mem_ok then (SQLITE_NOMEM, pMem)
         else (SQLITE_OK, pMem\<lparr>mz := drop 2 (mz pMem), menc := bom, mflags := mflags pMem OR MEM_Term\<rparr>))"

text \<open>The bytes of the first \<^theory_text>\<open>nChar\<close> characters, in the byte order of the processor.\<close>

fun utf16_skip :: "bool \<Rightarrow> nat \<Rightarrow> bytes \<Rightarrow> bytes" where
  "utf16_skip big 0 z = z"
| "utf16_skip big (Suc n) z = utf16_skip big n (snd (if big then READ_UTF16BE z else READ_UTF16LE z))"

definition sqlite3Utf16ByteLen :: "bool \<Rightarrow> bytes \<Rightarrow> nat \<Rightarrow> nat" where
  "sqlite3Utf16ByteLen big zIn nChar = length zIn - length (utf16_skip big nChar zIn)"

end
