(* ===== verification/UtfProps.thy ===== *)
theory UtfProps
  imports Utf
begin

text \<open>
  The encodings of Unicode: characters survive the way from one encoding to the other and back,
  and the output of a translation fits its buffer.
\<close>

section \<open>Words as numbers\<close>

lemma unat_drop: "unat (drop_bit k x) = unat x div 2 ^ k"
  unfolding unat_drop_bit_eq by (rule drop_bit_eq_div)

lemma nat_and_field: "n AND push_bit k (mask m) = 2 ^ k * (n div 2 ^ k mod 2 ^ m)" for n :: nat
proof -
  have "n AND push_bit k (mask m) = push_bit k (take_bit m (drop_bit k n))"
    by (rule bit_eqI) (auto simp: bit_simps)
  then show ?thesis by (simp add: push_bit_eq_mult take_bit_eq_mod drop_bit_eq_div mult.commute)
qed

lemma nat_masks: "n AND mask m = n mod 2 ^ m" for n :: nat
  by (simp add: take_bit_eq_mod flip: take_bit_eq_mask)

lemma nat_fields:
  fixes n :: nat
  shows "n AND 0x03 = n mod 4" "n AND 0x07 = n mod 8" "n AND 0x0F = n mod 16" "n AND 0x1F = n mod 32"
    "n AND 0x3F = n mod 64" "n AND 0xFF = n mod 256" "n AND 0x3FF = n mod 1024"
    "n AND 0xC0 = 64 * (n div 64 mod 4)" "n AND 0x3C0 = 64 * (n div 64 mod 16)"
proof -
  show "n AND 0x03 = n mod 4" using nat_masks [of n 2] by (simp add: mask_eq_exp_minus_1)
  show "n AND 0x07 = n mod 8" using nat_masks [of n 3] by (simp add: mask_eq_exp_minus_1)
  show "n AND 0x0F = n mod 16" using nat_masks [of n 4] by (simp add: mask_eq_exp_minus_1)
  show "n AND 0x1F = n mod 32" using nat_masks [of n 5] by (simp add: mask_eq_exp_minus_1)
  show "n AND 0x3F = n mod 64" using nat_masks [of n 6] by (simp add: mask_eq_exp_minus_1)
  show "n AND 0xFF = n mod 256" using nat_masks [of n 8] by (simp add: mask_eq_exp_minus_1)
  show "n AND 0x3FF = n mod 1024" using nat_masks [of n 10] by (simp add: mask_eq_exp_minus_1)
  show "n AND 0xC0 = 64 * (n div 64 mod 4)"
    using nat_and_field [of n 6 2] by (simp add: mask_eq_exp_minus_1 push_bit_eq_mult)
  show "n AND 0x3C0 = 64 * (n div 64 mod 16)"
    using nat_and_field [of n 6 4] by (simp add: mask_eq_exp_minus_1 push_bit_eq_mult)
qed

text \<open>Words are moved to numbers by these equations, as long as nothing is cut off.\<close>

lemmas to_nat = unsigned_and_eq unat_drop nat_fields

lemma unat_ucast8: "unat (ucast (x :: u32) :: u8) = unat x mod 256"
  by (simp add: unsigned_ucast_eq take_bit_eq_mod)

lemma unat_ucast32: "unat (ucast (b :: u8) :: u32) = unat b"
  using byte_lt [of b] by (simp add: unsigned_ucast_eq take_bit_eq_mod)

lemma byte_sum: "unat (a :: u8) + unat b < 256 \<Longrightarrow> unat (a + b) = unat a + unat b"
  by (rule unat_add_lem [THEN iffD1]) simp

definition unicode :: "u32 \<Rightarrow> bool" where
  "unicode c \<longleftrightarrow> c < 0x110000 \<and> \<not> (0xD800 \<le> c \<and> c < 0xE000) \<and> c \<noteq> 0xFFFE \<and> c \<noteq> 0xFFFF"

text \<open>The bytes written for a character, as numbers.\<close>

lemma WRITE_UTF8_nat:
  "map unat (WRITE_UTF8 c) = (let n = unat c in
     if n < 128 then [n]
     else if n < 2048 then [192 + n div 64 mod 32, 128 + n mod 64]
     else if n < 65536 then [224 + n div 4096 mod 16, 128 + n div 64 mod 64, 128 + n mod 64]
     else [240 + n div 262144 mod 8, 128 + n div 4096 mod 64, 128 + n div 64 mod 64, 128 + n mod 64])"
proof -
  have low: "unat (ucast (c AND 0xFF) :: u8) = unat c mod 256"
    by (simp add: unat_ucast8 to_nat)
  have part: "unat (b + ucast (x AND m) :: u8) = unat b + unat (x AND m)"
    if "unat b + unat m < 256" "unat (x AND m) \<le> unat m" for b and x m :: u32
    using that by (subst byte_sum) (simp_all add: unat_ucast8)
  have "unat (0xC0 + ucast (drop_bit 6 c AND 0x1F) :: u8) = 192 + unat c div 64 mod 32"
    "unat (0xE0 + ucast (drop_bit 12 c AND 0x0F) :: u8) = 224 + unat c div 4096 mod 16"
    "unat (0xF0 + ucast (drop_bit 18 c AND 0x07) :: u8) = 240 + unat c div 262144 mod 8"
    "unat (0x80 + ucast (c AND 0x3F) :: u8) = 128 + unat c mod 64"
    "unat (0x80 + ucast (drop_bit 6 c AND 0x3F) :: u8) = 128 + unat c div 64 mod 64"
    "unat (0x80 + ucast (drop_bit 12 c AND 0x3F) :: u8) = 128 + unat c div 4096 mod 64"
    by (subst part, simp add: to_nat, simp add: to_nat, simp add: to_nat)+
  with low show ?thesis
    by (simp add: WRITE_UTF8_def Let_def word_less_nat_alt)
qed

section \<open>Reading UTF-8\<close>

lemma char_entries: "length xs = length ys \<Longrightarrow> map f xs = ys \<Longrightarrow> k < length xs \<Longrightarrow> f (xs ! k) = ys ! k"
  by (metis nth_map)

lemma Trans1_lead:
  "take 32 sqlite3Utf8Trans1 = map of_nat [0..<32]" "take 16 (drop 32 sqlite3Utf8Trans1) = map of_nat [0..<16]"
  "take 8 (drop 48 sqlite3Utf8Trans1) = map of_nat [0..<8]"
  by (simp_all add: sqlite3Utf8Trans1_def upt_rec_numeral upt_from_0_1)

lemma Trans1_nth:
  "k < 32 \<Longrightarrow> sqlite3Utf8Trans1 ! k = of_nat k"
  "k < 16 \<Longrightarrow> sqlite3Utf8Trans1 ! (32 + k) = of_nat k"
  "k < 8 \<Longrightarrow> sqlite3Utf8Trans1 ! (48 + k) = of_nat k"
proof -
  have l: "length sqlite3Utf8Trans1 = 64" by (simp add: sqlite3Utf8Trans1_def)
  show "k < 32 \<Longrightarrow> sqlite3Utf8Trans1 ! k = of_nat k"
    using arg_cong [OF Trans1_lead(1), of "\<lambda>xs. xs ! k"] by simp
  show "k < 16 \<Longrightarrow> sqlite3Utf8Trans1 ! (32 + k) = of_nat k"
    using arg_cong [OF Trans1_lead(2), of "\<lambda>xs. xs ! k"] l by simp
  show "k < 8 \<Longrightarrow> sqlite3Utf8Trans1 ! (48 + k) = of_nat k"
    using arg_cong [OF Trans1_lead(3), of "\<lambda>xs. xs ! k"] l by simp
qed

definition continuation :: "u8 \<Rightarrow> bool" where
  "continuation b \<longleftrightarrow> b AND 0xc0 = 0x80"

lemma continuation_nat: "continuation b \<longleftrightarrow> unat b div 64 = 2"
proof -
  have "continuation b \<longleftrightarrow> unat (b AND 0xc0) = unat (0x80 :: u8)" by (simp only: continuation_def word_unat_eq_iff)
  also have "unat (b AND 0xc0) = 64 * (unat b div 64 mod 4)" by (simp add: to_nat)
  also have "unat b div 64 mod 4 = unat b div 64" using byte_lt [of b] by simp
  finally show ?thesis by auto
qed

lemma read_continuation_step:
  assumes "unat b = 128 + r" "r < 64"
  shows "read_continuation (of_nat a) (b # z) = read_continuation (of_nat (64 * a + r)) z"
proof -
  have c: "continuation b" using assms by (simp add: continuation_nat)
  have m: "(128 + r) mod 64 = r"
  proof -
    have "(128 + r) mod 64 = (r + 2 * 64) mod 64" by (simp add: add.commute)
    also have "\<dots> = r" using assms(2) by (simp only: mod_mult_self1 mod_less)
    finally show ?thesis .
  qed
  have "(0x3f AND ucast b :: u32) = of_nat r"
  proof -
    have "unat (ucast b AND 0x3f :: u32) = r"
      using assms byte_lt [of b] m by (simp add: to_nat unsigned_ucast_eq take_bit_eq_mod)
    moreover have "unat (of_nat r :: u32) = r" using assms(2) by (simp add: unat_of_nat)
    ultimately show ?thesis by (metis and.commute word_unat_eq_iff)
  qed
  with c show ?thesis
    by (simp add: continuation_def push_bit_eq_mult mult.commute)
qed

lemma read_continuation_stop:
  "z = [] \<or> \<not> continuation (hd z) \<Longrightarrow> read_continuation c z = (c, z)"
  by (cases z) (auto simp: continuation_def)

declare read_continuation.simps [simp del]

text \<open>A character of 0x80 and above is read back unless it is one that readers replace.\<close>

lemma unicode_kept:
  assumes "unicode c" "0x80 \<le> c"
  shows "\<not> (c < 0x80 \<or> c AND 0xFFFFF800 = 0xD800 \<or> c AND 0xFFFFFFFE = 0xFFFE)"
proof -
  let ?n = "unat c"
  have n: "?n < 0x110000" using assms(1) by (simp add: unicode_def word_less_nat_alt)
  have "(0xFFFFF800 :: nat) = push_bit 11 (mask 21)" "(0xFFFFFFFE :: nat) = push_bit 1 (mask 31)"
    by (simp_all add: mask_eq_exp_minus_1 push_bit_eq_mult)
  then have f: "k AND 0xFFFFF800 = 2048 * (k div 2048 mod 2 ^ 21)" "k AND 0xFFFFFFFE = 2 * (k div 2 mod 2 ^ 31)" for k :: nat
    using nat_and_field [of k 11 21] nat_and_field [of k 1 31] by simp_all
  have "unat (c AND 0xFFFFF800) = 2048 * (?n div 2048)" "unat (c AND 0xFFFFFFFE) = 2 * (?n div 2)"
    using n by (simp_all add: unsigned_and_eq f)
  moreover have "?n div 2048 \<noteq> 27" using assms(1) by (auto simp: unicode_def word_le_nat_alt word_less_nat_alt)
  moreover have "?n div 2 \<noteq> 32767"
    using assms(1) by (auto simp: unicode_def word_unat_eq_iff)
  ultimately have "unat (c AND 0xFFFFF800) \<noteq> 0xD800" "unat (c AND 0xFFFFFFFE) \<noteq> 0xFFFE" by auto
  then show ?thesis using assms(2) by auto
qed

text \<open>The lead byte gives the first bits, and each continuation byte six more.\<close>

lemma READ_UTF8_lead:
  assumes "192 \<le> unat b" "sqlite3Utf8Trans1 ! (unat b - 192) = of_nat a"
    and "read_continuation (of_nat a) z = (c, y)" "unicode c" "0x80 \<le> c"
  shows "READ_UTF8 (b # z) = (c, y)"
proof -
  have "0xc0 \<le> (ucast b :: u32)" using assms(1) by (simp add: word_le_nat_alt unat_ucast32)
  moreover have "unat (ucast b - 0xc0 :: u32) = unat b - 192"
    using assms(1) byte_lt [of b] by (simp add: unat_sub_if_size word_size unat_ucast32)
  ultimately show ?thesis using assms unicode_kept [OF assms(4,5)] by (simp add: READ_UTF8_def Let_def)
qed

lemma map_unat_Cons: "map unat xs = a # as \<longleftrightarrow> (\<exists>x ys. xs = x # ys \<and> unat x = a \<and> map unat ys = as)"
  by (cases xs) auto

text \<open>Six bits at a time.\<close>

lemma digits64:
  "64 * (n div 64) + n mod 64 = n" "64 * (n div 4096) + n div 64 mod 64 = n div 64"
  "64 * (n div 262144) + n div 4096 mod 64 = n div 4096" for n :: nat
  using mult_div_mod_eq [of 64 "n div 64"] mult_div_mod_eq [of 64 "n div 4096"]
  by (simp_all add: div_mult2_eq [symmetric])

lemma READ_WRITE_UTF8:
  assumes "unicode c" "z = [] \<or> \<not> continuation (hd z)"
  shows "READ_UTF8 (WRITE_UTF8 c @ z) = (c, z)"
proof -
  let ?n = "unat c"
  have c: "of_nat ?n = c" by simp
  have n: "?n < 1114112" using assms(1) by (simp add: unicode_def word_less_nat_alt)
  note step = read_continuation_step read_continuation_stop [OF assms(2)]
  consider "?n < 128" | "128 \<le> ?n" "?n < 2048" | "2048 \<le> ?n" "?n < 65536" | "65536 \<le> ?n" by linarith
  then show ?thesis
  proof cases
    case 1
    then have "map unat (WRITE_UTF8 c) = [?n]" by (simp add: WRITE_UTF8_nat)
    then obtain b where b: "WRITE_UTF8 c = [b]" "unat b = ?n" by (auto simp: map_unat_Cons)
    then have "(ucast b :: u32) = c" by (simp add: word_unat_eq_iff unat_ucast32)
    moreover have "\<not> 0xc0 \<le> c" using 1 by (simp add: word_le_nat_alt)
    ultimately show ?thesis using b by (simp add: READ_UTF8_def Let_def)
  next
    case 2
    then have "map unat (WRITE_UTF8 c) = [192 + ?n div 64, 128 + ?n mod 64]" by (simp add: WRITE_UTF8_nat Let_def)
    then obtain b0 b1 where b: "WRITE_UTF8 c = [b0, b1]" "unat b0 = 192 + ?n div 64" "unat b1 = 128 + ?n mod 64"
      using 2 by (auto simp: map_unat_Cons)
    have "read_continuation (of_nat (?n div 64)) (b1 # z) = (c, z)"
      using b(3) by (simp add: step digits64 c del: of_nat_add of_nat_mult)
    then show ?thesis
      using 2 b Trans1_nth(1) [of "?n div 64"] assms(1)
      by (simp add: READ_UTF8_lead [of b0 "?n div 64"] word_le_nat_alt)
  next
    case 3
    then have "map unat (WRITE_UTF8 c) = [224 + ?n div 4096, 128 + ?n div 64 mod 64, 128 + ?n mod 64]"
      by (simp add: WRITE_UTF8_nat Let_def)
    then obtain b0 b1 b2 where b: "WRITE_UTF8 c = [b0, b1, b2]" "unat b0 = 224 + ?n div 4096"
      "unat b1 = 128 + ?n div 64 mod 64" "unat b2 = 128 + ?n mod 64"
      by (auto simp: map_unat_Cons)
    have "read_continuation (of_nat (?n div 4096)) (b1 # b2 # z) = (c, z)"
      using b(3,4) by (simp add: step digits64 c del: of_nat_add of_nat_mult)
    moreover have "sqlite3Utf8Trans1 ! (unat b0 - 192) = of_nat (?n div 4096)"
      using b(2) 3 Trans1_nth(2) [of "?n div 4096"] by simp
    ultimately show ?thesis
      using 3 b(1,2) assms(1) by (simp add: READ_UTF8_lead [of b0 "?n div 4096"] word_le_nat_alt)
  next
    case 4
    then have "map unat (WRITE_UTF8 c) =
        [240 + ?n div 262144, 128 + ?n div 4096 mod 64, 128 + ?n div 64 mod 64, 128 + ?n mod 64]"
      using n by (simp add: WRITE_UTF8_nat Let_def)
    then obtain b0 b1 b2 b3 where b: "WRITE_UTF8 c = [b0, b1, b2, b3]" "unat b0 = 240 + ?n div 262144"
      "unat b1 = 128 + ?n div 4096 mod 64" "unat b2 = 128 + ?n div 64 mod 64" "unat b3 = 128 + ?n mod 64"
      by (auto simp: map_unat_Cons)
    have "read_continuation (of_nat (?n div 262144)) (b1 # b2 # b3 # z) = (c, z)"
      using b(3-5) by (simp add: step digits64 c del: of_nat_add of_nat_mult)
    moreover have "sqlite3Utf8Trans1 ! (unat b0 - 192) = of_nat (?n div 262144)"
      using b(2) 4 n Trans1_nth(3) [of "?n div 262144"] by simp
    ultimately show ?thesis
      using 4 b(1,2) assms(1) by (simp add: READ_UTF8_lead [of b0 "?n div 262144"] word_le_nat_alt)
  qed
qed

lemma WRITE_UTF8_starts: "WRITE_UTF8 c \<noteq> [] \<and> (unicode c \<longrightarrow> \<not> continuation (hd (WRITE_UTF8 c)))"
proof (intro conjI impI)
  show "WRITE_UTF8 c \<noteq> []" by (simp add: WRITE_UTF8_def)
  assume "unicode c"
  then have "unat c < 1114112" by (simp add: unicode_def word_less_nat_alt)
  then have "unat (hd (WRITE_UTF8 c)) div 64 \<noteq> 2"
    using WRITE_UTF8_nat [of c] by (auto simp: Let_def map_unat_Cons split: if_splits)
  then show "\<not> continuation (hd (WRITE_UTF8 c))" by (simp add: continuation_nat)
qed

section \<open>Reading UTF-16\<close>

lemma unit_nat: "unat (unit_le b0 b1) = unat b0 + 256 * unat b1" "unit_be b1 b0 = unit_le b0 b1"
proof -
  have "unat (push_bit 8 (ucast b1) :: u32) = 256 * unat b1"
    using byte_lt [of b1] by (simp add: push_bit_eq_mult unat_word_ariths unat_ucast32)
  then show "unat (unit_le b0 b1) = unat b0 + 256 * unat b1"
    using byte_lt [of b0] byte_lt [of b1] unfolding unit_le_def
    by (subst unat_add_lem [THEN iffD1]) (simp_all add: unat_ucast32)
  show "unit_be b1 b0 = unit_le b0 b1" by (simp add: unit_be_def unit_le_def add.commute)
qed

text \<open>The two byte orders differ in the order of the bytes of a unit only.\<close>

lemma utf16_orders:
  "WRITE_UTF16BE c = swap_bytes (WRITE_UTF16LE c)"
  by (simp add: WRITE_UTF16LE_def WRITE_UTF16BE_def)

lemma WRITE_UTF16LE_nat:
  assumes "unat c < 1114112"
  shows "map unat (WRITE_UTF16LE c) = (let n = unat c; m = n - 65536 in
     if n < 65536 then [n mod 256, n div 256]
     else [m div 1024 mod 256, 216 + m div 262144, n mod 256, 220 + n div 256 mod 4])"
proof -
  let ?n = "unat c"
  let ?m = "?n - 65536"
  have le: "c \<le> 0xFFFF \<longleftrightarrow> ?n < 65536" by (auto simp: word_le_nat_alt)
  show ?thesis
  proof (cases "?n < 65536")
    case True
    then show ?thesis by (simp add: WRITE_UTF16LE_def le unat_ucast8 to_nat Let_def)
  next
    case False
    have m: "unat (c - 0x10000) = ?m" using False by (simp add: unat_sub_if_size word_size)
    have sum: "unat (a + b :: u32) = unat a + unat b" if "unat a + unat b < 2 ^ 32" for a b :: u32
      using that by (intro unat_add_lem [THEN iffD1]) simp
    have q: "?n div 1024 = 64 + ?m div 1024" using False by auto
    have f: "?m div 1024 < 1024" "?m div 262144 < 4" using assms by auto
    have "(?n div 1024) mod 64 + 64 * (?m div 1024 div 64 mod 4) = ?m div 1024 mod 256"
      using mod_mult2_eq [of "?m div 1024" 64 4] by (simp add: q)
    moreover have "unat (drop_bit 10 c AND 0x003F) = ?n div 1024 mod 64"
      "unat (drop_bit 10 (c - 0x10000) AND 0x00C0) = 64 * (?m div 1024 div 64 mod 4)"
      by (simp_all add: to_nat m)
    ultimately have "unat ((drop_bit 10 c AND 0x003F) + (drop_bit 10 (c - 0x10000) AND 0x00C0)) = ?m div 1024 mod 256"
      using less_trans [OF mod_less_divisor [of 256 "?m div 1024"]] by (subst sum) simp_all
    then have b0: "unat (ucast ((drop_bit 10 c AND 0x003F) + (drop_bit 10 (c - 0x10000) AND 0x00C0)) :: u8)
        = ?m div 1024 mod 256"
      by (simp add: unat_ucast8)
    have b1: "unat (ucast (0x00D8 + (drop_bit 18 (c - 0x10000) AND 0x03)) :: u8) = 216 + ?m div 262144"
      using f(2) by (simp add: unat_ucast8 sum to_nat m)
    have b3: "unat (ucast (0x00DC + (drop_bit 8 c AND 0x03)) :: u8) = 220 + ?n div 256 mod 4"
      by (simp add: unat_ucast8 sum to_nat)
    have b2: "unat (ucast (c AND 0x00FF) :: u8) = ?n mod 256" by (simp add: unat_ucast8 to_nat)
    show ?thesis using False b0 b1 b2 b3 by (simp add: WRITE_UTF16LE_def le Let_def)
  qed
qed

lemma unat_fields32:
  "unat (c AND 0x03FF) = unat c mod 1024" "unat (c AND 0x003F) = unat c mod 64"
  "unat (c AND 0x03C0) = 64 * (unat c div 64 mod 16)" for c :: u32
  by (simp_all add: to_nat)

lemma surrogate_pair_nat:
  assumes "unat c = 55296 + q" "q < 1024" "unat c2 = 56320 + r" "r < 1024"
  shows "unat (surrogate_pair c c2) = 65536 + 1024 * q + r"
proof -
  have sum: "unat (a + b :: u32) = unat a + unat b" if "unat a + unat b < 4294967296" for a b :: u32
    using that by (intro unat_add_lem [THEN iffD1]) simp
  have sh: "unat (push_bit 10 a :: u32) = 1024 * unat a" if "unat a < 4096" for a :: u32
    using that by (simp add: push_bit_eq_mult unat_word_ariths)
  have d: "(56320 + r) mod 1024 = r" "(55296 + q) mod 64 = q mod 64" "(55296 + q) div 64 mod 16 = q div 64"
    using assms(2,4) mod_mult_self2 [of r 1024 55] mod_mult_self2 [of q 64 864] div_mult_self2 [of 64 q 864]
      mod_mult_self2 [of "q div 64" 16 54]
    by (simp_all add: add.commute)
  have p: "unat (c2 AND 0x03FF) = r" "unat (c AND 0x003F) = q mod 64" "unat (c AND 0x03C0) = 64 * (q div 64)"
    unfolding unat_fields32 assms d by (rule refl)+
  have q: "q mod 64 + 64 * (q div 64) = q" "q mod 64 < 64" "q div 64 < 16" using assms(2) by auto
  let ?A = "c2 AND 0x03FF" and ?B = "push_bit 10 (c AND 0x003F)" and ?I = "(c AND 0x03C0) + 0x0040"
  have B: "unat ?B = 1024 * (q mod 64)" unfolding p(2) [symmetric] by (rule sh) (use p(2) q(2) in linarith)
  have I: "unat ?I = 64 * (q div 64) + 64" using sum [of "c AND 0x03C0" "0x0040"] p(3) q(3) by simp
  have C: "unat (push_bit 10 ?I) = 1024 * (64 * (q div 64) + 64)"
    unfolding I [symmetric] by (rule sh) (use I q(3) in linarith)
  have AB: "unat (?A + ?B) = r + 1024 * (q mod 64)"
    unfolding p(1) [symmetric] B [symmetric] by (rule sum) (use p(1) B assms(4) q(2) in linarith)
  have "unat (?A + ?B + push_bit 10 ?I) = r + 1024 * (q mod 64) + 1024 * (64 * (q div 64) + 64)"
  proof -
    have "r + 1024 * a + 1024 * (64 * b + 64) < 4294967296" if "a < 64" "b < 16" for a b :: nat
      using assms(4) that by simp
    then have "r + 1024 * (q mod 64) + 1024 * (64 * (q div 64) + 64) < 4294967296" using q(2,3) by blast
    then have "unat (?A + ?B) + unat (push_bit 10 ?I) < 4294967296" unfolding AB C .
    from sum [OF this] show ?thesis unfolding AB C .
  qed
  moreover have "1024 * (a + 64 * b) = 1024 * a + 65536 * b" for a b :: nat by simp
  from this [of "q mod 64" "q div 64"] have "1024 * q = 1024 * (q mod 64) + 65536 * (q div 64)" unfolding q(1) .
  ultimately show ?thesis unfolding surrogate_pair_def by (simp add: distrib_left)
qed

lemma unat_eq_word: "unat x = unat y \<Longrightarrow> x = y"
  by (simp add: word_unat_eq_iff)

lemma READ_WRITE_UTF16LE:
  assumes "unicode c"
  shows "READ_UTF16LE (WRITE_UTF16LE c @ z) = (c, z)"
proof -
  let ?n = "unat c"
  have n: "?n < 1114112" "\<not> (55296 \<le> ?n \<and> ?n < 57344)"
    using assms by (auto simp: unicode_def word_less_nat_alt word_le_nat_alt)
  show ?thesis
  proof (cases "?n < 65536")
    case True
    then have "map unat (WRITE_UTF16LE c) = [?n mod 256, ?n div 256]"
      using WRITE_UTF16LE_nat [OF n(1)] by (simp add: Let_def)
    then obtain b0 b1 where b: "WRITE_UTF16LE c = [b0, b1]" "unat b0 = ?n mod 256" "unat b1 = ?n div 256"
      by (auto simp: map_unat_Cons)
    then have "unit_le b0 b1 = c" by (intro unat_eq_word) (simp add: unit_nat)
    moreover have "\<not> (0xD800 \<le> c \<and> c < 0xE000)" using n(2) by (auto simp: word_le_nat_alt word_less_nat_alt)
    ultimately show ?thesis by (auto simp: READ_UTF16LE_def b(1) Let_def)
  next
    case False
    define q where "q = (?n - 65536) div 1024"
    have q: "q < 1024" "(?n - 65536) div 262144 = q div 256" using n(1) by (auto simp: q_def div_mult2_eq [symmetric])
    have "map unat (WRITE_UTF16LE c) = [q mod 256, 216 + q div 256, ?n mod 256, 220 + ?n div 256 mod 4]"
      using WRITE_UTF16LE_nat [OF n(1)] False unfolding Let_def q(2) q_def [symmetric] by simp
    then obtain b0 b1 b2 b3 where b: "WRITE_UTF16LE c = [b0, b1, b2, b3]" "unat b0 = q mod 256"
      "unat b1 = 216 + q div 256" "unat b2 = ?n mod 256" "unat b3 = 220 + ?n div 256 mod 4"
      by (auto simp: map_unat_Cons)
    have u1: "unat (unit_le b0 b1) = 55296 + q" by (simp add: unit_nat b(2,3))
    have "?n mod 256 + 256 * (?n div 256 mod 4) = ?n mod 1024" using mod_mult2_eq [of ?n 256 4] by simp
    then have u2: "unat (unit_le b2 b3) = 56320 + ?n mod 1024" by (simp add: unit_nat b(4,5))
    have "?n mod 1024 = (?n - 65536) mod 1024" using mod_mult_self2 [of "?n - 65536" 1024 64] False by simp
    then have "65536 + 1024 * q + ?n mod 1024 = ?n" using False mult_div_mod_eq [of 1024 "?n - 65536"] by (simp add: q_def)
    then have "surrogate_pair (unit_le b0 b1) (unit_le b2 b3) = c"
      by (intro unat_eq_word) (simp add: surrogate_pair_nat [OF u1 q(1) u2])
    moreover have "0xD800 \<le> unit_le b0 b1 \<and> unit_le b0 b1 < 0xE000"
      using u1 q(1) by (simp add: word_le_nat_alt word_less_nat_alt)
    ultimately show ?thesis by (simp add: READ_UTF16LE_def b(1) Let_def)
  qed
qed

lemma WRITE_UTF16LE_starts: "length (WRITE_UTF16LE c) = 2 \<or> length (WRITE_UTF16LE c) = 4"
  by (simp add: WRITE_UTF16LE_def)

lemma READ_WRITE_UTF16BE:
  assumes "unicode c"
  shows "READ_UTF16BE (WRITE_UTF16BE c @ z) = (c, z)"
proof -
  have le: "READ_UTF16LE (WRITE_UTF16LE c @ z) = (c, z)" by (rule READ_WRITE_UTF16LE [OF assms])
  consider b0 b1 where "WRITE_UTF16LE c = [b0, b1]" | b0 b1 b2 b3 where "WRITE_UTF16LE c = [b0, b1, b2, b3]"
    using WRITE_UTF16LE_starts [of c] by (auto simp: length_Suc_conv numeral_eq_Suc)
  then show ?thesis
  proof cases
    case 1
    have "\<not> (0xD800 \<le> unit_le b0 b1 \<and> unit_le b0 b1 < 0xE000) \<or> z = []"
    proof (rule ccontr)
      assume "\<not> ?thesis"
      then have "length (snd (READ_UTF16LE (WRITE_UTF16LE c @ z))) < length z"
        by (cases z) (simp_all add: READ_UTF16LE_def 1 Let_def)
      then show False by (simp add: le)
    qed
    then show ?thesis using le by (auto simp: READ_UTF16LE_def READ_UTF16BE_def utf16_orders 1 Let_def unit_nat split: if_splits)
  next
    case 2
    have "0xD800 \<le> unit_le b0 b1 \<and> unit_le b0 b1 < 0xE000"
    proof (rule ccontr)
      assume "\<not> ?thesis"
      then have "snd (READ_UTF16LE (WRITE_UTF16LE c @ z)) = b2 # b3 # z"
        by (auto simp: READ_UTF16LE_def 2 Let_def)
      then show False by (simp add: le)
    qed
    then show ?thesis using le by (auto simp: READ_UTF16LE_def READ_UTF16BE_def utf16_orders 2 Let_def unit_nat)
  qed
qed

section \<open>Whole texts\<close>

text \<open>
  A text of characters \<^theory_text>\<open>cs\<close> that a writer \<^theory_text>\<open>w\<close> wrote is rewritten character by
  character, by a reader that undoes the writer before a text that continues with a character or
  ends.
\<close>

lemma recode_text:
  assumes "\<And>c z. unicode c \<Longrightarrow> ok z \<Longrightarrow> rd (w c @ z) = (c, z)" "\<And>c. w c \<noteq> []" "ok []"
    "\<And>c z. unicode c \<Longrightarrow> ok (w c @ z)" "\<forall>c\<in>set cs. unicode c"
  shows "recode rd wr (concat (map w cs)) = concat (map wr cs)"
  using assms(5)
proof (induction cs)
  case Nil
  then show ?case by (simp add: recode.simps)
next
  case (Cons c cs)
  let ?z = "concat (map w cs)"
  have "ok ?z" using Cons.prems assms(3,4) by (cases cs) auto
  then have "rd (w c @ ?z) = (c, ?z)" using Cons.prems by (intro assms(1)) auto
  moreover have "length ?z < length (w c @ ?z)" using assms(2) by simp
  ultimately have "recode rd wr (w c @ ?z) = wr c @ recode rd wr ?z"
    using assms(2) by (subst recode.simps) simp
  then show ?case using Cons by simp
qed

lemma WRITE_UTF16BE_nonempty: "WRITE_UTF16BE c \<noteq> []" "WRITE_UTF16LE c \<noteq> []"
  by (simp_all add: WRITE_UTF16BE_def WRITE_UTF16LE_def)

lemma recode_texts:
  assumes "\<forall>c\<in>set cs. unicode c"
  shows "recode READ_UTF8 wr (concat (map WRITE_UTF8 cs)) = concat (map wr cs)"
    "recode READ_UTF16LE wr (concat (map WRITE_UTF16LE cs)) = concat (map wr cs)"
    "recode READ_UTF16BE wr (concat (map WRITE_UTF16BE cs)) = concat (map wr cs)"
proof -
  show "recode READ_UTF8 wr (concat (map WRITE_UTF8 cs)) = concat (map wr cs)"
    by (rule recode_text [where ok = "\<lambda>z. z = [] \<or> \<not> continuation (hd z)"])
      (use assms READ_WRITE_UTF8 WRITE_UTF8_starts in auto)
  show "recode READ_UTF16LE wr (concat (map WRITE_UTF16LE cs)) = concat (map wr cs)"
    by (rule recode_text [where ok = "\<lambda>z. True"])
      (use assms READ_WRITE_UTF16LE WRITE_UTF16BE_nonempty in auto)
  show "recode READ_UTF16BE wr (concat (map WRITE_UTF16BE cs)) = concat (map wr cs)"
    by (rule recode_text [where ok = "\<lambda>z. True"])
      (use assms READ_WRITE_UTF16BE WRITE_UTF16BE_nonempty in auto)
qed

text \<open>The bytes of a text in an encoding.\<close>

definition text_bytes :: "nat \<Rightarrow> u32 list \<Rightarrow> bytes" where
  "text_bytes enc cs = concat (map (if enc = SQLITE_UTF8 then WRITE_UTF8
     else if enc = SQLITE_UTF16LE then WRITE_UTF16LE else WRITE_UTF16BE) cs)"

lemma swap_append: "even (length x) \<Longrightarrow> swap_bytes (x @ y) = swap_bytes x @ swap_bytes y"
  by (induction x rule: swap_bytes.induct) auto

lemma length_swap: "length (swap_bytes x) = length x"
  by (induction x rule: swap_bytes.induct) auto

lemma swap_swap: "swap_bytes (swap_bytes x) = x"
  by (induction x rule: swap_bytes.induct) auto

lemma even_utf16: "even (length (WRITE_UTF16LE c))" "even (length (WRITE_UTF16BE c))"
  by (simp_all add: WRITE_UTF16LE_def WRITE_UTF16BE_def)

lemma swap_text: "swap_bytes (concat (map WRITE_UTF16LE cs)) = concat (map WRITE_UTF16BE cs)"
  by (induction cs) (simp_all add: swap_append even_utf16 utf16_orders)

lemma even_text: "even (length (concat (map WRITE_UTF16LE cs)))" "even (length (concat (map WRITE_UTF16BE cs)))"
  by (induction cs) (simp_all add: even_utf16)

text \<open>
  C18: Changing the encoding of a value keeps its characters: a text of any Unicode characters, short
  of surrogates and the two values that readers replace, goes from any of UTF-8, UTF-16LE and
  UTF-16BE to any other as the same characters, and so comes back byte by byte.
\<close>
theorem translate_keeps_text:
  assumes "\<forall>c\<in>set cs. unicode c" "mz m = text_bytes (menc m) cs"
    and "{menc m, enc} \<subseteq> {SQLITE_UTF8, SQLITE_UTF16LE, SQLITE_UTF16BE}" "menc m \<noteq> enc"
  shows "\<exists>m'. sqlite3VdbeMemTranslate True enc m = (SQLITE_OK, m') \<and> mz m' = text_bytes enc cs \<and> menc m' = enc"
proof -
  have "swap_bytes (concat (map WRITE_UTF16BE cs)) = concat (map WRITE_UTF16LE cs)"
    using swap_swap [of "concat (map WRITE_UTF16LE cs)"] by (simp add: swap_text)
  then show ?thesis
    using assms recode_texts [OF assms(1)] even_text [of cs]
    by (auto simp: sqlite3VdbeMemTranslate_def encode_def text_bytes_def swap_text Let_def
        SQLITE_UTF8_def SQLITE_UTF16LE_def SQLITE_UTF16BE_def)
qed

theorem translate_keeps_text_witness:
  "\<exists>m'. sqlite3VdbeMemTranslate True SQLITE_UTF16LE \<lparr>mz = [0x41, 0xE2, 0x82, 0xAC, 0xF0, 0x9F, 0x98, 0x80],
      menc = SQLITE_UTF8, mflags = MEM_Str\<rparr> = (SQLITE_OK, m')
    \<and> mz m' = [0x41, 0, 0xAC, 0x20, 0x3D, 0xD8, 0x00, 0xDE]"
proof -
  let ?m = "\<lparr>mz = [0x41, 0xE2, 0x82, 0xAC, 0xF0, 0x9F, 0x98, 0x80], menc = SQLITE_UTF8, mflags = MEM_Str\<rparr>"
  have "mz ?m = text_bytes SQLITE_UTF8 [0x41, 0x20AC, 0x1F600]"
    "text_bytes SQLITE_UTF16LE [0x41, 0x20AC, 0x1F600] = [0x41, 0, 0xAC, 0x20, 0x3D, 0xD8, 0x00, 0xDE]"
    by (simp_all add: text_bytes_def WRITE_UTF8_def WRITE_UTF16LE_def SQLITE_UTF8_def SQLITE_UTF16LE_def)
  then show ?thesis
    using translate_keeps_text [of "[0x41, 0x20AC, 0x1F600]" ?m SQLITE_UTF16LE]
    by (auto simp: unicode_def SQLITE_UTF8_def SQLITE_UTF16LE_def)
qed

section \<open>The output buffer\<close>

lemma recode_bound:
  assumes "\<And>z. z \<noteq> [] \<Longrightarrow> P z \<Longrightarrow> length (wr (fst (rd z))) + 2 * length (snd (rd z)) \<le> 2 * length z \<and> P (snd (rd z))"
  shows "P z \<Longrightarrow> length (recode rd wr z) \<le> 2 * length z"
proof (induction "length z" arbitrary: z rule: less_induct)
  case less
  show ?case
  proof (cases "z = [] \<or> length z \<le> length (snd (rd z))")
    case True
    then show ?thesis by (simp add: recode.simps [of rd wr z])
  next
    case False
    then have "length (recode rd wr (snd (rd z))) \<le> 2 * length (snd (rd z))"
      using less.hyps less.prems assms by simp
    moreover have "recode rd wr z = wr (fst (rd z)) @ recode rd wr (snd (rd z))"
      using False by (subst recode.simps) (simp add: split_beta)
    ultimately show ?thesis using assms [of z] less.prems False by simp
  qed
qed

lemma Trans1_small: "k < 64 \<Longrightarrow> sqlite3Utf8Trans1 ! k < 0x80"
proof -
  assume "k < 64"
  have "list_all (\<lambda>x. x < 0x80) sqlite3Utf8Trans1" by (simp add: sqlite3Utf8Trans1_def)
  then show ?thesis using \<open>k < 64\<close> by (simp add: list_all_length sqlite3Utf8Trans1_def)
qed

text \<open>Only a character of two bytes or more can need two units.\<close>

lemma READ_UTF8_bound:
  assumes "z \<noteq> []"
  shows "fst (READ_UTF8 z) \<le> 0xFFFF \<or> length (snd (READ_UTF8 z)) + 2 \<le> length z"
proof -
  obtain b y where z: "z = b # y" using assms by (cases z) auto
  show ?thesis
  proof (cases "0xc0 \<le> (ucast b :: u32)")
    case False
    then have "unat (ucast b :: u32) < 192" by (simp add: word_le_nat_alt)
    then have "(ucast b :: u32) \<le> 0xFFFF" by (simp add: word_le_nat_alt)
    then show ?thesis using False by (simp add: READ_UTF8_def z Let_def)
  next
    case True
    define t where "t = sqlite3Utf8Trans1 ! unat (ucast b - 0xc0 :: u32)"
    have "192 \<le> unat b" using True by (simp add: word_le_nat_alt unat_ucast32)
    then have "unat (ucast b - 0xc0 :: u32) < 64"
      using byte_lt [of b] by (simp add: unat_sub_if_size word_size unat_ucast32)
    then have t: "t < 0x80" unfolding t_def by (rule Trans1_small)
    show ?thesis
    proof (cases y)
      case Nil
      then show ?thesis using True t by (simp add: READ_UTF8_def z Let_def read_continuation.simps flip: t_def)
    next
      case (Cons a y')
      then show ?thesis
        using True t length_read_continuation [of "push_bit 6 t + (0x3f AND ucast a)" y']
        by (auto simp: READ_UTF8_def z Let_def read_continuation.simps split_beta simp flip: t_def)
    qed
  qed
qed

lemma length_WRITE:
  "length (WRITE_UTF16LE c) = (if c \<le> 0xFFFF then 2 else 4)" "length (WRITE_UTF16BE c) = (if c \<le> 0xFFFF then 2 else 4)"
  "length (WRITE_UTF8 c) \<le> (if c \<le> 0xFFFF then 3 else 4)"
proof -
  show "length (WRITE_UTF16LE c) = (if c \<le> 0xFFFF then 2 else 4)"
    "length (WRITE_UTF16BE c) = (if c \<le> 0xFFFF then 2 else 4)"
    by (simp_all add: WRITE_UTF16LE_def WRITE_UTF16BE_def)
  have "c \<le> 0xFFFF \<longleftrightarrow> c < 0x10000" by (auto simp: word_le_nat_alt word_less_nat_alt)
  then show "length (WRITE_UTF8 c) \<le> (if c \<le> 0xFFFF then 3 else 4)" by (simp add: WRITE_UTF8_def)
qed

lemma utf8_room:
  "length (recode READ_UTF8 WRITE_UTF16LE z) \<le> 2 * length z" "length (recode READ_UTF8 WRITE_UTF16BE z) \<le> 2 * length z"
proof -
  have room: "(if fst (READ_UTF8 y) \<le> 0xFFFF then 2 else 4) + 2 * length (snd (READ_UTF8 y)) \<le> 2 * length y" if "y \<noteq> []" for y
    using READ_UTF8_bound [OF that] READ_UTF8_shrinks [OF that] by auto
  show "length (recode READ_UTF8 WRITE_UTF16LE z) \<le> 2 * length z" "length (recode READ_UTF8 WRITE_UTF16BE z) \<le> 2 * length z"
    using room by (auto simp: length_WRITE(1,2) intro!: recode_bound [where P = "\<lambda>z. True"])
qed

lemma unit_small: "unit_le a b \<le> 0xFFFF"
  using byte_lt [of a] byte_lt [of b] by (simp add: word_le_nat_alt unit_nat)

lemma READ_UTF16_bound:
  assumes "z \<noteq> []" "even (length z)"
  shows "length (WRITE_UTF8 (fst (READ_UTF16LE z))) + 2 * length (snd (READ_UTF16LE z)) \<le> 2 * length z
      \<and> even (length (snd (READ_UTF16LE z)))"
    "length (WRITE_UTF8 (fst (READ_UTF16BE z))) + 2 * length (snd (READ_UTF16BE z)) \<le> 2 * length z
      \<and> even (length (snd (READ_UTF16BE z)))"
proof -
  obtain a b y where z: "z = a # b # y" using assms by (cases z rule: swap_bytes.cases) auto
  have small: "length (WRITE_UTF8 (unit_le a b)) \<le> 3" for a b
    using length_WRITE(3) [of "unit_le a b"] unit_small [of a b] by simp
  have four: "length (WRITE_UTF8 c) \<le> 4" for c using length_WRITE(3) [of c] by (simp split: if_splits)
  have pair: "y \<noteq> [] \<Longrightarrow> length (drop 2 y) + 2 = length y \<and> even (length (drop 2 y))"
    using assms(2) by (cases y rule: swap_bytes.cases) (auto simp: z)
  note facts = small [of a b] small [of b a] four [of "surrogate_pair (unit_le a b) (unit_le (char_at y 0) (char_at y 1))"]
    four [of "surrogate_pair (unit_le b a) (unit_le (char_at y 1) (char_at y 0))"] pair assms(2)
  show "length (WRITE_UTF8 (fst (READ_UTF16LE z))) + 2 * length (snd (READ_UTF16LE z)) \<le> 2 * length z
      \<and> even (length (snd (READ_UTF16LE z)))"
    using facts by (auto simp: READ_UTF16LE_def z Let_def split: if_splits)
  show "length (WRITE_UTF8 (fst (READ_UTF16BE z))) + 2 * length (snd (READ_UTF16BE z)) \<le> 2 * length z
      \<and> even (length (snd (READ_UTF16BE z)))"
    using facts by (auto simp: READ_UTF16BE_def z Let_def unit_nat(2) split: if_splits)
qed

lemma utf16_room:
  assumes "even (length z)"
  shows "length (recode READ_UTF16LE WRITE_UTF8 z) \<le> 2 * length z" "length (recode READ_UTF16BE WRITE_UTF8 z) \<le> 2 * length z"
  by (rule recode_bound [where P = "\<lambda>z. even (length z)", OF _ assms], rule READ_UTF16_bound; assumption)+

text \<open>
  C29: The buffer a translation allocates is always large enough: for any bytes, well-formed in
  their encoding or not, the output and its terminator fit the room computed from the length of the
  input.
\<close>
theorem translate_fits_buffer:
  assumes "sqlite3VdbeMemTranslate True enc m = (rc, m')" "menc m = SQLITE_UTF8 \<or> enc = SQLITE_UTF8"
  shows "length (mz m') + (if enc = SQLITE_UTF8 then 1 else 2)
    \<le> encode_room enc (if enc = SQLITE_UTF8 then length (mz m) div 2 * 2 else length (mz m))"
proof -
  let ?z = "take (length (mz m) div 2 * 2) (mz m)"
  have l: "length ?z = length (mz m) div 2 * 2" by simp
  have "mz m' = encode (menc m) enc (if enc = SQLITE_UTF8 then ?z else mz m)"
    using assms by (auto simp: sqlite3VdbeMemTranslate_def Let_def)
  moreover have "length (encode (menc m) enc ?z) \<le> 2 * length ?z"
    using utf8_room [of ?z] utf16_room [of ?z] l unfolding encode_def by simp
  moreover have "enc \<noteq> SQLITE_UTF8 \<Longrightarrow> length (encode (menc m) enc (mz m)) \<le> 2 * length (mz m)"
    using utf8_room [of "mz m"] assms(2) unfolding encode_def by simp
  ultimately show ?thesis using l by (auto simp: encode_room_def)
qed

theorem translate_fits_buffer_witness:
  "\<exists>m'. sqlite3VdbeMemTranslate True SQLITE_UTF8 \<lparr>mz = [0x00, 0xD8, 0x41], menc = SQLITE_UTF16LE, mflags = MEM_Str\<rparr> = (SQLITE_OK, m')
    \<and> length (mz m') + 1 \<le> 5"
proof -
  let ?m = "\<lparr>mz = [0x00, 0xD8, 0x41], menc = SQLITE_UTF16LE, mflags = MEM_Str\<rparr>"
  obtain m' where m: "sqlite3VdbeMemTranslate True SQLITE_UTF8 ?m = (SQLITE_OK, m')"
    by (simp add: sqlite3VdbeMemTranslate_def Let_def SQLITE_UTF8_def SQLITE_UTF16LE_def)
  from translate_fits_buffer [OF m] show ?thesis by (simp add: m encode_room_def)
qed

end
