(* ===== verification/HashTable.thy ===== *)
theory HashTable
  imports Ctype Links
begin

text \<open>
  \<^verbatim>\<open>sqlite/hash.c\<close>: the hash tables that hold schemas, functions and collations by name. All
  elements of a table are on one doubly linked list; a bucket points at its first element on it and
  counts how many belong to it. A small table has no buckets. Elements are heap nodes; a key is the
  string that its pointer refers to, since a table neither copies nor changes it. What
  \<^verbatim>\<open>sqlite3Malloc\<close> returns is an argument. Counts stay far below the width of their types
  and are natural numbers; a count that would go below zero trips an assertion, which is a fault
  like the use of \<^verbatim>\<open>NULL\<close> or of freed memory.
\<close>

section \<open>Data\<close>

datatype hash_fault = HashNull | HashFreed | HashBounds | HashAssert | HashLoop

type_synonym 'a hres = "hash_fault + 'a"

record 'd HashElem =
  el_next :: ptr
  el_prev :: ptr
  el_data :: "'d option"
  el_key :: bytes

record ht_entry =
  ht_count :: nat
  chain :: ptr

record hash =
  htsize :: nat
  hcount :: nat
  hfirst :: ptr
  ht :: "ht_entry list option"

type_synonym 'd elems = "addr \<Rightarrow> 'd HashElem option"

definition elem_get :: "'d elems \<Rightarrow> ptr \<Rightarrow> 'd HashElem hres" where
  "elem_get h p = (case p of None \<Rightarrow> Inl HashNull | Some a \<Rightarrow> (case h a of None \<Rightarrow> Inl HashFreed | Some e \<Rightarrow> Inr e))"

definition elem_upd :: "'d elems \<Rightarrow> ptr \<Rightarrow> ('d HashElem \<Rightarrow> 'd HashElem) \<Rightarrow> 'd elems hres" where
  "elem_upd h p f = bindE (elem_get h p) (\<lambda>e. Inr (h(the p \<mapsto> f e)))"

definition elem_free :: "'d elems \<Rightarrow> ptr \<Rightarrow> 'd elems hres" where
  "elem_free h p = bindE (elem_get h p) (\<lambda>e. Inr (h(the p := None)))"

definition bucket_get :: "hash \<Rightarrow> nat \<Rightarrow> ht_entry hres" where
  "bucket_get H i = (case ht H of None \<Rightarrow> Inl HashNull
     | Some bs \<Rightarrow> if i < length bs then Inr (bs ! i) else Inl HashBounds)"

definition bucket_set :: "hash \<Rightarrow> nat \<Rightarrow> ht_entry \<Rightarrow> hash" where
  "bucket_set H i b = H\<lparr>ht := map_option (\<lambda>bs. bs[i := b]) (ht H)\<rparr>"

section \<open>Operations\<close>

definition sqlite3HashInit :: hash where
  "sqlite3HashInit = \<lparr>htsize = 0, hcount = 0, hfirst = None, ht = None\<rparr>"

text \<open>The loop frees at most as many elements as the table counts; \<^theory_text>\<open>HashLoop\<close> is one more.\<close>

primrec clear_loop :: "nat \<Rightarrow> 'd elems \<Rightarrow> ptr \<Rightarrow> 'd elems hres" where
  "clear_loop 0 h elem = (if elem = None then Inr h else Inl HashLoop)"
| "clear_loop (Suc n) h elem =
     (if elem = None then Inr h
      else bindE (elem_get h elem) (\<lambda>e. bindE (elem_free h elem) (\<lambda>h. clear_loop n h (el_next e))))"

definition sqlite3HashClear :: "'d elems \<Rightarrow> hash \<Rightarrow> ('d elems \<times> hash) hres" where
  "sqlite3HashClear h H =
     bindE (clear_loop (hcount H) h (hfirst H)) (\<lambda>h.
     Inr (h, H\<lparr>hfirst := None, ht := None, htsize := 0, hcount := 0\<rparr>))"

definition strHash :: "bytes \<Rightarrow> u32" where
  "strHash z = foldl (\<lambda>h c. (h + ucast (sqlite3Tolower c)) * 0x9e3779b1) 0 z"

text \<open>
  \<^verbatim>\<open>insertElement\<close> in two parts: linking the element in front of \<^theory_text>\<open>pHead\<close>, or of
  the whole list, and counting it in its bucket. \<^theory_text>\<open>pEntry\<close> is the index of the bucket, if the
  table has buckets.
\<close>

definition link_element :: "'d elems \<Rightarrow> hash \<Rightarrow> ptr \<Rightarrow> ptr \<Rightarrow> ('d elems \<times> hash) hres" where
  "link_element h H pHead pNew =
     (if pHead \<noteq> None then
       bindE (elem_upd h pNew (\<lambda>e. e\<lparr>el_next := pHead\<rparr>)) (\<lambda>h.
       bindE (elem_get h pHead) (\<lambda>head.
       bindE (elem_upd h pNew (\<lambda>e. e\<lparr>el_prev := el_prev head\<rparr>)) (\<lambda>h.
       bindE (if el_prev head \<noteq> None
              then bindE (elem_upd h (el_prev head) (\<lambda>e. e\<lparr>el_next := pNew\<rparr>)) (\<lambda>h. Inr (h, H))
              else Inr (h, H\<lparr>hfirst := pNew\<rparr>)) (\<lambda>(h, H).
       bindE (elem_upd h pHead (\<lambda>e. e\<lparr>el_prev := pNew\<rparr>)) (\<lambda>h. Inr (h, H))))))
     else
       bindE (elem_upd h pNew (\<lambda>e. e\<lparr>el_next := hfirst H\<rparr>)) (\<lambda>h.
       bindE (if hfirst H \<noteq> None then elem_upd h (hfirst H) (\<lambda>e. e\<lparr>el_prev := pNew\<rparr>) else Inr h) (\<lambda>h.
       bindE (elem_upd h pNew (\<lambda>e. e\<lparr>el_prev := None\<rparr>)) (\<lambda>h.
       Inr (h, H\<lparr>hfirst := pNew\<rparr>)))))"

definition insertElement ::
    "'d elems \<Rightarrow> hash \<Rightarrow> nat option \<Rightarrow> ptr \<Rightarrow> ('d elems \<times> hash) hres" where
  "insertElement h H pEntry pNew =
     (case pEntry of
        Some i \<Rightarrow> bindE (bucket_get H i) (\<lambda>b.
          link_element h (bucket_set H i \<lparr>ht_count = ht_count b + 1, chain = pNew\<rparr>)
            (if ht_count b \<noteq> 0 then chain b else None) pNew)
      | None \<Rightarrow> link_element h H None pNew)"

definition SQLITE_MALLOC_SOFT_LIMIT :: nat where "SQLITE_MALLOC_SOFT_LIMIT = 1024"

definition sizeof_ht :: nat where "sizeof_ht = 16"

text \<open>The loop links at most as many elements as the table counts.\<close>

primrec rehash_loop :: "nat \<Rightarrow> 'd elems \<Rightarrow> hash \<Rightarrow> ptr \<Rightarrow> nat \<Rightarrow> ('d elems \<times> hash) hres" where
  "rehash_loop 0 h H elem new_size = (if elem = None then Inr (h, H) else Inl HashLoop)"
| "rehash_loop (Suc n) h H elem new_size =
     (if elem = None then Inr (h, H)
      else bindE (elem_get h elem) (\<lambda>e.
           bindE (insertElement h H (Some (unat (strHash (el_key e)) mod new_size)) elem) (\<lambda>(h, H).
           rehash_loop n h H (el_next e) new_size)))"

text \<open>
  \<^theory_text>\<open>alloc n\<close> is the number of buckets in the memory that \<^verbatim>\<open>sqlite3Malloc\<close> gives
  when asked for \<^theory_text>\<open>n\<close> of them, from \<^verbatim>\<open>sqlite3MallocSize\<close>.
\<close>

definition rehash :: "(nat \<Rightarrow> nat option) \<Rightarrow> 'd elems \<Rightarrow> hash \<Rightarrow> nat \<Rightarrow> (bool \<times> 'd elems \<times> hash) hres" where
  "rehash alloc h H new_size =
     (let new_size = (if SQLITE_MALLOC_SOFT_LIMIT < new_size * sizeof_ht
                      then SQLITE_MALLOC_SOFT_LIMIT div sizeof_ht else new_size) in
      if new_size = htsize H then Inr (False, h, H)
      else (case alloc new_size of None \<Rightarrow> Inr (False, h, H)
            | Some new_size \<Rightarrow>
              bindE (rehash_loop (hcount H) h
                       (H\<lparr>ht := Some (replicate new_size \<lparr>ht_count = 0, chain = None\<rparr>),
                          htsize := new_size, hfirst := None\<rparr>) (hfirst H) new_size) (\<lambda>(h, H).
              Inr (True, h, H))))"

primrec find_loop :: "nat \<Rightarrow> 'd elems \<Rightarrow> ptr \<Rightarrow> bytes \<Rightarrow> ptr hres" where
  "find_loop 0 h elem pKey = Inr None"
| "find_loop (Suc n) h elem pKey =
     bindE (elem_get h elem) (\<lambda>e.
     if sqlite3StrICmp (el_key e) pKey = 0 then Inr elem else find_loop n h (el_next e) pKey)"

definition findElementWithHash :: "'d elems \<Rightarrow> hash \<Rightarrow> bytes \<Rightarrow> (ptr \<times> nat) hres" where
  "findElementWithHash h H pKey =
     (if ht H \<noteq> None
      then (let i = unat (strHash pKey) mod htsize H in
            bindE (bucket_get H i) (\<lambda>b.
            bindE (find_loop (ht_count b) h (chain b) pKey) (\<lambda>elem. Inr (elem, i))))
      else bindE (find_loop (hcount H) h (hfirst H) pKey) (\<lambda>elem. Inr (elem, 0)))"

text \<open>\<^verbatim>\<open>removeElementGivenHash\<close> in two parts: the list, then the bucket and the count.\<close>

definition unlink_element :: "'d elems \<Rightarrow> hash \<Rightarrow> ptr \<Rightarrow> ('d elems \<times> hash) hres" where
  "unlink_element h H elem =
     bindE (elem_get h elem) (\<lambda>e.
     bindE (if el_prev e \<noteq> None
            then bindE (elem_upd h (el_prev e) (\<lambda>x. x\<lparr>el_next := el_next e\<rparr>)) (\<lambda>h. Inr (h, H))
            else Inr (h, H\<lparr>hfirst := el_next e\<rparr>)) (\<lambda>(h, H).
     bindE (elem_get h elem) (\<lambda>e.
     bindE (if el_next e \<noteq> None then elem_upd h (el_next e) (\<lambda>x. x\<lparr>el_prev := el_prev e\<rparr>) else Inr h) (\<lambda>h.
     Inr (h, H)))))"

definition removeElementGivenHash :: "'d elems \<Rightarrow> hash \<Rightarrow> ptr \<Rightarrow> nat \<Rightarrow> ('d elems \<times> hash) hres" where
  "removeElementGivenHash h H elem i =
     bindE (unlink_element h H elem) (\<lambda>(h, H).
     bindE (elem_get h elem) (\<lambda>e.
     bindE (if ht H \<noteq> None
            then bindE (bucket_get H i) (\<lambda>b.
                 let b = (if chain b = elem then b\<lparr>chain := el_next e\<rparr> else b) in
                 if ht_count b = 0 then Inl HashAssert
                 else Inr (bucket_set H i (b\<lparr>ht_count := ht_count b - 1\<rparr>)))
            else Inr H) (\<lambda>H.
     bindE (elem_free h elem) (\<lambda>h.
     let H = H\<lparr>hcount := hcount H - 1\<rparr> in
     if hcount H = 0 then if hfirst H \<noteq> None then Inl HashAssert else sqlite3HashClear h H
     else Inr (h, H)))))"

definition sqlite3HashFind :: "'d elems \<Rightarrow> hash \<Rightarrow> bytes \<Rightarrow> 'd option hres" where
  "sqlite3HashFind h H pKey =
     bindE (findElementWithHash h H pKey) (\<lambda>(elem, i).
     if elem \<noteq> None then bindE (elem_get h elem) (\<lambda>e. Inr (el_data e)) else Inr None)"

text \<open>
  \<^theory_text>\<open>new_elem\<close> is what \<^verbatim>\<open>sqlite3Malloc\<close> returns for an element; its fields hold
  nothing before they are set.
\<close>

definition sqlite3HashInsert ::
    "ptr \<Rightarrow> (nat \<Rightarrow> nat option) \<Rightarrow> 'd elems \<Rightarrow> hash \<Rightarrow> bytes \<Rightarrow> 'd option \<Rightarrow> ('d option \<times> 'd elems \<times> hash) hres" where
  "sqlite3HashInsert new_elem alloc h H pKey data =
     bindE (findElementWithHash h H pKey) (\<lambda>(elem, i).
     if elem \<noteq> None then
       bindE (elem_get h elem) (\<lambda>e.
       let old_data = el_data e in
       bindE (if data = None then removeElementGivenHash h H elem i
              else bindE (elem_upd h elem (\<lambda>e. e\<lparr>el_data := data, el_key := pKey\<rparr>)) (\<lambda>h. Inr (h, H))) (\<lambda>(h, H).
       Inr (old_data, h, H)))
     else if data = None then Inr (None, h, H)
     else (case new_elem of None \<Rightarrow> Inr (data, h, H)
      | Some a \<Rightarrow>
        let h = h(a \<mapsto> \<lparr>el_next = None, el_prev = None, el_data = data, el_key = pKey\<rparr>);
            H = H\<lparr>hcount := hcount H + 1\<rparr> in
        bindE (if 10 \<le> hcount H \<and> 2 * htsize H < hcount H
               then bindE (rehash alloc h H (hcount H * 2)) (\<lambda>(resized, h, H).
                    if resized \<and> htsize H = 0 then Inl HashAssert
                    else Inr (h, H, if resized then unat (strHash pKey) mod htsize H else i))
               else Inr (h, H, i)) (\<lambda>(h, H, i).
        bindE (insertElement h H (if ht H \<noteq> None then Some i else None) (Some a)) (\<lambda>(h, H).
        Inr (None, h, H)))))"

end
