(* ===== verification/HashTableProps.thy ===== *)
theory HashTableProps
  imports HashTable
begin

text \<open>
  What the hash tables of \<^verbatim>\<open>sqlite/hash.c\<close> promise: a table is a map from names to data,
  without regard to case, through any insertions, replacements, removals and resizes.
  \<^theory_text>\<open>buckets_ok\<close> is the structure of the buckets on the one list of elements:
  the elements of a bucket stand together, and the bucket points at the first of them.
\<close>

section \<open>Buckets\<close>

text \<open>The list as groups, one for each bucket in use; \<^theory_text>\<open>hv\<close> is the bucket of an element.\<close>

definition group_ok :: "(addr \<Rightarrow> nat) \<Rightarrow> ht_entry list \<Rightarrow> nat \<times> addr list \<Rightarrow> bool" where
  "group_ok hv bs ig \<longleftrightarrow> snd ig \<noteq> [] \<and> fst ig < length bs \<and> (\<forall>a\<in>set (snd ig). hv a = fst ig)
     \<and> bs ! fst ig = \<lparr>ht_count = length (snd ig), chain = Some (hd (snd ig))\<rparr>"

definition groups_ok :: "(addr \<Rightarrow> nat) \<Rightarrow> ht_entry list \<Rightarrow> (nat \<times> addr list) list \<Rightarrow> bool" where
  "groups_ok hv bs gs \<longleftrightarrow> distinct (map fst gs) \<and> (\<forall>ig\<in>set gs. group_ok hv bs ig)
     \<and> (\<forall>i<length bs. i \<notin> fst ` set gs \<longrightarrow> ht_count (bs ! i) = 0)"

definition buckets_ok :: "(addr \<Rightarrow> nat) \<Rightarrow> ht_entry list \<Rightarrow> addr list \<Rightarrow> bool" where
  "buckets_ok hv bs es \<longleftrightarrow> (\<exists>gs. es = concat (map snd gs) \<and> groups_ok hv bs gs)"

lemma group_ok_update: "group_ok hv bs ig \<Longrightarrow> fst ig \<noteq> i \<Longrightarrow> group_ok hv (bs[i := b]) ig"
  by (simp add: group_ok_def)

lemma groups_ok_part:
  assumes "groups_ok hv bs (A @ (i, g) # B)"
  shows "distinct (map fst (A @ B))" "i \<notin> fst ` set (A @ B)" "group_ok hv bs (i, g)"
  using assms by (auto simp: groups_ok_def)

lemma groups_ok_frame:
  assumes "\<forall>ig\<in>set gs. group_ok hv bs ig" "i \<notin> fst ` set gs"
  shows "\<forall>ig\<in>set gs. group_ok hv (bs[i := b]) ig"
proof
  fix ig assume ig: "ig \<in> set gs"
  with assms(2) have "fst ig \<noteq> i" by auto
  with ig assms(1) show "group_ok hv (bs[i := b]) ig" by (simp add: group_ok_update)
qed

lemma groups_ok_others:
  assumes "groups_ok hv bs (A @ (i, g) # B)"
  shows "\<forall>ig\<in>set (A @ B). group_ok hv (bs[i := b]) ig"
  using assms by (intro groups_ok_frame groups_ok_part) (auto simp: groups_ok_def)

lemma groups_ok_replace:
  assumes "groups_ok hv bs (A @ (i, g) # B)"
    and "g' \<noteq> []" "\<forall>a\<in>set g'. hv a = i" "b = \<lparr>ht_count = length g', chain = Some (hd g')\<rparr>"
  shows "groups_ok hv (bs[i := b]) (A @ (i, g') # B)"
proof -
  note f = groups_ok_part [OF assms(1)]
  have "group_ok hv (bs[i := b]) (i, g')" using assms(2-4) f(3) by (simp add: group_ok_def)
  with f groups_ok_others [OF assms(1), of b] assms(1) show ?thesis by (auto simp: groups_ok_def nth_list_update)
qed

lemma groups_ok_drop:
  assumes "groups_ok hv bs (A @ (i, g) # B)" "ht_count b = 0"
  shows "groups_ok hv (bs[i := b]) (A @ B)"
proof -
  have "ht_count (bs[i := b] ! j) = 0" if "j < length bs" "j \<notin> fst ` set (A @ B)" for j
    using that assms by (cases "j = i") (auto simp: groups_ok_def)
  with groups_ok_part [OF assms(1)] groups_ok_others [OF assms(1), of b] show ?thesis
    unfolding groups_ok_def by (simp only: length_list_update) blast
qed

lemma groups_ok_add:
  assumes "groups_ok hv bs gs" "i \<notin> fst ` set gs" "i < length bs" "hv a = i"
  shows "groups_ok hv (bs[i := \<lparr>ht_count = 1, chain = Some a\<rparr>]) ((i, [a]) # gs)"
proof -
  let ?b = "\<lparr>ht_count = 1, chain = Some a\<rparr>"
  have "\<forall>ig\<in>set gs. group_ok hv (bs[i := ?b]) ig"
    using assms(1,2) by (intro groups_ok_frame) (simp_all add: groups_ok_def)
  moreover have "group_ok hv (bs[i := ?b]) (i, [a])" using assms(3,4) by (simp add: group_ok_def)
  ultimately show ?thesis using assms by (simp add: groups_ok_def nth_list_update del: One_nat_def)
qed

lemma group_cases: "i \<notin> fst ` set gs \<or> (\<exists>A g B. gs = A @ (i, g) # B)"
  by (metis imageE prod.collapse split_list)

lemma buckets_empty: "buckets_ok hv (replicate n \<lparr>ht_count = 0, chain = p\<rparr>) []"
  unfolding buckets_ok_def by (rule exI [of _ "[]"]) (simp add: groups_ok_def)

lemma buckets_cong:
  assumes "\<forall>a\<in>set es. hv' a = hv a" "buckets_ok hv bs es"
  shows "buckets_ok hv' bs es"
proof -
  obtain gs where gs: "es = concat (map snd gs)" "groups_ok hv bs gs" using assms(2) by (auto simp: buckets_ok_def)
  have "group_ok hv' bs ig" if "ig \<in> set gs" for ig
  proof -
    have "set (snd ig) \<subseteq> set es" using that gs(1) by auto
    then show ?thesis using gs(2) that assms(1) by (simp add: groups_ok_def group_ok_def subset_iff)
  qed
  with gs show ?thesis by (auto simp: buckets_ok_def groups_ok_def)
qed

text \<open>What looking into a bucket shows.\<close>

lemma buckets_lookup:
  assumes "buckets_ok hv bs es" "i < length bs"
  shows "\<exists>xs g ys. es = xs @ g @ ys \<and> ht_count (bs ! i) = length g \<and> (g \<noteq> [] \<longrightarrow> chain (bs ! i) = Some (hd g))
    \<and> (\<forall>a\<in>set es. hv a = i \<longleftrightarrow> a \<in> set g)"
proof -
  obtain gs where gs: "es = concat (map snd gs)" "groups_ok hv bs gs" using assms(1) by (auto simp: buckets_ok_def)
  have hv: "hv a = j" if "(j, g) \<in> set gs" "a \<in> set g" for a j g
    using gs(2) that by (fastforce simp: groups_ok_def group_ok_def)
  consider (free) "i \<notin> fst ` set gs" | (used) A g B where "gs = A @ (i, g) # B"
    using group_cases by metis
  then show ?thesis
  proof cases
    case free
    then have "ht_count (bs ! i) = 0" "\<forall>a\<in>set es. hv a \<noteq> i"
      using gs assms(2) hv by (auto simp: groups_ok_def rev_image_eqI)
    then show ?thesis by (intro exI [of _ "[]"] exI [of _ es]) auto
  next
    case used
    note f = groups_ok_part [OF gs(2) [unfolded used]]
    have "hv a \<noteq> i" if a: "a \<in> set (concat (map snd (A @ B)))" for a
    proof -
      obtain ig where ig: "ig \<in> set (A @ B)" "a \<in> set (snd ig)" using a by auto
      then have "hv a = fst ig" using hv [of "fst ig" "snd ig" a] by (auto simp: used)
      then show ?thesis using f(2) ig(1) by force
    qed
    moreover have "hv a = i" if "a \<in> set g" for a using hv [of i g a] that by (simp add: used)
    moreover have es: "es = concat (map snd A) @ g @ concat (map snd B)" by (simp add: gs(1) used)
    ultimately have "\<forall>a\<in>set es. hv a = i \<longleftrightarrow> a \<in> set g"
      by (simp only: es set_append map_append concat_append Un_iff) blast
    moreover have "ht_count (bs ! i) = length g" "chain (bs ! i) = Some (hd g)"
      using f(3) by (simp_all add: group_ok_def)
    ultimately show ?thesis using es by blast
  qed
qed

text \<open>A new element goes in front of its group, or of the whole list when it is the first.\<close>

lemma buckets_insert:
  assumes "buckets_ok hv bs es" "i < length bs" "hv a = i"
    and "bs' = bs[i := \<lparr>ht_count = ht_count (bs ! i) + 1, chain = Some a\<rparr>]"
  shows "ht_count (bs ! i) = 0 \<and> buckets_ok hv bs' (a # es)
    \<or> ht_count (bs ! i) \<noteq> 0 \<and> (\<exists>xs p ys. es = xs @ p # ys \<and> chain (bs ! i) = Some p \<and> buckets_ok hv bs' (xs @ a # p # ys))"
proof -
  obtain gs where gs: "es = concat (map snd gs)" "groups_ok hv bs gs" using assms(1) by (auto simp: buckets_ok_def)
  consider (free) "i \<notin> fst ` set gs" | (used) A g B where "gs = A @ (i, g) # B"
    using group_cases by metis
  then show ?thesis
  proof cases
    case free
    then have c: "ht_count (bs ! i) = 0" using gs assms(2) by (auto simp: groups_ok_def)
    then have "buckets_ok hv bs' (a # es)"
      using groups_ok_add [OF gs(2) free assms(2,3)] gs(1) assms(4) by (force simp: buckets_ok_def)
    with c show ?thesis by blast
  next
    case used
    note f = groups_ok_part [OF gs(2) [unfolded used]]
    then obtain p g' where g: "g = p # g'" by (cases g) (auto simp: group_ok_def)
    have "groups_ok hv bs' (A @ (i, a # g) # B)"
      using f(3) assms(3,4) by (intro groups_ok_replace [OF gs(2) [unfolded used], THEN back_subst [of "\<lambda>x. groups_ok hv x _"]])
        (auto simp: group_ok_def)
    then have "buckets_ok hv bs' (concat (map snd A) @ a # p # g' @ concat (map snd B))"
      unfolding buckets_ok_def by (rule exI [of _ "A @ (i, a # g) # B", OF conjI, rotated]) (simp add: g)
    moreover have "ht_count (bs ! i) \<noteq> 0" "chain (bs ! i) = Some p" using f(3) by (auto simp: group_ok_def g)
    ultimately show ?thesis by (fastforce simp: gs(1) used g)
  qed
qed

text \<open>An element leaves its group; the pointer to it moves on when it was the first.\<close>

lemma buckets_remove:
  assumes "buckets_ok hv bs (xs @ a # ys)" "distinct (xs @ a # ys)"
    and "b = (if chain (bs ! hv a) = Some a then (bs ! hv a)\<lparr>chain := first_of ys None\<rparr> else bs ! hv a)"
  shows "hv a < length bs \<and> ht_count (bs ! hv a) \<noteq> 0
    \<and> buckets_ok hv (bs[hv a := b\<lparr>ht_count := ht_count b - 1\<rparr>]) (xs @ ys)"
proof -
  obtain gs where gs: "xs @ a # ys = concat (map snd gs)" "groups_ok hv bs gs"
    using assms(1) by (auto simp: buckets_ok_def)
  then have "a \<in> set (concat (map snd gs))" by (metis in_set_conv_decomp)
  then obtain j g where jg: "(j, g) \<in> set gs" "a \<in> set g" by auto
  then obtain A B where used: "gs = A @ (j, g) # B" by (meson split_list)
  note f = groups_ok_part [OF gs(2) [unfolded used]]
  have j: "hv a = j" using f(3) jg(2) by (simp add: group_ok_def)
  obtain g1 g2 where g: "g = g1 @ a # g2" using jg(2) by (meson split_list)
  have e: "xs @ a # ys = (concat (map snd A) @ g1) @ a # g2 @ concat (map snd B)" using gs(1) by (simp add: used g)
  have d: "distinct ((concat (map snd A) @ g1) @ a # g2 @ concat (map snd B))"
    using assms(2) unfolding e .
  have "a \<notin> set xs" "a \<notin> set ys" using assms(2) by auto
  then have xy: "xs = concat (map snd A) @ g1" "ys = g2 @ concat (map snd B)"
    using e d append_Cons_eq_iff [of a xs ys "concat (map snd A) @ g1" "g2 @ concat (map snd B)"] by auto
  let ?b = "b\<lparr>ht_count := ht_count b - 1\<rparr>"
  have c: "hv a < length bs" "bs ! hv a = \<lparr>ht_count = length g, chain = Some (hd g)\<rparr>"
    using f(3) j by (auto simp: group_ok_def)
  have "buckets_ok hv (bs[j := ?b]) (xs @ ys)"
  proof (cases "g1 @ g2 = []")
    case True
    then have "groups_ok hv (bs[j := ?b]) (A @ B)"
      using c assms(3) by (intro groups_ok_drop [OF gs(2) [unfolded used]]) (simp add: g j)
    with True show ?thesis unfolding buckets_ok_def by (intro exI [of _ "A @ B"]) (simp add: xy)
  next
    case False
    have "?b = \<lparr>ht_count = length (g1 @ g2), chain = Some (hd (g1 @ g2))\<rparr>"
    proof (cases g1)
      case Nil
      with False obtain p g' where "g2 = p # g'" by (cases g2) auto
      with Nil show ?thesis using c(2) assms(3) by (simp add: g xy)
    next
      case (Cons p g')
      have "p \<noteq> a" using d by (auto simp: Cons)
      with Cons show ?thesis using c(2) assms(3) by (simp add: g)
    qed
    then have "groups_ok hv (bs[j := ?b]) (A @ (j, g1 @ g2) # B)"
      using False f(3) by (intro groups_ok_replace [OF gs(2) [unfolded used]]) (auto simp: g group_ok_def)
    then show ?thesis unfolding buckets_ok_def by (intro exI [of _ "A @ (j, g1 @ g2) # B"]) (simp add: xy)
  qed
  with c show ?thesis by (simp add: j g)
qed

section \<open>Linking and unlinking elements\<close>

abbreviation elinks :: "'d elems \<Rightarrow> ptr \<Rightarrow> addr list \<Rightarrow> ptr \<Rightarrow> bool" where
  "elinks \<equiv> linked el_prev el_next"

text \<open>What an element carries besides its links.\<close>

definition content :: "'d elems \<Rightarrow> addr \<Rightarrow> ('d option \<times> bytes) option" where
  "content h a = map_option (\<lambda>e. (el_data e, el_key e)) (h a)"

lemma content_same: "content h' = content h \<Longrightarrow> content h a = Some (el_data e, el_key e) \<Longrightarrow> content (h'(a \<mapsto> e)) = content h"
  by (auto simp: content_def fun_eq_iff)

lemma content_at: "h a = Some e \<Longrightarrow> content h a = Some (el_data e, el_key e)"
  by (simp add: content_def)

lemma elem_simps: "h a = Some e \<Longrightarrow> elem_get h (Some a) = Inr e"
  "h a = Some e \<Longrightarrow> elem_upd h (Some a) f = Inr (h(a \<mapsto> f e))" "h a = Some e \<Longrightarrow> elem_free h (Some a) = Inr (h(a := None))"
  by (simp_all add: elem_get_def elem_upd_def elem_free_def)

lemmas elinks_frame = links_frame [where pv = el_prev and nx = el_next]

text \<open>\<^theory_text>\<open>joins h a es h' es'\<close>: from \<^theory_text>\<open>es\<close> to \<^theory_text>\<open>es'\<close> by linking \<^theory_text>\<open>a\<close>, nothing else touched.\<close>

definition joins :: "'d elems \<Rightarrow> addr \<Rightarrow> addr list \<Rightarrow> 'd elems \<Rightarrow> addr list \<Rightarrow> bool" where
  "joins h a es h' es' \<longleftrightarrow> elinks h' None es' None \<and> distinct es' \<and> set es' = insert a (set es)
     \<and> content h' = content h \<and> (\<forall>b. b \<notin> insert a (set es) \<longrightarrow> h' b = h b)"

lemma link_front:
  assumes "elinks h None es None" "distinct es" "a \<notin> set es" "h a = Some e" "hfirst H = first_of es None"
  shows "\<exists>h'. link_element h H None (Some a) = Inr (h', H\<lparr>hfirst := Some a\<rparr>) \<and> joins h a es h' (a # es)"
proof (cases es)
  case Nil
  then show ?thesis using assms
    by (auto simp: link_element_def elem_simps joins_def content_at intro!: content_same)
next
  case (Cons p ys)
  then obtain ep where "h p = Some ep" "p \<noteq> a" using assms by auto
  then show ?thesis using assms Cons
    by (auto simp: link_element_def elem_simps joins_def content_at elinks_frame intro!: content_same)
qed

lemma link_before:
  assumes "elinks h None (xs @ p # ys) None" "distinct (xs @ p # ys)" "a \<notin> set (xs @ p # ys)" "h a = Some e"
    "hfirst H = first_of (xs @ p # ys) None"
  shows "\<exists>h'. link_element h H (Some p) (Some a) = Inr (h', H\<lparr>hfirst := first_of (xs @ a # p # ys) None\<rparr>)
    \<and> joins h a (xs @ p # ys) h' (xs @ a # p # ys)"
proof -
  obtain ep where ep: "h p = Some ep" "el_prev ep = last_of None xs" "p \<noteq> a" using assms by auto
  show ?thesis
  proof (cases xs rule: rev_cases)
    case Nil
    then show ?thesis using assms ep
      by (auto simp: link_element_def elem_simps joins_def content_at elinks_frame intro!: content_same)
  next
    case (snoc zs q)
    then obtain eq where "h q = Some eq" "el_next eq = Some p" "q \<noteq> a" "q \<noteq> p" using assms by auto
    then show ?thesis using assms ep snoc
      by (cases zs) (auto simp: link_element_def elem_simps joins_def content_at elinks_frame intro!: content_same)
  qed
qed

lemma unlink_links:
  assumes "elinks h None (xs @ a # ys) None" "distinct (xs @ a # ys)" "hfirst H = first_of (xs @ a # ys) None"
  shows "\<exists>h' e. unlink_element h H (Some a) = Inr (h', H\<lparr>hfirst := first_of (xs @ ys) None\<rparr>)
    \<and> elinks h' None (xs @ ys) None \<and> content h' = content h \<and> h' a = Some e \<and> el_next e = first_of ys None
    \<and> dom h' = dom h"
proof -
  obtain e where e: "h a = Some e" "el_prev e = last_of None xs" "el_next e = first_of ys None"
    using assms(1) by auto
  show ?thesis
  proof (cases xs rule: rev_cases)
    case Nil
    show ?thesis
    proof (cases ys)
      case Nil
      with e assms \<open>xs = []\<close> show ?thesis by (auto simp: unlink_element_def elem_simps)
    next
      case (Cons q zs)
      with assms obtain eq where "h q = Some eq" "q \<noteq> a" by auto
      with e assms Cons \<open>xs = []\<close> show ?thesis
        by (auto simp: unlink_element_def elem_simps content_at elinks_frame intro!: content_same)
    qed
  next
    case (snoc zs p)
    then obtain ep where ep: "h p = Some ep" "el_next ep = Some a" "p \<noteq> a" using assms by auto
    show ?thesis
    proof (cases ys)
      case Nil
      with e ep assms snoc show ?thesis
        by (cases zs) (auto simp: unlink_element_def elem_simps content_at elinks_frame intro!: content_same)
    next
      case (Cons q us)
      with assms snoc obtain eq where "h q = Some eq" "q \<noteq> a" "q \<noteq> p" by auto
      with e ep assms snoc Cons show ?thesis
        by (cases zs) (auto simp: unlink_element_def elem_simps content_at elinks_frame intro!: content_same)
    qed
  qed
qed

section \<open>Tables\<close>

definition hash_of :: "'d elems \<Rightarrow> nat \<Rightarrow> addr \<Rightarrow> nat" where
  "hash_of h n a = (case content h a of None \<Rightarrow> 0 | Some (d, k) \<Rightarrow> unat (strHash k) mod n)"

definition table :: "'d elems \<Rightarrow> hash \<Rightarrow> addr list \<Rightarrow> bool" where
  "table h H es \<longleftrightarrow> elinks h None es None \<and> distinct es \<and> hfirst H = first_of es None
     \<and> (case ht H of None \<Rightarrow> htsize H = 0
        | Some bs \<Rightarrow> htsize H = length bs \<and> bs \<noteq> [] \<and> buckets_ok (hash_of h (length bs)) bs es)"

lemma hash_of_content: "content h' = content h \<Longrightarrow> hash_of h' = hash_of h"
  by (simp add: hash_of_def fun_eq_iff)

lemma hash_of_at: "content h' b = content h b \<Longrightarrow> hash_of h' n b = hash_of h n b"
  by (simp add: hash_of_def)

lemma content_other: "b \<noteq> a \<Longrightarrow> content (h(a := x)) b = content h b"
  by (simp add: content_def)

lemma insertElement_spec:
  assumes "table h H es" "a \<notin> set es" "h a = Some e"
    and "pE = (if ht H \<noteq> None then Some (hash_of h (htsize H) a) else None)"
  shows "\<exists>h' H' es'. insertElement h H pE (Some a) = Inr (h', H') \<and> joins h a es h' es' \<and> table h' H' es'
    \<and> hcount H' = hcount H \<and> htsize H' = htsize H \<and> (ht H' = None \<longleftrightarrow> ht H = None)"
proof (cases "ht H")
  case None
  then show ?thesis
    using link_front [of h es a e H] assms by (fastforce simp: table_def insertElement_def joins_def)
next
  case (Some bs)
  let ?i = "hash_of h (length bs) a"
  let ?b = "\<lparr>ht_count = ht_count (bs ! ?i) + 1, chain = Some a\<rparr>"
  let ?H = "bucket_set H ?i ?b"
  have t: "elinks h None es None" "distinct es" "hfirst H = first_of es None" "htsize H = length bs" "bs \<noteq> []"
    "buckets_ok (hash_of h (length bs)) bs es"
    using assms(1) Some by (auto simp: table_def)
  have i: "?i < length bs" using t(5) by (auto simp: hash_of_def split: option.split)
  have ins: "insertElement h H pE (Some a)
      = link_element h ?H (if ht_count (bs ! ?i) \<noteq> 0 then chain (bs ! ?i) else None) (Some a)"
    using assms(4) Some t(4) i by (simp add: insertElement_def bucket_get_def)
  have H: "ht ?H = Some (bs[?i := ?b])" "hfirst ?H = first_of es None" "hcount ?H = hcount H" "htsize ?H = length bs"
    using Some t by (simp_all add: bucket_set_def)
  have fin: ?thesis
    if "link_element h ?H (if ht_count (bs ! ?i) \<noteq> 0 then chain (bs ! ?i) else None) (Some a)
        = Inr (h', ?H\<lparr>hfirst := first_of es' None\<rparr>)"
      and "joins h a es h' es'" "buckets_ok (hash_of h (length bs)) (bs[?i := ?b]) es'" for h' es'
    using that H t Some ins hash_of_content [of h' h]
    by (intro exI [of _ h'] exI [of _ "?H\<lparr>hfirst := first_of es' None\<rparr>"] exI [of _ es'])
      (auto simp: table_def joins_def)
  from buckets_insert [OF t(6) i refl refl] show ?thesis
  proof (elim disjE conjE exE)
    assume "ht_count (bs ! ?i) = 0" "buckets_ok (hash_of h (length bs)) (bs[?i := ?b]) (a # es)"
    then show ?thesis
      using link_front [OF t(1,2) assms(2,3) H(2)] fin [of _ "a # es"] by auto
  next
    fix xs p ys
    assume "ht_count (bs ! ?i) \<noteq> 0" "es = xs @ p # ys" "chain (bs ! ?i) = Some p"
      "buckets_ok (hash_of h (length bs)) (bs[?i := ?b]) (xs @ a # p # ys)"
    then show ?thesis
      using link_before [of h xs p ys a e ?H] t assms(2,3) H(2) fin [of _ "xs @ a # p # ys"] by auto
  qed
qed

text \<open>The list as the loops walk it, by the next pointers alone.\<close>

primrec nexts :: "'d elems \<Rightarrow> addr list \<Rightarrow> bool" where
  "nexts h [] \<longleftrightarrow> True"
| "nexts h (a # as) \<longleftrightarrow> (\<exists>e. h a = Some e \<and> el_next e = first_of as None) \<and> nexts h as"

lemma nexts_elinks: "elinks h p es None \<Longrightarrow> nexts h es"
  by (induction es arbitrary: p) auto

lemma nexts_append: "nexts h (xs @ ys) \<Longrightarrow> nexts h ys"
  by (induction xs) auto

lemma nexts_cong: "(\<And>a. a \<in> set as \<Longrightarrow> h' a = h a) \<Longrightarrow> nexts h' as = nexts h as"
  by (induction as) auto

lemma hash_of_key: "h a = Some e \<Longrightarrow> hash_of h n a = unat (strHash (el_key e)) mod n"
  by (simp add: hash_of_def content_at)

lemma rehash_loop_spec:
  assumes "table h H es" "ht H \<noteq> None" "htsize H = n" "nexts h as" "distinct as" "set as \<inter> set es = {}" "length as \<le> fuel"
  shows "\<exists>h' H' es'. rehash_loop fuel h H (first_of as None) n = Inr (h', H') \<and> table h' H' es'
    \<and> set es' = set es \<union> set as \<and> content h' = content h \<and> (\<forall>b. b \<notin> set es \<union> set as \<longrightarrow> h' b = h b)
    \<and> hcount H' = hcount H \<and> htsize H' = n \<and> ht H' \<noteq> None"
  using assms
proof (induction as arbitrary: h H es fuel)
  case Nil
  then show ?case by (cases fuel) auto
next
  case (Cons a as)
  obtain f where f: "fuel = Suc f" using Cons.prems(7) by (cases fuel) auto
  obtain e where e: "h a = Some e" "el_next e = first_of as None" using Cons.prems(4) by auto
  have pE: "Some (unat (strHash (el_key e)) mod n) = (if ht H \<noteq> None then Some (hash_of h (htsize H) a) else None)"
    using Cons.prems(2,3) e(1) by (simp add: hash_of_key)
  have "a \<notin> set es" using Cons.prems(6) by auto
  from insertElement_spec [OF Cons.prems(1) this e(1) pE]
  obtain h1 H1 es1 where 1: "insertElement h H (Some (unat (strHash (el_key e)) mod n)) (Some a) = Inr (h1, H1)"
    "joins h a es h1 es1" "table h1 H1 es1" "hcount H1 = hcount H" "htsize H1 = n" "ht H1 \<noteq> None"
    using Cons.prems(2,3) by auto
  have j: "set es1 = insert a (set es)" "content h1 = content h" "\<And>b. b \<notin> insert a (set es) \<Longrightarrow> h1 b = h b"
    using 1(2) by (auto simp: joins_def)
  have "h1 b = h b" if "b \<in> set as" for b using j(3) [of b] that Cons.prems(5,6) by auto
  then have "nexts h1 as" using Cons.prems(4) nexts_cong [of as h1 h] by simp
  from Cons.IH [OF 1(3,6,5) this, of f] Cons.prems(5-7) f j 1(1,4) e
  show ?case by (auto simp: elem_get_def)
qed

text \<open>The allocation of buckets gives at least what it is asked for, or fails.\<close>

definition alloc_ok :: "(nat \<Rightarrow> nat option) \<Rightarrow> bool" where
  "alloc_ok alloc \<longleftrightarrow> (\<forall>k m. alloc k = Some m \<longrightarrow> k \<le> m)"

lemma rehash_spec:
  assumes "table h H es" "alloc_ok alloc" "0 < k" "length es \<le> hcount H"
  shows "\<exists>r h' H' es'. rehash alloc h H k = Inr (r, h', H') \<and> table h' H' es' \<and> set es' = set es
    \<and> content h' = content h \<and> (\<forall>b. b \<notin> set es \<longrightarrow> h' b = h b) \<and> hcount H' = hcount H
    \<and> (if r then 0 < htsize H' \<and> ht H' \<noteq> None else H' = H)"
proof -
  define k' where "k' = (if SQLITE_MALLOC_SOFT_LIMIT < k * sizeof_ht then SQLITE_MALLOC_SOFT_LIMIT div sizeof_ht else k)"
  have k: "0 < k'" using assms(3) by (simp add: k'_def SQLITE_MALLOC_SOFT_LIMIT_def sizeof_ht_def)
  show ?thesis
  proof (cases "k' = htsize H \<or> alloc k' = None")
    case True
    then have "rehash alloc h H k = Inr (False, h, H)"
      by (auto simp: rehash_def k'_def Let_def simp del: One_nat_def)
    with assms(1) show ?thesis by auto
  next
    case False
    then obtain n where n: "alloc k' = Some n" "0 < n" using k assms(2) by (fastforce simp: alloc_ok_def)
    let ?H = "H\<lparr>ht := Some (replicate n \<lparr>ht_count = 0, chain = None\<rparr>), htsize := n, hfirst := None\<rparr>"
    have t: "table h ?H []" using n(2) by (simp add: table_def buckets_empty)
    have es: "nexts h es" "distinct es" "hfirst H = first_of es None"
      using assms(1) nexts_elinks by (auto simp: table_def)
    have "rehash alloc h H k = bindE (rehash_loop (hcount H) h ?H (first_of es None) n) (\<lambda>(h, H). Inr (True, h, H))"
      using False n(1) es(3) unfolding rehash_def k'_def [symmetric] by simp
    with rehash_loop_spec [OF t _ _ es(1,2), of n "hcount H"] assms(4) n(2) show ?thesis
      by (intro exI [of _ True]) auto
  qed
qed

section \<open>Searching\<close>

definition lower :: "bytes \<Rightarrow> bytes" where
  "lower k = map sqlite3Tolower k"

text \<open>A string of C has no terminator inside.\<close>

definition c_string :: "bytes \<Rightarrow> bool" where
  "c_string k \<longleftrightarrow> 0 \<notin> set k"

lemma Tolower_zero: "sqlite3Tolower c = 0 \<longleftrightarrow> c = 0"
proof -
  have "lower_of (unat c) < 2 ^ LENGTH(8)" using byte_lt [of c] by (simp add: lower_of_def split: if_splits)
  then have "unat (sqlite3Tolower c) = lower_of (unat c)" by (simp add: Tolower_spec unat_of_nat)
  moreover have "lower_of (unat c) = 0 \<longleftrightarrow> unat c = 0" by (simp add: lower_of_def)
  ultimately show ?thesis by (metis unat_eq_zero)
qed

lemma StrICmp_step: "sqlite3StrICmp [] [] = 0" "sqlite3StrICmp [] (y # b) = - int (unat (sqlite3Tolower y))"
  "sqlite3StrICmp (x # a) [] = (if x = 0 then 0 else int (unat (sqlite3Tolower x)))"
  "sqlite3StrICmp (x # a) (y # b) =
     (let c = int (unat (sqlite3Tolower x)) - int (unat (sqlite3Tolower y)) in
      if c \<noteq> 0 \<or> x = 0 then c else sqlite3StrICmp a b)"
proof -
  have 0: "sqlite3Tolower 0 = 0" using Tolower_zero [of 0] by simp
  show "sqlite3StrICmp [] [] = 0" by (subst sqlite3StrICmp.simps) simp
  show "sqlite3StrICmp [] (y # b) = - int (unat (sqlite3Tolower y))"
    by (subst sqlite3StrICmp.simps) (simp add: 0 Let_def )
  show "sqlite3StrICmp (x # a) [] = (if x = 0 then 0 else int (unat (sqlite3Tolower x)))"
    using Tolower_zero [of x]
    by (subst sqlite3StrICmp.simps) (simp add: 0 Let_def unsigned_eq_0_iff)
  show "sqlite3StrICmp (x # a) (y # b) =
     (let c = int (unat (sqlite3Tolower x)) - int (unat (sqlite3Tolower y)) in
      if c \<noteq> 0 \<or> x = 0 then c else sqlite3StrICmp a b)"
    by (subst sqlite3StrICmp.simps) simp
qed

lemma StrICmp_lower: "c_string a \<Longrightarrow> c_string b \<Longrightarrow> sqlite3StrICmp a b = 0 \<longleftrightarrow> lower a = lower b"
proof (induction a arbitrary: b)
  case Nil
  then show ?case using Tolower_zero [of "hd b"]
    by (cases b) (auto simp: StrICmp_step lower_def c_string_def unsigned_eq_0_iff)
next
  case (Cons x a)
  show ?case
  proof (cases b)
    case Nil
    then show ?thesis using Cons.prems Tolower_zero [of x]
      by (simp add: StrICmp_step lower_def c_string_def unsigned_eq_0_iff)
  next
    case b: (Cons y b')
    have "int (unat (sqlite3Tolower x)) - int (unat (sqlite3Tolower y)) = 0 \<longleftrightarrow> sqlite3Tolower x = sqlite3Tolower y"
      by (simp add: word_uint_eq_iff)
    then show ?thesis using Cons.IH [of b'] Cons.prems b
      by (simp add: StrICmp_step lower_def c_string_def Let_def del: right_minus_eq)
  qed
qed

lemma strHash_lower: "lower a = lower b \<Longrightarrow> strHash a = strHash b"
proof -
  have "strHash k = foldl (\<lambda>h c. (h + ucast c) * 0x9e3779b1) 0 (lower k)" for k
    by (simp add: strHash_def lower_def foldl_map)
  then show "lower a = lower b \<Longrightarrow> strHash a = strHash b" by simp
qed

lemma find_loop_spec:
  assumes "nexts h (g @ ys)"
  shows "find_loop (length g) h (first_of (g @ ys) None) key
    = Inr (find (\<lambda>a. \<exists>e. h a = Some e \<and> sqlite3StrICmp (el_key e) key = 0) g)"
  using assms by (induction g) (auto simp: elem_simps)

section \<open>A table as a map\<close>

text \<open>\<^theory_text>\<open>cont\<close> gives for each allocated element its data and its key; the map has the keys in lower case.\<close>

definition map_of_elems :: "(addr \<Rightarrow> ('d option \<times> bytes) option) \<Rightarrow> (bytes \<Rightarrow> 'd option) \<Rightarrow> bool" where
  "map_of_elems cont m \<longleftrightarrow>
     (\<forall>a d k. cont a = Some (d, k) \<longrightarrow> c_string k \<and> d \<noteq> None)
     \<and> (\<forall>l v. m l = Some v \<longleftrightarrow> (\<exists>a k. cont a = Some (Some v, k) \<and> lower k = l))
     \<and> (\<forall>a b d d' k k'. cont a = Some (d, k) \<longrightarrow> cont b = Some (d', k') \<longrightarrow> lower k = lower k' \<longrightarrow> a = b)"

definition hash_rep :: "'d elems \<Rightarrow> hash \<Rightarrow> (bytes \<Rightarrow> 'd option) \<Rightarrow> bool" where
  "hash_rep h H m \<longleftrightarrow> (\<exists>es. table h H es \<and> set es = dom h \<and> hcount H = length es \<and> map_of_elems (content h) m)"

lemma content_Some: "content h a = Some (d, k) \<longleftrightarrow> (\<exists>e. h a = Some e \<and> el_data e = d \<and> el_key e = k)"
  by (auto simp: content_def)

lemma dom_content: "a \<in> dom h \<longleftrightarrow> content h a \<noteq> None"
  by (auto simp: content_def)

lemma map_elem:
  assumes "map_of_elems cont m" "cont a = Some (d, k)"
  shows "c_string k" "d \<noteq> None" "m (lower k) = d" "cont b = Some (d', k') \<Longrightarrow> lower k' = lower k \<Longrightarrow> b = a"
proof -
  show "c_string k" "d \<noteq> None" using assms by (auto simp: map_of_elems_def)
  then obtain v where "d = Some v" by auto
  then show "m (lower k) = d" using assms unfolding map_of_elems_def by metis
  show "cont b = Some (d', k') \<Longrightarrow> lower k' = lower k \<Longrightarrow> b = a"
    using assms unfolding map_of_elems_def by metis
qed

lemma map_key:
  assumes "map_of_elems cont m" "m l = Some v"
  shows "\<exists>a k. cont a = Some (Some v, k) \<and> lower k = l"
  using assms by (simp add: map_of_elems_def)

lemma map_other:
  assumes "map_of_elems cont m" "\<And>d k. cont a = Some (d, k) \<Longrightarrow> lower k \<noteq> l"
  shows "m l = Some v \<longleftrightarrow> (\<exists>b k. b \<noteq> a \<and> cont b = Some (Some v, k) \<and> lower k = l)"
proof -
  have "m l = Some v \<longleftrightarrow> (\<exists>b k. cont b = Some (Some v, k) \<and> lower k = l)"
    using assms(1) by (simp add: map_of_elems_def)
  with assms(2) show ?thesis by metis
qed

text \<open>Setting an element that is new, or that has the same name already.\<close>

lemma map_put:
  assumes m: "map_of_elems cont m" and k: "c_string k" and a: "\<And>d' k'. cont a = Some (d', k') \<Longrightarrow> lower k' = lower k"
    and others: "\<And>b d' k'. cont b = Some (d', k') \<Longrightarrow> lower k' = lower k \<Longrightarrow> b = a"
  shows "map_of_elems (cont(a \<mapsto> (Some d, k))) (m(lower k \<mapsto> d))"
  unfolding map_of_elems_def
proof (intro conjI allI impI)
  fix b d' k' assume "(cont(a \<mapsto> (Some d, k))) b = Some (d', k')"
  then show "c_string k'" "d' \<noteq> None" using k map_elem(1,2) [OF m] by (auto split: if_splits)
next
  fix l v
  show "(m(lower k \<mapsto> d)) l = Some v \<longleftrightarrow> (\<exists>b k'. (cont(a \<mapsto> (Some d, k))) b = Some (Some v, k') \<and> lower k' = l)"
  proof (cases "l = lower k")
    case True
    then show ?thesis using others by (auto split: if_splits)
  next
    case False
    then have "m l = Some v \<longleftrightarrow> (\<exists>b k'. b \<noteq> a \<and> cont b = Some (Some v, k') \<and> lower k' = l)"
      using a by (intro map_other [OF m]) auto
    also have "\<dots> \<longleftrightarrow> (\<exists>b k'. (cont(a \<mapsto> (Some d, k))) b = Some (Some v, k') \<and> lower k' = l)"
    proof -
      have "b \<noteq> a \<and> cont b = Some (Some v, k') \<and> lower k' = l
          \<longleftrightarrow> (cont(a \<mapsto> (Some d, k))) b = Some (Some v, k') \<and> lower k' = l" for b k'
        using False by (cases "b = a") auto
      then show ?thesis by presburger
    qed
    finally show ?thesis by (simp only: fun_upd_other [OF False])
  qed
next
  fix b c d1 d2 k1 k2
  assume A: "(cont(a \<mapsto> (Some d, k))) b = Some (d1, k1)" "(cont(a \<mapsto> (Some d, k))) c = Some (d2, k2)"
    and k12: "lower k1 = lower k2"
  have old: "cont x = Some (d', k')"
    if "(cont(a \<mapsto> (Some d, k))) x = Some (d', k')" "x \<noteq> a" for x d' k'
    using that by auto
  have new: "k' = k" if "(cont(a \<mapsto> (Some d, k))) a = Some (d', k')" for d' k' using that by simp
  show "b = c"
  proof (cases "b = a")
    case True
    with A(1) new have "lower k2 = lower k" using k12 by metis
    with True A(2) old others show ?thesis by metis
  next
    case False
    then have b: "cont b = Some (d1, k1)" using A(1) old by blast
    show ?thesis
    proof (cases "c = a")
      case True
      with A(2) new have "lower k1 = lower k" using k12 by metis
      with b True others show ?thesis by metis
    next
      case False
      then show ?thesis using A(2) old b k12 map_elem(4) [OF m] by metis
    qed
  qed
qed

lemma map_delete:
  assumes m: "map_of_elems cont m" and a: "cont a = Some (d, k)"
  shows "map_of_elems (cont(a := None)) (m(lower k := None))"
  unfolding map_of_elems_def
proof (intro conjI allI impI)
  fix b d' k' assume "(cont(a := None)) b = Some (d', k')"
  then show "c_string k'" "d' \<noteq> None" using map_elem(1,2) [OF m] by (auto split: if_splits)
next
  fix l v
  show "(m(lower k := None)) l = Some v \<longleftrightarrow> (\<exists>b k'. (cont(a := None)) b = Some (Some v, k') \<and> lower k' = l)"
  proof (cases "l = lower k")
    case True
    then show ?thesis using map_elem(4) [OF m a] by (auto split: if_splits)
  next
    case False
    then have "m l = Some v \<longleftrightarrow> (\<exists>b k'. b \<noteq> a \<and> cont b = Some (Some v, k') \<and> lower k' = l)"
      using a by (intro map_other [OF m]) auto
    then show ?thesis using False by (auto split: if_splits)
  qed
next
  fix b c d1 d2 k1 k2
  assume "(cont(a := None)) b = Some (d1, k1)" "(cont(a := None)) c = Some (d2, k2)" "lower k1 = lower k2"
  then show "b = c" using map_elem(4) [OF m, of c d2 k2 b d1 k1] by (auto split: if_splits)
qed

lemma find_in_group:
  assumes m: "map_of_elems (content h) m" and key: "c_string key"
    and all: "\<And>a d k. content h a = Some (d, k) \<Longrightarrow> lower k = lower key \<Longrightarrow> a \<in> set g"
  shows "case find (\<lambda>a. \<exists>e. h a = Some e \<and> sqlite3StrICmp (el_key e) key = 0) g of
      None \<Rightarrow> m (lower key) = None | Some a \<Rightarrow> \<exists>d k. content h a = Some (d, k) \<and> lower k = lower key"
proof -
  let ?P = "\<lambda>a. \<exists>e. h a = Some e \<and> sqlite3StrICmp (el_key e) key = 0"
  have P: "?P a \<longleftrightarrow> (\<exists>d k. content h a = Some (d, k) \<and> lower k = lower key)" for a
    using StrICmp_lower [OF _ key] map_elem(1) [OF m, of a] by (auto simp: content_Some)
  show ?thesis
  proof (cases "find ?P g")
    case None
    then have "\<not> ?P a" if "a \<in> set g" for a using that by (simp add: find_None_iff)
    then have "content h a \<noteq> Some (d, k)" if "lower k = lower key" for a d k using that all P by metis
    then have "m (lower key) \<noteq> Some v" for v using map_key [OF m, of "lower key" v] by metis
    then have "m (lower key) = None" by (metis not_None_eq)
    with None show ?thesis by simp
  next
    case (Some a)
    then have "?P a" by (auto simp: find_Some_iff)
    with Some P show ?thesis by simp
  qed
qed

lemma findElementWithHash_spec:
  assumes "hash_rep h H m" "c_string key"
  shows "\<exists>p i. findElementWithHash h H key = Inr (p, i)
    \<and> (ht H \<noteq> None \<longrightarrow> i = unat (strHash key) mod htsize H)
    \<and> (case p of None \<Rightarrow> m (lower key) = None | Some a \<Rightarrow> \<exists>d k. content h a = Some (d, k) \<and> lower k = lower key)"
proof -
  obtain es where r: "table h H es" "set es = dom h" "hcount H = length es" "map_of_elems (content h) m"
    using assms(1) by (auto simp: hash_rep_def)
  let ?P = "\<lambda>a. \<exists>e. h a = Some e \<and> sqlite3StrICmp (el_key e) key = 0"
  have nx: "nexts h es" using r(1) nexts_elinks by (auto simp: table_def)
  show ?thesis
  proof (cases "ht H")
    case None
    have "findElementWithHash h H key = Inr (find ?P es, 0)"
      using None r(1,3) find_loop_spec [of h es "[]" key] nx by (simp add: findElementWithHash_def table_def)
    moreover have "a \<in> set es" if "content h a = Some (d, k)" for a d k
      using that r(2) dom_content [of a h] by auto
    ultimately show ?thesis
      using find_in_group [OF r(4) assms(2), of es] None by (metis (no_types, lifting))
  next
    case (Some bs)
    let ?i = "unat (strHash key) mod length bs"
    have t: "htsize H = length bs" "bs \<noteq> []" "buckets_ok (hash_of h (length bs)) bs es"
      using r(1) Some by (auto simp: table_def)
    have i: "?i < length bs" using t(2) by simp
    from buckets_lookup [OF t(3) i] obtain xs g ys where g: "es = xs @ g @ ys" "ht_count (bs ! ?i) = length g"
      "g \<noteq> [] \<longrightarrow> chain (bs ! ?i) = Some (hd g)" "\<forall>a\<in>set es. hash_of h (length bs) a = ?i \<longleftrightarrow> a \<in> set g"
      by blast
    have "find_loop (length g) h (chain (bs ! ?i)) key = Inr (find ?P g)"
    proof (cases g)
      case Cons
      then show ?thesis using find_loop_spec [of h g ys key] nexts_append [of h xs "g @ ys"] nx g(1,3) by simp
    qed simp
    then have "findElementWithHash h H key = Inr (find ?P g, ?i)"
      using Some t(1) i g(2) by (simp add: findElementWithHash_def bucket_get_def)
    moreover have "a \<in> set g" if "content h a = Some (d, k)" "lower k = lower key" for a d k
    proof -
      have "hash_of h (length bs) a = ?i" using that strHash_lower [of k key] by (simp add: hash_of_def)
      moreover have "a \<in> set es" using that r(2) dom_content [of a h] by auto
      ultimately show ?thesis using g(4) by blast
    qed
    ultimately show ?thesis
      using find_in_group [OF r(4) assms(2), of g] t(1) by (metis (no_types, lifting))
  qed
qed

section \<open>The operations\<close>

lemma table_content: "table h H es \<Longrightarrow> content h' = content h \<Longrightarrow> elinks h' None es None \<Longrightarrow> table h' H es"
  using hash_of_content [of h' h] by (auto simp: table_def split: option.splits)

lemma hash_rep_init: "hash_rep Map.empty sqlite3HashInit Map.empty"
  by (auto simp: hash_rep_def table_def sqlite3HashInit_def map_of_elems_def content_def)

lemma clear_loop_spec:
  "nexts h es \<Longrightarrow> distinct es \<Longrightarrow> length es \<le> n \<Longrightarrow>
    clear_loop n h (first_of es None) = Inr (\<lambda>a. if a \<in> set es then None else h a)"
proof (induction es arbitrary: h n)
  case Nil
  then show ?case by (cases n) auto
next
  case (Cons a es)
  then obtain m e where m: "n = Suc m" "h a = Some e" "el_next e = first_of es None" by (cases n) auto
  have "nexts (h(a := None)) es" using Cons.prems(1,2) by (subst nexts_cong [of es _ h]) auto
  from Cons.IH [OF this, of m] Cons.prems(2,3) m
  have "clear_loop n h (first_of (a # es) None) = Inr (\<lambda>b. if b \<in> set es then None else (h(a := None)) b)"
    by (simp add: elem_simps del: fun_upd_apply)
  also have "(\<lambda>b. if b \<in> set es then None else (h(a := None)) b) = (\<lambda>b. if b \<in> set (a # es) then None else h b)"
    by (simp add: fun_eq_iff)
  finally show ?case .
qed

lemma HashClear_spec:
  assumes "hash_rep h H m"
  shows "\<exists>H'. sqlite3HashClear h H = Inr (Map.empty, H') \<and> hash_rep Map.empty H' Map.empty"
proof -
  obtain es where r: "table h H es" "set es = dom h" "hcount H = length es"
    using assms by (auto simp: hash_rep_def)
  have "clear_loop (hcount H) h (hfirst H) = Inr (\<lambda>a. if a \<in> set es then None else h a)"
    using r clear_loop_spec [of h es "hcount H"] nexts_elinks [of h None es] by (simp add: table_def)
  moreover have "(\<lambda>a. if a \<in> set es then None else h a) = Map.empty" using r(2) by (auto simp: fun_eq_iff)
  ultimately show ?thesis
    by (auto simp: sqlite3HashClear_def hash_rep_def table_def map_of_elems_def content_def)
qed

lemma HashFind_spec:
  assumes "hash_rep h H m" "c_string key"
  shows "sqlite3HashFind h H key = Inr (m (lower key))"
proof -
  obtain p i where p: "findElementWithHash h H key = Inr (p, i)"
    "case p of None \<Rightarrow> m (lower key) = None | Some a \<Rightarrow> \<exists>d k. content h a = Some (d, k) \<and> lower k = lower key"
    using findElementWithHash_spec [OF assms] by blast
  have m: "map_of_elems (content h) m" using assms(1) by (auto simp: hash_rep_def)
  show ?thesis
  proof (cases p)
    case (Some a)
    then obtain e where "h a = Some e" "lower (el_key e) = lower key" using p(2) by (auto simp: content_Some)
    moreover have "m (lower (el_key e)) = el_data e" using map_elem(3) [OF m content_at] \<open>h a = Some e\<close> .
    ultimately show ?thesis using p(1) Some by (simp add: sqlite3HashFind_def elem_simps)
  qed (use p in \<open>simp add: sqlite3HashFind_def\<close>)
qed

lemma remove_spec:
  assumes "hash_rep h H m" "content h a = Some (d, k)" "ht H \<noteq> None \<longrightarrow> i = hash_of h (htsize H) a"
  shows "\<exists>h' H'. removeElementGivenHash h H (Some a) i = Inr (h', H') \<and> hash_rep h' H' (m(lower k := None))"
proof -
  obtain es where r: "table h H es" "set es = dom h" "hcount H = length es" "map_of_elems (content h) m"
    using assms(1) by (auto simp: hash_rep_def)
  have "a \<in> set es" using r(2) assms(2) dom_content [of a h] by simp
  then obtain xs ys where es: "es = xs @ a # ys" by (meson split_list)
  have t: "elinks h None (xs @ a # ys) None" "distinct (xs @ a # ys)" "hfirst H = first_of (xs @ a # ys) None"
    using r(1) by (auto simp: table_def es)
  from unlink_links [OF t] obtain h1 e where 1: "unlink_element h H (Some a) = Inr (h1, H\<lparr>hfirst := first_of (xs @ ys) None\<rparr>)"
    "elinks h1 None (xs @ ys) None" "content h1 = content h" "h1 a = Some e" "el_next e = first_of ys None" "dom h1 = dom h"
    by blast
  let ?h = "h1(a := None)"
  have m': "map_of_elems (content ?h) (m(lower k := None))"
  proof -
    have "content ?h = (content h)(a := None)" unfolding 1(3) [symmetric] by (auto simp: content_def)
    then show ?thesis using map_delete [OF r(4) assms(2)] by simp
  qed
  have l: "elinks ?h None (xs @ ys) None" using 1(2) t(2) by (subst elinks_frame) auto
  have d: "set (xs @ ys) = dom ?h" using r(2) 1(6) t(2) by (auto simp: es)
  let ?H = "H\<lparr>hfirst := first_of (xs @ ys) None\<rparr>"
  have fin: ?thesis
    if "removeElementGivenHash h H (Some a) i
          = (if hcount H2 = 0 then if hfirst H2 \<noteq> None then Inl HashAssert else sqlite3HashClear ?h H2 else Inr (?h, H2))"
      and "table ?h H2 (xs @ ys)" "hcount H2 = length (xs @ ys)" for H2
  proof -
    have R: "hash_rep ?h H2 (m(lower k := None))" unfolding hash_rep_def using that(2,3) d m'
      by (intro exI [of _ "xs @ ys"]) simp
    show ?thesis
    proof (cases "hcount H2 = 0")
      case True
      then have "xs @ ys = []" using that(3) by simp
      moreover from this have "?h = Map.empty" using d by (simp add: fun_eq_iff dom_def)
      moreover have "m(lower k := None) = Map.empty"
        using m' map_key [OF m'] calculation by (force simp: content_def)
      ultimately show ?thesis using HashClear_spec [OF R] that(1,2) True by (auto simp: table_def)
    qed (use R that(1) in auto)
  qed
  show ?thesis
  proof (cases "ht H")
    case None
    let ?H2 = "?H\<lparr>hcount := hcount H - 1\<rparr>"
    have "removeElementGivenHash h H (Some a) i
        = (if hcount ?H2 = 0 then if hfirst ?H2 \<noteq> None then Inl HashAssert else sqlite3HashClear ?h ?H2 else Inr (?h, ?H2))"
      using None 1(1,4) by (simp add: removeElementGivenHash_def elem_simps Let_def)
    then show ?thesis
      by (rule fin) (use None l t(2) r(1,3) in \<open>simp_all add: table_def es\<close>)
  next
    case (Some bs)
    let ?i = "hash_of h (length bs) a"
    let ?b = "if chain (bs ! ?i) = Some a then (bs ! ?i)\<lparr>chain := first_of ys None\<rparr> else bs ! ?i"
    have b: "htsize H = length bs" "bs \<noteq> []" "buckets_ok (hash_of h (length bs)) bs (xs @ a # ys)"
      using r(1) Some by (auto simp: table_def es)
    from buckets_remove [OF b(3) t(2) refl]
    have rm: "?i < length bs" "ht_count (bs ! ?i) \<noteq> 0"
      "buckets_ok (hash_of h (length bs)) (bs[?i := ?b\<lparr>ht_count := ht_count ?b - 1\<rparr>]) (xs @ ys)"
      by auto
    have "\<forall>x\<in>set (xs @ ys). hash_of ?h (length bs) x = hash_of h (length bs) x"
    proof
      fix x assume "x \<in> set (xs @ ys)"
      then have "x \<noteq> a" using t(2) by auto
      then show "hash_of ?h (length bs) x = hash_of h (length bs) x"
        using 1(3) by (intro hash_of_at) (simp add: content_other del: fun_upd_apply)
    qed
    note bk = buckets_cong [OF this rm(3)]
    let ?H2 = "bucket_set ?H ?i (?b\<lparr>ht_count := ht_count ?b - 1\<rparr>)\<lparr>hcount := hcount H - 1\<rparr>"
    have "removeElementGivenHash h H (Some a) i
        = (if hcount ?H2 = 0 then if hfirst ?H2 \<noteq> None then Inl HashAssert else sqlite3HashClear ?h ?H2 else Inr (?h, ?H2))"
      using Some b(1) rm(1,2) 1(1,4,5) assms(3)
      by (simp add: removeElementGivenHash_def elem_simps Let_def bucket_get_def bucket_set_def)
    then show ?thesis
      by (rule fin) (use Some b l t(2) r(3) bk in \<open>simp_all add: table_def es bucket_set_def\<close>)
  qed
qed

lemma insert_new_spec:
  assumes "hash_rep h H m" "c_string key" "m (lower key) = None" "h a = None" "alloc_ok alloc"
    and i: "findElementWithHash h H key = Inr (None, i)" "ht H \<noteq> None \<longrightarrow> i = unat (strHash key) mod htsize H"
  shows "\<exists>h' H'. sqlite3HashInsert (Some a) alloc h H key (Some d) = Inr (None, h', H')
    \<and> hash_rep h' H' (m(lower key \<mapsto> d))"
proof -
  obtain es where r: "table h H es" "set es = dom h" "hcount H = length es" "map_of_elems (content h) m"
    using assms(1) by (auto simp: hash_rep_def)
  let ?e = "\<lparr>el_next = None, el_prev = None, el_data = Some d, el_key = key\<rparr>"
  let ?h = "h(a \<mapsto> ?e)" and ?H = "H\<lparr>hcount := hcount H + 1\<rparr>"
  have a: "a \<notin> set es" using r(2) assms(4) by auto
  have c: "content ?h = (content h)(a \<mapsto> (Some d, key))" by (auto simp: content_def)
  have t: "table ?h ?H es"
  proof -
    have "hash_of ?h n b = hash_of h n b" if "b \<in> set es" for n b
      using that a by (intro hash_of_at content_other) auto
    then show ?thesis using r(1) a buckets_cong [of es "hash_of ?h n" "hash_of h n" for n]
      by (auto simp: table_def elinks_frame split: option.splits)
  qed
  have m: "map_of_elems (content ?h) (m(lower key \<mapsto> d))"
    unfolding c
  proof (rule map_put [OF r(4) assms(2)])
    show "content h a = Some (d', k') \<Longrightarrow> lower k' = lower key" for d' k' using assms(4) by (simp add: content_def)
    show "content h b = Some (d', k') \<Longrightarrow> lower k' = lower key \<Longrightarrow> b = a" for b d' k'
      using map_elem(2,3) [OF r(4)] assms(3) by metis
  qed
  have fin: "\<exists>h' H'. bindE (insertElement h1 H1 (if ht H1 \<noteq> None then Some j else None) (Some a)) (\<lambda>(h, H). Inr (None, h, H))
        = Inr (None :: 'a option, h', H') \<and> hash_rep h' H' (m(lower key \<mapsto> d))"
    if "table h1 H1 es1" "set es1 = set es" "content h1 = content ?h" "h1 a = ?h a" "hcount H1 = hcount H + 1"
      "ht H1 \<noteq> None \<longrightarrow> j = unat (strHash key) mod htsize H1" for h1 H1 es1 j
  proof -
    have e: "h1 a = Some ?e" using that(4) by simp
    have "(if ht H1 \<noteq> None then Some j else None) = (if ht H1 \<noteq> None then Some (hash_of h1 (htsize H1) a) else None)"
      using that(6) hash_of_key [where h = h1 and a = a, OF e] by auto
    from insertElement_spec [OF that(1) _ e this] that(2) a
    obtain h' H' es' where 1: "insertElement h1 H1 (if ht H1 \<noteq> None then Some j else None) (Some a) = Inr (h', H')"
      "joins h1 a es1 h' es'" "table h' H' es'" "hcount H' = hcount H1"
      by auto
    have j: "distinct es'" "set es' = insert a (set es)" "content h' = content ?h"
      using 1(2) that(2,3) by (auto simp: joins_def)
    then have "length es' = Suc (length es)"
      using a r(1) distinct_card [of es'] distinct_card [of es] by (simp add: table_def)
    moreover have "set es' = dom h'"
    proof -
      have "dom h' = {b. content h' b \<noteq> None}" using dom_content [of _ h'] by blast
      also have "\<dots> = dom ?h" unfolding j(3) using dom_content [of _ ?h] by blast
      also have "\<dots> = set es'" using j(2) r(2) by simp
      finally show ?thesis by simp
    qed
    ultimately have "hash_rep h' H' (m(lower key \<mapsto> d))"
      using 1(3,4) m r(3) that(5) j(3) by (auto simp: hash_rep_def)
    with 1(1) show ?thesis by simp
  qed
  let ?H1 = "H\<lparr>hcount := hcount H + 1\<rparr>"
  show ?thesis
  proof (cases "10 \<le> hcount ?H1 \<and> 2 * htsize ?H1 < hcount ?H1")
    case True
    have "0 < hcount ?H1 * 2" "length es \<le> hcount ?H1" using r(3) by auto
    from rehash_spec [OF t assms(5) this] obtain q h1 H1 es1 where
      q: "rehash alloc ?h ?H1 (hcount ?H1 * 2) = Inr (q, h1, H1)" "table h1 H1 es1" "set es1 = set es"
      "content h1 = content ?h" "\<forall>b. b \<notin> set es \<longrightarrow> h1 b = ?h b" "hcount H1 = hcount ?H1"
      "if q then 0 < htsize H1 \<and> ht H1 \<noteq> None else H1 = ?H1"
      by blast
    let ?j = "if q then unat (strHash key) mod htsize H1 else i"
    have "ht H1 \<noteq> None \<longrightarrow> ?j = unat (strHash key) mod htsize H1" using q(7) i(2) by auto
    moreover have "h1 a = ?h a" using q(5) a by simp
    ultimately show ?thesis
      using fin [OF q(2-4), of ?j] q(1,6,7) True i(1) by (simp add: sqlite3HashInsert_def Let_def)
  next
    case False
    then show ?thesis
      using fin [OF t refl refl, of i] i
      by (cases "9 \<le> hcount H") (simp_all add: sqlite3HashInsert_def Let_def)
  qed
qed

lemma insert_old_spec:
  assumes "hash_rep h H m" "c_string key" "content h a = Some (Some v, k)" "lower k = lower key"
    and i: "findElementWithHash h H key = Inr (Some a, i)" "ht H \<noteq> None \<longrightarrow> i = unat (strHash key) mod htsize H"
  shows "\<exists>h' H'. sqlite3HashInsert p alloc h H key data = Inr (Some v, h', H') \<and> hash_rep h' H' (m(lower key := data))"
proof -
  obtain es where r: "table h H es" "set es = dom h" "hcount H = length es" "map_of_elems (content h) m"
    using assms(1) by (auto simp: hash_rep_def)
  obtain e where e: "h a = Some e" "el_data e = Some v" "el_key e = k" using assms(3) by (auto simp: content_Some)
  show ?thesis
  proof (cases data)
    case None
    have "ht H \<noteq> None \<longrightarrow> i = hash_of h (htsize H) a"
      using i(2) strHash_lower [OF assms(4)] e by (simp add: hash_of_key)
    from remove_spec [OF assms(1,3) this] None i(1) e assms(4) show ?thesis
      by (auto simp: sqlite3HashInsert_def elem_simps)
  next
    case (Some d)
    let ?e = "e\<lparr>el_data := Some d, el_key := key\<rparr>" let ?h = "h(a \<mapsto> ?e)"
    have c: "content ?h = (content h)(a \<mapsto> (Some d, key))" by (auto simp: content_def)
    have m: "map_of_elems (content ?h) (m(lower key \<mapsto> d))"
      unfolding c using assms(3,4) map_elem(4) [OF r(4) assms(3)]
      by (intro map_put [OF r(4) assms(2)]) auto
    have "elinks ?h q es n = elinks h q es n" for q n
      using e(1) by (induction es arbitrary: q) auto
    moreover have "hash_of ?h n b = hash_of h n b" for n b
    proof (cases "b = a")
      case True
      then show ?thesis using e strHash_lower [OF assms(4)] by (simp add: hash_of_key)
    qed (intro hash_of_at content_other)
    then have "hash_of ?h = hash_of h" by (simp add: fun_eq_iff)
    ultimately have "table ?h H es" using r(1) by (auto simp: table_def split: option.splits)
    moreover have "set es = dom ?h" using r(2) e(1) by auto
    ultimately have "hash_rep ?h H (m(lower key \<mapsto> d))" using r(3) m by (auto simp: hash_rep_def)
    with Some i(1) e show ?thesis by (simp add: sqlite3HashInsert_def elem_simps)
  qed
qed

section \<open>Tables are maps\<close>

text \<open>
  A call on a table. An insertion says whether the memory for its element can be had and what the
  allocation of buckets gives; the address of a new element is \<^theory_text>\<open>malloc\<close> of the addresses
  in use.
\<close>

datatype 'd hash_call =
    HFind bytes
  | HInsert bytes "'d option" bool "nat \<Rightarrow> nat option"
  | HClear

fun hash_exec :: "(addr set \<Rightarrow> addr) \<Rightarrow> 'd elems \<times> hash \<Rightarrow> 'd hash_call \<Rightarrow> ('d option \<times> 'd elems \<times> hash) hres" where
  "hash_exec malloc (h, H) (HFind k) = bindE (sqlite3HashFind h H k) (\<lambda>d. Inr (d, h, H))"
| "hash_exec malloc (h, H) (HInsert k d room alloc) =
     sqlite3HashInsert (if room then Some (malloc (dom h)) else None) alloc h H k d"
| "hash_exec malloc (h, H) HClear = bindE (sqlite3HashClear h H) (\<lambda>(h, H). Inr (None, h, H))"

fun hash_run :: "(addr set \<Rightarrow> addr) \<Rightarrow> 'd elems \<times> hash \<Rightarrow> 'd hash_call list \<Rightarrow> ('d option list \<times> 'd elems \<times> hash) hres" where
  "hash_run malloc s [] = Inr ([], s)"
| "hash_run malloc s (c # cs) =
     bindE (hash_exec malloc s c) (\<lambda>(out, s). bindE (hash_run malloc s cs) (\<lambda>(outs, s). Inr (out # outs, s)))"

text \<open>The same on a map from names in lower case: what a call returns, and the new map.\<close>

fun map_exec :: "(bytes \<Rightarrow> 'd option) \<Rightarrow> 'd hash_call \<Rightarrow> 'd option \<times> (bytes \<Rightarrow> 'd option)" where
  "map_exec m (HFind k) = (m (lower k), m)"
| "map_exec m (HInsert k d room alloc) =
     (if m (lower k) = None \<and> d \<noteq> None \<and> \<not> room then (d, m) else (m (lower k), m(lower k := d)))"
| "map_exec m HClear = (None, Map.empty)"

fun map_run :: "(bytes \<Rightarrow> 'd option) \<Rightarrow> 'd hash_call list \<Rightarrow> 'd option list \<times> (bytes \<Rightarrow> 'd option)" where
  "map_run m [] = ([], m)"
| "map_run m (c # cs) = (let (out, m) = map_exec m c; (outs, m) = map_run m cs in (out # outs, m))"

fun call_ok :: "'d hash_call \<Rightarrow> bool" where
  "call_ok (HFind k) = c_string k"
| "call_ok (HInsert k d room alloc) \<longleftrightarrow> c_string k \<and> alloc_ok alloc"
| "call_ok HClear = True"

lemma hash_rep_finite: "hash_rep h H m \<Longrightarrow> finite (dom h)"
  by (metis hash_rep_def List.finite_set)

lemma hash_exec_spec:
  assumes "hash_rep h H m" "call_ok c" and malloc: "\<And>S. finite S \<Longrightarrow> malloc S \<notin> S"
  shows "\<exists>h' H'. hash_exec malloc (h, H) c = Inr (fst (map_exec m c), h', H') \<and> hash_rep h' H' (snd (map_exec m c))"
proof (cases c)
  case (HFind k)
  then show ?thesis using HashFind_spec [OF assms(1)] assms(1,2) by simp
next
  case HClear
  then show ?thesis using HashClear_spec [OF assms(1)] by auto
next
  case (HInsert k d room alloc)
  then have k: "c_string k" "alloc_ok alloc" using assms(2) by auto
  from findElementWithHash_spec [OF assms(1) k(1)] obtain p i where
    f: "findElementWithHash h H k = Inr (p, i)" "ht H \<noteq> None \<longrightarrow> i = unat (strHash k) mod htsize H"
    "case p of None \<Rightarrow> m (lower k) = None | Some a \<Rightarrow> \<exists>d k'. content h a = Some (d, k') \<and> lower k' = lower k"
    by blast
  show ?thesis
  proof (cases p)
    case (Some a)
    then obtain d' k' where a: "content h a = Some (d', k')" "lower k' = lower k" using f(3) by auto
    have "map_of_elems (content h) m" using assms(1) by (auto simp: hash_rep_def)
    from map_elem(2,3) [OF this a(1)] a obtain v where v: "d' = Some v" "m (lower k) = Some v" by auto
    from insert_old_spec [OF assms(1) k(1) a(1) [unfolded v(1)] a(2)] f(1,2) Some HInsert v(2)
    show ?thesis by auto
  next
    case None
    have new: "h (malloc (dom h)) = None" using malloc [OF hash_rep_finite [OF assms(1)]] by (simp add: domIff)
    have m: "m (lower k) = None" using None f(3) by simp
    show ?thesis
    proof (cases "d = None \<or> \<not> room")
      case True
      then show ?thesis using None f(1) HInsert m assms(1)
        by (auto simp: sqlite3HashInsert_def fun_upd_idem)
    next
      case False
      then obtain v where "d = Some v" "room" by auto
      then show ?thesis
        using insert_new_spec [OF assms(1) k(1) m new k(2)] f(1,2) None HInsert m by auto
    qed
  qed
qed

lemma hash_rep_card:
  assumes "hash_rep h H m"
  shows "card (dom h) = card (dom m)"
proof -
  have m: "map_of_elems (content h) m" using assms by (auto simp: hash_rep_def)
  let ?f = "\<lambda>a. lower (snd (the (content h a)))"
  have in_dom: "\<exists>v k. content h a = Some (Some v, k)" if a: "a \<in> dom h" for a
  proof -
    obtain e where e: "h a = Some e" using a by auto
    then have "content h a = Some (el_data e, el_key e)" by (rule content_at)
    from map_elem(2) [OF m this] this show ?thesis by auto
  qed
  have "bij_betw ?f (dom h) (dom m)"
    unfolding bij_betw_def
  proof
    show "inj_on ?f (dom h)"
    proof (rule inj_onI)
      fix a b assume ab: "a \<in> dom h" "b \<in> dom h" "?f a = ?f b"
      obtain v k where a: "content h a = Some (Some v, k)" using in_dom [OF ab(1)] by blast
      obtain v' k' where b: "content h b = Some (Some v', k')" using in_dom [OF ab(2)] by blast
      have "lower k' = lower k" using ab(3) by (simp add: a b)
      then show "a = b" using map_elem(4) [OF m a b] by simp
    qed
    show "?f ` dom h = dom m"
    proof (intro equalityI subsetI)
      fix l assume "l \<in> ?f ` dom h"
      then obtain a where a: "a \<in> dom h" "l = ?f a" by auto
      with in_dom [OF a(1)] map_elem(3) [OF m] show "l \<in> dom m" by force
    next
      fix l assume "l \<in> dom m"
      then obtain a v k where "content h a = Some (Some v, k)" "lower k = l" using map_key [OF m] by blast
      then show "l \<in> ?f ` dom h" using dom_content [of a h] by force
    qed
  qed
  then show ?thesis by (rule bij_betw_same_card)
qed

lemma hash_run_spec:
  assumes "hash_rep h H m" "\<forall>c\<in>set cs. call_ok c" "\<And>S. finite S \<Longrightarrow> malloc S \<notin> S"
  shows "\<exists>h' H'. hash_run malloc (h, H) cs = Inr (fst (map_run m cs), h', H') \<and> hash_rep h' H' (snd (map_run m cs))"
  using assms(1,2)
proof (induction cs arbitrary: h H m)
  case (Cons c cs)
  then have "call_ok c" by simp
  from hash_exec_spec [OF Cons.prems(1) this, of malloc] assms(3) obtain h1 H1 where
    1: "hash_exec malloc (h, H) c = Inr (fst (map_exec m c), h1, H1)" "hash_rep h1 H1 (snd (map_exec m c))" by blast
  from Cons.IH [OF 1(2)] Cons.prems(2) 1(1) show ?case by (auto simp: split_beta Let_def)
qed simp

text \<open>
  C11: A hash table is a map from names, whatever the case of their letters. From an empty table, any
  sequence of look-ups, insertions, replacements, removals and resets, with any of the allocations
  failing and with any memory for elements that is not in use, returns what the map returns: the
  data for the name, the old data, or the new data when there was no memory for it. No step of it
  follows a null or freed pointer, leaves the bucket array or trips an assertion, through the change
  from the plain list to buckets and every resize of them; and afterwards exactly one element is
  allocated for each name that is left, so nothing leaks.
\<close>

theorem hash_table_is_map:
  assumes "\<forall>c\<in>set cs. call_ok c" "\<forall>S. finite S \<longrightarrow> malloc S \<notin> S"
  shows "\<exists>h H. hash_run malloc (Map.empty, sqlite3HashInit) cs = Inr (fst (map_run Map.empty cs), h, H)
    \<and> finite (dom h) \<and> card (dom h) = card (dom (snd (map_run Map.empty cs)))"
proof -
  obtain h H where 1: "hash_run malloc (Map.empty, sqlite3HashInit) cs = Inr (fst (map_run Map.empty cs), h, H)"
    "hash_rep h H (snd (map_run Map.empty cs))"
    using hash_run_spec [OF hash_rep_init assms(1), of malloc] assms(2) by blast
  with hash_rep_finite [OF 1(2)] hash_rep_card [OF 1(2)] show ?thesis by blast
qed

theorem hash_table_is_map_witness:
  "\<exists>h H. hash_run (\<lambda>S. if S = {} then 0 else Suc (Max S)) (Map.empty, sqlite3HashInit)
      [HInsert (ascii ''Users'') (Some 7) True Some, HInsert (ascii ''USERS'') (Some 8) True Some,
       HFind (ascii ''users''), HInsert (ascii ''items'') (Some (9 :: nat)) False Some,
       HInsert (ascii ''users'') None True Some, HFind (ascii ''Users'')]
    = Inr ([None, Some 7, Some 8, Some 9, Some 8, None], h, H) \<and> finite (dom h) \<and> card (dom h) = 0"
proof -
  have l: "lower (ascii ''Users'') = lower (ascii ''users'')" "lower (ascii ''USERS'') = lower (ascii ''users'')"
    by (simp_all add: lower_def ascii_def sqlite3Tolower_def sqlite3UpperToLower_def)
  have n: "lower (ascii ''items'') \<noteq> lower (ascii ''users'')"
    by (simp add: lower_def ascii_def sqlite3Tolower_def sqlite3UpperToLower_def)
  have c: "c_string (ascii ''Users'')" "c_string (ascii ''USERS'')" "c_string (ascii ''users'')" "c_string (ascii ''items'')"
    by (simp_all add: c_string_def ascii_def)
  have a: "alloc_ok Some" by (simp add: alloc_ok_def)
  have m: "(if S = {} then 0 else Suc (Max S)) \<notin> S" if "finite S" for S :: "addr set"
    using Max_ge [OF that, of "Suc (Max S)"] by auto
  show ?thesis
    using hash_table_is_map [of "[HInsert (ascii ''Users'') (Some 7) True Some, HInsert (ascii ''USERS'') (Some 8) True Some,
       HFind (ascii ''users''), HInsert (ascii ''items'') (Some (9 :: nat)) False Some,
       HInsert (ascii ''users'') None True Some, HFind (ascii ''Users'')]" "\<lambda>S. if S = {} then 0 else Suc (Max S)"]
      l n c a m by (simp add: fun_upd_twist)
qed

end
