(* ===== verification/RecordFormat.thy ===== *)
theory RecordFormat
  imports Varint Utf
begin

text \<open>
  The record format: values as serial types and bytes (\<^verbatim>\<open>sqlite/vdbeaux.c\<close>), the records
  that \<^verbatim>\<open>OP_MakeRecord\<close> makes of them (\<^verbatim>\<open>sqlite/vdbe.c\<close>) and
  \<^verbatim>\<open>sqlite3VdbeRecordUnpack\<close>, which takes a record apart. The affinity that
  \<^verbatim>\<open>OP_MakeRecord\<close> may apply first is left out. Memory is taken to be had.
\<close>

section \<open>Values\<close>

definition MEM_Null :: u16 where "MEM_Null = 0x0001"
definition MEM_Int :: u16 where "MEM_Int = 0x0004"
definition MEM_Real :: u16 where "MEM_Real = 0x0008"
definition MEM_Blob :: u16 where "MEM_Blob = 0x0010"
definition MEM_Ephem :: u16 where "MEM_Ephem = 0x1000"
definition MEM_Zero :: u16 where "MEM_Zero = 0x4000"

text \<open>
  \<^verbatim>\<open>Mem\<close> with its union: \<^theory_text>\<open>cu\<close> is the integer \<^verbatim>\<open>u.i\<close> or the bits of
  the double \<^verbatim>\<open>u.r\<close>, \<^theory_text>\<open>cnZero\<close> the count \<^verbatim>\<open>u.nZero\<close> of zero bytes that
  follow the bytes at \<^verbatim>\<open>z\<close>, when \<^theory_text>\<open>MEM_Zero\<close> is set.
\<close>

record Cell = Mem +
  cu :: u64
  cnZero :: nat

definition has :: "Cell \<Rightarrow> u16 \<Rightarrow> bool" where
  "has p f \<longleftrightarrow> mflags p AND f \<noteq> 0"

text \<open>A double is not equal to itself when its exponent is all ones and its fraction is not 0.\<close>

definition sqlite3IsNaN :: "u64 \<Rightarrow> bool" where
  "sqlite3IsNaN r \<longleftrightarrow> 0x7FF0000000000000 < r AND 0x7FFFFFFFFFFFFFFF"

definition sqlite3VdbeMemExpandBlob :: "Cell \<Rightarrow> Cell" where
  "sqlite3VdbeMemExpandBlob p =
     p\<lparr>mz := mz p @ replicate (cnZero p) 0, mflags := mflags p AND NOT (MEM_Zero OR MEM_Term)\<rparr>"

section \<open>Serial types\<close>

definition MAX_6BYTE :: u64 where "MAX_6BYTE = push_bit 32 0x00008000 - 1"

text \<open>The serial type and the number of bytes.\<close>

definition sqlite3VdbeSerialType :: "Cell \<Rightarrow> nat \<Rightarrow> nat \<times> nat" where
  "sqlite3VdbeSerialType p file_format =
     (if has p MEM_Null then (0, 0)
      else if has p MEM_Int then
        (let i = cu p; u = (if i <s 0 then NOT i else i) in
         if u \<le> 127 then (if i AND 1 = i \<and> 4 \<le> file_format then (8 + unat u, 0) else (1, 1))
         else if u \<le> 32767 then (2, 2)
         else if u \<le> 8388607 then (3, 3)
         else if u \<le> 2147483647 then (4, 4)
         else if u \<le> MAX_6BYTE then (5, 6)
         else (6, 8))
      else if has p MEM_Real then (7, 8)
      else (let n = length (mz p) + (if has p MEM_Zero then cnZero p else 0) in
            ((n * 2 + 12 + (if has p MEM_Str then 1 else 0)) mod 2 ^ 32, n)))"

definition sqlite3SmallTypeSizes :: "nat list" where
  "sqlite3SmallTypeSizes =
     [0, 1, 2, 3, 4, 6, 8, 8, 0, 0,
      0, 0, 0, 0, 1, 1, 2, 2, 3, 3,
      4, 4, 5, 5, 6, 6, 7, 7, 8, 8,
      9, 9, 10, 10, 11, 11, 12, 12, 13, 13,
      14, 14, 15, 15, 16, 16, 17, 17, 18, 18,
      19, 19, 20, 20, 21, 21, 22, 22, 23, 23,
      24, 24, 25, 25, 26, 26, 27, 27, 28, 28,
      29, 29, 30, 30, 31, 31, 32, 32, 33, 33,
      34, 34, 35, 35, 36, 36, 37, 37, 38, 38,
      39, 39, 40, 40, 41, 41, 42, 42, 43, 43,
      44, 44, 45, 45, 46, 46, 47, 47, 48, 48,
      49, 49, 50, 50, 51, 51, 52, 52, 53, 53,
      54, 54, 55, 55, 56, 56, 57, 57]"

definition sqlite3VdbeSerialTypeLen :: "nat \<Rightarrow> nat" where
  "sqlite3VdbeSerialTypeLen serial_type =
     (if 128 \<le> serial_type then (serial_type - 12) div 2 else sqlite3SmallTypeSizes ! serial_type)"

definition sqlite3VdbeOneByteSerialTypeLen :: "nat \<Rightarrow> nat" where
  "sqlite3VdbeOneByteSerialTypeLen serial_type = sqlite3SmallTypeSizes ! serial_type"

section \<open>Writing a value\<close>

text \<open>From the last byte to the first.\<close>

primrec put_loop :: "nat \<Rightarrow> u64 \<Rightarrow> bytes" where
  "put_loop 0 v = []"
| "put_loop (Suc i) v = put_loop i (drop_bit 8 v) @ [ucast (v AND 0xFF)]"

definition sqlite3VdbeSerialPut :: "Cell \<Rightarrow> nat \<Rightarrow> bytes" where
  "sqlite3VdbeSerialPut p serial_type =
     (if serial_type \<le> 7 \<and> 0 < serial_type then put_loop (sqlite3SmallTypeSizes ! serial_type) (cu p)
      else if 12 \<le> serial_type then mz p else [])"

section \<open>Reading a value\<close>

text \<open>
  The macros compute in 32-bit \<^verbatim>\<open>int\<close> and \<^verbatim>\<open>u32\<close>; \<^verbatim>\<open>(i8)\<close> extends the
  sign.
\<close>

definition ONE_BYTE_INT :: "bytes \<Rightarrow> u32" where
  "ONE_BYTE_INT x = scast (x ! 0)"

definition TWO_BYTE_INT :: "bytes \<Rightarrow> u32" where
  "TWO_BYTE_INT x = 256 * scast (x ! 0) OR ucast (x ! 1)"

definition THREE_BYTE_INT :: "bytes \<Rightarrow> u32" where
  "THREE_BYTE_INT x = 65536 * scast (x ! 0) OR push_bit 8 (ucast (x ! 1)) OR ucast (x ! 2)"

definition FOUR_BYTE_UINT :: "bytes \<Rightarrow> u32" where
  "FOUR_BYTE_UINT x = push_bit 24 (ucast (x ! 0)) OR push_bit 16 (ucast (x ! 1)) OR push_bit 8 (ucast (x ! 2)) OR ucast (x ! 3)"

definition FOUR_BYTE_INT :: "bytes \<Rightarrow> u32" where
  "FOUR_BYTE_INT x = 16777216 * scast (x ! 0) OR push_bit 16 (ucast (x ! 1)) OR push_bit 8 (ucast (x ! 2)) OR ucast (x ! 3)"

definition serialGet :: "bytes \<Rightarrow> nat \<Rightarrow> Cell \<Rightarrow> nat \<times> Cell" where
  "serialGet buf serial_type p =
     (let x = ucast (FOUR_BYTE_UINT buf) :: u64;
          y = FOUR_BYTE_UINT (drop 4 buf);
          x = push_bit 32 x + ucast y
      in if serial_type = 6 then (8, p\<lparr>cu := x, mflags := MEM_Int\<rparr>)
         else (8, p\<lparr>cu := x, mflags := if sqlite3IsNaN x then MEM_Null else MEM_Real\<rparr>))"

text \<open>
  The number of bytes read and the value; \<^theory_text>\<open>None\<close> when the value reaches past the end of the
  buffer.
\<close>

definition sqlite3VdbeSerialGet :: "bytes \<Rightarrow> nat \<Rightarrow> Cell \<Rightarrow> (nat \<times> Cell) option" where
  "sqlite3VdbeSerialGet buf serial_type p =
     (if length buf < (if serial_type < 12 then sqlite3SmallTypeSizes ! serial_type else (serial_type - 12) div 2) then None
      else if serial_type = 0 \<or> serial_type = 10 \<or> serial_type = 11 then Some (0, p\<lparr>mflags := MEM_Null\<rparr>)
      else if serial_type = 1 then Some (1, p\<lparr>cu := scast (ONE_BYTE_INT buf), mflags := MEM_Int\<rparr>)
      else if serial_type = 2 then Some (2, p\<lparr>cu := scast (TWO_BYTE_INT buf), mflags := MEM_Int\<rparr>)
      else if serial_type = 3 then Some (3, p\<lparr>cu := scast (THREE_BYTE_INT buf), mflags := MEM_Int\<rparr>)
      else if serial_type = 4 then Some (4, p\<lparr>cu := scast (FOUR_BYTE_INT buf), mflags := MEM_Int\<rparr>)
      else if serial_type = 5
      then Some (6, p\<lparr>cu := ucast (FOUR_BYTE_UINT (drop 2 buf)) + push_bit 32 1 * scast (TWO_BYTE_INT buf), mflags := MEM_Int\<rparr>)
      else if serial_type = 6 \<or> serial_type = 7 then Some (serialGet buf serial_type p)
      else if serial_type = 8 \<or> serial_type = 9 then Some (0, p\<lparr>cu := of_nat (serial_type - 8), mflags := MEM_Int\<rparr>)
      else (let n = (serial_type - 12) div 2 in
            Some (n, p\<lparr>mz := take n buf,
                       mflags := (if serial_type mod 2 = 0 then MEM_Blob else MEM_Str) OR MEM_Ephem\<rparr>)))"

section \<open>Records\<close>

text \<open>The macros that have the one-byte case inline: the bytes read and the integer, the bytes written.\<close>

definition getVarint32 :: "bytes \<Rightarrow> nat \<times> nat" where
  "getVarint32 p =
     (if p ! 0 < 0x80 then (1, unat (p ! 0)) else (case sqlite3GetVarint32 p of (n, v) \<Rightarrow> (n, unat v)))"

definition putVarint32 :: "nat \<Rightarrow> bytes" where
  "putVarint32 b = (if b < 0x80 then [of_nat b] else sqlite3PutVarint (of_nat b))"

text \<open>
  The first loop of \<^verbatim>\<open>OP_MakeRecord\<close>, from the last field to the first: the bytes of
  content, the bytes of types, the zeros left off the end, and the fields with their types. Zeros
  that are not at the end of the record are made real.
\<close>

primrec size_loop :: "nat \<Rightarrow> Cell list \<Rightarrow> nat \<times> nat \<times> nat \<times> (Cell \<times> nat) list" where
  "size_loop file_format [] = (0, 0, 0, [])"
| "size_loop file_format (pRec # ps) =
     (let (nData, nHdr, nZero, fs) = size_loop file_format ps;
          (serial_type, len) = sqlite3VdbeSerialType pRec file_format;
          (pRec, nZero, len) =
            (if has pRec MEM_Zero
             then (if nData \<noteq> 0 then (sqlite3VdbeMemExpandBlob pRec, nZero, len)
                   else (pRec, nZero + cnZero pRec, len - cnZero pRec))
             else (pRec, nZero, len))
      in (nData + len, nHdr + (if serial_type \<le> 127 then 1 else sqlite3VarintLen (of_nat serial_type)),
          nZero, (pRec, serial_type) # fs))"

definition header_size :: "nat \<Rightarrow> nat" where
  "header_size nHdr =
     (if nHdr \<le> 126 then nHdr + 1
      else (let nVarint = sqlite3VarintLen (of_nat nHdr); nHdr = nHdr + nVarint in
            if nVarint < sqlite3VarintLen (of_nat nHdr) then nHdr + 1 else nHdr))"

datatype make_fault = TooBig | MakeAssert

text \<open>The bytes of the record and the number of zeros that follow them. \<^theory_text>\<open>limit\<close> is the
  longest value the connection allows.\<close>

definition make_record :: "nat \<Rightarrow> nat \<Rightarrow> Cell list \<Rightarrow> make_fault + bytes \<times> nat" where
  "make_record limit file_format ps =
     (let (nData, nHdr, nZero, fs) = size_loop file_format ps;
          nHdr = header_size nHdr;
          nByte = nHdr + nData
      in if limit < nByte + nZero then Inl TooBig
         else (let hdr = putVarint32 nHdr @ concat (map (\<lambda>(p, t). putVarint32 t) fs);
                   content = concat (map (\<lambda>(p, t). sqlite3VdbeSerialPut p t) fs)
               in if length hdr \<noteq> nHdr \<or> nHdr + length content \<noteq> nByte then Inl MakeAssert
                  else Inr (hdr @ content, nZero)))"

text \<open>
  The loop over the fields fills the cells of the unpacked record, as many as there are at most;
  \<^theory_text>\<open>None\<close> is a read past the end of the record.
\<close>

primrec unpack_loop :: "nat \<Rightarrow> bytes \<Rightarrow> nat \<Rightarrow> nat \<Rightarrow> nat \<Rightarrow> Cell list \<Rightarrow> Cell list option" where
  "unpack_loop enc aKey szHdr idx d [] = Some []"
| "unpack_loop enc aKey szHdr idx d (pMem # ms) =
     (if idx < szHdr \<and> d \<le> length aKey then
        (if \<not> varint_ends 8 (drop idx aKey) then None
         else (let (k, serial_type) = getVarint32 (drop idx aKey) in
               case sqlite3VdbeSerialGet (drop d aKey) serial_type (pMem\<lparr>menc := enc, mz := []\<rparr>) of
                 None \<Rightarrow> None
               | Some (n, pMem) \<Rightarrow> map_option ((#) pMem) (unpack_loop enc aKey szHdr (idx + k) (d + n) ms)))
      else Some [])"

definition sqlite3VdbeRecordUnpack :: "nat \<Rightarrow> bytes \<Rightarrow> Cell list \<Rightarrow> Cell list option" where
  "sqlite3VdbeRecordUnpack enc aKey aMem =
     (if \<not> varint_ends 8 aKey then None
      else (let (idx, szHdr) = getVarint32 aKey in unpack_loop enc aKey szHdr idx szHdr aMem))"

end
