(* ===== verification/RecordFormatProps.thy ===== *)
theory RecordFormatProps
  imports RecordFormat
begin

text \<open>
  Records hold what was put into them: \<^theory_text>\<open>record_roundtrip\<close> takes any row of values through
  \<^verbatim>\<open>OP_MakeRecord\<close> and \<^verbatim>\<open>sqlite3VdbeRecordUnpack\<close>.
\<close>

section \<open>Integers by their low bytes\<close>

definition magnitude :: "u64 \<Rightarrow> u64" where
  "magnitude i = (if i <s 0 then NOT i else i)"

lemma sless_bit: "(i :: u64) <s 0 \<longleftrightarrow> bit i 63"
  using bit_last_iff [of i] by (simp add: word_sless_alt)

lemma sign_bits:
  assumes "unat (magnitude i) < 2 ^ k" "k \<le> n" "n < 63"
  shows "bit i n = bit i 63"
proof -
  have "drop_bit k (magnitude i) = 0" using assms drop_bit_zero [of k "magnitude i"] by simp
  then have "\<not> bit (drop_bit k (magnitude i)) (n - k)" by simp
  then have "\<not> bit (magnitude i) n" using assms(2) by (simp add: bit_simps)
  then show ?thesis using assms(3) by (auto simp: magnitude_def sless_bit bit_simps split: if_splits)
qed

lemma put_loop_bytes:
  "put_loop 1 i = [ucast i]" "put_loop 2 i = [ucast (drop_bit 8 i), ucast i]"
  "put_loop 3 i = [ucast (drop_bit 16 i), ucast (drop_bit 8 i), ucast i]"
  "put_loop 4 i = map (\<lambda>k. ucast (drop_bit k i)) [24, 16, 8, 0]"
  "put_loop 6 i = map (\<lambda>k. ucast (drop_bit k i)) [40, 32, 24, 16, 8, 0]"
  "put_loop 8 i = map (\<lambda>k. ucast (drop_bit k i)) [56, 48, 40, 32, 24, 16, 8, 0]"
proof -
  have m: "ucast (v AND 0xFF) = (ucast v :: u8)" for v :: u64
    by (simp add: word8_bits bit_simps)
  show "put_loop 1 i = [ucast i]" "put_loop 2 i = [ucast (drop_bit 8 i), ucast i]"
    "put_loop 3 i = [ucast (drop_bit 16 i), ucast (drop_bit 8 i), ucast i]"
    "put_loop 4 i = map (\<lambda>k. ucast (drop_bit k i)) [24, 16, 8, 0]"
    "put_loop 6 i = map (\<lambda>k. ucast (drop_bit k i)) [40, 32, 24, 16, 8, 0]"
    "put_loop 8 i = map (\<lambda>k. ucast (drop_bit k i)) [56, 48, 40, 32, 24, 16, 8, 0]"
    by (simp_all add: numeral_eq_Suc m drop_bit_drop_bit del: drop_bit_numeral_bit1 drop_bit_numeral_bit0)
qed

lemma times_push: "256 * x = push_bit 8 (x :: u32)" "65536 * x = push_bit 16 (x :: u32)"
  "16777216 * x = push_bit 24 (x :: u32)"
  by (simp_all add: push_bit_eq_mult mult.commute)

lemmas byte_int_bits = times_push bit_simps bit_word_scast_iff byte_bit_high word32_bit_high

lemma ONE_BYTE_INT_put:
  assumes "unat (magnitude i) < 2 ^ 7"
  shows "scast (ONE_BYTE_INT (put_loop 1 i @ z)) = i"
  using sign_bits [OF assms] by (simp add: ONE_BYTE_INT_def put_loop_bytes word64_bits byte_int_bits)

lemma TWO_BYTE_INT_put:
  assumes "unat (magnitude i) < 2 ^ 15"
  shows "scast (TWO_BYTE_INT (put_loop 2 i @ z)) = i"
  using sign_bits [OF assms] by (simp add: TWO_BYTE_INT_def put_loop_bytes word64_bits byte_int_bits)

lemma THREE_BYTE_INT_put:
  assumes "unat (magnitude i) < 2 ^ 23"
  shows "scast (THREE_BYTE_INT (put_loop 3 i @ z)) = i"
  using sign_bits [OF assms] by (simp add: THREE_BYTE_INT_def put_loop_bytes word64_bits byte_int_bits)

lemma FOUR_BYTE_INT_put:
  assumes "unat (magnitude i) < 2 ^ 31"
  shows "scast (FOUR_BYTE_INT (put_loop 4 i @ z)) = i"
  using sign_bits [OF assms] by (simp add: FOUR_BYTE_INT_def put_loop_bytes word64_bits byte_int_bits)

lemma high_low: "ucast (a :: u32) + push_bit 32 (s :: u64) = ucast a OR push_bit 32 s"
  by (rule disjunctive_add_eq_or) (simp add: word64_bits byte_int_bits)

lemma SIX_BYTE_INT_put:
  assumes "unat (magnitude i) < 2 ^ 47"
  shows "ucast (FOUR_BYTE_UINT (drop 2 (put_loop 6 i @ z))) + push_bit 32 1 * scast (TWO_BYTE_INT (put_loop 6 i @ z)) = i"
proof -
  let ?b = "put_loop 6 i @ z"
  have "push_bit 32 1 * s = push_bit 32 (s :: u64)" for s by (simp add: push_bit_eq_mult mult.commute)
  then have "ucast (FOUR_BYTE_UINT (drop 2 ?b)) + push_bit 32 1 * scast (TWO_BYTE_INT ?b)
      = ucast (FOUR_BYTE_UINT (drop 2 ?b)) OR push_bit 32 (scast (TWO_BYTE_INT ?b) :: u64)"
    by (simp only: high_low)
  also have "\<dots> = i"
    using sign_bits [OF assms]
    by (simp add: FOUR_BYTE_UINT_def TWO_BYTE_INT_def put_loop_bytes word64_bits byte_int_bits)
  finally show ?thesis .
qed

lemma EIGHT_BYTE_put:
  "push_bit 32 (ucast (FOUR_BYTE_UINT (put_loop 8 i @ z))) + ucast (FOUR_BYTE_UINT (drop 4 (put_loop 8 i @ z))) = (i :: u64)"
proof -
  let ?b = "put_loop 8 i @ z"
  have "push_bit 32 (ucast (FOUR_BYTE_UINT ?b)) + ucast (FOUR_BYTE_UINT (drop 4 ?b))
      = ucast (FOUR_BYTE_UINT (drop 4 ?b)) OR push_bit 32 (ucast (FOUR_BYTE_UINT ?b) :: u64)"
    by (simp only: add.commute [of "push_bit _ _"] high_low)
  also have "\<dots> = i" by (simp add: FOUR_BYTE_UINT_def put_loop_bytes word64_bits byte_int_bits)
  finally show ?thesis .
qed

section \<open>One value\<close>

text \<open>
  What a cell stands for. Reals are the bits of a double; one that is not a number counts as
  \<^verbatim>\<open>NULL\<close>, as everywhere in SQLite. Zeros that are only counted are part of the value.
\<close>

datatype sval = SNull | SInt int | SReal u64 | SText nat bytes | SBlob bytes

definition zero_tail :: "Cell \<Rightarrow> nat" where
  "zero_tail p = (if has p MEM_Zero then cnZero p else 0)"

definition full :: "Cell \<Rightarrow> bytes" where
  "full p = mz p @ replicate (zero_tail p) 0"

definition value_of :: "Cell \<Rightarrow> sval" where
  "value_of p =
     (if has p MEM_Null then SNull
      else if has p MEM_Int then SInt (sint (cu p))
      else if has p MEM_Real then (if sqlite3IsNaN (cu p) then SNull else SReal (cu p))
      else if has p MEM_Str then SText (menc p) (full p)
      else SBlob (full p))"

text \<open>Only texts and blobs count zeros, and texts are in the encoding of the database.\<close>

definition valid_cell :: "nat \<Rightarrow> Cell \<Rightarrow> bool" where
  "valid_cell enc p \<longleftrightarrow>
     (has p MEM_Zero \<longrightarrow> \<not> has p MEM_Null \<and> \<not> has p MEM_Int \<and> \<not> has p MEM_Real)
     \<and> (has p MEM_Str \<longrightarrow> menc p = enc) \<and> length (full p) < 2 ^ 30"

definition put_full :: "Cell \<Rightarrow> nat \<Rightarrow> bytes" where
  "put_full p t = (if 12 \<le> t then full p else sqlite3VdbeSerialPut p t)"

lemmas mem_flags = MEM_Null_def MEM_Int_def MEM_Real_def MEM_Str_def MEM_Blob_def MEM_Zero_def MEM_Ephem_def MEM_Term_def

lemma has_flags [simp]:
  "has (p\<lparr>mflags := MEM_Null\<rparr>) MEM_Null"
  "\<not> has (p\<lparr>mflags := MEM_Int\<rparr>) MEM_Null" "has (p\<lparr>mflags := MEM_Int\<rparr>) MEM_Int"
  "\<not> has (p\<lparr>mflags := MEM_Real\<rparr>) MEM_Null" "\<not> has (p\<lparr>mflags := MEM_Real\<rparr>) MEM_Int" "has (p\<lparr>mflags := MEM_Real\<rparr>) MEM_Real"
  "\<not> has (p\<lparr>mflags := MEM_Str OR MEM_Ephem\<rparr>) MEM_Null" "\<not> has (p\<lparr>mflags := MEM_Str OR MEM_Ephem\<rparr>) MEM_Int"
  "\<not> has (p\<lparr>mflags := MEM_Str OR MEM_Ephem\<rparr>) MEM_Real" "has (p\<lparr>mflags := MEM_Str OR MEM_Ephem\<rparr>) MEM_Str"
  "\<not> has (p\<lparr>mflags := MEM_Str OR MEM_Ephem\<rparr>) MEM_Zero"
  "\<not> has (p\<lparr>mflags := MEM_Blob OR MEM_Ephem\<rparr>) MEM_Null" "\<not> has (p\<lparr>mflags := MEM_Blob OR MEM_Ephem\<rparr>) MEM_Int"
  "\<not> has (p\<lparr>mflags := MEM_Blob OR MEM_Ephem\<rparr>) MEM_Real" "\<not> has (p\<lparr>mflags := MEM_Blob OR MEM_Ephem\<rparr>) MEM_Str"
  "\<not> has (p\<lparr>mflags := MEM_Blob OR MEM_Ephem\<rparr>) MEM_Zero"
  by (simp_all add: has_def mem_flags)

text \<open>The types of integers, by size; the last are the constants 0 and 1.\<close>

lemma int_types:
  assumes "\<not> has p MEM_Null" "has p MEM_Int" "sqlite3VdbeSerialType p fmt = (t, len)"
  shows "t \<in> {1, 2, 3, 4, 5, 6} \<and> len = sqlite3SmallTypeSizes ! t \<and> unat (magnitude (cu p)) < 2 ^ (8 * len - 1)
    \<or> t = 8 \<and> len = 0 \<and> cu p = 0 \<or> t = 9 \<and> len = 0 \<and> cu p = 1"
proof -
  let ?u = "magnitude (cu p)"
  have "drop_bit 63 ?u = 0"
    by (cases "bit (cu p) 63") (simp_all add: magnitude_def sless_bit word64_bits bit_simps word_bit_high)
  then have m: "unat ?u < 2 ^ 63" using drop_bit_zero [of 63 ?u] by simp
  have one: "cu p = 0 \<or> cu p = 1" if "cu p AND 1 = cu p"
    using that and_one_eq [of "cu p"] mod2_eq_if [of "cu p"] by (metis (full_types))
  have "sqlite3VdbeSerialType p fmt =
      (if ?u \<le> 127 then (if cu p AND 1 = cu p \<and> 4 \<le> fmt then (8 + unat ?u, 0) else (1, 1))
       else if ?u \<le> 32767 then (2, 2) else if ?u \<le> 8388607 then (3, 3)
       else if ?u \<le> 2147483647 then (4, 4) else if ?u \<le> MAX_6BYTE then (5, 6) else (6, 8))"
    using assms(1,2) by (simp add: sqlite3VdbeSerialType_def magnitude_def Let_def)
  moreover have "unat MAX_6BYTE = 2 ^ 47 - 1" by (simp add: MAX_6BYTE_def)
  ultimately show ?thesis
    using assms(3) m one by (auto simp: word_le_nat_alt sqlite3SmallTypeSizes_def magnitude_def split: if_splits)
qed

lemma length_put_loop [simp]: "length (put_loop k v) = k"
  by (induction k arbitrary: v) simp_all

lemma small_sizes:
  "sqlite3SmallTypeSizes ! 0 = 0" "sqlite3SmallTypeSizes ! 1 = 1" "sqlite3SmallTypeSizes ! 2 = 2"
  "sqlite3SmallTypeSizes ! 3 = 3" "sqlite3SmallTypeSizes ! 4 = 4" "sqlite3SmallTypeSizes ! 5 = 6"
  "sqlite3SmallTypeSizes ! 6 = 8" "sqlite3SmallTypeSizes ! 7 = 8" "sqlite3SmallTypeSizes ! 8 = 0" "sqlite3SmallTypeSizes ! 9 = 0"
  by (simp_all add: sqlite3SmallTypeSizes_def)

definition reads :: "Cell \<Rightarrow> nat \<Rightarrow> nat \<Rightarrow> bytes \<Rightarrow> Cell \<Rightarrow> bool" where
  "reads p t len rest m \<longleftrightarrow> length (put_full p t) = len \<and>
     (\<exists>m'. sqlite3VdbeSerialGet (put_full p t @ rest) t m = Some (len, m') \<and> value_of m' = value_of p)"

lemma reads_int:
  assumes p: "\<not> has p MEM_Null" "has p MEM_Int" "sqlite3VdbeSerialType p fmt = (t, len)"
  shows "reads p t len rest m"
proof -
  have v: "value_of (m\<lparr>cu := i, mflags := MEM_Int\<rparr>) = value_of p" if "i = cu p" for i
    using p(1,2) has_flags(2,3) [of "m\<lparr>cu := i\<rparr>"] that by (simp add: value_of_def)
  note ints = ONE_BYTE_INT_put TWO_BYTE_INT_put THREE_BYTE_INT_put FOUR_BYTE_INT_put SIX_BYTE_INT_put EIGHT_BYTE_put
  let ?u = "unat (magnitude (cu p))"
  consider "t = 1" "len = 1" "?u < 2 ^ 7" | "t = 2" "len = 2" "?u < 2 ^ 15" | "t = 3" "len = 3" "?u < 2 ^ 23"
    | "t = 4" "len = 4" "?u < 2 ^ 31" | "t = 5" "len = 6" "?u < 2 ^ 47" | "t = 6" "len = 8"
    | "t = 8" "len = 0" "cu p = 0" | "t = 9" "len = 0" "cu p = 1"
    using int_types [OF p] by (auto simp: small_sizes simp del: One_nat_def)
  then show ?thesis
    using v ints [of "cu p" rest]
    by cases (simp_all add: reads_def put_full_def sqlite3VdbeSerialPut_def sqlite3VdbeSerialGet_def serialGet_def small_sizes Let_def
        del: One_nat_def)
qed

lemma reads_value:
  assumes p: "valid_cell enc p" "sqlite3VdbeSerialType p fmt = (t, len)" and m: "menc m = enc"
  shows "reads p t len rest m"
proof -
  consider "has p MEM_Null" | "\<not> has p MEM_Null" "has p MEM_Int"
    | "\<not> has p MEM_Null" "\<not> has p MEM_Int" "has p MEM_Real"
    | "\<not> has p MEM_Null" "\<not> has p MEM_Int" "\<not> has p MEM_Real" by blast
  then show ?thesis
  proof cases
    case 1
    then have "t = 0" "len = 0" using p(2) by (auto simp: sqlite3VdbeSerialType_def)
    with 1 show ?thesis
      by (simp add: reads_def put_full_def sqlite3VdbeSerialPut_def sqlite3VdbeSerialGet_def small_sizes value_of_def)
  next
    case 2
    then show ?thesis using p(2) by (rule reads_int)
  next
    case 3
    then have t: "t = 7" "len = 8" using p(2) by (auto simp: sqlite3VdbeSerialType_def)
    show ?thesis
      using t 3 EIGHT_BYTE_put [of "cu p" rest] has_flags(1) [of "m\<lparr>cu := cu p\<rparr>"] has_flags(4-6) [of "m\<lparr>cu := cu p\<rparr>"]
      by (simp add: reads_def put_full_def sqlite3VdbeSerialPut_def sqlite3VdbeSerialGet_def serialGet_def small_sizes Let_def
          value_of_def)
  next
    case 4
    let ?n = "length (full p)"
    have n: "?n = length (mz p) + (if has p MEM_Zero then cnZero p else 0)" by (simp add: full_def zero_tail_def)
    have "?n < 2 ^ 30" using p(1) by (simp add: valid_cell_def)
    then have t: "t = ?n * 2 + 12 + (if has p MEM_Str then 1 else 0)" "len = ?n"
      using p(2) 4 by (auto simp: sqlite3VdbeSerialType_def Let_def n split: if_splits)
    let ?m = "m\<lparr>mz := full p\<rparr>"
    have "sqlite3VdbeSerialGet (full p @ rest) t m
        = Some (?n, ?m\<lparr>mflags := (if has p MEM_Str then MEM_Str else MEM_Blob) OR MEM_Ephem\<rparr>)"
      by (auto simp: sqlite3VdbeSerialGet_def t Let_def)
    then show ?thesis
      using t 4 p(1) m has_flags(7-16) [of ?m]
      by (simp add: reads_def put_full_def value_of_def full_def zero_tail_def valid_cell_def)
  qed
qed

section \<open>The integers of the header\<close>

lemma small_byte: "(x :: u8) < 0x80 \<Longrightarrow> \<not> bit x 7"
proof -
  assume "x < 0x80"
  then have "drop_bit 7 x = 0"
    by (subst unat_eq_0 [symmetric], subst unat_drop_bit_eq) (simp add: drop_bit_eq_div word_less_nat_alt)
  then show ?thesis by (simp add: bit_iff_odd_drop_bit)
qed

lemma getVarint32_eq: "getVarint32 p = (case sqlite3GetVarint32 p of (n, v) \<Rightarrow> (n, unat v))"
proof (cases "p ! 0 < 0x80")
  case True
  have "ucast (p ! 0) AND 0x80 = (0 :: u32)"
    using small_byte [OF True] by (simp add: flag32 bit_simps)
  then show ?thesis using True byte_lt [of "p ! 0"]
    by (simp add: getVarint32_def sqlite3GetVarint32_def Let_def unsigned_ucast_eq take_bit_eq_mod)
qed (simp add: getVarint32_def)

lemma small_word: "n < 2 ^ 32 \<Longrightarrow> unat (of_nat n :: u64) = n"
  by (simp add: unat_of_nat)

lemma VarintLen_le: "n < 2 ^ 32 \<Longrightarrow> 0 < k \<Longrightarrow> k \<le> 8 \<Longrightarrow> sqlite3VarintLen (of_nat n) \<le> k \<longleftrightarrow> n < 2 ^ (7 * k)"
  using length_varint_buf [of k "of_nat n"] length_varint_buf_gt [of k "of_nat n"] drop_bit_zero [of "7 * k" "of_nat n"]
    varint_len_buf [of "of_nat n" 1] small_word [of n]
  by (auto simp: sqlite3VarintLen_def not_less)

lemma drop_56: "n < 2 ^ 32 \<Longrightarrow> drop_bit 56 (of_nat n :: u64) = 0"
  using drop_bit_zero [of 56 "of_nat n"] small_word [of n] by simp

definition vl :: "nat \<Rightarrow> nat" where
  "vl n = sqlite3VarintLen (of_nat n)"

lemma vl_steps: "n < 2 ^ 32 \<Longrightarrow>
    vl n = (if n < 128 then 1 else if n < 16384 then 2 else if n < 2097152 then 3 else if n < 268435456 then 4 else 5)"
proof -
  assume n: "n < 2 ^ 32"
  have pos: "0 < vl n"
    using varint_len_buf [of "of_nat n" 1] by (simp add: vl_def sqlite3VarintLen_def varint_buf_rev [of "of_nat n"])
  have "vl n \<le> 1 \<longleftrightarrow> n < 128" "vl n \<le> 2 \<longleftrightarrow> n < 16384" "vl n \<le> 3 \<longleftrightarrow> n < 2097152"
    "vl n \<le> 4 \<longleftrightarrow> n < 268435456" "vl n \<le> 5"
    using VarintLen_le [OF n, of 1] VarintLen_le [OF n, of 2] VarintLen_le [OF n, of 3] VarintLen_le [OF n, of 4]
      VarintLen_le [OF n, of 5] n by (simp_all add: vl_def)
  then show ?thesis using pos by (simp split: if_split; linarith)
qed

lemma length_putVarint32:
  assumes "n < 2 ^ 32"
  shows "length (putVarint32 n) = vl n"
  using assms vl_steps [OF assms] drop_56 [OF assms]
  by (cases "n < 128") (simp_all add: putVarint32_def length_PutVarint vl_def)

lemma get_putVarint32:
  assumes "n < 2 ^ 32"
  shows "getVarint32 (putVarint32 n @ rest) = (length (putVarint32 n), n)" "varint_ends 8 (putVarint32 n @ rest)"
proof -
  have one: "unat (of_nat n :: u8) = n" if "n < 128" using that by (simp add: unat_of_nat)
  have c: "unat (ucast (of_nat n :: u64) :: u32) = n" using assms small_word [of n] by (simp add: unsigned_ucast_eq take_bit_eq_mod)
  have d32: "drop_bit 32 (of_nat n :: u64) = 0" using drop_bit_zero [of 32 "of_nat n"] small_word [of n] assms by simp
  show "getVarint32 (putVarint32 n @ rest) = (length (putVarint32 n), n)"
  proof (cases "n < 128")
    case True
    then show ?thesis using one by (simp add: putVarint32_def getVarint32_def word_less_nat_alt)
  next
    case False
    then show ?thesis using GetVarint_PutVarint [of "of_nat n" rest] c d32
      by (simp add: getVarint32_eq GetVarint32_clamps putVarint32_def)
  qed
  show "varint_ends 8 (putVarint32 n @ rest)"
  proof (cases "n < 128")
    case True
    then have "\<not> bit (of_nat n :: u8) 7" using one by (intro small_byte) (simp add: word_less_nat_alt)
    then show ?thesis using True by (simp add: putVarint32_def varint_ends_unfold flag8)
  qed (simp add: putVarint32_def varint_ends_PutVarint [OF drop_56 [OF assms]])
qed

lemma header_size_ok:
  assumes "n < 2 ^ 31"
  shows "n < header_size n \<and> header_size n \<le> n + 6 \<and> length (putVarint32 (header_size n)) + n = header_size n"
proof -
  have h: "header_size n = (if n \<le> 126 then n + 1
      else if vl n < vl (n + vl n) then n + vl n + 1 else n + vl n)"
    by (simp only: header_size_def vl_def Let_def)
  have v: "vl n \<le> 5" using vl_steps [of n] assms by simp
  then have v': "vl (n + vl n) = (if n + vl n < 128 then 1 else if n + vl n < 16384 then 2 else if n + vl n < 2097152 then 3
      else if n + vl n < 268435456 then 4 else 5)"
    using assms by (intro vl_steps) simp
  have b: "header_size n \<le> n + 6" "n < header_size n"
    using v h vl_steps [of n] assms by (auto split: if_splits)
  then have "length (putVarint32 (header_size n)) = vl (header_size n)"
    using assms by (intro length_putVarint32) simp
  moreover have "vl (header_size n) = (if header_size n < 128 then 1 else if header_size n < 16384 then 2
      else if header_size n < 2097152 then 3 else if header_size n < 268435456 then 4 else 5)"
    using assms b by (intro vl_steps) simp
  ultimately show ?thesis using b h v' vl_steps [of n] assms by (simp split: if_splits)
qed

section \<open>Records\<close>

definition ty :: "nat \<Rightarrow> Cell \<Rightarrow> nat" where
  "ty fmt p = fst (sqlite3VdbeSerialType p fmt)"

lemma ty_32: "ty fmt p < 2 ^ 32"
  by (simp add: ty_def sqlite3VdbeSerialType_def Let_def word_le_nat_alt split: if_split; linarith)

lemma put_full_length:
  assumes "valid_cell enc p"
  shows "length (put_full p (ty fmt p)) = snd (sqlite3VdbeSerialType p fmt)"
proof -
  have "sqlite3VdbeSerialType p fmt = (ty fmt p, snd (sqlite3VdbeSerialType p fmt))" by (simp add: ty_def)
  from reads_value [OF assms this, of "p\<lparr>menc := enc\<rparr>" "[]"] show ?thesis by (simp add: reads_def)
qed

text \<open>Only texts and blobs have a tail of zeros.\<close>

lemma zero_cell:
  assumes "valid_cell enc p" "has p MEM_Zero"
  shows "12 \<le> ty fmt p" "put_full p t = (if 12 \<le> t then mz p @ replicate (cnZero p) 0 else sqlite3VdbeSerialPut p t)"
proof -
  have "length (full p) < 2 ^ 30" "\<not> has p MEM_Null" "\<not> has p MEM_Int" "\<not> has p MEM_Real"
    using assms by (auto simp: valid_cell_def)
  moreover from this(1) have "length (mz p) + cnZero p < 2 ^ 30" using assms(2) by (simp add: full_def zero_tail_def)
  ultimately show "12 \<le> ty fmt p" using assms(2) by (simp add: ty_def sqlite3VdbeSerialType_def Let_def)
  show "put_full p t = (if 12 \<le> t then mz p @ replicate (cnZero p) 0 else sqlite3VdbeSerialPut p t)"
    using assms(2) by (simp add: put_full_def full_def zero_tail_def)
qed

lemma plain_cell: "\<not> has p MEM_Zero \<Longrightarrow> put_full p t = sqlite3VdbeSerialPut p t"
  by (simp add: put_full_def full_def zero_tail_def sqlite3VdbeSerialPut_def)

lemma size_loop_spec:
  assumes "\<forall>p\<in>set ps. valid_cell enc p" "size_loop fmt ps = (nData, nHdr, nZero, fs)"
  shows "map snd fs = map (ty fmt) ps
    \<and> nData = length (concat (map (\<lambda>(p, t). sqlite3VdbeSerialPut p t) fs))
    \<and> concat (map (\<lambda>(p, t). sqlite3VdbeSerialPut p t) fs) @ replicate nZero 0 = concat (map (\<lambda>p. put_full p (ty fmt p)) ps)
    \<and> nHdr = length (concat (map (\<lambda>p. putVarint32 (ty fmt p)) ps))"
  using assms
proof (induction ps arbitrary: nData nHdr nZero fs)
  case (Cons p ps)
  obtain nData' nHdr' nZero' fs' where r: "size_loop fmt ps = (nData', nHdr', nZero', fs')" by (cases "size_loop fmt ps")
  let ?put = "\<lambda>(p, t). sqlite3VdbeSerialPut p t" and ?t = "ty fmt p"
  have p: "valid_cell enc p" and IH: "map snd fs' = map (ty fmt) ps" "nData' = length (concat (map ?put fs'))"
    "concat (map ?put fs') @ replicate nZero' 0 = concat (map (\<lambda>p. put_full p (ty fmt p)) ps)"
    "nHdr' = length (concat (map (\<lambda>p. putVarint32 (ty fmt p)) ps))"
    using Cons.IH [OF _ r] Cons.prems(1) by auto
  have st: "sqlite3VdbeSerialType p fmt = (?t, length (put_full p ?t))"
    using put_full_length [OF p, of fmt] by (simp add: ty_def)
  have h: "(if ?t \<le> 127 then 1 else sqlite3VarintLen (of_nat ?t)) = length (putVarint32 ?t)"
    using length_putVarint32 [OF ty_32, of fmt p] vl_steps [OF ty_32, of fmt p] by (simp add: vl_def)
  consider "\<not> has p MEM_Zero" | "has p MEM_Zero" "nData' \<noteq> 0" | "has p MEM_Zero" "nData' = 0" by blast
  then show ?case
  proof cases
    case 1
    then have "nData = nData' + length (put_full p ?t)" "nHdr = nHdr' + length (putVarint32 ?t)" "nZero = nZero'" "fs = (p, ?t) # fs'"
      using Cons.prems(2) r st h by (auto simp: Let_def)
    then show ?thesis using IH plain_cell [OF 1, of ?t] by simp
  next
    case 2
    let ?e = "sqlite3VdbeMemExpandBlob p"
    have put: "sqlite3VdbeSerialPut ?e ?t = put_full p ?t"
      using zero_cell(1) [OF p 2(1), of fmt] zero_cell(2) [OF p 2(1), of ?t] by (simp add: sqlite3VdbeSerialPut_def sqlite3VdbeMemExpandBlob_def)
    from 2 have "nData = nData' + length (put_full p ?t)" "nHdr = nHdr' + length (putVarint32 ?t)" "nZero = nZero'" "fs = (?e, ?t) # fs'"
      using Cons.prems(2) r st h by (auto simp: Let_def)
    then show ?thesis using IH put by simp
  next
    case 3
    have z: "put_full p ?t = sqlite3VdbeSerialPut p ?t @ replicate (cnZero p) 0" "sqlite3VdbeSerialPut p ?t = mz p"
      using zero_cell(1) [OF p 3(1), of fmt] zero_cell(2) [OF p 3(1), of ?t] by (simp_all add: sqlite3VdbeSerialPut_def)
    have e: "concat (map ?put fs') = []" using 3(2) IH(2) by simp
    from 3 have "nData = length (mz p)" "nHdr = nHdr' + length (putVarint32 ?t)" "nZero = nZero' + cnZero p" "fs = (p, ?t) # fs'"
      using Cons.prems(2) r st h z by (auto simp: Let_def)
    moreover have "replicate nZero' 0 = concat (map (\<lambda>p. put_full p (ty fmt p)) ps)" using IH(3) e by simp
    moreover have "replicate (nZero' + cnZero p) 0 = replicate (cnZero p) 0 @ replicate nZero' (0 :: u8)"
      by (simp add: replicate_add [symmetric] add.commute)
    ultimately show ?thesis using IH(1,4) z e by simp
  qed
qed simp

text \<open>Reading the fields back: types from the header, values from the content.\<close>

lemma unpack_loop_spec:
  assumes "\<forall>p\<in>set ps. valid_cell enc p" "length ps \<le> length ms"
    and "aKey = pre @ concat (map (\<lambda>p. putVarint32 (ty fmt p)) ps) @ mid @ concat (map (\<lambda>p. put_full p (ty fmt p)) ps)"
    and "szHdr = length pre + length (concat (map (\<lambda>p. putVarint32 (ty fmt p)) ps))" "d = szHdr + length mid"
  shows "\<exists>out. unpack_loop enc aKey szHdr (length pre) d ms = Some out \<and> map value_of out = map value_of ps"
  using assms
proof (induction ps arbitrary: ms pre mid d)
  case Nil
  then show ?case by (cases ms) auto
next
  case (Cons p ps)
  obtain m ms' where ms: "ms = m # ms'" using Cons.prems(2) by (cases ms) auto
  let ?t = "ty fmt p" and ?m = "m\<lparr>menc := enc, mz := []\<rparr>"
  let ?v = "putVarint32 ?t" and ?c = "put_full p ?t"
  let ?types = "concat (map (\<lambda>p. putVarint32 (ty fmt p)) ps)" and ?vals = "concat (map (\<lambda>p. put_full p (ty fmt p)) ps)"
  have a: "aKey = pre @ ?v @ ?types @ mid @ ?c @ ?vals" using Cons.prems(3) by simp
  have v: "getVarint32 (drop (length pre) aKey) = (length ?v, ?t)" "varint_ends 8 (drop (length pre) aKey)" "0 < length ?v"
    using get_putVarint32 [OF ty_32, of fmt p] length_putVarint32 [OF ty_32, of fmt p] vl_steps [OF ty_32, of fmt p]
    by (auto simp: a)
  have d: "drop d aKey = ?c @ ?vals" using Cons.prems(4,5) by (simp add: a)
  have "valid_cell enc p" using Cons.prems(1) by simp
  from reads_value [OF this, of fmt ?t "length ?c" ?m ?vals] put_full_length [OF this, of fmt]
  obtain m' where m': "sqlite3VdbeSerialGet (?c @ ?vals) ?t ?m = Some (length ?c, m')" "value_of m' = value_of p"
    by (auto simp: reads_def ty_def prod_eq_iff)
  have "\<exists>out. unpack_loop enc aKey szHdr (length (pre @ ?v)) (d + length ?c) ms' = Some out
      \<and> map value_of out = map value_of ps"
    using Cons.prems ms by (intro Cons.IH [of ms' "pre @ ?v" "mid @ ?c"]) auto
  then obtain out where "unpack_loop enc aKey szHdr (length pre + length ?v) (d + length ?c) ms' = Some out"
    "map value_of out = map value_of ps" by auto
  moreover have "length pre < szHdr" "d \<le> length aKey" using Cons.prems(4,5) v(3) by (auto simp: a)
  ultimately show ?case using v m' d by (simp add: ms)
qed

text \<open>The bytes a row takes as a record: its header and its values, zeros included.\<close>

definition record_size :: "nat \<Rightarrow> Cell list \<Rightarrow> nat" where
  "record_size fmt ps =
     header_size (sum_list (map (\<lambda>p. length (putVarint32 (fst (sqlite3VdbeSerialType p fmt)))) ps))
     + sum_list (map (\<lambda>p. snd (sqlite3VdbeSerialType p fmt)) ps)"

lemma make_record_spec:
  assumes "\<forall>p\<in>set ps. valid_cell enc p" "limit < 2 ^ 30" "length ps \<le> length aMem"
  shows "if limit < record_size fmt ps then make_record limit fmt ps = Inl TooBig
    else \<exists>rec nZero out. make_record limit fmt ps = Inr (rec, nZero) \<and> length rec + nZero = record_size fmt ps
      \<and> sqlite3VdbeRecordUnpack enc (rec @ replicate nZero 0) aMem = Some out \<and> map value_of out = map value_of ps"
proof -
  obtain nData nHdr nZero fs where sl: "size_loop fmt ps = (nData, nHdr, nZero, fs)" by (cases "size_loop fmt ps")
  let ?put = "\<lambda>(p, t). sqlite3VdbeSerialPut p t" and ?types = "concat (map (\<lambda>p. putVarint32 (ty fmt p)) ps)"
  let ?content = "concat (map ?put fs)" and ?vals = "concat (map (\<lambda>p. put_full p (ty fmt p)) ps)" and ?H = "header_size nHdr"
  note s = size_loop_spec [OF assms(1) sl]
  have types: "concat (map (\<lambda>(p, t). putVarint32 t) fs) = ?types"
  proof -
    have "map (\<lambda>(p, t). putVarint32 t) fs = map putVarint32 (map snd fs)" by (simp add: case_prod_beta)
    then show ?thesis using s by (simp only: list.map_comp comp_def)
  qed
  have vals: "length ?content + nZero = length ?vals"
    using s by (metis length_append length_replicate)
  have size: "record_size fmt ps = ?H + nData + nZero"
  proof -
    have "map (\<lambda>p. snd (sqlite3VdbeSerialType p fmt)) ps = map (\<lambda>p. length (put_full p (ty fmt p))) ps"
      using assms(1) put_full_length by (intro map_cong) auto
    then have "sum_list (map (\<lambda>p. snd (sqlite3VdbeSerialType p fmt)) ps) = length ?vals"
      by (simp only: length_concat map_map comp_def)
    then show ?thesis using s vals by (simp add: record_size_def length_concat comp_def ty_def)
  qed
  show ?thesis
  proof (cases "limit < record_size fmt ps")
    case True
    then show ?thesis using size sl by (simp add: make_record_def)
  next
    case False
    have "nHdr \<le> ?H" by (simp add: header_size_def Let_def)
    then have "nHdr < 2 ^ 31" using False size assms(2) by simp
    note h = header_size_ok [OF this]
    let ?rec = "putVarint32 ?H @ ?types @ ?content"
    have mk: "make_record limit fmt ps = Inr (?rec, nZero)"
      using False size sl s h types by (simp add: make_record_def)
    have aKey: "?rec @ replicate nZero 0 = putVarint32 ?H @ ?types @ [] @ ?vals" using s by simp
    have H: "?H < 2 ^ 32" using h \<open>nHdr < 2 ^ 31\<close> by simp
    obtain out where "unpack_loop enc (?rec @ replicate nZero 0) ?H (length (putVarint32 ?H)) ?H aMem = Some out"
      "map value_of out = map value_of ps"
      using unpack_loop_spec [OF assms(1,3) aKey, of ?H ?H] h s by auto
    then have "sqlite3VdbeRecordUnpack enc (?rec @ replicate nZero 0) aMem = Some out"
      using get_putVarint32 [OF H] by (simp add: sqlite3VdbeRecordUnpack_def)
    moreover have "length ?rec + nZero = record_size fmt ps" using size h s by simp
    ultimately show ?thesis using False mk \<open>map value_of out = map value_of ps\<close> by auto
  qed
qed

text \<open>
  C10: The record format loses nothing. Any row of values (\<^verbatim>\<open>NULL\<close>, integers, reals, texts,
  blobs, blobs with a counted tail of zeros), made into a record by \<^verbatim>\<open>OP_MakeRecord\<close> and
  taken apart by \<^verbatim>\<open>sqlite3VdbeRecordUnpack\<close>, gives the values back: every integer comes back
  from the one to eight bytes, or from the type alone, that were chosen for it; zeros left off the end
  are what the reader finds there; and no read leaves the record. The record has the size it is
  computed to have, in spite of the header counting its own length, and a row is refused exactly when
  that size is above the limit.
\<close>

theorem record_roundtrip:
  assumes "\<forall>p\<in>set ps. valid_cell enc p" "limit < 2 ^ 30" "length ps \<le> length aMem"
  shows "if limit < record_size fmt ps then make_record limit fmt ps = Inl TooBig
    else \<exists>rec nZero out. make_record limit fmt ps = Inr (rec, nZero) \<and> length rec + nZero = record_size fmt ps
      \<and> sqlite3VdbeRecordUnpack enc (rec @ replicate nZero 0) aMem = Some out \<and> map value_of out = map value_of ps"
  by (rule make_record_spec [OF assms])

text \<open>A row of -200, a text, the constant 1 and a blob of two bytes and three zeros.\<close>

theorem record_roundtrip_witness:
  "\<exists>rec nZero out. make_record 100 4
      [\<lparr>mz = [], menc = 1, mflags = MEM_Int, cu = - 200, cnZero = 0\<rparr>,
       \<lparr>mz = [104, 105], menc = 1, mflags = MEM_Str, cu = 0, cnZero = 0\<rparr>,
       \<lparr>mz = [], menc = 1, mflags = MEM_Int, cu = 1, cnZero = 0\<rparr>,
       \<lparr>mz = [7, 8], menc = 1, mflags = MEM_Blob OR MEM_Zero, cu = 0, cnZero = 3\<rparr>] = Inr (rec, nZero)
    \<and> sqlite3VdbeRecordUnpack 1 (rec @ replicate nZero 0)
        (replicate 5 \<lparr>mz = [], menc = 0, mflags = 0, cu = 0, cnZero = 0\<rparr>) = Some out
    \<and> map value_of out = [SInt (- 200), SText 1 [104, 105], SInt 1, SBlob [7, 8, 0, 0, 0]]"
proof -
  let ?ps = "[\<lparr>mz = [], menc = 1, mflags = MEM_Int, cu = - 200, cnZero = 0\<rparr>,
       \<lparr>mz = [104, 105], menc = 1, mflags = MEM_Str, cu = 0, cnZero = 0\<rparr>,
       \<lparr>mz = [], menc = 1, mflags = MEM_Int, cu = 1, cnZero = 0\<rparr>,
       \<lparr>mz = [7, 8], menc = 1, mflags = MEM_Blob OR MEM_Zero, cu = 0, cnZero = 3\<rparr>]"
  have three: "replicate 3 x = [x, x, x]" for x :: u8 by (simp add: numeral_eq_Suc)
  have v: "\<forall>p\<in>set ?ps. valid_cell 1 p" by (simp add: valid_cell_def has_def mem_flags full_def zero_tail_def)
  have r: "map value_of ?ps = [SInt (- 200), SText 1 [104, 105], SInt 1, SBlob [7, 8, 0, 0, 0]]"
    by (simp add: value_of_def has_def mem_flags full_def zero_tail_def three)
  have "(- 200 :: u64) <s 0" "NOT (- 200) = (199 :: u64)" "\<not> (1 :: u64) <s 0"
    by (simp_all add: word_sless_alt)
  then have s: "\<not> 100 < record_size 4 ?ps"
    by (simp add: record_size_def sqlite3VdbeSerialType_def has_def mem_flags putVarint32_def header_size_def Let_def)
  show ?thesis
    using record_roundtrip [OF v, of 100 "replicate 5 \<lparr>mz = [], menc = 0, mflags = 0, cu = 0, cnZero = 0\<rparr>" 4] r s
    by auto
qed

end
