(* ===== verification/Like.thy ===== *)
theory Like
  imports Utf
begin

text \<open>
  The pattern matching of LIKE and GLOB, from \<^verbatim>\<open>sqlite/func.c\<close>. Pattern and text are
  the bytes still ahead of the two pointers; a 0 or the end of the list ends them. The two texts of a
  pattern loop are its \<^verbatim>\<open>zPattern\<close> and \<^verbatim>\<open>zString\<close>; \<^verbatim>\<open>zEscaped\<close> is the
  length of the pattern ahead of it, when there is one.
\<close>

section \<open>Kinds of patterns\<close>

record compareInfo =
  matchAll :: u8
  matchOne :: u8
  matchSet :: u8
  noCase :: bool

definition globInfo :: compareInfo where
  "globInfo = \<lparr>matchAll = 42, matchOne = 63, matchSet = 91, noCase = False\<rparr>"

definition likeInfoNorm :: compareInfo where
  "likeInfoNorm = \<lparr>matchAll = 37, matchOne = 95, matchSet = 0, noCase = True\<rparr>"

definition likeInfoAlt :: compareInfo where
  "likeInfoAlt = \<lparr>matchAll = 37, matchOne = 95, matchSet = 0, noCase = False\<rparr>"

definition SQLITE_MATCH :: int where "SQLITE_MATCH = 0"
definition SQLITE_NOMATCH :: int where "SQLITE_NOMATCH = 1"
definition SQLITE_NOWILDCARDMATCH :: int where "SQLITE_NOWILDCARDMATCH = 2"

section \<open>Loops\<close>

definition Utf8Read :: "bytes \<Rightarrow> u32 \<times> bytes" where
  "Utf8Read A = (if char_at A 0 < 0x80 then (ucast (char_at A 0), tl A) else sqlite3Utf8Read A)"

lemma Utf8Read_is_read: "Utf8Read z = sqlite3Utf8Read z"
proof (cases "char_at z 0 < 0x80")
  case True
  then have "unat (ucast (char_at z 0) :: u32) < 128" by (simp add: word_less_nat_alt unsigned_ucast_eq take_bit_nat_eq_self)
  then have "\<not> 0xc0 \<le> (ucast (char_at z 0) :: u32)" by (simp add: word_le_nat_alt)
  with True show ?thesis by (simp add: Utf8Read_def sqlite3Utf8Read_def READ_UTF8_def Let_def)
qed (simp add: Utf8Read_def)

lemma sqlite3Utf8Read_shrinks: "z \<noteq> [] \<Longrightarrow> length (snd (sqlite3Utf8Read z)) < length z"
  by (simp add: sqlite3Utf8Read_def READ_UTF8_shrinks)

lemma sqlite3Utf8Read_Nil [simp]: "sqlite3Utf8Read [] = (0, [])"
  by (simp add: sqlite3Utf8Read_def READ_UTF8_def)

lemma sqlite3Utf8Read_le: "length (snd (sqlite3Utf8Read z)) \<le> length z"
  using sqlite3Utf8Read_shrinks [of z] by (cases "z = []") auto

lemma sqlite3Utf8Read_moves: "(c, y) = sqlite3Utf8Read z \<Longrightarrow> c \<noteq> 0 \<Longrightarrow> length y < length z"
  using sqlite3Utf8Read_shrinks [of z] by (cases "z = []"; cases "sqlite3Utf8Read z") auto

lemma sqlite3Utf8Read_some: "fst (sqlite3Utf8Read z) \<noteq> 0 \<Longrightarrow> length (snd (sqlite3Utf8Read z)) < length z"
  by (rule sqlite3Utf8Read_shrinks) auto

text \<open>
  The loop after a \<^verbatim>\<open>*\<close> that skips wildcards: the first character that is none, the
  pattern after it, and the text, from which each \<^verbatim>\<open>?\<close> takes a character. \<^theory_text>\<open>None\<close> when
  the text is too short. No wildcard is 0, so that the end of the pattern ends the loop.
\<close>

function skip_wildcards :: "compareInfo \<Rightarrow> bytes \<Rightarrow> bytes \<Rightarrow> (u32 \<times> bytes \<times> bytes) option" where
  "skip_wildcards pInfo zPattern zString =
     (let (c, zPattern') = Utf8Read zPattern in
      if c \<noteq> 0 \<and> (c = ucast (matchAll pInfo) \<or> c = ucast (matchOne pInfo)) then
        (if c = ucast (matchOne pInfo) then
           (let (c2, zString') = sqlite3Utf8Read zString in
            if c2 = 0 then None else skip_wildcards pInfo zPattern' zString')
         else skip_wildcards pInfo zPattern' zString)
      else Some (c, zPattern', zString))"
  by pat_completeness auto

termination
  by (relation "measure (\<lambda>(i, p, s). length p)")
    (auto simp: Utf8Read_is_read split: prod.splits intro: sqlite3Utf8Read_moves sqlite3Utf8Read_moves [OF sym])

declare skip_wildcards.simps [simp del]

lemma skip_wildcards_shrinks:
  "skip_wildcards i p s = Some (c, p', s') \<Longrightarrow> length p' \<le> length p \<and> (c \<noteq> 0 \<longrightarrow> length p' < length p)"
proof (induction "length p" arbitrary: p s rule: less_induct)
  case less
  obtain a b d e where r: "sqlite3Utf8Read p = (a, b)" "sqlite3Utf8Read s = (d, e)" by (metis surj_pair)
  have "skip_wildcards i p s =
     (if a \<noteq> 0 \<and> (a = ucast (matchAll i) \<or> a = ucast (matchOne i)) then
        if a = ucast (matchOne i) then if d = 0 then None else skip_wildcards i b e else skip_wildcards i b s
      else Some (a, b, s))"
    by (subst skip_wildcards.simps) (simp add: r Utf8Read_is_read)
  with less.prems have "(c = a \<and> p' = b) \<or> a \<noteq> 0 \<and> (\<exists>s2. skip_wildcards i b s2 = Some (c, p', s'))"
    by (auto split: if_splits)
  then show ?case
  proof (elim disjE conjE exE)
    assume "c = a" "p' = b"
    then show ?thesis using sqlite3Utf8Read_le [of p] sqlite3Utf8Read_some [of p] by (simp add: r)
  next
    fix s2 assume "a \<noteq> 0" and s2: "skip_wildcards i b s2 = Some (c, p', s')"
    then have "length b < length p" using sqlite3Utf8Read_some [of p] by (simp add: r)
    then show ?thesis using less.hyps [OF _ s2] by linarith
  qed
qed

definition read_measure :: "u32 \<Rightarrow> bytes \<Rightarrow> nat" where
  "read_measure c z = length z + (if c = 0 then 0 else 1)"

lemma read_measure_le:
  "(a, b) = sqlite3Utf8Read z \<Longrightarrow> read_measure a b \<le> length z"
  using sqlite3Utf8Read_le [of z] sqlite3Utf8Read_some [of z]
  by (cases "sqlite3Utf8Read z") (auto simp: read_measure_def)

lemma read_measure_less:
  assumes "(a, b) = sqlite3Utf8Read z" "c \<noteq> 0"
  shows "read_measure a b < read_measure c z" "(d, e) = sqlite3Utf8Read b \<Longrightarrow> read_measure d e < read_measure c z"
  using read_measure_le [OF assms(1)] read_measure_le [of d e b] assms(2) by (auto simp: read_measure_def split: if_splits)

text \<open>
  A set of characters, after its \<^verbatim>\<open>[\<close>: whether \<^theory_text>\<open>c\<close> is seen in it. The loop ends at
  the closing bracket, code 93, or the end of the pattern; 45 is the minus of a range, 94 inverts.
\<close>

function set_loop :: "u32 \<Rightarrow> u32 \<Rightarrow> bool \<Rightarrow> u32 \<Rightarrow> bytes \<Rightarrow> u32 \<times> bool \<times> bytes" where
  "set_loop c prior_c seen c2 zPattern =
     (if c2 \<noteq> 0 \<and> c2 \<noteq> 93 then
        (if c2 = 45 \<and> char_at zPattern 0 \<noteq> 93 \<and> char_at zPattern 0 \<noteq> 0 \<and> 0 < prior_c then
           (let (c2, zPattern) = sqlite3Utf8Read zPattern;
                seen = (seen \<or> prior_c \<le> c \<and> c \<le> c2);
                (c2, zPattern) = sqlite3Utf8Read zPattern
            in set_loop c 0 seen c2 zPattern)
         else
           (let seen = (seen \<or> c = c2);
                (c2', zPattern) = sqlite3Utf8Read zPattern
            in set_loop c c2 seen c2' zPattern))
      else (c2, seen, zPattern))"
  by pat_completeness auto

termination
  by (relation "measure (\<lambda>(c, prior, seen, c2, z). read_measure c2 z)")
    (auto split: prod.splits intro: read_measure_less)

declare set_loop.simps [simp del]

lemma set_loop_shrinks: "length (snd (snd (set_loop c prior seen c2 z))) \<le> length z"
proof (induction c prior seen c2 z rule: set_loop.induct)
  case (1 c prior_c seen c2 z)
  obtain a b d e where r: "sqlite3Utf8Read z = (a, b)" "sqlite3Utf8Read b = (d, e)" by (metis surj_pair)
  show ?case
    using "1.IH" sqlite3Utf8Read_le [of z] sqlite3Utf8Read_le [of b]
    by (subst set_loop.simps)
      (auto simp: r Let_def intro: order_trans [of _ "length b"] order_trans [of _ "length e" "length z"])
qed

definition match_set :: "u32 \<Rightarrow> bytes \<Rightarrow> bytes option" where
  "match_set c zPattern =
     (let (c2, zPattern) = sqlite3Utf8Read zPattern;
          (invert, c2, zPattern) = (if c2 = 94 then (True, sqlite3Utf8Read zPattern) else (False, c2, zPattern));
          (seen, c2, zPattern) = (if c2 = 93 then (c = 93, sqlite3Utf8Read zPattern) else (False, c2, zPattern));
          (c2, seen, zPattern) = set_loop c 0 seen c2 zPattern
      in if c2 = 0 \<or> seen = invert then None else Some zPattern)"

lemma match_set_shrinks: "match_set c z = Some z' \<Longrightarrow> length z' \<le> length z"
  using sqlite3Utf8Read_le [of z] sqlite3Utf8Read_le [of "snd (sqlite3Utf8Read z)"]
    sqlite3Utf8Read_le [of "snd (sqlite3Utf8Read (snd (sqlite3Utf8Read z)))"]
  by (auto simp: match_set_def split_beta Let_def split: if_splits intro: order_trans [OF set_loop_shrinks])

text \<open>
  The searches after a \<^verbatim>\<open>*\<close>, with the recursive call as an argument: at every character when
  a set follows, at the bytes that are one character of ASCII in either case, and at a wider character.
\<close>

lemma SQLITE_SKIP_UTF8_shrinks: "z \<noteq> [] \<Longrightarrow> length (SQLITE_SKIP_UTF8 z) < length z"
  using length_skip_continuation [of "tl z"] by (cases z) (auto simp: SQLITE_SKIP_UTF8_def le_imp_less_Suc)

function set_search :: "(bytes \<Rightarrow> int) \<Rightarrow> bytes \<Rightarrow> int" where
  "set_search compare zString =
     (if char_at zString 0 \<noteq> 0 then
        (let bMatch = compare zString in
         if bMatch \<noteq> SQLITE_NOMATCH then bMatch else set_search compare (SQLITE_SKIP_UTF8 zString))
      else SQLITE_NOWILDCARDMATCH)"
  by pat_completeness auto

termination
  by (relation "measure (\<lambda>(f, z). length z)") (auto intro!: SQLITE_SKIP_UTF8_shrinks)

declare set_search.simps [simp del]

fun byte_search :: "(bytes \<Rightarrow> int) \<Rightarrow> u32 \<Rightarrow> u32 \<Rightarrow> bytes \<Rightarrow> int" where
  "byte_search compare c cx [] = SQLITE_NOWILDCARDMATCH"
| "byte_search compare c cx (c2 # zString) =
     (if c2 = 0 then SQLITE_NOWILDCARDMATCH
      else if ucast c2 \<noteq> c \<and> ucast c2 \<noteq> cx then byte_search compare c cx zString
      else (let bMatch = compare zString in
            if bMatch \<noteq> SQLITE_NOMATCH then bMatch else byte_search compare c cx zString))"

function char_search :: "(bytes \<Rightarrow> int) \<Rightarrow> u32 \<Rightarrow> bytes \<Rightarrow> int" where
  "char_search compare c zString =
     (let (c2, zString) = Utf8Read zString in
      if c2 = 0 then SQLITE_NOWILDCARDMATCH
      else if c2 \<noteq> c then char_search compare c zString
      else (let bMatch = compare zString in
            if bMatch \<noteq> SQLITE_NOMATCH then bMatch else char_search compare c zString))"
  by pat_completeness auto

termination
  by (relation "measure (\<lambda>(f, c, z). length z)")
    (auto simp: Utf8Read_is_read split: prod.splits intro: sqlite3Utf8Read_moves sqlite3Utf8Read_moves [OF sym])

declare char_search.simps [simp del]

section \<open>Comparison with a pattern\<close>

lemma after_wildcards_shrinks:
  assumes "(c, p1) = sqlite3Utf8Read p" "c \<noteq> 0" "skip_wildcards i p1 s = Some (d, p2, s2)"
  shows "length p2 < length p" "d \<noteq> 0 \<Longrightarrow> Suc (length p2) < length p"
  using sqlite3Utf8Read_moves [OF assms(1,2)] skip_wildcards_shrinks [OF assms(3)] by auto

lemma two_reads_shrink:
  "(c, p1) = sqlite3Utf8Read p \<Longrightarrow> c \<noteq> 0 \<Longrightarrow> (d, p2) = sqlite3Utf8Read p1 \<Longrightarrow> length p2 < length p"
  "length p1 < n \<Longrightarrow> (d, p2) = sqlite3Utf8Read p1 \<Longrightarrow> length p2 < n"
  using sqlite3Utf8Read_moves [of c p1 p] sqlite3Utf8Read_le [of p1] by (cases "sqlite3Utf8Read p1"; auto)+

lemma two_reads_shrink2:
  "(c, p1) = sqlite3Utf8Read p \<Longrightarrow> c \<noteq> 0 \<Longrightarrow> length (snd (sqlite3Utf8Read p1)) < length p"
  using sqlite3Utf8Read_moves [of c p1 p] sqlite3Utf8Read_le [of p1] by simp

lemma match_set_moves:
  "(c, p1) = sqlite3Utf8Read p \<Longrightarrow> c \<noteq> 0 \<Longrightarrow> match_set d p1 = Some p2 \<Longrightarrow> length p2 < length p"
  using sqlite3Utf8Read_moves [of c p1 p] match_set_shrinks [of d p1 p2] by auto

function pattern_loop :: "compareInfo \<Rightarrow> u32 \<Rightarrow> bytes \<Rightarrow> bytes \<Rightarrow> nat option \<Rightarrow> int" where
  "pattern_loop pInfo matchOther zPattern zString zEscaped =
     (let (c, zPattern1) = Utf8Read zPattern in
      if c = 0 then (if char_at zString 0 = 0 then SQLITE_MATCH else SQLITE_NOMATCH)
      else if c = ucast (matchAll pInfo) then
        (case skip_wildcards pInfo zPattern1 zString of
           None \<Rightarrow> SQLITE_NOWILDCARDMATCH
         | Some (c, zPattern2, zString) \<Rightarrow>
             if c = 0 then SQLITE_MATCH
             else if c = matchOther \<and> matchSet pInfo \<noteq> 0 then
               set_search (\<lambda>z. pattern_loop pInfo matchOther (ucast c # zPattern2) z None) zString
             else
               (let (c, zPattern3) = (if c = matchOther then sqlite3Utf8Read zPattern2 else (c, zPattern2)) in
                if c = 0 then SQLITE_NOWILDCARDMATCH
                else if c \<le> 0x80 then
                  (let cx = (if noCase pInfo then ucast (sqlite3Toupper (ucast c)) else c);
                       c = (if noCase pInfo then ucast (sqlite3Tolower (ucast c)) else c)
                   in byte_search (\<lambda>z. pattern_loop pInfo matchOther zPattern3 z None) c cx zString)
                else char_search (\<lambda>z. pattern_loop pInfo matchOther zPattern3 z None) c zString))
      else if c = matchOther \<and> matchSet pInfo \<noteq> 0 then
        (let (c, zString) = sqlite3Utf8Read zString in
         if c = 0 then SQLITE_NOMATCH
         else (case match_set c zPattern1 of
             None \<Rightarrow> SQLITE_NOMATCH
           | Some zPattern2 \<Rightarrow> pattern_loop pInfo matchOther zPattern2 zString zEscaped))
      else
        (let (c, zPattern2, zEscaped) =
               (if c = matchOther then (fst (sqlite3Utf8Read zPattern1), snd (sqlite3Utf8Read zPattern1), Some (length (snd (sqlite3Utf8Read zPattern1))))
                else (c, zPattern1, zEscaped))
         in if c = 0 then SQLITE_NOMATCH
            else
              (let (c2, zString) = Utf8Read zString in
               if c = c2 \<or>
                  noCase pInfo \<and> sqlite3Tolower (ucast c) = sqlite3Tolower (ucast c2) \<and> c < 0x80 \<and> c2 < 0x80 \<or>
                  c = ucast (matchOne pInfo) \<and> zEscaped \<noteq> Some (length zPattern2) \<and> c2 \<noteq> 0
               then pattern_loop pInfo matchOther zPattern2 zString zEscaped
               else SQLITE_NOMATCH)))"
  by pat_completeness auto

termination
  by (relation "measure (\<lambda>(i, m, p, s, e). length p)")
    (auto simp: Utf8Read_is_read split: if_splits
      intro: after_wildcards_shrinks two_reads_shrink two_reads_shrink2 match_set_moves sqlite3Utf8Read_moves)

declare pattern_loop.simps [simp del]

definition patternCompare :: "bytes \<Rightarrow> bytes \<Rightarrow> compareInfo \<Rightarrow> u32 \<Rightarrow> int" where
  "patternCompare zPattern zString pInfo matchOther = pattern_loop pInfo matchOther zPattern zString None"

definition sqlite3_strglob :: "bytes \<Rightarrow> bytes \<Rightarrow> int" where
  "sqlite3_strglob zGlobPattern zString = patternCompare zGlobPattern zString globInfo 91"

definition sqlite3_strlike :: "bytes \<Rightarrow> bytes \<Rightarrow> u32 \<Rightarrow> int" where
  "sqlite3_strlike zPattern zStr esc = patternCompare zPattern zStr likeInfoNorm esc"

section \<open>The SQL functions\<close>

datatype like_result = NoResult | LikeError string | LikeInt int

text \<open>
  \<^theory_text>\<open>argv\<close> has the texts of two or three values, \<^theory_text>\<open>None\<close> for NULL; the limit is that of the
  connection on the length of patterns.
\<close>

definition likeFunc :: "compareInfo \<Rightarrow> int \<Rightarrow> bytes option list \<Rightarrow> like_result" where
  "likeFunc pInfo limit argv =
     (let zB = argv ! 0;
          zA = argv ! 1;
          nPat = (case zB of None \<Rightarrow> 0 | Some z \<Rightarrow> int (length z));
          like = (\<lambda>escape. case (zA, zB) of
                     (Some a, Some b) \<Rightarrow> LikeInt (if patternCompare b a pInfo escape = SQLITE_MATCH then 1 else 0)
                   | _ \<Rightarrow> NoResult)
      in if limit < nPat then LikeError ''LIKE or GLOB pattern too complex''
         else if length argv = 3 then
           (case argv ! 2 of
              None \<Rightarrow> NoResult
            | Some zEsc \<Rightarrow>
                if sqlite3Utf8CharLen zEsc (- 1) \<noteq> 1 then LikeError ''ESCAPE expression must be a single character''
                else like (fst (sqlite3Utf8Read zEsc)))
         else like (ucast (matchSet pInfo)))"

end
