(* ===== verification/LikeProps.thy ===== *)
theory LikeProps
  imports Like UtfProps
begin

text \<open>
  LIKE and GLOB against what their patterns mean: \<^theory_text>\<open>matches\<close> says which texts a pattern
  describes, character by character, and the comparison with its early exits decides it.
\<close>

section \<open>What patterns mean\<close>

function chars :: "bytes \<Rightarrow> u32 list" where
  "chars z = (if z = [] then [] else fst (sqlite3Utf8Read z) # chars (snd (sqlite3Utf8Read z)))"
  by pat_completeness auto

termination
  by (relation "measure length") (auto intro: sqlite3Utf8Read_shrinks)

declare chars.simps [simp del]

lemma chars_Nil [simp]: "chars [] = []"
  by (simp add: chars.simps)

lemma chars_eq_Nil [simp]: "chars z = [] \<longleftrightarrow> z = []"
  by (subst chars.simps) simp

datatype set_item = Chr u32 | Range u32 u32

datatype pattern_item = Any | One | Lit u32 | OneOf bool "set_item list" | Never

text \<open>The items of a set, up to its closing bracket, and what follows it.\<close>

function set_items :: "u32 list \<Rightarrow> (set_item list \<times> u32 list) option" where
  "set_items [] = None"
| "set_items (a # cs) =
     (if a = 93 then Some ([], cs)
      else if 2 \<le> length cs \<and> cs ! 0 = 45 \<and> cs ! 1 \<noteq> 93 then
        map_option (apfst ((#) (Range a (cs ! 1)))) (set_items (drop 2 cs))
      else map_option (apfst ((#) (Chr a))) (set_items cs))"
  by pat_completeness auto

termination by (relation "measure length") auto

text \<open>A closing bracket that comes first is an item.\<close>

definition bracket_items :: "u32 list \<Rightarrow> (set_item list \<times> u32 list) option" where
  "bracket_items cs =
     (if cs \<noteq> [] \<and> hd cs = 93 then map_option (apfst ((#) (Chr 93))) (set_items (tl cs)) else set_items cs)"

definition parse_set :: "u32 list \<Rightarrow> (pattern_item \<times> u32 list) option" where
  "parse_set cs =
     (if cs \<noteq> [] \<and> hd cs = 94 then map_option (apfst (OneOf True)) (bracket_items (tl cs))
      else map_option (apfst (OneOf False)) (bracket_items cs))"

lemma parse_set_item: "parse_set cs = Some (p, r) \<Longrightarrow> p \<noteq> Any"
  by (auto simp: parse_set_def split: if_splits)

lemma set_items_rest: "set_items cs = Some (is, r) \<Longrightarrow> length r \<le> length cs \<and> set r \<subseteq> set cs"
proof (induction cs arbitrary: "is" rule: set_items.induct)
  case (2 a cs)
  then show ?case using set_drop_subset [of 2 cs]
    by (fastforce split: if_splits)
qed simp

lemma parse_set_rest:
  assumes "parse_set cs = Some (i, r)"
  shows "length r \<le> length cs" "set r \<subseteq> set cs"
proof -
  have b: "bracket_items ds = Some (is, r) \<Longrightarrow> length r \<le> length ds \<and> set r \<subseteq> set ds" for ds "is"
    using set_items_rest [of ds "is" r] set_items_rest [of "tl ds" _ r]
    by (cases ds) (auto simp: bracket_items_def simp del: set_items.simps split: if_splits)
  have "length r \<le> length cs \<and> set r \<subseteq> set cs"
    using assms by (cases cs) (auto simp: parse_set_def dest!: b simp del: set_items.simps split: if_splits)
  then show "length r \<le> length cs" "set r \<subseteq> set cs" by auto
qed

text \<open>
  The items of a pattern, as the comment of \<^verbatim>\<open>patternCompare\<close> has them: for LIKE the escape and
  the character after it, whatever the two are, stand for that character.
\<close>

function pattern :: "compareInfo \<Rightarrow> u32 \<Rightarrow> u32 list \<Rightarrow> pattern_item list" where
  "pattern i esc [] = []"
| "pattern i esc (c # cs) =
     (if c = esc \<and> matchSet i = 0 then (if cs = [] then [Never] else Lit (hd cs) # pattern i esc (tl cs))
      else if c = ucast (matchAll i) then Any # pattern i esc cs
      else if c = esc then
        (case parse_set cs of None \<Rightarrow> [Never] | Some (s, r) \<Rightarrow> s # pattern i esc r)
      else if c = ucast (matchOne i) then One # pattern i esc cs
      else Lit c # pattern i esc cs)"
  by pat_completeness auto

termination
  by (relation "measure (\<lambda>(i, e, cs). length cs)") (auto dest!: parse_set_rest(1) simp: le_imp_less_Suc)

declare set_items.simps(2) [simp del] pattern.simps(2) [simp del]

definition in_item :: "u32 \<Rightarrow> set_item \<Rightarrow> bool" where
  "in_item c i = (case i of Chr a \<Rightarrow> c = a | Range a b \<Rightarrow> c = a \<or> a \<le> c \<and> c \<le> b)"

definition same_char :: "bool \<Rightarrow> u32 \<Rightarrow> u32 \<Rightarrow> bool" where
  "same_char nc a c \<longleftrightarrow>
     a = c \<or> nc \<and> a < 0x80 \<and> c < 0x80 \<and> lower_of (unat a) = lower_of (unat c)"

definition item_ok :: "bool \<Rightarrow> pattern_item \<Rightarrow> u32 \<Rightarrow> bool" where
  "item_ok nc p c =
     (case p of Any \<Rightarrow> False | One \<Rightarrow> True | Lit a \<Rightarrow> same_char nc a c
      | OneOf invert is \<Rightarrow> list_ex (in_item c) is \<noteq> invert | Never \<Rightarrow> False)"

fun matches :: "bool \<Rightarrow> pattern_item list \<Rightarrow> u32 list \<Rightarrow> bool" where
  "matches nc [] cs = (cs = [])"
| "matches nc (Any # ps) [] = matches nc ps []"
| "matches nc (Any # ps) (c # cs) = (matches nc ps (c # cs) \<or> matches nc (Any # ps) cs)"
| "matches nc (p # ps) [] = False"
| "matches nc (p # ps) (c # cs) = (item_ok nc p c \<and> matches nc ps cs)"

section \<open>Wildcards\<close>

lemma matches_single:
  "p \<noteq> Any \<Longrightarrow> matches nc (p # ps) cs \<longleftrightarrow> (\<exists>c r. cs = c # r \<and> item_ok nc p c \<and> matches nc ps r)"
  by (cases p; cases cs) auto

lemma matches_Any: "matches nc ps cs \<Longrightarrow> matches nc (Any # ps) cs"
  by (cases cs) auto

lemma matches_Any_Any [simp]: "matches nc (Any # Any # ps) cs = matches nc (Any # ps) cs"
  by (induction cs) auto

lemma matches_Any_tl: "matches nc (Any # ps) (tl cs) \<Longrightarrow> matches nc (Any # ps) cs"
  by (cases cs) auto

lemma matches_Any_single:
  "p \<noteq> Any \<Longrightarrow> matches nc (Any # p # ps) cs \<Longrightarrow> cs \<noteq> [] \<and> matches nc (Any # ps) (tl cs)"
proof (induction cs)
  case Nil
  then show ?case by (simp add: matches_single)
next
  case (Cons c cs)
  then show ?case by (auto simp: matches_single intro: matches_Any matches_Any_tl)
qed

lemma matches_Any_One:
  "matches nc (Any # One # ps) cs \<longleftrightarrow> cs \<noteq> [] \<and> matches nc (Any # ps) (tl cs)"
proof (induction cs)
  case (Cons c cs)
  then show ?case by (cases cs) (auto simp: item_ok_def)
qed simp

lemma matches_Any_skip:
  "p \<noteq> Any \<Longrightarrow> \<not> item_ok nc p c \<Longrightarrow> matches nc (Any # p # ps) (c # cs) = matches nc (Any # p # ps) cs"
  by (auto simp: matches_single)

text \<open>
  What a comparison may return: it matches, or it does not; and when it says that no wildcard helps,
  no end of the text matches.
\<close>

definition verdict :: "bool \<Rightarrow> pattern_item list \<Rightarrow> u32 list \<Rightarrow> int \<Rightarrow> bool" where
  "verdict nc ps cs r \<longleftrightarrow>
     (r = SQLITE_MATCH \<and> matches nc ps cs \<or> r = SQLITE_NOMATCH \<and> \<not> matches nc ps cs
      \<or> r = SQLITE_NOWILDCARDMATCH \<and> \<not> matches nc (Any # ps) cs)"

lemmas result_codes = SQLITE_MATCH_def SQLITE_NOMATCH_def SQLITE_NOWILDCARDMATCH_def

lemma verdict_match: "verdict nc ps cs r \<Longrightarrow> r = SQLITE_MATCH \<longleftrightarrow> matches nc ps cs"
  by (auto simp: verdict_def result_codes dest: matches_Any)

lemma verdict_single:
  assumes "p \<noteq> Any" "item_ok nc p c" "verdict nc ps cs r"
  shows "verdict nc (p # ps) (c # cs) r"
  using assms matches_Any_single [of p nc ps "c # cs"]
  by (auto simp: verdict_def matches_single)

section \<open>Characters of a text\<close>

text \<open>A text without 0 bytes, and the pattern texts that the searches read alike by bytes and characters.\<close>

definition text_ok :: "bytes \<Rightarrow> bool" where "text_ok z \<longleftrightarrow> 0 \<notin> set z"

lemma text_ok_simps [simp]: "text_ok []" "text_ok (b # z) \<longleftrightarrow> b \<noteq> 0 \<and> text_ok z"
  by (auto simp: text_ok_def)

lemma skip_continuation_eq: "skip_continuation z = snd (read_continuation c z)"
  by (induction c z rule: read_continuation.induct) (auto simp: read_continuation.simps)

lemma text_ok_skip: "text_ok z \<Longrightarrow> text_ok (skip_continuation z)"
  by (induction z) auto

lemma lead_bytes: "0xc0 \<le> (ucast (b :: u8) :: u32) \<longleftrightarrow> 0xc0 \<le> b"
  by (simp add: word_le_nat_alt unat_ucast32)

lemma read_narrow: "\<not> 0xc0 \<le> b \<Longrightarrow> sqlite3Utf8Read (b # z) = (ucast b, z)"
  by (simp add: sqlite3Utf8Read_def READ_UTF8_def lead_bytes)

lemma read_rest: "snd (sqlite3Utf8Read (b # z)) = (if 0xc0 \<le> b then skip_continuation z else z)"
  by (simp add: sqlite3Utf8Read_def READ_UTF8_def lead_bytes Let_def split_beta
      skip_continuation_eq [of z "sqlite3Utf8Trans1 ! unat (ucast b - 0xc0 :: u32)"])

lemma read_wide: "0xc0 \<le> b \<Longrightarrow> 0x80 \<le> fst (sqlite3Utf8Read (b # z))"
  by (auto simp: sqlite3Utf8Read_def READ_UTF8_def lead_bytes Let_def split_beta not_less)

lemma snd_read: "snd (sqlite3Utf8Read z) = SQLITE_SKIP_UTF8 z"
  by (cases z) (simp_all add: read_rest SQLITE_SKIP_UTF8_def)

lemma text_ok_read: "text_ok z \<Longrightarrow> text_ok (snd (sqlite3Utf8Read z))"
  by (cases z) (auto simp: snd_read SQLITE_SKIP_UTF8_def text_ok_skip)

lemma ucast_byte_eq: "(ucast (b :: u8) :: u32) = n \<longleftrightarrow> unat b = unat n"
  by (auto simp: word_unat_eq_iff unat_ucast32)

lemma read_ascii:
  assumes "n < 0x80"
  shows "fst (sqlite3Utf8Read (b # z)) = n \<longleftrightarrow> ucast b = n"
proof (cases "0xc0 \<le> b")
  case True
  then have "fst (sqlite3Utf8Read (b # z)) \<noteq> n" using read_wide [of b z] assms by auto
  moreover have "ucast b \<noteq> n"
  proof -
    have "192 \<le> unat b" "unat n < 128" using True assms by (simp_all add: word_le_nat_alt word_less_nat_alt)
    then show ?thesis by (simp add: ucast_byte_eq)
  qed
  ultimately show ?thesis by simp
next
  case False
  then show ?thesis by (simp add: read_narrow)
qed

lemma read_nonzero: "text_ok z \<Longrightarrow> fst (sqlite3Utf8Read z) = 0 \<longleftrightarrow> z = []"
  using read_ascii [of 0] by (cases z) (simp_all add: ucast_byte_eq word_unat_eq_iff [of _ 0] unat_ucast32)

lemma chars_read:
  "sqlite3Utf8Read z = (c, y) \<Longrightarrow> z \<noteq> [] \<Longrightarrow> chars z = c # chars y"
  by (subst chars.simps) simp

lemma read_at_end: "text_ok z \<Longrightarrow> char_at z 0 = 0 \<longleftrightarrow> z = []"
  by (cases z) auto

lemma char_at_hd:
  "z \<noteq> [] \<Longrightarrow> unat n < 128 \<Longrightarrow> char_at z 0 = n \<longleftrightarrow> hd (chars z) = ucast n"
proof (cases z)
  case (Cons b y)
  assume "unat n < 128"
  then have "(ucast n :: u32) < 0x80" by (simp add: word_less_nat_alt unat_ucast32)
  from read_ascii [OF this, of b y] show ?thesis
    by (subst chars.simps) (auto simp: Cons ucast_byte_eq unat_ucast32 word_unat_eq_iff)
qed simp

section \<open>Sets of characters\<close>

text \<open>What the loop has ahead of it: the character it looks at and the pattern.\<close>

definition ahead :: "u32 \<Rightarrow> bytes \<Rightarrow> u32 list" where
  "ahead c z = (if c = 0 then [] else c # chars z)"

lemma ahead_read: "text_ok z \<Longrightarrow> sqlite3Utf8Read z = (c, y) \<Longrightarrow> ahead c y = chars z \<and> text_ok y"
  using text_ok_read [of z] read_nonzero [of z] chars_read [of z c y]
  by (cases "z = []") (auto simp: ahead_def)

definition set_result :: "u32 \<Rightarrow> bool \<Rightarrow> (set_item list \<times> u32 list) option \<Rightarrow> u32 \<times> bool \<times> bytes \<Rightarrow> bool" where
  "set_result x seen q r =
     (case q of
        None \<Rightarrow> fst r = 0
      | Some (is, cs) \<Rightarrow> fst r = 93 \<and> fst (snd r) = (seen \<or> list_ex (in_item x) is) \<and>
          chars (snd (snd r)) = cs \<and> text_ok (snd (snd r)))"

lemma set_result_Cons:
  "set_result x (seen \<or> b) q r \<Longrightarrow> (seen \<or> b) = (seen \<or> in_item x i) \<Longrightarrow>
   set_result x seen (map_option (apfst ((#) i)) q) r"
  by (auto simp: set_result_def split: option.splits)

lemma set_items_range: "a \<noteq> 93 \<Longrightarrow> b \<noteq> 93 \<Longrightarrow>
    set_items (a # 45 # b # cs) = map_option (apfst ((#) (Range a b))) (set_items cs)"
  by (simp add: set_items.simps(2))

lemma set_items_plain: "a \<noteq> 93 \<Longrightarrow> \<not> (2 \<le> length cs \<and> cs ! 0 = 45 \<and> cs ! 1 \<noteq> 93) \<Longrightarrow>
    set_items (a # cs) = map_option (apfst ((#) (Chr a))) (set_items cs)"
  by (auto simp: set_items.simps(2))

lemma set_items_first: "set_items (a # cs) = Some (is, r) \<Longrightarrow> a \<noteq> 93 \<Longrightarrow> list_ex (in_item a) is"
  by (auto simp: in_item_def simp: set_items.simps(2) split: if_splits)

lemma set_result_first:
  "set_result x (seen \<or> x = a) (set_items (a # cs)) r \<Longrightarrow> a \<noteq> 93 \<Longrightarrow> set_result x seen (set_items (a # cs)) r"
  by (cases "set_items (a # cs)") (auto simp: set_result_def dest: set_items_first)

lemma set_loop_items:
  assumes "text_ok z" "prior \<noteq> 93" "prior \<noteq> 0 \<and> x = prior \<longrightarrow> seen"
  shows "set_result x seen (set_items ((if prior = 0 then [] else [prior]) @ ahead c2 z)) (set_loop x prior seen c2 z)"
  using assms
proof (induction "read_measure c2 z" arbitrary: prior seen c2 z rule: less_induct)
  case less
  obtain b y d w where r: "sqlite3Utf8Read z = (b, y)" "sqlite3Utf8Read y = (d, w)" by (metis surj_pair)
  have y: "ahead b y = chars z" "text_ok y" using ahead_read [OF less.prems(1) r(1)] by auto
  have w: "ahead d w = chars y" "text_ok w" using ahead_read [OF y(2) r(2)] by auto
  show ?case
  proof (cases "c2 = 0 \<or> c2 = 93")
    case True
    then show ?thesis using less.prems
      by (subst set_loop.simps) (auto simp: set_result_def ahead_def in_item_def set_items.simps(2))
  next
    case False
    then have m: "read_measure b y < read_measure c2 z" "read_measure d w < read_measure c2 z"
      using read_measure_less [OF r(1) [symmetric], of c2] r(2) by simp_all
    have c2: "ahead c2 z = c2 # chars z" using False by (simp add: ahead_def)
    show ?thesis
    proof (cases "c2 = 45 \<and> char_at z 0 \<noteq> 93 \<and> char_at z 0 \<noteq> 0 \<and> 0 < prior")
      case True
      then have z: "z \<noteq> []" by auto
      then have cz: "chars z = b # chars y" using r(1) by (simp add: chars_read)
      have c2': "ahead 45 z = 45 # chars z" by (simp add: ahead_def)
      have "b \<noteq> 93" using True char_at_hd [OF z, of 93] cz by simp
      moreover have "set_result x (seen \<or> prior \<le> x \<and> x \<le> b) (set_items (chars y))
          (set_loop x 0 (seen \<or> prior \<le> x \<and> x \<le> b) d w)"
        using less.hyps [OF m(2) w(2), of 0] w(1) by simp
      then have "set_result x seen (map_option (apfst ((#) (Range prior b))) (set_items (chars y)))
          (set_loop x 0 (seen \<or> prior \<le> x \<and> x \<le> b) d w)"
        by (rule set_result_Cons) (use True less.prems(3) in \<open>auto simp: in_item_def\<close>)
      ultimately show ?thesis using True less.prems(2) set_items_range [of prior b "chars y"]
        by (subst set_loop.simps) (simp add: r c2' cz word_gt_0)
    next
      case plain: False
      have c: "set_result x (seen \<or> x = c2) (set_items (c2 # chars z)) (set_loop x c2 (seen \<or> x = c2) b y)"
        using less.hyps [OF m(1) y(2), of c2 "seen \<or> x = c2"] y(1) False by simp
      from set_result_first [OF this] False
      have c: "set_result x seen (set_items (c2 # chars z)) (set_loop x c2 (seen \<or> x = c2) b y)" by blast
      have loop: "set_loop x prior seen c2 z = set_loop x c2 (seen \<or> x = c2) b y"
        using False plain by (subst set_loop.simps) (auto simp: r)
      show ?thesis
      proof (cases "prior = 0")
        case True
        then show ?thesis using c unfolding loop c2 by (simp)
      next
        case prior: False
        then have "\<not> (c2 = 45 \<and> z \<noteq> [] \<and> hd (chars z) \<noteq> 93)"
          using plain char_at_hd [of z 93] read_at_end [OF less.prems(1)] by (auto simp: word_gt_0)
        then have "\<not> (2 \<le> length (c2 # chars z) \<and> (c2 # chars z) ! 0 = 45 \<and> (c2 # chars z) ! 1 \<noteq> 93)"
          by (cases "chars z") auto
        from set_items_plain [OF less.prems(2) this]
        have "set_items (prior # c2 # chars z) = map_option (apfst ((#) (Chr prior))) (set_items (c2 # chars z))" .
        moreover have "set_result x seen (map_option (apfst ((#) (Chr prior))) (set_items (c2 # chars z)))
            (set_loop x c2 (seen \<or> x = c2) b y)"
          by (rule set_result_Cons [of x seen False])
            (use c prior less.prems(3) in \<open>auto simp: in_item_def\<close>)
        ultimately show ?thesis using prior by (simp add: loop c2)
      qed
    qed
  qed
qed

text \<open>The set of the pattern decides, and the pattern goes on after its bracket.\<close>

lemma match_set_correct:
  assumes "text_ok z"
  shows "case parse_set (chars z) of
      None \<Rightarrow> match_set x z = None
    | Some (p, r) \<Rightarrow> p \<noteq> Any \<and>
        (if item_ok nc p x then \<exists>z'. match_set x z = Some z' \<and> chars z' = r \<and> text_ok z' else match_set x z = None)"
proof -
  define invert where "invert \<longleftrightarrow> chars z \<noteq> [] \<and> hd (chars z) = 94"
  define y where "y = (if invert then snd (sqlite3Utf8Read z) else z)"
  define closes where "closes \<longleftrightarrow> chars y \<noteq> [] \<and> hd (chars y) = 93"
  define v where "v = (if closes then snd (sqlite3Utf8Read y) else y)"
  have hd: "fst (sqlite3Utf8Read u) = n \<longleftrightarrow> u \<noteq> [] \<and> hd (chars u) = n" if "n \<noteq> 0" for u n
    by (subst chars.simps) (use that in auto)
  have tl: "chars (snd (sqlite3Utf8Read u)) = tl (chars u)" for u
    by (cases "u = []") (simp_all add: chars.simps [of u])
  have ok: "text_ok y" "text_ok v" using assms by (auto simp: y_def v_def text_ok_read)
  define r where "r = set_loop x 0 (closes \<and> x = 93) (fst (sqlite3Utf8Read v)) (snd (sqlite3Utf8Read v))"
  have "match_set x z = (if fst r = 0 \<or> fst (snd r) = invert then None else Some (snd (snd r)))"
    by (auto simp: match_set_def split_beta Let_def r_def v_def y_def closes_def invert_def hd)
  moreover have "parse_set (chars z) = map_option (apfst (OneOf invert))
      (if closes then map_option (apfst ((#) (Chr 93))) (set_items (chars v)) else set_items (chars v))"
    by (auto simp: parse_set_def bracket_items_def invert_def closes_def v_def y_def tl simp del: chars_eq_Nil)
  moreover have "set_result x (closes \<and> x = 93) (set_items (chars v)) r"
    using set_loop_items [OF text_ok_read [OF ok(2)], of 0 x "closes \<and> x = 93" "fst (sqlite3Utf8Read v)"]
      ahead_read [OF ok(2), of "fst (sqlite3Utf8Read v)" "snd (sqlite3Utf8Read v)"]
    by (simp add: r_def)
  ultimately show ?thesis
    by (cases "set_items (chars v)")
      (auto simp: set_result_def item_ok_def in_item_def)
qed

section \<open>Searches\<close>

lemma chars_skip:
  "text_ok z \<Longrightarrow> z \<noteq> [] \<Longrightarrow> chars z = fst (sqlite3Utf8Read z) # chars (SQLITE_SKIP_UTF8 z) \<and> text_ok (SQLITE_SKIP_UTF8 z)"
  by (subst chars.simps) (auto simp: text_ok_read simp flip: snd_read)

lemma verdict_Any_step:
  assumes "verdict nc ps (c # cs) r" "verdict nc (Any # ps) cs q"
  shows "verdict nc (Any # ps) (c # cs) (if r \<noteq> SQLITE_NOMATCH then r else q)"
  using assms by (auto simp: verdict_def result_codes dest: matches_Any)

lemma verdict_Any_Nil:
  "p \<noteq> Any \<Longrightarrow> verdict nc (Any # p # ps) [] SQLITE_NOWILDCARDMATCH"
  by (simp add: verdict_def matches_single)

lemma verdict_Any_skip:
  "p \<noteq> Any \<Longrightarrow> \<not> item_ok nc p c \<Longrightarrow> verdict nc (Any # p # ps) (c # cs) r = verdict nc (Any # p # ps) cs r"
  using matches_Any_skip [of p nc c ps cs] by (simp add: verdict_def)

lemma set_search_verdict:
  assumes "\<And>z. text_ok z \<Longrightarrow> verdict nc (p # ps) (chars z) (f z)" "p \<noteq> Any" "text_ok s"
  shows "verdict nc (Any # p # ps) (chars s) (set_search f s)"
  using assms(3)
proof (induction "length s" arbitrary: s rule: less_induct)
  case less
  show ?case
  proof (cases "s = []")
    case True
    then show ?thesis using assms(2) by (simp add: set_search.simps verdict_Any_Nil)
  next
    case False
    have "verdict nc (Any # p # ps) (chars (SQLITE_SKIP_UTF8 s)) (set_search f (SQLITE_SKIP_UTF8 s))"
      using less.hyps SQLITE_SKIP_UTF8_shrinks [OF False] chars_skip [OF less.prems False] by blast
    from verdict_Any_step [OF _ this, of "fst (sqlite3Utf8Read s)" "f s"] show ?thesis
      using assms(1) [OF less.prems] chars_skip [OF less.prems False] read_at_end [OF less.prems] False
      by (subst set_search.simps) (simp add: Let_def)
  qed
qed

lemma char_search_verdict:
  assumes "\<And>z. text_ok z \<Longrightarrow> verdict nc ps (chars z) (f z)" "0x80 \<le> c" "text_ok s"
  shows "verdict nc (Any # Lit c # ps) (chars s) (char_search f c s)"
  using assms(3)
proof (induction "length s" arbitrary: s rule: less_induct)
  case less
  obtain d y where r: "sqlite3Utf8Read s = (d, y)" by (metis surj_pair)
  show ?case
  proof (cases "s = []")
    case True
    then show ?thesis by (simp add: char_search.simps Utf8Read_is_read verdict_Any_Nil)
  next
    case False
    have y: "text_ok y" "length y < length s" "chars s = d # chars y" "d \<noteq> 0"
      using text_ok_read [OF less.prems] sqlite3Utf8Read_shrinks [OF False] chars_read [OF r False]
        read_nonzero [OF less.prems] False by (simp_all add: r)
    have rec: "verdict nc (Any # Lit c # ps) (chars y) (char_search f c y)" using less.hyps y by blast
    have same: "item_ok nc (Lit c) d \<longleftrightarrow> d = c" using assms(2) by (auto simp: item_ok_def same_char_def not_less)
    show ?thesis
    proof (cases "d = c")
      case True
      then have "verdict nc (Lit c # ps) (d # chars y) (f y)"
        using verdict_single [of "Lit c" nc d ps] assms(1) [OF y(1)] same by simp
      from verdict_Any_step [OF this rec] show ?thesis
        using True y by (subst char_search.simps) (simp add: Utf8Read_is_read r Let_def)
    next
      case False
      then show ?thesis using rec y same verdict_Any_skip [of "Lit c" nc d ps]
        by (subst char_search.simps) (simp add: Utf8Read_is_read r)
    qed
  qed
qed

text \<open>
  An ASCII character is looked for byte by byte: the bytes inside of wider characters are no ASCII.
  \<^theory_text>\<open>cs\<close> is one case of the literal, the other case the other.
\<close>

lemma chars_continuation:
  "text_ok z \<Longrightarrow> (\<And>d. 0x80 \<le> d \<Longrightarrow> \<not> item_ok nc p d) \<Longrightarrow> p \<noteq> Any \<Longrightarrow>
   verdict nc (Any # p # ps) (chars (skip_continuation z)) r = verdict nc (Any # p # ps) (chars z) r"
proof (induction z)
  case (Cons b z)
  show ?case
  proof (cases "b AND 0xc0 = 0x80")
    case True
    then have "unat b div 64 = 2" using continuation_nat [of b] by (simp add: continuation_def)
    then have "128 \<le> unat b" "unat b < 192" by linarith+
    then have "\<not> 0xc0 \<le> b" "0x80 \<le> (ucast b :: u32)" by (simp_all add: word_le_nat_alt unat_ucast32)
    then show ?thesis
      using Cons True verdict_Any_skip [of p nc "ucast b"] by (simp add: chars_read [OF read_narrow])
  qed simp
qed simp

lemma byte_search_verdict:
  assumes f: "\<And>z. text_ok z \<Longrightarrow> verdict nc ps (chars z) (f z)" and "a < 0x80"
    and cases: "\<And>d :: u32. d = c \<or> d = cx \<longleftrightarrow> same_char nc a d" and "text_ok s"
  shows "verdict nc (Any # Lit a # ps) (chars s) (byte_search f c cx s)"
  using assms(4)
proof (induction s)
  case Nil
  then show ?case by (simp add: verdict_Any_Nil)
next
  case (Cons b s)
  then have rec: "verdict nc (Any # Lit a # ps) (chars s) (byte_search f c cx s)" by simp
  have wide: "\<not> item_ok nc (Lit a) d" if "0x80 \<le> d" for d
    using that assms(2) by (auto simp: item_ok_def same_char_def)
  have same: "ucast b \<noteq> c \<and> ucast b \<noteq> cx \<longleftrightarrow> \<not> item_ok nc (Lit a) (ucast b)"
    using cases [of "ucast b"] by (auto simp: item_ok_def)
  show ?case
  proof (cases "0xc0 \<le> b")
    case True
    have "chars (b # s) = fst (sqlite3Utf8Read (b # s)) # chars (skip_continuation s)"
      using True by (subst chars.simps) (simp add: read_rest)
    moreover have "\<not> item_ok nc (Lit a) (ucast b)"
    proof (rule wide)
      show "0x80 \<le> (ucast b :: u32)" using True by (simp add: word_le_nat_alt unat_ucast32)
    qed
    ultimately show ?thesis
      using rec same Cons.prems True chars_continuation [of s nc "Lit a" ps] wide
        verdict_Any_skip [of "Lit a" nc "fst (sqlite3Utf8Read (b # s))"] read_wide [OF True, of s]
      by simp
  next
    case False
    then have b: "chars (b # s) = ucast b # chars s" by (simp add: chars_read [OF read_narrow])
    show ?thesis
    proof (cases "item_ok nc (Lit a) (ucast b)")
      case True
      then have "verdict nc (Lit a # ps) (ucast b # chars s) (f s)"
        using verdict_single [of "Lit a" nc "ucast b" ps] f [of s] Cons.prems by simp
      from verdict_Any_step [OF this rec] show ?thesis using True same Cons.prems by (auto simp: b Let_def)
    next
      case False
      then show ?thesis using rec same Cons.prems verdict_Any_skip [of "Lit a" nc "ucast b"] by (simp add: b)
    qed
  qed
qed

lemma Toupper_spec:
  "unat (sqlite3Toupper c) = (if 97 \<le> unat c \<and> unat c \<le> 122 then unat c - 32 else unat c)"
proof -
  have cls: "ctype c AND 0x20 = (if 97 \<le> unat c \<and> unat c \<le> 122 then 0x20 else 0)"
    by (simp add: ctype_class class_of_def)
  show ?thesis
  proof (cases "97 \<le> unat c \<and> unat c \<le> 122")
    case True
    have "(0x20 :: nat) = push_bit 5 (mask 1)" by (simp add: mask_eq_exp_minus_1 push_bit_eq_mult)
    then have "k AND 0x20 = 32 * (k div 32 mod 2)" for k :: nat using nat_and_field [of k 5 1] by simp
    moreover have "unat c div 32 = 3" using True by linarith
    ultimately have "unat (c AND 0x20) = 32" by (simp add: unsigned_and_eq)
    then have "c AND 0x20 = 0x20" by (simp add: word_unat_eq_iff)
    then have "c AND NOT 0x20 = c - 0x20" by (metis and.commute bit_and_iff disjunctive_diff)
    moreover have "unat (c - 0x20) = unat c - 32" using True by (simp add: unat_sub_if_size word_size)
    ultimately show ?thesis using True by (simp add: sqlite3Toupper_def cls)
  next
    case False
    then show ?thesis by (auto simp: sqlite3Toupper_def cls)
  qed
qed

lemma other_case:
  fixes a d :: u32
  assumes "a < 0x80"
  shows "d = ucast (sqlite3Tolower (ucast a)) \<or> d = ucast (sqlite3Toupper (ucast a)) \<longleftrightarrow> same_char True a d"
proof -
  have n: "unat a < 128" using assms by (simp add: word_less_nat_alt)
  then have a: "unat (ucast a :: u8) = unat a" by (simp add: unsigned_ucast_eq take_bit_nat_eq_self)
  have l: "unat (sqlite3Tolower (ucast a)) = lower_of (unat a)"
    using n by (simp add: Tolower_spec a unat_of_nat lower_of_def)
  have "d = ucast (sqlite3Tolower (ucast a)) \<longleftrightarrow> unat d = lower_of (unat a)"
    using l by (simp add: word_unat_eq_iff unat_ucast32)
  moreover have "d = ucast (sqlite3Toupper (ucast a)) \<longleftrightarrow>
      unat d = (if 97 \<le> unat a \<and> unat a \<le> 122 then unat a - 32 else unat a)"
    by (simp add: word_unat_eq_iff unat_ucast32 Toupper_spec a)
  moreover have "same_char True a d \<longleftrightarrow> unat a = unat d \<or> unat d < 128 \<and> lower_of (unat a) = lower_of (unat d)"
    using n by (simp add: same_char_def word_unat_eq_iff word_less_nat_alt)
  ultimately show ?thesis using n by (auto simp: lower_of_def split: if_splits)
qed

lemma same_char_False: "d = a \<or> d = a \<longleftrightarrow> same_char False a d"
  by (auto simp: same_char_def)

section \<open>The comparison\<close>

text \<open>
  The patterns for which the searches are right: no character U+0080, which is looked for as a byte. The kinds
  of patterns: the escape is no wildcard, and a bracket is a single byte.
\<close>

definition pattern_ok :: "bytes \<Rightarrow> bool" where
  "pattern_ok z \<longleftrightarrow> text_ok z \<and> 0x80 \<notin> set (chars z)"

definition kind_ok :: "compareInfo \<Rightarrow> u32 \<Rightarrow> bool" where
  "kind_ok i esc \<longleftrightarrow> matchAll i \<noteq> matchOne i \<and> esc \<noteq> ucast (matchOne i) \<and> esc \<noteq> ucast (matchAll i)
     \<and> (matchSet i \<noteq> 0 \<longrightarrow> esc < 0x80)"

lemma pattern_ok_read:
  "pattern_ok p \<Longrightarrow> sqlite3Utf8Read p = (c, q) \<Longrightarrow>
     pattern_ok q \<and> c \<noteq> 0x80 \<and> (c = 0 \<longleftrightarrow> p = []) \<and> (c \<noteq> 0 \<longrightarrow> chars p = c # chars q \<and> length q < length p)"
  using text_ok_read [of p] read_nonzero [of p] chars_read [of p c q] sqlite3Utf8Read_shrinks [of p]
  by (cases "p = []") (auto simp: pattern_ok_def)

lemma ucast_u8_eq [simp]: "(ucast (a :: u8) :: u32) = ucast b \<longleftrightarrow> a = b"
  by (simp add: ucast_byte_eq unat_ucast32 word_unat_eq_iff)

lemma matches_trivial [simp]: "matches nc [Any] cs" "\<not> matches nc [Any, Never] cs"
  by (induction cs) (auto simp: item_ok_def)

lemma verdict_Any_eq:
  "matches nc (Any # ps) cs = matches nc (Any # qs) ds \<Longrightarrow> verdict nc (Any # ps) cs r = verdict nc (Any # qs) ds r"
  by (simp add: verdict_def)

lemma skip_wildcards_matches:
  assumes "kind_ok i esc" "pattern_ok p" "text_ok s"
  shows "case skip_wildcards i p s of
      None \<Rightarrow> \<not> matches nc (Any # pattern i esc (chars p)) (chars s)
    | Some (c, p', s') \<Rightarrow> pattern_ok p' \<and> text_ok s' \<and> c \<noteq> 0x80 \<and>
        (if c = 0 then matches nc (Any # pattern i esc (chars p)) (chars s)
         else c \<noteq> ucast (matchAll i) \<and> c \<noteq> ucast (matchOne i) \<and>
           matches nc (Any # pattern i esc (chars p)) (chars s) =
           matches nc (Any # pattern i esc (c # chars p')) (chars s'))"
    (is "?P p s")
  using assms(2,3)
proof (induction "length p" arbitrary: p s rule: less_induct)
  case less
  obtain a b d e where r: "sqlite3Utf8Read p = (a, b)" "sqlite3Utf8Read s = (d, e)" by (metis surj_pair)
  have k: "matchAll i \<noteq> matchOne i" "esc \<noteq> ucast (matchOne i)" "esc \<noteq> ucast (matchAll i)"
    using assms(1) by (simp_all add: kind_ok_def)
  have p: "pattern_ok b" "a \<noteq> 0x80" "a = 0 \<longleftrightarrow> p = []" "a \<noteq> 0 \<longrightarrow> chars p = a # chars b \<and> length b < length p"
    using pattern_ok_read [OF less.prems(1) r(1)] by auto
  have s: "text_ok e" "d = 0 \<longleftrightarrow> s = []" "d \<noteq> 0 \<longrightarrow> chars s = d # chars e"
    using text_ok_read [OF less.prems(2)] read_nonzero [OF less.prems(2)] chars_read [OF r(2)] by (auto simp: r)
  have eq: "skip_wildcards i p s =
     (if a \<noteq> 0 \<and> (a = ucast (matchAll i) \<or> a = ucast (matchOne i)) then
        if a = ucast (matchOne i) then if d = 0 then None else skip_wildcards i b e else skip_wildcards i b s
      else Some (a, b, s))"
    by (subst skip_wildcards.simps) (simp add: r Utf8Read_is_read)
  consider "a = 0" | "a \<noteq> 0" "a = ucast (matchAll i)" | "a \<noteq> 0" "a = ucast (matchOne i)"
    | "a \<noteq> 0" "a \<noteq> ucast (matchAll i)" "a \<noteq> ucast (matchOne i)" by blast
  then show ?case
  proof cases
    case 1
    then have "skip_wildcards i p s = Some (0, b, s)" "chars p = []" using eq p(3) by simp_all
    then show ?thesis using less.prems p(1) by simp
  next
    case 2
    then have "skip_wildcards i p s = skip_wildcards i b s" "pattern i esc (chars p) = Any # pattern i esc (chars b)"
      using k p(4) by (simp_all add: eq pattern.simps(2))
    then show ?thesis using less.hyps [of b s] less.prems(2) p 2 by (auto split: option.splits)
  next
    case 3
    then have pat: "pattern i esc (chars p) = One # pattern i esc (chars b)" using k p(4) by (simp add: pattern.simps(2))
    show ?thesis
    proof (cases "d = 0")
      case True
      then have "skip_wildcards i p s = None" "chars s = []" using 3 eq s(2) by simp_all
      then show ?thesis by (simp add: pat matches_Any_One)
    next
      case False
      then have sk: "skip_wildcards i p s = skip_wildcards i b e" using 3 by (simp add: eq)
      have m: "matches nc (Any # pattern i esc (chars p)) (chars s) = matches nc (Any # pattern i esc (chars b)) (chars e)"
        unfolding pat matches_Any_One using False s by simp
      show ?thesis unfolding sk m by (rule less.hyps) (use p 3 s in auto)
    qed
  next
    case 4
    then show ?thesis using less.prems p by (simp add: eq)
  qed
qed

text \<open>A character of the pattern against one of the text.\<close>

lemma lower_case_eq:
  fixes a d :: u32
  assumes "a < 0x80" "d < 0x80"
  shows "sqlite3Tolower (ucast a) = sqlite3Tolower (ucast d) \<longleftrightarrow> lower_of (unat a) = lower_of (unat d)"
proof -
  have n: "unat a < 128" "unat d < 128" using assms by (simp_all add: word_less_nat_alt)
  then have "unat (ucast a :: u8) = unat a" "unat (ucast d :: u8) = unat d"
    by (simp_all add: unsigned_ucast_eq take_bit_nat_eq_self)
  then show ?thesis using n by (simp add: Tolower_spec word_unat_eq_iff unat_of_nat lower_of_def)
qed

lemma same_char_code:
  "c = d \<or> nc \<and> sqlite3Tolower (ucast c) = sqlite3Tolower (ucast d) \<and> c < 0x80 \<and> d < 0x80 \<longleftrightarrow> same_char nc c d"
  using lower_case_eq [of c d] by (auto simp: same_char_def)

lemma same_char_or:
  "c = d \<or> nc \<and> sqlite3Tolower (ucast c) = sqlite3Tolower (ucast d) \<and> c < 0x80 \<and> d < 0x80 \<or> Q \<longleftrightarrow>
   same_char nc c d \<or> Q"
  using same_char_code [of c d nc] by blast

lemma same_char_0: "c \<noteq> 0 \<Longrightarrow> \<not> same_char nc c 0"
  by (auto simp: same_char_def lower_of_def word_unat_eq_iff split: if_splits)

text \<open>After the wildcards: a set, or a literal, which may be escaped.\<close>

definition literal :: "u32 \<Rightarrow> u32 \<Rightarrow> bytes \<Rightarrow> u32 \<times> bytes" where
  "literal esc c z = (if c = esc then sqlite3Utf8Read z else (c, z))"

lemma pattern_literal:
  assumes "pattern_ok p" "literal esc c p = (d, q)" "c \<noteq> 0" "c \<noteq> 0x80" "c \<noteq> ucast (matchAll i)"
    "matchSet i = 0 \<or> c \<noteq> esc"
  shows "pattern_ok q" "d \<noteq> 0x80" "length q \<le> length p"
    "pattern i esc (c # chars p) =
      (if d = 0 then [Never] else (if c \<noteq> esc \<and> c = ucast (matchOne i) then One else Lit d) # pattern i esc (chars q))"
proof -
  show "pattern_ok q" "d \<noteq> 0x80" "length q \<le> length p"
    using assms(1,2,4) pattern_ok_read [of p d q] sqlite3Utf8Read_le [of p]
    by (auto simp: literal_def split: if_splits)
  show "pattern i esc (c # chars p) =
      (if d = 0 then [Never] else (if c \<noteq> esc \<and> c = ucast (matchOne i) then One else Lit d) # pattern i esc (chars q))"
    using assms pattern_ok_read [of p d q] by (auto simp: literal_def pattern.simps(2) split: if_splits)
qed

definition search_literal :: "compareInfo \<Rightarrow> (bytes \<Rightarrow> int) \<Rightarrow> u32 \<Rightarrow> bytes \<Rightarrow> int" where
  "search_literal i f c s =
     (if c \<le> 0x80 then
        (let cx = (if noCase i then ucast (sqlite3Toupper (ucast c)) else c);
             c = (if noCase i then ucast (sqlite3Tolower (ucast c)) else c)
         in byte_search f c cx s)
      else char_search f c s)"

lemma search_literal_verdict:
  assumes "\<And>z. text_ok z \<Longrightarrow> verdict (noCase i) ps (chars z) (f z)" "c \<noteq> 0x80" "text_ok s"
  shows "verdict (noCase i) (Any # Lit c # ps) (chars s) (search_literal i f c s)"
proof (cases "c \<le> 0x80")
  case True
  then have c: "c < 0x80" using assms(2) by simp
  show ?thesis
  proof (cases "noCase i")
    case True
    then show ?thesis
      using byte_search_verdict [OF assms(1) c _ assms(3), of "ucast (sqlite3Tolower (ucast c))" "ucast (sqlite3Toupper (ucast c))"]
        other_case [OF c] \<open>c \<le> 0x80\<close> by (simp add: search_literal_def)
  next
    case False
    then show ?thesis
      using byte_search_verdict [OF assms(1) c _ assms(3), of c c] same_char_False [of _ c] \<open>c \<le> 0x80\<close>
      by (simp add: search_literal_def)
  qed
next
  case False
  then show ?thesis using char_search_verdict [OF assms(1) _ assms(3), of c] by (simp add: search_literal_def)
qed

text \<open>The three branches of the loop.\<close>

lemma pattern_loop_star:
  assumes k: "kind_ok i esc" and p: "sqlite3Utf8Read p = (c, p1)" "c \<noteq> 0" "c = ucast (matchAll i)"
    and ok: "pattern_ok p1" "length p1 < length p" "text_ok s"
    and IH: "\<And>p' s'. length p' < length p \<Longrightarrow> pattern_ok p' \<Longrightarrow> text_ok s' \<Longrightarrow>
      verdict (noCase i) (pattern i esc (chars p')) (chars s') (pattern_loop i esc p' s' None)"
  shows "verdict (noCase i) (Any # pattern i esc (chars p1)) (chars s) (pattern_loop i esc p s e)"
proof (cases "skip_wildcards i p1 s")
  case None
  then show ?thesis using skip_wildcards_matches [OF k ok(1,3), of "noCase i"] p
    by (subst pattern_loop.simps) (simp add: Utf8Read_is_read verdict_def)
next
  case (Some r)
  obtain d p2 s2 where r: "r = (d, p2, s2)" by (metis prod_cases3)
  note sk = skip_wildcards_matches [OF k ok(1,3), of "noCase i", unfolded Some r, simplified]
  have len: "length p2 \<le> length p1" "d \<noteq> 0 \<Longrightarrow> length p2 < length p1"
    using skip_wildcards_shrinks [of i p1 s d p2 s2] by (simp_all add: Some r)
  show ?thesis
  proof (cases "d = 0")
    case True
    then show ?thesis using sk p
      by (subst pattern_loop.simps) (simp add: Utf8Read_is_read Some r verdict_def)
  next
    case False
    have ok2: "pattern_ok p2" "text_ok s2" "d \<noteq> 0x80" "d \<noteq> ucast (matchAll i)" "d \<noteq> ucast (matchOne i)"
      using sk False by auto
    have eq: "verdict (noCase i) (Any # pattern i esc (chars p1)) (chars s) r =
        verdict (noCase i) (Any # pattern i esc (d # chars p2)) (chars s2) r" for r
      using sk False by (intro verdict_Any_eq) (simp)
    show ?thesis
    proof (cases "d = esc \<and> matchSet i \<noteq> 0")
      case True
      define b where "b = (ucast d :: u8)"
      have d: "d < 0x80" using True k by (simp add: kind_ok_def)
      then have "unat b = unat d" by (simp add: b_def unsigned_ucast_eq take_bit_nat_eq_self word_less_nat_alt)
      then have b: "ucast b = d" "\<not> 0xc0 \<le> b" "b \<noteq> 0"
        using d False by (auto simp: ucast_byte_eq unat_ucast32 word_less_nat_alt word_le_nat_alt word_unat_eq_iff)
      then have cs: "chars (b # p2) = d # chars p2" by (simp add: chars_read [OF read_narrow])
      have "\<exists>p0 ps. pattern i esc (d # chars p2) = p0 # ps \<and> p0 \<noteq> Any"
        using True ok2(4) parse_set_item [of "chars p2"]
        by (cases "parse_set (chars p2)") (auto simp: pattern.simps(2))
      then obtain p0 ps where pat: "pattern i esc (d # chars p2) = p0 # ps" "p0 \<noteq> Any" by blast
      have "verdict (noCase i) (p0 # ps) (chars z) (pattern_loop i esc (b # p2) z None)" if "text_ok z" for z
        using IH [of "b # p2" z] that ok2 len(2) [OF False] ok(2) b(3) by (simp add: cs pat pattern_ok_def)
      from set_search_verdict [OF this pat(2) ok2(2)] show ?thesis
        using p False True unfolding eq pat(1)
        by (subst pattern_loop.simps) (simp add: Utf8Read_is_read Some r b_def)
    next
      case lit: False
      obtain d' p3 where l: "literal esc d p2 = (d', p3)" by (metis surj_pair)
      note pl = pattern_literal [OF ok2(1) l False ok2(3,4)]
      have loop: "pattern_loop i esc p s e = (if d' = 0 then SQLITE_NOWILDCARDMATCH
          else search_literal i (\<lambda>z. pattern_loop i esc p3 z None) d' s2)"
        by (subst pattern_loop.simps)
          (use p False lit l in \<open>auto simp: Utf8Read_is_read Some r literal_def search_literal_def\<close>)
      have f: "verdict (noCase i) (pattern i esc (chars p3)) (chars z) (pattern_loop i esc p3 z None)" if "text_ok z" for z
        using IH [of p3 z] that pl lit len ok(2) by auto
      show ?thesis
        unfolding eq loop using pl lit ok2(5) search_literal_verdict [OF f, of d' s2] ok2(2)
        by (auto simp: verdict_def)
    qed
  qed
qed

lemma pattern_loop_set:
  assumes p: "sqlite3Utf8Read p = (c, p1)" "c \<noteq> 0" "c \<noteq> ucast (matchAll i)" "c = esc" "matchSet i \<noteq> 0"
    and ok: "pattern_ok p1" "length p1 < length p" "text_ok s"
    and IH: "\<And>p' s'. length p' \<le> length p1 \<Longrightarrow> pattern_ok p' \<Longrightarrow> text_ok s' \<Longrightarrow>
      verdict (noCase i) (pattern i esc (chars p')) (chars s') (pattern_loop i esc p' s' e)"
  shows "verdict (noCase i) (pattern i esc (c # chars p1)) (chars s) (pattern_loop i esc p s e)"
proof -
  obtain x s1 where r: "sqlite3Utf8Read s = (x, s1)" by (metis surj_pair)
  have s: "text_ok s1" "x = 0 \<longleftrightarrow> s = []" "x \<noteq> 0 \<longrightarrow> chars s = x # chars s1"
    using text_ok_read [OF ok(3)] read_nonzero [OF ok(3)] chars_read [OF r] by (auto simp: r)
  have loop: "pattern_loop i esc p s e = (if x = 0 then SQLITE_NOMATCH else
      (case match_set x p1 of None \<Rightarrow> SQLITE_NOMATCH | Some p2 \<Rightarrow> pattern_loop i esc p2 s1 e))"
    using p by (subst pattern_loop.simps) (simp add: Utf8Read_is_read r)
  note m = match_set_correct [of p1 x "noCase i"]
  show ?thesis
  proof (cases "parse_set (chars p1)")
    case None
    then have "match_set x p1 = None" using m ok(1) by (simp add: pattern_ok_def)
    then show ?thesis using p None by (simp add: loop pattern.simps(2) verdict_def matches_single item_ok_def)
  next
    case (Some q)
    obtain p0 cs where q: "q = (p0, cs)" by (metis surj_pair)
    have pat: "pattern i esc (c # chars p1) = p0 # pattern i esc cs" using p Some q by (simp add: pattern.simps(2))
    show ?thesis
    proof (cases "x \<noteq> 0 \<and> item_ok (noCase i) p0 x")
      case True
      then obtain p2 where p2: "match_set x p1 = Some p2" "chars p2 = cs" "text_ok p2" "p0 \<noteq> Any"
        using m ok(1) by (auto simp: Some q pattern_ok_def)
      then have "pattern_ok p2" using parse_set_rest(2) [of "chars p1" p0 cs] ok(1) Some q by (auto simp: pattern_ok_def)
      from IH [OF match_set_shrinks [OF p2(1)] this s(1)] show ?thesis
        using True p2 s(3) verdict_single [of p0 "noCase i" x "pattern i esc cs"] by (simp add: loop pat)
    next
      case False
      then have "x \<noteq> 0 \<longrightarrow> match_set x p1 = None" "p0 \<noteq> Any" using m ok(1) by (auto simp: Some q pattern_ok_def)
      then show ?thesis using False s by (auto simp: loop pat verdict_def matches_single)
    qed
  qed
qed

lemma pattern_loop_char:
  assumes k: "kind_ok i esc" and p: "sqlite3Utf8Read p = (c, p1)" "c \<noteq> 0" "c \<noteq> 0x80" "c \<noteq> ucast (matchAll i)"
    and set: "matchSet i = 0 \<or> c \<noteq> esc"
    and ok: "pattern_ok p1" "length p1 < length p" "text_ok s"
    and e: "case e of None \<Rightarrow> True | Some n \<Rightarrow> length p \<le> n"
    and IH: "\<And>p' s' e'. length p' \<le> length p1 \<Longrightarrow> pattern_ok p' \<Longrightarrow> text_ok s' \<Longrightarrow>
      (case e' of None \<Rightarrow> True | Some n \<Rightarrow> length p' \<le> n) \<Longrightarrow>
      verdict (noCase i) (pattern i esc (chars p')) (chars s') (pattern_loop i esc p' s' e')"
  shows "verdict (noCase i) (pattern i esc (c # chars p1)) (chars s) (pattern_loop i esc p s e)"
proof -
  obtain x s1 where r: "sqlite3Utf8Read s = (x, s1)" by (metis surj_pair)
  have s: "text_ok s1" "x = 0 \<longleftrightarrow> s = []" "x \<noteq> 0 \<longrightarrow> chars s = x # chars s1"
    using text_ok_read [OF ok(3)] read_nonzero [OF ok(3)] chars_read [OF r] by (auto simp: r)
  obtain d p2 where l: "literal esc c p1 = (d, p2)" by (metis surj_pair)
  note pl = pattern_literal [OF ok(1) l p(2,3,4) set]
  define e2 where "e2 = (if c = esc then Some (length p2) else e)"
  have loop: "pattern_loop i esc p s e = (if d = 0 then SQLITE_NOMATCH
      else if same_char (noCase i) d x \<or> d = ucast (matchOne i) \<and> e2 \<noteq> Some (length p2) \<and> x \<noteq> 0
      then pattern_loop i esc p2 s1 e2 else SQLITE_NOMATCH)"
  proof (cases "c = esc")
    case True
    then have "sqlite3Utf8Read p1 = (d, p2)" "matchSet i = 0" "e2 = Some (length p2)"
      using l set by (simp_all add: literal_def e2_def)
    then show ?thesis unfolding same_char_or [symmetric] using p True
      by (subst pattern_loop.simps) (simp add: Utf8Read_is_read r)
  next
    case False
    then have "d = c" "p2 = p1" "e2 = e" using l by (simp_all add: literal_def e2_def)
    then show ?thesis unfolding same_char_or [symmetric] using p False
      by (subst pattern_loop.simps) (simp add: Utf8Read_is_read r)
  qed
  have e2: "case e2 of None \<Rightarrow> True | Some n \<Rightarrow> length p2 \<le> n" "c \<noteq> esc \<longrightarrow> e2 \<noteq> Some (length p2)"
    using e pl(3) ok(2) by (auto simp: e2_def split: option.splits)
  note rec = IH [OF pl(3,1) s(1) e2(1)]
  show ?thesis
  proof (cases "d = 0")
    case True
    then show ?thesis using pl(4) by (simp add: loop verdict_def matches_single item_ok_def)
  next
    case d: False
    define p0 where "p0 = (if c \<noteq> esc \<and> c = ucast (matchOne i) then One else Lit d)"
    have p0: "pattern i esc (c # chars p1) = p0 # pattern i esc (chars p2)" "p0 \<noteq> Any"
      using pl(4) d by (simp_all add: p0_def)
    have ok: "(same_char (noCase i) d x \<or> d = ucast (matchOne i) \<and> e2 \<noteq> Some (length p2) \<and> x \<noteq> 0) \<longleftrightarrow>
        x \<noteq> 0 \<and> item_ok (noCase i) p0 x"
      using same_char_0 [OF d, of "noCase i"] e2(2) l k
      by (auto simp: p0_def item_ok_def e2_def literal_def kind_ok_def)
    show ?thesis
      using d rec s p0(2) verdict_single [of p0 "noCase i" x "pattern i esc (chars p2)" "chars s1"]
      unfolding loop ok p0(1) by (auto simp: verdict_def matches_single)
  qed
qed

lemma pattern_loop_verdict:
  assumes k: "kind_ok i esc" and "pattern_ok p" "text_ok s" "case e of None \<Rightarrow> True | Some n \<Rightarrow> length p \<le> n"
  shows "verdict (noCase i) (pattern i esc (chars p)) (chars s) (pattern_loop i esc p s e)"
  using assms(2-)
proof (induction "length p" arbitrary: p s e rule: less_induct)
  case less
  obtain c p1 where r: "sqlite3Utf8Read p = (c, p1)" by (metis surj_pair)
  have p: "pattern_ok p1" "c \<noteq> 0x80" "c = 0 \<longleftrightarrow> p = []" "c \<noteq> 0 \<longrightarrow> chars p = c # chars p1 \<and> length p1 < length p"
    using pattern_ok_read [OF less.prems(1) r] by auto
  show ?case
  proof (cases "c = 0")
    case True
    then show ?thesis using p(3) read_at_end [OF less.prems(2)]
      by (subst pattern_loop.simps) (auto simp: Utf8Read_is_read r verdict_def result_codes)
  next
    case False
    then have cs: "chars p = c # chars p1" and len: "length p1 < length p" using p(4) by auto
    have IH: "verdict (noCase i) (pattern i esc (chars p')) (chars s') (pattern_loop i esc p' s' e')"
      if "length p' < length p" "pattern_ok p'" "text_ok s'" "case e' of None \<Rightarrow> True | Some n \<Rightarrow> length p' \<le> n" for p' s' e'
      using less.hyps that by blast
    consider "c = ucast (matchAll i)" | "c \<noteq> ucast (matchAll i)" "c = esc" "matchSet i \<noteq> 0"
      | "c \<noteq> ucast (matchAll i)" "matchSet i = 0 \<or> c \<noteq> esc" by blast
    then show ?thesis
    proof cases
      case 1
      then have "pattern i esc (chars p) = Any # pattern i esc (chars p1)"
        using k by (auto simp: cs pattern.simps(2) kind_ok_def)
      then show ?thesis using pattern_loop_star [OF k r False 1 p(1) len less.prems(2) IH, of e] by simp
    next
      case 2
      show ?thesis unfolding cs
        by (rule pattern_loop_set [OF r False 2 p(1) len less.prems(2)])
          (rule IH, use len less.prems(3) in \<open>auto split: option.splits\<close>)
    next
      case 3
      show ?thesis unfolding cs
        by (rule pattern_loop_char [OF k r False p(2) 3 p(1) len less.prems(2,3)])
          (rule IH, use len in auto)
    qed
  qed
qed

section \<open>LIKE and GLOB\<close>

definition like_spec :: "compareInfo \<Rightarrow> u32 \<Rightarrow> bytes \<Rightarrow> bytes \<Rightarrow> bool" where
  "like_spec i esc p s \<longleftrightarrow> matches (noCase i) (pattern i esc (chars p)) (chars s)"

lemma patternCompare_correct:
  assumes "kind_ok i esc" "pattern_ok p" "text_ok s"
  shows "patternCompare p s i esc = SQLITE_MATCH \<longleftrightarrow> like_spec i esc p s"
  using verdict_match [OF pattern_loop_verdict [OF assms, of None]] by (simp add: patternCompare_def like_spec_def)

lemma kinds_ok:
  "kind_ok globInfo 91" "esc \<notin> {37, 95} \<Longrightarrow> kind_ok likeInfoNorm esc" "esc \<notin> {37, 95} \<Longrightarrow> kind_ok likeInfoAlt esc"
  by (simp_all add: kind_ok_def globInfo_def likeInfoNorm_def likeInfoAlt_def)

text \<open>
  C12: LIKE and GLOB, with their early exits and searches by bytes, say that a text matches exactly when
  the pattern, read as wildcards, sets, escapes and characters the way the documentation of the code
  reads it, describes the text character by character. This holds for every escape that is not itself
  one of the wildcards percent and underscore, and for every pattern without the character U+0080; for
  the rest the code departs from its documentation.
\<close>

theorem like_glob_decide_patterns:
  assumes "pattern_ok p" "text_ok s" "esc \<notin> {37, 95}" "int (length p) \<le> limit"
    and "sqlite3Utf8CharLen z (- 1) = 1" "fst (sqlite3Utf8Read z) = esc" "i = likeInfoNorm \<or> i = likeInfoAlt"
  shows "(sqlite3_strglob p s = 0 \<longleftrightarrow> like_spec globInfo 91 p s)
    \<and> (sqlite3_strlike p s esc = 0 \<longleftrightarrow> like_spec likeInfoNorm esc p s)
    \<and> likeFunc globInfo limit [Some p, Some s] = LikeInt (if like_spec globInfo 91 p s then 1 else 0)
    \<and> likeFunc i limit [Some p, Some s] = LikeInt (if like_spec i 0 p s then 1 else 0)
    \<and> likeFunc i limit [Some p, Some s, Some z] = LikeInt (if like_spec i esc p s then 1 else 0)"
proof -
  have m: "matchSet globInfo = 91" "matchSet i = 0"
    using assms(7) by (auto simp: globInfo_def likeInfoNorm_def likeInfoAlt_def)
  have k: "kind_ok i esc" "kind_ok i 0" using kinds_ok(2,3) [of esc] kinds_ok(2,3) [of 0] assms(3,7) by auto
  note c = patternCompare_correct [OF _ assms(1,2)]
  from c [OF kinds_ok(1)] c [OF kinds_ok(2) [OF assms(3)]] c [OF k(1)] c [OF k(2)] show ?thesis
    using assms(4,5,6) by (simp add: sqlite3_strglob_def sqlite3_strlike_def likeFunc_def Let_def m SQLITE_MATCH_def)
qed

theorem like_glob_decide_patterns_witness:
  "(sqlite3_strglob [97, 42, 91, 94, 98, 93] [97, 98, 99] = 0 \<longleftrightarrow> like_spec globInfo 91 [97, 42, 91, 94, 98, 93] [97, 98, 99])
   \<and> (sqlite3_strlike [97, 37, 33, 37] [65, 98, 37] 33 = 0 \<longleftrightarrow> like_spec likeInfoNorm 33 [97, 37, 33, 37] [65, 98, 37])
   \<and> likeFunc likeInfoNorm 6 [Some [97, 37, 33, 37], Some [65, 98, 37], Some [33]] = LikeInt 1"
proof -
  have z: "sqlite3Utf8CharLen [33] (- 1) = 1" "fst (sqlite3Utf8Read [33]) = 33" by code_simp+
  have g: "pattern_ok [97, 42, 91, 94, 98, 93]" "text_ok [97, 98, 99]" by code_simp+
  have l: "pattern_ok [97, 37, 33, 37]" "text_ok [65, 98, 37]" "like_spec likeInfoNorm 33 [97, 37, 33, 37] [65, 98, 37]"
    by code_simp+
  from like_glob_decide_patterns [where limit = 6 and i = likeInfoNorm, OF g _ _ z]
    like_glob_decide_patterns [where limit = 6 and i = likeInfoNorm, OF l(1,2) _ _ z] l(3) show ?thesis by simp
qed

text \<open>
  Where the code departs from its comment. After a wildcard, U+0080 is looked for as the byte 0x80, which
  the second byte of U+0100 is; an escape that is the underscore is taken for a wildcard there; and an
  escape that is the percent sign always is.
\<close>

lemma wildcard_finds_byte_80:
  "sqlite3_strglob [42, 0xC2, 0x80] [0xC4, 0x80] = 0 \<and> chars [0xC4, 0x80] = [0x100] \<and>
   \<not> like_spec globInfo 91 [42, 0xC2, 0x80] [0xC4, 0x80]"
  by code_simp

lemma escaped_underscore_skipped:
  "sqlite3_strlike [37, 95, 95] [97, 98] 95 = 0 \<and> \<not> like_spec likeInfoNorm 95 [37, 95, 95] [97, 98] \<and>
   sqlite3_strlike [95, 95] [97] 95 \<noteq> 0"
  by code_simp

lemma escaped_percent_is_wildcard:
  "sqlite3_strlike [37, 37] [97, 98] 37 = 0 \<and> \<not> like_spec likeInfoNorm 37 [37, 37] [97, 98] \<and>
   like_spec likeInfoNorm 37 [37, 37] [37]"
  by code_simp

end
