(* ===== verification/RunParser.thy ===== *)
theory RunParser
  imports TokenizeProps
begin

text \<open>
  \<^verbatim>\<open>sqlite3RunParser\<close> of \<^verbatim>\<open>sqlite/tokenize.c\<close>: the loop that feeds the tokens of an
  SQL text to the parser. The parser that Lemon generates is an argument: it takes its state, a token
  type, the place and length of the token, and the \<^verbatim>\<open>Parse\<close> object. Freeing what the parser left
  in that object is left out.
\<close>

section \<open>The loop\<close>

definition SQLITE_ERROR :: int where "SQLITE_ERROR = 1"
definition SQLITE_NOMEM :: int where "SQLITE_NOMEM = 7"
definition SQLITE_INTERRUPT :: int where "SQLITE_INTERRUPT = 9"
definition SQLITE_TOOBIG :: int where "SQLITE_TOOBIG = 18"
definition SQLITE_DONE :: int where "SQLITE_DONE = 101"

lemmas parse_codes = SQLITE_ERROR_def SQLITE_NOMEM_def SQLITE_INTERRUPT_def SQLITE_TOOBIG_def SQLITE_DONE_def

text \<open>A message is a text of the parser, the text of an unrecognized token, or that of a code.\<close>

datatype parse_message = Message string | Unrecognized bytes | ErrStr int

record Parse =
  parse_rc :: int
  parse_nErr :: int
  zErrMsg :: "parse_message option"
  zTail :: nat

text \<open>
  The connection and the parser: whether \<^verbatim>\<open>sqlite3_interrupt\<close> has been called by the time the
  text is read up to an offset; what \<^verbatim>\<open>sqlite3VMPrintf\<close> makes of a message, which is \<^verbatim>\<open>NULL\<close> when
  it finds no memory, and whether it has set \<^verbatim>\<open>mallocFailed\<close>; and the parser, which also says
  whether an allocation failed.
\<close>

record 'e parser =
  isInterrupted :: "nat \<Rightarrow> bool"
  suppressErr :: bool
  sqlite3VMPrintf :: "parse_message \<Rightarrow> parse_message option \<times> bool"
  sqlite3Parser :: "'e \<Rightarrow> nat \<Rightarrow> nat \<times> nat \<Rightarrow> Parse \<Rightarrow> 'e \<times> Parse \<times> bool"

definition sqlite3ErrorMsg :: "'e parser \<Rightarrow> parse_message \<Rightarrow> Parse \<Rightarrow> Parse \<times> bool" where
  "sqlite3ErrorMsg P format p =
     (let (zMsg, failed) = sqlite3VMPrintf P format in
      if suppressErr P then (p, failed)
      else (p\<lparr>parse_nErr := parse_nErr p + 1, zErrMsg := zMsg, parse_rc := SQLITE_ERROR\<rparr>, failed))"

definition end_rank :: "int \<Rightarrow> nat" where
  "end_rank lastTokenParsed = (if lastTokenParsed = 0 then 0 else if lastTokenParsed = int TK_SEMI then 1 else 2)"

lemma GetToken_moves:
  assumes "char_at z i \<noteq> 0" "(n, t) = sqlite3GetToken (drop i z)"
  shows "1 \<le> n" "i + n \<le> length z" "length z - (i + n) < length z - i"
proof -
  have i: "i < length z" using char_at_nonzero [OF assms(1)] .
  then have "char_at (drop i z) 0 \<noteq> 0" using assms(1) by (simp add: char_at_def)
  from GetToken_inside [OF this] show "1 \<le> n" "i + n \<le> length z" "length z - (i + n) < length z - i"
    using i by (auto simp: assms(2) [symmetric])
qed

text \<open>
  The state of the engine, the \<^verbatim>\<open>Parse\<close> object, \<^verbatim>\<open>mallocFailed\<close>, and the offset reached. At the end
  of the text the loop steps back over the last token, so that the two tokens it makes up have its place.
\<close>

function parser_loop ::
    "'e parser \<Rightarrow> bytes \<Rightarrow> 'e \<Rightarrow> Parse \<Rightarrow> bool \<Rightarrow> nat \<Rightarrow> nat \<Rightarrow> int \<Rightarrow> int \<Rightarrow> 'e \<times> Parse \<times> bool \<times> nat" where
  "parser_loop P zSql pEngine p mallocFailed i n mxSqlLen lastTokenParsed =
     (if char_at zSql i \<noteq> 0 then
        (let (n, tokenType) = sqlite3GetToken (drop i zSql);
             mxSqlLen = mxSqlLen - int n
         in if mxSqlLen < 0 then (pEngine, p\<lparr>parse_rc := SQLITE_TOOBIG\<rparr>, mallocFailed, i)
            else if TK_SPACE \<le> tokenType then
              (if isInterrupted P i then (pEngine, p\<lparr>parse_rc := SQLITE_INTERRUPT\<rparr>, mallocFailed, i)
               else if tokenType = TK_ILLEGAL then
                 (let (p, failed) = sqlite3ErrorMsg P (Unrecognized (take n (drop i zSql))) p
                  in (pEngine, p, mallocFailed \<or> failed, i))
               else parser_loop P zSql pEngine p mallocFailed (i + n) n mxSqlLen lastTokenParsed)
            else
              (let (pEngine, p, failed) = sqlite3Parser P pEngine tokenType (i, n) p in
               if parse_rc p \<noteq> SQLITE_OK \<or> mallocFailed \<or> failed then (pEngine, p, mallocFailed \<or> failed, i + n)
               else parser_loop P zSql pEngine p False (i + n) n mxSqlLen (int tokenType)))
      else if lastTokenParsed = 0 then (pEngine, p, mallocFailed, i)
      else
        (let tokenType = (if lastTokenParsed = int TK_SEMI then 0 else TK_SEMI);
             (pEngine, p, failed) = sqlite3Parser P pEngine tokenType (i - n, n) p
         in if parse_rc p \<noteq> SQLITE_OK \<or> mallocFailed \<or> failed then (pEngine, p, mallocFailed \<or> failed, i - n + n)
            else parser_loop P zSql pEngine p False (i - n + n) n mxSqlLen (int tokenType)))"
  by pat_completeness auto

termination
  by (relation "inv_image (less_than <*lex*> less_than)
      (\<lambda>(P, z, e, p, m, i, n, mx, last). (length z - i, end_rank last))")
    (auto simp: end_rank_def TK_SEMI_def GetToken_moves split: if_splits)

declare parser_loop.simps [simp del]

text \<open>What is done after the loop: the number of errors, the message, and the object.\<close>

definition parser_finish :: "'e parser \<Rightarrow> 'e \<times> Parse \<times> bool \<times> nat \<Rightarrow> int \<times> parse_message option \<times> Parse" where
  "parser_finish P r =
     (let (pEngine, p, mallocFailed, zSql) = r;
          p = p\<lparr>zTail := zSql\<rparr>;
          p = (if mallocFailed then p\<lparr>parse_rc := SQLITE_NOMEM\<rparr> else p);
          p = (if parse_rc p \<noteq> SQLITE_OK \<and> parse_rc p \<noteq> SQLITE_DONE \<and> zErrMsg p = None
               then p\<lparr>zErrMsg := fst (sqlite3VMPrintf P (ErrStr (parse_rc p)))\<rparr> else p)
      in case zErrMsg p of
           None \<Rightarrow> (0, None, p)
         | Some m \<Rightarrow> (1, Some m, p\<lparr>zErrMsg := None\<rparr>))"

text \<open>\<^theory_text>\<open>engine\<close> is what \<^verbatim>\<open>sqlite3ParserAlloc\<close> returns.\<close>

definition sqlite3RunParser ::
    "'e parser \<Rightarrow> 'e option \<Rightarrow> int \<Rightarrow> bool \<Rightarrow> Parse \<Rightarrow> bytes \<Rightarrow> int \<times> parse_message option \<times> Parse" where
  "sqlite3RunParser P engine mxSqlLen mallocFailed p zSql =
     (let p = p\<lparr>parse_rc := SQLITE_OK, zTail := 0\<rparr> in
      case engine of
        None \<Rightarrow> (SQLITE_NOMEM, None, p)
      | Some pEngine \<Rightarrow> parser_finish P (parser_loop P zSql pEngine p mallocFailed 0 0 mxSqlLen (- 1)))"

end
