(* ===== verification/RunParserProps.thy ===== *)
theory RunParserProps
  imports RunParser
begin

text \<open>
  What the loop feeds to the parser: the tokens of the text without its white space and comments, and at
  the end of the text a semicolon, unless there is one already, and the end-of-input token.
\<close>

section \<open>Token types\<close>

lemma aCode_nonzero: "i < 124 \<Longrightarrow> aCode ! i \<noteq> 0"
proof -
  have "list_all (\<lambda>t. t \<noteq> 0) aCode \<and> length aCode = 124" by code_simp
  then show "i < 124 \<Longrightarrow> aCode ! i \<noteq> 0" by (simp add: list_all_length)
qed

lemma keyword_loop_range: "keyword_loop z n v = Some i \<Longrightarrow> i < 124"
proof (induction z n v rule: keyword_loop.induct)
  case (1 z n v)
  then show ?case by (subst (asm) (2) keyword_loop.simps) (auto simp: Let_def split: if_splits)
qed

lemma keywordCode_nonzero: "t \<noteq> 0 \<Longrightarrow> snd (keywordCode z n t) \<noteq> 0"
  by (auto simp: keywordCode_def dest!: aCode_nonzero [OF keyword_loop_range] split: option.splits)

lemma variable_loop_type: "variable_loop z i n = (j, m, t) \<Longrightarrow> t = TK_VARIABLE \<or> t = TK_ILLEGAL"
proof (induction z i n arbitrary: j m t rule: variable_loop.induct)
  case (1 z i n)
  show ?case
  proof (cases "char_at z i = 58 \<and> \<not> IdChar (char_at z i) \<and> char_at z (i + 1) = 58")
    case True
    then have "variable_loop z (i + 2) n = (j, m, t)" using 1(3) by (subst (asm) variable_loop.simps) auto
    then show ?thesis using 1(2) [OF refl _ _ _ _, of j m t] True by auto
  next
    case False
    then show ?thesis using 1(3)
      by (subst (asm) variable_loop.simps) (auto simp: Let_def dest: 1(1) [OF refl] split: if_splits)
  qed
qed

definition typed :: "nat \<times> nat \<Rightarrow> bool" where "typed r \<longleftrightarrow> snd r \<noteq> 0"

lemma typed_if: "typed a \<Longrightarrow> typed b \<Longrightarrow> typed (if c then a else b)"
  by simp

lemma typed_pair: "t \<in> {TK_SPACE, TK_ILLEGAL} \<union> {1..<163} \<Longrightarrow> typed (n, t)"
  by (auto simp: typed_def TK_defs)

lemma typed_tokens:
  "typed (token_slash z)" "typed (token_quote z)" "typed (token_number z)" "typed (token_bracket z)"
  "typed (token_variable z)" "typed (token_id z i)" "typed (token_keyword z)" "typed (token_blob z)"
proof -
  show "typed (token_slash z)" "typed (token_quote z)" "typed (token_bracket z)" "typed (token_id z i)" "typed (token_blob z)"
    by (simp_all add: token_slash_def token_quote_def token_bracket_def token_id_def token_blob_def typed_def
        TK_defs split_beta Let_def)
  show "typed (token_number z)"
    by (simp add: token_number_def number_fraction_def number_exponent_def typed_def TK_defs split_beta)
  obtain j m t where v: "variable_loop z (Suc 0) 0 = (j, m, t)" by (metis prod_cases3)
  show "typed (token_variable z)"
    using variable_loop_type [OF v] by (auto simp: token_variable_def v typed_def TK_defs)
  show "typed (token_keyword z)"
    using keywordCode_nonzero [of TK_ID] by (auto simp: token_keyword_def token_id_def typed_def TK_defs Let_def)
qed

lemma GetToken_type: "snd (sqlite3GetToken z) \<noteq> 0"
proof -
  have "typed (sqlite3GetToken z)"
    unfolding sqlite3GetToken_def Let_def
    by (intro typed_if typed_tokens) (simp_all add: typed_def TK_defs)
  then show ?thesis by (simp add: typed_def)
qed

section \<open>Feeding a list of tokens\<close>

text \<open>
  The tokens ahead of an offset, with their types, places and lengths, up to the end or to an unrecognized
  token; where that is, and the length of the token there, or of the last one before the end.
\<close>

function scan_tokens :: "bytes \<Rightarrow> nat \<Rightarrow> nat \<Rightarrow> (nat \<times> nat \<times> nat) list \<times> nat \<times> nat \<times> bool" where
  "scan_tokens z i n =
     (if char_at z i = 0 then ([], i, n, True)
      else
        (let (n, t) = sqlite3GetToken (drop i z) in
         if t = TK_ILLEGAL then ([], i, n, False)
         else apfst ((@) (if t < TK_SPACE then [(t, i, n)] else [])) (scan_tokens z (i + n) n)))"
  by pat_completeness auto

termination
  by (relation "measure (\<lambda>(z, i, n). length z - i)") (auto simp: GetToken_moves)

declare scan_tokens.simps [simp del]

definition end_tokens :: "int \<Rightarrow> nat \<Rightarrow> nat \<Rightarrow> (nat \<times> nat \<times> nat) list" where
  "end_tokens last_type i n =
     (if last_type = int TK_SEMI then [(0, i - n, n)] else [(TK_SEMI, i - n, n), (0, i - n, n)])"

text \<open>The parser on a list of tokens, up to the first that it reports an error for.\<close>

fun feed :: "'e parser \<Rightarrow> (nat \<times> nat \<times> nat) list \<Rightarrow> 'e \<Rightarrow> Parse \<Rightarrow> 'e \<times> Parse \<times> bool \<times> nat option" where
  "feed P [] e p = (e, p, False, None)"
| "feed P ((t, i, n) # ts) e p =
     (let (e, p, failed) = sqlite3Parser P e t (i, n) p in
      if parse_rc p \<noteq> SQLITE_OK \<or> failed then (e, p, failed, Some (i + n)) else feed P ts e p)"

definition parser_run :: "'e parser \<Rightarrow> bytes \<Rightarrow> nat \<Rightarrow> nat \<Rightarrow> int \<Rightarrow> 'e \<Rightarrow> Parse \<Rightarrow> 'e \<times> Parse \<times> bool \<times> nat" where
  "parser_run P z i n before e p =
     (let (ts, j, m, ended) = scan_tokens z i n;
          before = (if ts = [] then before else int (fst (last ts)));
          (e, p, failed, stop) = feed P (ts @ (if ended then end_tokens before j m else [])) e p
      in case stop of
           Some k \<Rightarrow> (e, p, failed, k)
         | None \<Rightarrow> if ended then (e, p, failed, j)
                   else (let (p, failed) = sqlite3ErrorMsg P (Unrecognized (take m (drop j z))) p in (e, p, failed, j)))"

lemma parser_run_skip:
  assumes "char_at z i \<noteq> 0" "sqlite3GetToken (drop i z) = (n, t)" "TK_SPACE \<le> t" "t \<noteq> TK_ILLEGAL"
  shows "parser_run P z i m before e p = parser_run P z (i + n) n before e p"
proof -
  have "scan_tokens z i m = scan_tokens z (i + n) n"
    using assms by (cases "scan_tokens z (i + n) n") (simp add: scan_tokens.simps [of z i])
  then show ?thesis by (simp add: parser_run_def)
qed

lemma parser_run_token:
  assumes "char_at z i \<noteq> 0" "sqlite3GetToken (drop i z) = (n, t)" "t < TK_SPACE"
    and "sqlite3Parser P e t (i, n) p = (e', p', failed)"
  shows "parser_run P z i m before e p =
    (if parse_rc p' \<noteq> SQLITE_OK \<or> failed then (e', p', failed, i + n) else parser_run P z (i + n) n (int t) e' p')"
proof -
  have "t \<noteq> TK_ILLEGAL" using assms(3) by (simp add: TK_defs)
  with assms have "scan_tokens z i m = apfst ((#) (t, i, n)) (scan_tokens z (i + n) n)"
    by (simp add: scan_tokens.simps [of z i] fun_eq_iff)
  then show ?thesis using assms(4)
    by (cases "scan_tokens z (i + n) n") (auto simp: parser_run_def split: prod.splits)
qed

lemma parser_loop_run:
  assumes "\<And>i. \<not> isInterrupted P i" "int (length z - i) \<le> mx" "before \<noteq> 0" "n \<le> i"
  shows "parser_loop P z e p False i n mx before = parser_run P z i n before e p"
  using assms(2-)
proof (induction "length z - i" arbitrary: i n mx before e p rule: less_induct)
  case less
  show ?case
  proof (cases "char_at z i = 0")
    case True
    have run: "parser_run P z i n before e p =
      (let (e, p, failed, stop) = feed P (end_tokens before i n) e p in case stop of Some k \<Rightarrow> (e, p, failed, k) | None \<Rightarrow> (e, p, failed, i))"
      using True by (simp add: parser_run_def scan_tokens.simps)
    have final: "parser_loop P z e p False i n mx 0 = (e, p, False, i)" for e p
      using True by (simp add: parser_loop.simps)
    have semi: "parser_loop P z e p False i n mx (int TK_SEMI) =
      (let (e, p, failed, stop) = feed P [(0, i - n, n)] e p in case stop of Some k \<Rightarrow> (e, p, failed, k) | None \<Rightarrow> (e, p, failed, i))"
      for e p
      using True less.prems(3)
      by (subst parser_loop.simps) (simp add: TK_defs final split: prod.splits)
    show ?thesis
    proof (cases "before = int TK_SEMI")
      case True
      then show ?thesis unfolding run by (simp only: semi end_tokens_def if_True simp_thms)
    next
      case False
      then show ?thesis unfolding run
        using True less.prems(2,3) semi
        by (subst parser_loop.simps) (simp add: end_tokens_def split: prod.splits)
    qed
  next
    case False
    obtain m t where g: "sqlite3GetToken (drop i z) = (m, t)" by (metis surj_pair)
    have m: "i + m \<le> length z" "length z - (i + m) < length z - i"
      using GetToken_moves [OF False g [symmetric]] by auto
    then have mx: "\<not> mx - int m < 0" "int (length z - (i + m)) \<le> mx - int m" using less.prems(1) by auto
    note rec = less.hyps [OF m(2) mx(2)]
    show ?thesis
    proof (cases "TK_SPACE \<le> t")
      case space: True
      show ?thesis
      proof (cases "t = TK_ILLEGAL")
        case True
        then have "parser_run P z i n before e p =
            (let (p, failed) = sqlite3ErrorMsg P (Unrecognized (take m (drop i z))) p in (e, p, failed, i))"
          using False g by (simp add: parser_run_def scan_tokens.simps)
        then show ?thesis using False g mx(1) space True assms(1)
          by (subst parser_loop.simps) (simp split: prod.split)
      next
        case legal: False
        then show ?thesis using False g mx(1) space assms(1) less.prems(2) rec [of before m e p] parser_run_skip [OF False g space legal, of P n before e p]
          by (subst parser_loop.simps) simp
      qed
    next
      case tok: False
      obtain e' p' failed where s: "sqlite3Parser P e t (i, m) p = (e', p', failed)" by (metis prod_cases3)
      have "int t \<noteq> 0" using GetToken_type [of "drop i z"] g by simp
      then show ?thesis
        using False g mx(1) tok s rec [of "int t" m e' p'] parser_run_token [OF False g _ s, of n before]
        by (subst parser_loop.simps) simp
    qed
  qed
qed

section \<open>The loop feeds the tokens\<close>

text \<open>
  C20: Reading an SQL text ends, and the parser is fed the tokens of the text in order, without white
  space and comments, then a semicolon if the last of them is none, then the end-of-input token: all of
  them, or up to the first that the parser reports an error for, or up to an unrecognized token. For texts
  within the length limit, and no interrupt.
\<close>

theorem run_parser_feeds_tokens:
  assumes "\<And>i. \<not> isInterrupted P i" "int (length z) \<le> limit"
  shows "sqlite3RunParser P (Some e) limit False p z =
    parser_finish P
      (let (ts, j, n, ended) = scan_tokens z 0 0;
           semi = (ts \<noteq> [] \<and> fst (last ts) = TK_SEMI);
           fed = ts @ (if ended then (if semi then [] else [(TK_SEMI, j - n, n)]) @ [(0, j - n, n)] else []);
           (e, p, failed, stop) = feed P fed e (p\<lparr>parse_rc := SQLITE_OK, zTail := 0\<rparr>)
       in case stop of
            Some k \<Rightarrow> (e, p, failed, k)
          | None \<Rightarrow> if ended then (e, p, failed, j)
                    else (let (p, failed) = sqlite3ErrorMsg P (Unrecognized (take n (drop j z))) p in (e, p, failed, j)))"
proof -
  have loop: "parser_loop P z e q False 0 0 limit (- 1) = parser_run P z 0 0 (- 1) e q" for q
    using parser_loop_run [OF assms(1), of z 0 limit "- 1" 0] assms(2) by simp
  have et: "end_tokens (if ts = [] then - 1 else int (fst (last ts))) j n =
      (if ts \<noteq> [] \<and> fst (last ts) = TK_SEMI then [] else [(TK_SEMI, j - n, n)]) @ [(0, j - n, n)]" for ts j n
    by (simp add: end_tokens_def TK_defs)
  obtain ts j n ended where s: "scan_tokens z 0 0 = (ts, j, n, ended)" by (metis prod_cases4)
  show ?thesis
    by (simp only: sqlite3RunParser_def Let_def option.case loop parser_run_def s prod.case et)
qed

theorem run_parser_feeds_tokens_witness:
  "fst (sqlite3RunParser
     \<lparr>isInterrupted = \<lambda>_. False, suppressErr = False, sqlite3VMPrintf = (\<lambda>m. (Some m, False)), sqlite3Parser = \<lambda>e t tok p. (e @ [t], p, False)\<rparr>
     (Some []) 10 False \<lparr>parse_rc = 0, parse_nErr = 0, zErrMsg = None, zTail = 0\<rparr> (ascii ''; ?'')) = 0"
proof -
  define P :: "nat list parser" where
    "P = \<lparr>isInterrupted = \<lambda>_. False, suppressErr = False, sqlite3VMPrintf = (\<lambda>m. (Some m, False)), sqlite3Parser = \<lambda>e t tok p. (e @ [t], p, False)\<rparr>"
  have "scan_tokens (ascii ''; ?'') 0 0 = ([(TK_SEMI, 0, 1), (TK_VARIABLE, 2, 1)], 3, 1, True)" by code_simp
  then show ?thesis
    using run_parser_feeds_tokens [of P "ascii ''; ?''" 10 "[]" "\<lparr>parse_rc = 0, parse_nErr = 0, zErrMsg = None, zTail = 0\<rparr>"]
    by (simp add: P_def ascii_def TK_defs parser_finish_def SQLITE_OK_def)
qed

end
