(* ===== verification/Prng.thy ===== *)
theory Prng
  imports Vfs
begin

text \<open>
  The pseudo-random numbers of SQLite, \<^verbatim>\<open>sqlite/random.c\<close>: RC4, keyed once with 256 bytes that
  the VFS is asked for. \<^verbatim>\<open>k\<close> is on the stack, so that what is in it before the VFS writes to it is an
  argument. The mutex is absent, as the enclave is built without threads.
\<close>

section \<open>The list of VFSes\<close>

text \<open>
  \<^verbatim>\<open>sqlite/os.c\<close>: the registered VFSes in the order of their links, each as its address and name.
  The one that is found without a name is the first. \<^theory_text>\<open>init\<close> is what
  \<^verbatim>\<open>sqlite3_initialize\<close> returns.
\<close>

type_synonym vfs = "addr \<times> string"

definition sqlite3_vfs_find :: "int \<Rightarrow> string option \<Rightarrow> vfs list \<Rightarrow> vfs option" where
  "sqlite3_vfs_find init zVfs vfsList =
     (if init \<noteq> 0 then None else List.find (\<lambda>v. case zVfs of None \<Rightarrow> True | Some z \<Rightarrow> z = snd v) vfsList)"

fun vfsUnlink :: "addr \<Rightarrow> vfs list \<Rightarrow> vfs list" where
  "vfsUnlink p [] = []"
| "vfsUnlink p (v # vs) = (if fst v = p then vs else v # vfsUnlink p vs)"

definition sqlite3_vfs_register :: "int \<Rightarrow> vfs \<Rightarrow> bool \<Rightarrow> vfs list \<Rightarrow> int \<times> vfs list" where
  "sqlite3_vfs_register init pVfs makeDflt vfsList =
     (if init \<noteq> 0 then (init, vfsList)
      else
        (let vs = vfsUnlink (fst pVfs) vfsList in
         (SQLITE_OK, if makeDflt \<or> vs = [] then pVfs # vs else hd vs # pVfs # tl vs)))"

definition sqlite3_vfs_unregister :: "vfs \<Rightarrow> vfs list \<Rightarrow> int \<times> vfs list" where
  "sqlite3_vfs_unregister pVfs vfsList = (SQLITE_OK, vfsUnlink (fst pVfs) vfsList)"

section \<open>The generator\<close>

record prng =
  isInit :: bool
  prng_i :: u8
  prng_j :: u8
  prng_s :: "u8 list"

definition prng_start :: prng where
  "prng_start = \<lparr>isInit = False, prng_i = 0, prng_j = 0, prng_s = replicate 256 0\<rparr>"

definition sqlite3OsRandomness :: "(bytes \<Rightarrow> int \<times> bytes) \<Rightarrow> bytes \<Rightarrow> int \<times> bytes" where
  "sqlite3OsRandomness xRandomness zBufOut = xRandomness zBufOut"

text \<open>The first loop of the seeding, and the second with its index.\<close>

definition prng_identity :: "u8 list" where
  "prng_identity = map of_nat [0..<256]"

fun prng_mix :: "bytes \<Rightarrow> nat list \<Rightarrow> u8 \<times> u8 list \<Rightarrow> u8 \<times> u8 list" where
  "prng_mix k [] (j, s) = (j, s)"
| "prng_mix k (i # is) (j, s) =
     (let j = j + (s ! i + k ! i);
          t = s ! unat j;
          s = s[unat j := s ! i];
          s = s[i := t]
      in prng_mix k is (j, s))"

definition prng_seed :: "bytes \<Rightarrow> prng" where
  "prng_seed k =
     (let (j, s) = prng_mix k [0..<256] (0, prng_identity)
      in \<lparr>isInit = True, prng_i = 0, prng_j = j, prng_s = s\<rparr>)"

definition prng_step :: "prng \<Rightarrow> u8 \<times> prng" where
  "prng_step p =
     (let i = prng_i p + 1;
          s = prng_s p;
          t = s ! unat i;
          j = prng_j p + t;
          s = s[unat i := s ! unat j];
          s = s[unat j := t];
          t = t + s ! unat i
      in (s ! unat t, p\<lparr>prng_i := i, prng_j := j, prng_s := s\<rparr>))"

text \<open>The \<^verbatim>\<open>do\<close> loop.\<close>

fun prng_bytes :: "nat \<Rightarrow> prng \<Rightarrow> bytes \<times> prng" where
  "prng_bytes 0 p = ([], p)"
| "prng_bytes (Suc N) p = (let (b, p) = prng_step p; (bs, p) = prng_bytes N p in (b # bs, p))"

text \<open>
  \<^theory_text>\<open>init\<close> is what \<^verbatim>\<open>sqlite3_initialize\<close> returns; \<^theory_text>\<open>None\<close> when the buffer is
  not written to. \<^theory_text>\<open>hasBuf\<close> tells whether there is one.
\<close>

definition sqlite3_randomness ::
    "int \<Rightarrow> (bytes \<Rightarrow> int \<times> bytes) \<Rightarrow> bytes \<Rightarrow> int \<Rightarrow> bool \<Rightarrow> prng \<Rightarrow> bytes option \<times> prng" where
  "sqlite3_randomness init xRandomness stack N hasBuf p =
     (if init \<noteq> 0 then (None, p)
      else if N \<le> 0 \<or> \<not> hasBuf then (None, p\<lparr>isInit := False\<rparr>)
      else
        (let p = (if isInit p then p else prng_seed (snd (sqlite3OsRandomness xRandomness stack)))
         in apfst Some (prng_bytes (nat N) p)))"

text \<open>Saving and restoring the state, for tests: the state, the saved one.\<close>

definition sqlite3PrngSaveState :: "prng \<times> prng \<Rightarrow> prng \<times> prng" where
  "sqlite3PrngSaveState st = (fst st, fst st)"

definition sqlite3PrngRestoreState :: "prng \<times> prng \<Rightarrow> prng \<times> prng" where
  "sqlite3PrngRestoreState st = (snd st, snd st)"

section \<open>A permutation of the bytes\<close>

definition permutation :: "u8 list \<Rightarrow> bool" where
  "permutation s \<longleftrightarrow> length s = 256 \<and> distinct s"

lemma permutation_swap:
  assumes "permutation s" "a < 256" "b < 256"
  shows "permutation (s[a := s ! b, b := s ! a])"
  using assms distinct_swap [of a s b] by (simp add: permutation_def)

lemma unat_byte: "unat (b :: u8) < 256"
  using unsigned_less [of b] by simp

lemma permutation_mix: "permutation s \<Longrightarrow> \<forall>i\<in>set is. i < 256 \<Longrightarrow> permutation (snd (prng_mix k is (j, s)))"
proof (induction k "is" "(j, s)" arbitrary: j s rule: prng_mix.induct)
  case (2 k i "is" j s)
  let ?j = "j + (s ! i + k ! i)"
  have "permutation (s[unat ?j := s ! i, i := s ! unat ?j])"
    using permutation_swap [OF 2(2), of "unat ?j" i] 2(3) unat_byte by simp
  then show ?case using 2 by (simp add: Let_def)
qed simp

lemma permutation_identity: "permutation prng_identity"
  by (auto simp: permutation_def prng_identity_def distinct_map inj_on_def word_unat_eq_iff unat_of_nat)

lemma permutation_seed: "permutation (prng_s (prng_seed k))"
  using permutation_mix [OF permutation_identity, of "[0..<256]" k 0]
  by (simp add: prng_seed_def split_beta)

lemma permutation_step: "permutation (prng_s p) \<Longrightarrow> permutation (prng_s (snd (prng_step p)))"
  using permutation_swap [of "prng_s p" "unat (prng_i p + 1)"] unat_byte
  by (simp add: prng_step_def Let_def)

lemma permutation_bytes: "permutation (prng_s p) \<Longrightarrow> permutation (prng_s (snd (prng_bytes N p)))"
  by (induction N arbitrary: p) (auto simp: split_beta Let_def permutation_step)

lemma prng_bytes_append:
  "prng_bytes (m + n) p = (fst (prng_bytes m p) @ fst (prng_bytes n (snd (prng_bytes m p))),
     snd (prng_bytes n (snd (prng_bytes m p))))"
  by (induction m arbitrary: p) (auto simp: split_beta Let_def)

lemma isInit_bytes [simp]: "isInit (snd (prng_bytes n p)) = isInit p"
  by (induction n arbitrary: p) (auto simp: split_beta Let_def prng_step_def)

lemma length_prng_bytes [simp]: "length (fst (prng_bytes n p)) = n"
  by (induction n arbitrary: p) (auto simp: split_beta Let_def)

section \<open>The generator in the enclave\<close>

text \<open>Requests one after the other, each with the bytes that happen to be on the stack.\<close>

fun prng_requests :: "(nat \<times> bytes) list \<Rightarrow> prng \<Rightarrow> bytes \<times> prng" where
  "prng_requests [] p = ([], p)"
| "prng_requests ((n, stack) # rs) p =
     (let (b, p) = sqlite3_randomness 0 sgxvfsRandomness stack (int n) True p;
          (bs, p) = prng_requests rs p
      in (the b @ bs, p))"

lemma prng_requests_init:
  "isInit p \<Longrightarrow> \<forall>r\<in>set rs. 0 < fst r \<Longrightarrow>
   prng_requests rs p = prng_bytes (sum_list (map fst rs)) p"
proof (induction rs arbitrary: p)
  case (Cons r rs)
  obtain n st where r: "r = (n, st)" by force
  show ?case using Cons.prems Cons.IH [of "snd (prng_bytes n p)"]
    by (simp add: r sqlite3_randomness_def prng_bytes_append split_beta)
qed simp

text \<open>
  C22: The enclave adds no randomness to the random numbers of SQLite: the VFS of the enclave, which is the
  one that \<^verbatim>\<open>sqlite3_vfs_find(0)\<close> finds once it is registered, leaves the buffer for the key as it is.
  All numbers, whatever the sizes of the requests, are the RC4 stream of the 256 bytes that were on the
  stack of the first of them. The state of the generator stays a permutation of the bytes throughout.
\<close>

theorem random_numbers_from_stack:
  assumes "rs \<noteq> []" "\<forall>r\<in>set rs. 0 < fst r"
  shows "sqlite3_vfs_find 0 None (snd (sqlite3_vfs_register 0 sgx False [])) = Some sgx
    \<and> fst (prng_requests rs prng_start) = fst (prng_bytes (sum_list (map fst rs)) (prng_seed (snd (hd rs))))
    \<and> permutation (prng_s (snd (prng_requests rs prng_start)))"
proof -
  obtain n stack rs' where rs: "rs = (n, stack) # rs'" using assms(1) by (metis list.exhaust surj_pair)
  have "prng_requests rs prng_start = prng_bytes (sum_list (map fst rs)) (prng_seed stack)"
    using assms(2) prng_requests_init [of "snd (prng_bytes n (prng_seed stack))" rs']
    by (simp add: rs sqlite3_randomness_def prng_start_def sqlite3OsRandomness_def sgxvfsRandomness_def
        prng_bytes_append split_beta prng_seed_def)
  then show ?thesis
    using permutation_bytes [OF permutation_seed, of "sum_list (map fst rs)" stack]
    by (simp add: rs sqlite3_vfs_find_def sqlite3_vfs_register_def)
qed

theorem random_numbers_from_stack_witness:
  "fst (prng_requests [(8, replicate 256 0), (8, replicate 256 7)] prng_start) =
     fst (prng_bytes 16 (prng_seed (replicate 256 0)))"
  using random_numbers_from_stack [of "[(8, replicate 256 0), (8, replicate 256 7)]" "(1, ''sgx'')"] by simp

end
