(* ===== verification/PageCache.thy ===== *)
theory PageCache
  imports Prelude
begin

text \<open>
  The page cache, \<^verbatim>\<open>sqlite/pcache1.c\<close>, in the mode of the enclave build: one group for each cache
  (\<^verbatim>\<open>separateCache\<close>), no memory configured for pages, no threads, and headers apart from the pages
  (\<^verbatim>\<open>SQLITE_PCACHE_SEPARATE_HEADER\<close>). The cache and its group are one record. Pages live in a heap:
  a page is in at most one chain of the hash table, linked by \<^verbatim>\<open>pNext\<close>, and at most once on the LRU
  list, so that both are lists of addresses, the front of the LRU list behind \<^verbatim>\<open>lru.pLruNext\<close> and
  its end behind \<^verbatim>\<open>lru.pLruPrev\<close>. Numbers of pages are natural; one that would go below zero is a
  fault, as are a page that is not allocated and an assertion that fails.
\<close>

section \<open>Pages and caches\<close>

text \<open>
  \<^theory_text>\<open>pBuf\<close> is what the buffer of the page holds, \<^theory_text>\<open>pExtra\<close> the first pointer of the
  extension behind the header, 0 when it is NULL.
\<close>

record 'd PgHdr1 =
  pBuf :: 'd
  pExtra :: nat
  iKey :: u32
  isPinned :: bool
  isBulkLocal :: bool

record 'd PCache1 =
  szPage :: nat
  szExtra :: nat
  szAlloc :: nat
  bPurgeable :: bool
  nMin :: u32
  nMax :: u32
  n90pct :: u32
  iMaxKey :: u32
  nRecyclable :: nat
  nPage :: nat
  apHash :: "addr list list"
  pFree :: "addr list"
  pBulk :: bool
  nMaxPage :: u32
  nMinPage :: u32
  mxPinned :: u32
  nCurrentPage :: nat
  lru :: "addr list"
  pages :: "addr \<Rightarrow> 'd PgHdr1 option"
  pages_end :: addr

abbreviation nHash :: "'d PCache1 \<Rightarrow> nat" where
  "nHash s \<equiv> length (apHash s)"

text \<open>
  What a call meets: whether a larger hash table and a page can be had, the size of the block that
  \<^verbatim>\<open>sqlite3Malloc\<close> gives for a bulk allocation, whether the heap is nearly full when the two tests
  ask, what is in fresh memory, and the configured number of pages to allocate in bulk.
\<close>

record 'd memory =
  hash_mem :: bool
  page_mem :: bool
  bulk_mem :: "int \<Rightarrow> int option"
  nearly_full :: bool
  nearly_full_later :: bool
  garbage :: "'d PgHdr1"
  nInitPage :: int

datatype cache_fault = BadPage | BadAssert | CountWraps | EndlessLoop

type_synonym 'a cres = "cache_fault + 'a"

definition page_at :: "'d PCache1 \<Rightarrow> addr \<Rightarrow> 'd PgHdr1 cres" where
  "page_at s a = (case pages s a of None \<Rightarrow> Inl BadPage | Some p \<Rightarrow> Inr p)"

definition hash_slot :: "'d PCache1 \<Rightarrow> u32 \<Rightarrow> nat" where
  "hash_slot s k = unat k mod nHash s"

section \<open>Allocation of pages\<close>

text \<open>The loop that puts the pages of a bulk allocation on the free list, from the first one on.\<close>

fun bulk_loop :: "'d PgHdr1 \<Rightarrow> nat \<Rightarrow> 'd PCache1 \<Rightarrow> 'd PCache1" where
  "bulk_loop g 0 s = s"
| "bulk_loop g (Suc n) s =
     (let a = pages_end s in
      bulk_loop g n (s\<lparr>pages := (pages s)(a \<mapsto> g\<lparr>isBulkLocal := True\<rparr>), pages_end := Suc a, pFree := a # pFree s\<rparr>))"

definition pcache1InitBulk :: "'d memory \<Rightarrow> 'd PCache1 \<Rightarrow> bool \<times> 'd PCache1" where
  "pcache1InitBulk m s =
     (if nInitPage m = 0 then (False, s)
      else if nMax s < 3 then (False, s)
      else
        (let szBulk = (if 0 < nInitPage m then int (szAlloc s) * nInitPage m else - 1024 * nInitPage m);
             most = int (szAlloc s) * uint (nMax s);
             szBulk = (if most < szBulk then most else szBulk)
         in case bulk_mem m szBulk of
              None \<Rightarrow> (pFree s \<noteq> [], s\<lparr>pBulk := False\<rparr>)
            | Some sz \<Rightarrow>
                (let s = bulk_loop (garbage m) (nat (sz div int (szAlloc s))) (s\<lparr>pBulk := True\<rparr>)
                 in (pFree s \<noteq> [], s))))"

definition pcache1AllocPage :: "'d memory \<Rightarrow> 'd PCache1 \<Rightarrow> addr option \<times> 'd PCache1" where
  "pcache1AllocPage m s =
     (let (free, s) = (if pFree s \<noteq> [] then (True, s) else if nPage s = 0 then pcache1InitBulk m s else (False, s));
          (p, s) =
            (if free then (Some (hd (pFree s)), s\<lparr>pFree := tl (pFree s)\<rparr>)
             else if page_mem m then
               (let a = pages_end s in
                (Some a, s\<lparr>pages := (pages s)(a \<mapsto> (garbage m)\<lparr>isBulkLocal := False\<rparr>), pages_end := Suc a\<rparr>))
             else (None, s))
      in (p, if p \<noteq> None \<and> bPurgeable s then s\<lparr>nCurrentPage := nCurrentPage s + 1\<rparr> else s))"

definition pcache1FreePage :: "addr \<Rightarrow> 'd PCache1 \<Rightarrow> 'd PCache1 cres" where
  "pcache1FreePage a s =
     bindE (page_at s a) (\<lambda>p.
       if bPurgeable s \<and> nCurrentPage s = 0 then Inl CountWraps
       else
         (let s = (if isBulkLocal p then s\<lparr>pFree := a # pFree s\<rparr> else s\<lparr>pages := (pages s)(a := None)\<rparr>) in
          Inr (if bPurgeable s then s\<lparr>nCurrentPage := nCurrentPage s - 1\<rparr> else s)))"

text \<open>Freeing the bulk allocation frees every page in it.\<close>

definition free_bulk :: "'d PCache1 \<Rightarrow> 'd PCache1" where
  "free_bulk s = s\<lparr>pBulk := False,
     pages := (\<lambda>a. case pages s a of None \<Rightarrow> None | Some p \<Rightarrow> if isBulkLocal p then None else Some p)\<rparr>"

section \<open>The hash table and the LRU list\<close>

fun rehash_chain :: "'d PCache1 \<Rightarrow> addr list \<Rightarrow> addr list list \<Rightarrow> addr list list cres" where
  "rehash_chain s [] apNew = Inr apNew"
| "rehash_chain s (a # as) apNew =
     bindE (page_at s a) (\<lambda>p.
       let h = unat (iKey p) mod length apNew in rehash_chain s as (apNew[h := a # apNew ! h]))"

fun rehash_slots :: "'d PCache1 \<Rightarrow> addr list list \<Rightarrow> addr list list \<Rightarrow> addr list list cres" where
  "rehash_slots s [] apNew = Inr apNew"
| "rehash_slots s (c # cs) apNew = bindE (rehash_chain s c apNew) (rehash_slots s cs)"

definition pcache1ResizeHash :: "'d memory \<Rightarrow> 'd PCache1 \<Rightarrow> 'd PCache1 cres" where
  "pcache1ResizeHash m s =
     (let nNew = nHash s * 2;
          nNew = (if nNew < 256 then 256 else nNew)
      in if hash_mem m then
           bindE (rehash_slots s (apHash s) (replicate nNew [])) (\<lambda>ap. Inr (s\<lparr>apHash := ap\<rparr>))
         else Inr s)"

definition pcache1PinPage :: "addr \<Rightarrow> 'd PCache1 \<Rightarrow> 'd PCache1 cres" where
  "pcache1PinPage a s =
     bindE (page_at s a) (\<lambda>p.
       if isPinned p \<or> a \<notin> set (lru s) then Inl BadAssert
       else if nRecyclable s = 0 then Inl CountWraps
       else Inr (s\<lparr>lru := remove1 a (lru s), pages := (pages s)(a \<mapsto> p\<lparr>isPinned := True\<rparr>),
                   nRecyclable := nRecyclable s - 1\<rparr>))"

text \<open>The walk along the chain follows NULL when the page is not on it.\<close>

definition pcache1RemoveFromHash :: "addr \<Rightarrow> bool \<Rightarrow> 'd PCache1 \<Rightarrow> 'd PCache1 cres" where
  "pcache1RemoveFromHash a freeFlag s =
     bindE (page_at s a) (\<lambda>p.
       let h = hash_slot s (iKey p) in
       if a \<notin> set (apHash s ! h) then Inl BadPage
       else if nPage s = 0 then Inl CountWraps
       else
         (let s = s\<lparr>apHash := (apHash s)[h := remove1 a (apHash s ! h)], nPage := nPage s - 1\<rparr> in
          if freeFlag then pcache1FreePage a s else Inr s))"

text \<open>The loop over the pages at the end of the LRU list, last one first.\<close>

fun enforce_loop :: "addr list \<Rightarrow> 'd PCache1 \<Rightarrow> 'd PCache1 cres" where
  "enforce_loop [] s = Inr s"
| "enforce_loop (p # ps) s =
     (if unat (nMaxPage s) < nCurrentPage s then
        bindE (pcache1PinPage p s) (\<lambda>s. bindE (pcache1RemoveFromHash p True s) (enforce_loop ps))
      else Inr s)"

definition pcache1EnforceMaxPage :: "'d PCache1 \<Rightarrow> 'd PCache1 cres" where
  "pcache1EnforceMaxPage s =
     bindE (enforce_loop (rev (lru s)) s) (\<lambda>s.
       Inr (if nPage s = 0 \<and> pBulk s then (free_bulk s)\<lparr>pFree := []\<rparr> else s))"

text \<open>A chain without the pages from the limit on, and all chains from \<^theory_text>\<open>h\<close> to the last one.\<close>

fun truncate_chain :: "u32 \<Rightarrow> addr list \<Rightarrow> 'd PCache1 \<Rightarrow> (addr list \<times> 'd PCache1) cres" where
  "truncate_chain iLimit [] s = Inr ([], s)"
| "truncate_chain iLimit (a # as) s =
     bindE (page_at s a) (\<lambda>p.
       if iLimit \<le> iKey p then
         (if nPage s = 0 then Inl CountWraps
          else
            (let s = s\<lparr>nPage := nPage s - 1\<rparr> in
             bindE (if isPinned p then Inr s else pcache1PinPage a s) (\<lambda>s.
             bindE (pcache1FreePage a s) (truncate_chain iLimit as))))
       else bindE (truncate_chain iLimit as s) (\<lambda>(c, s). Inr (a # c, s)))"

fun truncate_slots :: "nat \<Rightarrow> u32 \<Rightarrow> nat \<Rightarrow> nat \<Rightarrow> 'd PCache1 \<Rightarrow> 'd PCache1 cres" where
  "truncate_slots 0 iLimit h iStop s = Inl EndlessLoop"
| "truncate_slots (Suc n) iLimit h iStop s =
     bindE (truncate_chain iLimit (apHash s ! h) s) (\<lambda>(c, s).
       let s = s\<lparr>apHash := (apHash s)[h := c]\<rparr> in
       if h = iStop then Inr s else truncate_slots n iLimit ((h + 1) mod nHash s) iStop s)"

definition pcache1TruncateUnsafe :: "u32 \<Rightarrow> 'd PCache1 \<Rightarrow> 'd PCache1 cres" where
  "pcache1TruncateUnsafe iLimit s =
     (if iMaxKey s < iLimit \<or> nHash s = 0 then Inl BadAssert
      else
        (let (h, iStop) =
               (if unat (iMaxKey s - iLimit) < nHash s then (hash_slot s iLimit, hash_slot s (iMaxKey s))
                else (nHash s div 2, nHash s div 2 - 1))
         in truncate_slots (nHash s) iLimit h iStop s))"

section \<open>The methods of a cache\<close>

definition sizeof_PgHdr1 :: nat where "sizeof_PgHdr1 = 56"

text \<open>\<^theory_text>\<open>pcache1_end\<close> is the part of \<^verbatim>\<open>pcache1Destroy\<close> before the cache itself is freed.\<close>

definition pcache1_end :: "'d PCache1 \<Rightarrow> 'd PCache1 cres" where
  "pcache1_end s =
     (if \<not> (bPurgeable s \<or> nMax s = 0 \<and> nMin s = 0) then Inl BadAssert
      else bindE (if nPage s \<noteq> 0 then pcache1TruncateUnsafe 0 s else Inr s) (\<lambda>s.
        if nMaxPage s < nMax s \<or> nMinPage s < nMin s then Inl BadAssert
        else
          (let s = s\<lparr>nMaxPage := nMaxPage s - nMax s, nMinPage := nMinPage s - nMin s\<rparr>;
               s = s\<lparr>mxPinned := nMaxPage s + 10 - nMinPage s\<rparr>
           in pcache1EnforceMaxPage s)))"

text \<open>The pages that are still allocated when the cache is gone.\<close>

definition pcache1Destroy :: "'d PCache1 \<Rightarrow> (addr \<Rightarrow> 'd PgHdr1 option) cres" where
  "pcache1Destroy s = bindE (pcache1_end s) (\<lambda>s. Inr (pages (if pBulk s then free_bulk s else s)))"

text \<open>\<^theory_text>\<open>None\<close> when memory for the cache or its hash table is not to be had.\<close>

definition pcache1Create :: "nat \<Rightarrow> nat \<Rightarrow> bool \<Rightarrow> bool \<Rightarrow> 'd memory \<Rightarrow> 'd PCache1 option cres" where
  "pcache1Create page_size extra purgeable cache_mem m =
     (if \<not> cache_mem then Inr None
      else
        (let s = \<lparr>szPage = page_size, szExtra = extra, szAlloc = page_size + extra + sizeof_PgHdr1,
               bPurgeable = purgeable, nMin = 0, nMax = 0, n90pct = 0, iMaxKey = 0, nRecyclable = 0, nPage = 0,
               apHash = [], pFree = [], pBulk = False, nMaxPage = 0, nMinPage = 0, mxPinned = 10,
               nCurrentPage = 0, lru = [], pages = Map.empty, pages_end = 0\<rparr>
         in bindE (pcache1ResizeHash m s) (\<lambda>s.
            let s = (if purgeable
                     then (let s = s\<lparr>nMin := 10, nMinPage := nMinPage s + 10\<rparr>
                           in s\<lparr>mxPinned := nMaxPage s + 10 - nMinPage s\<rparr>)
                     else s)
            in if nHash s = 0 then bindE (pcache1Destroy s) (\<lambda>_. Inr None) else Inr (Some s))))"

definition pcache1Cachesize :: "u32 \<Rightarrow> 'd PCache1 \<Rightarrow> 'd PCache1 cres" where
  "pcache1Cachesize mx s =
     (if bPurgeable s then
        (let s = s\<lparr>nMaxPage := nMaxPage s + (mx - nMax s)\<rparr>;
             s = s\<lparr>mxPinned := nMaxPage s + 10 - nMinPage s, nMax := mx, n90pct := mx * 9 div 10\<rparr>
         in pcache1EnforceMaxPage s)
      else Inr s)"

definition pcache1Shrink :: "'d PCache1 \<Rightarrow> 'd PCache1 cres" where
  "pcache1Shrink s =
     (if bPurgeable s then
        (let savedMaxPage = nMaxPage s in
         bindE (pcache1EnforceMaxPage (s\<lparr>nMaxPage := 0\<rparr>)) (\<lambda>s. Inr (s\<lparr>nMaxPage := savedMaxPage\<rparr>)))
      else Inr s)"

definition pcache1Pagecount :: "'d PCache1 \<Rightarrow> nat" where
  "pcache1Pagecount s = nPage s"

text \<open>Step 4 of the fetch: a page to use again, taken out of the hash table and off the LRU list.\<close>

definition recycle_page :: "bool \<Rightarrow> 'd PCache1 \<Rightarrow> (addr option \<times> 'd PCache1) cres" where
  "recycle_page under_pressure s =
     (if bPurgeable s \<and> lru s \<noteq> [] \<and> (unat (nMax s) \<le> nPage s + 1 \<or> under_pressure) then
        (let pPage = last (lru s) in
         bindE (pcache1RemoveFromHash pPage False s) (\<lambda>s.
         bindE (pcache1PinPage pPage s) (\<lambda>s. Inr (Some pPage, s))))
      else Inr (None, s))"

definition pcache1FetchStage2 :: "'d memory \<Rightarrow> u32 \<Rightarrow> nat \<Rightarrow> 'd PCache1 \<Rightarrow> (addr option \<times> 'd PCache1) cres" where
  "pcache1FetchStage2 m key createFlag s =
     (if nPage s < nRecyclable s \<or> mxPinned s \<noteq> nMaxPage s + 10 - nMinPage s \<or> n90pct s \<noteq> nMax s * 9 div 10
      then Inl BadAssert
      else
        (let nPinned = nPage s - nRecyclable s in
         if createFlag = 1 \<and>
            (unat (mxPinned s) \<le> nPinned \<or> unat (n90pct s) \<le> nPinned \<or> nearly_full m \<and> nRecyclable s < nPinned)
         then Inr (None, s)
         else
           bindE (if nHash s \<le> nPage s then pcache1ResizeHash m s else Inr s) (\<lambda>s.
           bindE (recycle_page (nearly_full_later m) s) (\<lambda>(pPage, s).
             let (pPage, s) = (case pPage of None \<Rightarrow> pcache1AllocPage m s | Some a \<Rightarrow> (Some a, s)) in
             case pPage of
               None \<Rightarrow> Inr (None, s)
             | Some a \<Rightarrow>
                 bindE (page_at s a) (\<lambda>p.
                   let h = hash_slot s key;
                       s = s\<lparr>nPage := nPage s + 1,
                             pages := (pages s)(a \<mapsto> p\<lparr>iKey := key, isPinned := True, pExtra := 0\<rparr>),
                             apHash := (apHash s)[h := a # apHash s ! h]\<rparr>
                   in Inr (Some a, if iMaxKey s < key then s\<lparr>iMaxKey := key\<rparr> else s))))))"

fun chain_find :: "'d PCache1 \<Rightarrow> u32 \<Rightarrow> addr list \<Rightarrow> addr option cres" where
  "chain_find s key [] = Inr None"
| "chain_find s key (a # as) =
     bindE (page_at s a) (\<lambda>p. if iKey p \<noteq> key then chain_find s key as else Inr (Some a))"

definition pcache1Fetch :: "'d memory \<Rightarrow> u32 \<Rightarrow> nat \<Rightarrow> 'd PCache1 \<Rightarrow> (addr option \<times> 'd PCache1) cres" where
  "pcache1Fetch m key createFlag s =
     (if nHash s = 0 \<or> \<not> bPurgeable s \<and> createFlag = 1 \<or> nMin s \<noteq> (if bPurgeable s then 10 else 0) then Inl BadAssert
      else
        bindE (chain_find s key (apHash s ! hash_slot s key)) (\<lambda>pPage.
          case pPage of
            Some a \<Rightarrow>
              bindE (page_at s a) (\<lambda>p.
                if \<not> isPinned p then bindE (pcache1PinPage a s) (\<lambda>s. Inr (Some a, s)) else Inr (Some a, s))
          | None \<Rightarrow> if createFlag \<noteq> 0 then pcache1FetchStage2 m key createFlag s else Inr (None, s)))"

definition pcache1Unpin :: "addr \<Rightarrow> bool \<Rightarrow> 'd PCache1 \<Rightarrow> 'd PCache1 cres" where
  "pcache1Unpin a reuseUnlikely s =
     bindE (page_at s a) (\<lambda>p.
       if \<not> isPinned p \<or> a \<in> set (lru s) then Inl BadAssert
       else if reuseUnlikely \<or> unat (nMaxPage s) < nCurrentPage s then pcache1RemoveFromHash a True s
       else Inr (s\<lparr>lru := a # lru s, nRecyclable := nRecyclable s + 1,
                   pages := (pages s)(a \<mapsto> p\<lparr>isPinned := False\<rparr>)\<rparr>))"

definition pcache1Rekey :: "addr \<Rightarrow> u32 \<Rightarrow> u32 \<Rightarrow> 'd PCache1 \<Rightarrow> 'd PCache1 cres" where
  "pcache1Rekey a iOld iNew s =
     bindE (page_at s a) (\<lambda>p.
       if iKey p \<noteq> iOld then Inl BadAssert
       else
         (let h = hash_slot s iOld in
          if a \<notin> set (apHash s ! h) then Inl BadPage
          else
            (let s = s\<lparr>apHash := (apHash s)[h := remove1 a (apHash s ! h)]\<rparr>;
                 h = hash_slot s iNew;
                 s = s\<lparr>pages := (pages s)(a \<mapsto> p\<lparr>iKey := iNew\<rparr>), apHash := (apHash s)[h := a # apHash s ! h]\<rparr>
             in Inr (if iMaxKey s < iNew then s\<lparr>iMaxKey := iNew\<rparr> else s))))"

definition pcache1Truncate :: "u32 \<Rightarrow> 'd PCache1 \<Rightarrow> 'd PCache1 cres" where
  "pcache1Truncate iLimit s =
     (if iLimit \<le> iMaxKey s
      then bindE (pcache1TruncateUnsafe iLimit s) (\<lambda>s. Inr (s\<lparr>iMaxKey := iLimit - 1\<rparr>))
      else Inr s)"

end
