(* ===== verification/PageCacheInv.thy ===== *)
theory PageCacheInv
  imports PageCache
begin

text \<open>
  The structure of a page cache (\<^verbatim>\<open>sqlite/pcache1.c\<close>): \<^theory_text>\<open>cache_ok\<close> relates the hash table,
  the LRU list, the free list and the counters, up to pages that are just being moved;
  \<^theory_text>\<open>view\<close> is what a client sees. Every internal operation keeps the structure, and does to
  the view what is said here.
\<close>

section \<open>The structure of a cache\<close>

definition hashed :: "'d PCache1 \<Rightarrow> addr set" where
  "hashed s = set (concat (apHash s))"

definition view :: "'d PCache1 \<Rightarrow> addr \<Rightarrow> 'd PgHdr1 option" where
  "view s a = (if a \<in> hashed s then pages s a else None)"

text \<open>The chains hold the pages with their hash values, each once, and no two with the same key.\<close>

definition chains_ok :: "'d PCache1 \<Rightarrow> bool" where
  "chains_ok s \<longleftrightarrow> 256 \<le> nHash s
    \<and> (\<forall>h < nHash s. distinct (apHash s ! h) \<and> (\<forall>a \<in> set (apHash s ! h). \<exists>p. pages s a = Some p \<and> hash_slot s (iKey p) = h))
    \<and> (\<forall>a b p q. view s a = Some p \<longrightarrow> view s b = Some q \<longrightarrow> iKey p = iKey q \<longrightarrow> a = b)
    \<and> (\<forall>a p. view s a = Some p \<longrightarrow> iKey p \<le> iMaxKey s)
    \<and> nPage s = card (hashed s)"

definition lru_list_ok :: "'d PCache1 \<Rightarrow> bool" where
  "lru_list_ok s \<longleftrightarrow> distinct (lru s) \<and> nRecyclable s = length (lru s)
    \<and> (\<forall>a. a \<in> set (lru s) \<longleftrightarrow> (\<exists>p. view s a = Some p \<and> \<not> isPinned p))"

text \<open>
  \<^theory_text>\<open>F\<close> are the pages in nobody's hands. Every allocated page is in the table, on the free
  list or one of them, and pages of the bulk allocation exist only while there is one.
\<close>

definition heap_ok :: "addr set \<Rightarrow> 'd PCache1 \<Rightarrow> bool" where
  "heap_ok F s \<longleftrightarrow> distinct (pFree s) \<and> set (pFree s) \<inter> hashed s = {} \<and> set (pFree s) \<inter> F = {}
    \<and> F \<inter> hashed s = {} \<and> finite F
    \<and> dom (pages s) = hashed s \<union> set (pFree s) \<union> F
    \<and> (\<forall>a \<in> set (pFree s). \<exists>p. pages s a = Some p \<and> isBulkLocal p)
    \<and> (\<forall>a p. pages s a = Some p \<longrightarrow> isBulkLocal p \<longrightarrow> pBulk s)
    \<and> (\<forall>a \<in> dom (pages s). a < pages_end s)
    \<and> nCurrentPage s = (if bPurgeable s then card (hashed s) + card F else 0)"

definition limits_ok :: "'d PCache1 \<Rightarrow> bool" where
  "limits_ok s \<longleftrightarrow> mxPinned s = nMaxPage s + 10 - nMinPage s \<and> n90pct s = nMax s * 9 div 10
    \<and> nMaxPage s = nMax s \<and> nMinPage s = nMin s \<and> (\<not> bPurgeable s \<longrightarrow> nMax s = 0)
    \<and> nMin s = (if bPurgeable s then 10 else 0)"

definition cache_ok :: "addr set \<Rightarrow> 'd PCache1 \<Rightarrow> bool" where
  "cache_ok F s \<longleftrightarrow> chains_ok s \<and> lru_list_ok s \<and> heap_ok F s"

lemmas cache_defs = cache_ok_def chains_ok_def lru_list_ok_def heap_ok_def

lemma finite_entries [simp]: "finite (hashed s)"
  by (simp add: hashed_def)

lemma hash_slot_less: "0 < nHash s \<Longrightarrow> hash_slot s k < nHash s"
  by (simp add: hash_slot_def)

lemma in_entries: "a \<in> hashed s \<longleftrightarrow> (\<exists>h < nHash s. a \<in> set (apHash s ! h))"
  unfolding hashed_def by (simp add: set_conv_nth [of "apHash s"]) blast

lemma hashed_frame [simp]:
  "hashed (s\<lparr>lru := l\<rparr>) = hashed s" "hashed (s\<lparr>pages := h\<rparr>) = hashed s" "hashed (s\<lparr>nRecyclable := n\<rparr>) = hashed s"
  "hashed (s\<lparr>nPage := n\<rparr>) = hashed s" "hashed (s\<lparr>pFree := l\<rparr>) = hashed s" "hashed (s\<lparr>nCurrentPage := n\<rparr>) = hashed s"
  "hashed (s\<lparr>iMaxKey := k\<rparr>) = hashed s" "hashed (s\<lparr>pBulk := b\<rparr>) = hashed s" "hashed (s\<lparr>pages_end := n\<rparr>) = hashed s"
  "hashed (s\<lparr>nMaxPage := k\<rparr>) = hashed s" "hashed (s\<lparr>nMinPage := k\<rparr>) = hashed s" "hashed (s\<lparr>mxPinned := k\<rparr>) = hashed s"
  "hashed (s\<lparr>nMax := k\<rparr>) = hashed s" "hashed (s\<lparr>n90pct := k\<rparr>) = hashed s" "hashed (s\<lparr>nMin := k\<rparr>) = hashed s"
  by (simp_all add: hashed_def)

text \<open>A page of the table is in the chain of its key.\<close>

lemma entry_page:
  assumes "chains_ok s" "a \<in> hashed s"
  obtains p where "pages s a = Some p" "view s a = Some p" "a \<in> set (apHash s ! hash_slot s (iKey p))" "hash_slot s (iKey p) < nHash s"
proof -
  obtain h where h: "h < nHash s" "a \<in> set (apHash s ! h)" using assms(2) by (auto simp: in_entries)
  have "\<forall>h < nHash s. \<forall>a \<in> set (apHash s ! h). \<exists>p. pages s a = Some p \<and> hash_slot s (iKey p) = h"
    using assms(1) by (simp add: chains_ok_def)
  with h obtain p where "pages s a = Some p" "hash_slot s (iKey p) = h" by blast
  then show ?thesis using that h assms(2) by (simp add: view_def)
qed

lemma entry_slot:
  "chains_ok s \<Longrightarrow> h < nHash s \<Longrightarrow> a \<in> set (apHash s ! h) \<Longrightarrow> pages s a = Some p \<Longrightarrow> hash_slot s (iKey p) = h"
  by (fastforce simp: chains_ok_def)

lemma view_eq: "view s a = Some p \<longleftrightarrow> a \<in> hashed s \<and> pages s a = Some p"
  by (simp add: view_def)

lemma dom_view: "chains_ok s \<Longrightarrow> dom (view s) = hashed s"
  by (auto simp: view_def dom_def split: if_splits) (metis entry_page)

text \<open>The table without a page, and with one more.\<close>

lemma hashed_remove:
  assumes "chains_ok s" "a \<in> set (apHash s ! h)" "h < nHash s"
  shows "hashed (s\<lparr>apHash := (apHash s)[h := remove1 a (apHash s ! h)]\<rparr>) = hashed s - {a}"
proof -
  have d: "set (remove1 a (apHash s ! h)) = set (apHash s ! h) - {a}"
    using assms by (simp add: chains_ok_def)
  have other: "a \<notin> set (apHash s ! k)" if "k < nHash s" "k \<noteq> h" for k
  proof
    assume "a \<in> set (apHash s ! k)"
    moreover obtain p where "pages s a = Some p" using assms by (fastforce simp: chains_ok_def)
    ultimately show False using entry_slot [OF assms(1)] assms(2,3) that by metis
  qed
  show ?thesis
  proof (rule set_eqI)
    fix b
    show "b \<in> hashed (s\<lparr>apHash := (apHash s)[h := remove1 a (apHash s ! h)]\<rparr>) \<longleftrightarrow> b \<in> hashed s - {a}"
      using other assms(3) d by (auto simp: in_entries nth_list_update)
  qed
qed

lemma hashed_insert:
  "h < nHash s \<Longrightarrow> hashed (s\<lparr>apHash := (apHash s)[h := a # apHash s ! h]\<rparr>) = insert a (hashed s)"
  by (auto simp: in_entries nth_list_update split: if_splits)

text \<open>What the work on pages leaves alone.\<close>

definition same_limits :: "'d PCache1 \<Rightarrow> 'd PCache1 \<Rightarrow> bool" where
  "same_limits s s' \<longleftrightarrow> bPurgeable s' = bPurgeable s \<and> szAlloc s' = szAlloc s \<and> nMin s' = nMin s \<and> nMax s' = nMax s
     \<and> n90pct s' = n90pct s \<and> nMaxPage s' = nMaxPage s \<and> nMinPage s' = nMinPage s \<and> mxPinned s' = mxPinned s"

lemma same_limits_refl [simp]: "same_limits s s"
  by (simp add: same_limits_def)

lemma same_limits_trans: "same_limits s t \<Longrightarrow> same_limits t u \<Longrightarrow> same_limits s u"
  by (simp add: same_limits_def)

lemma same_limits_ok: "same_limits s s' \<Longrightarrow> limits_ok s' = limits_ok s"
  by (simp add: same_limits_def limits_ok_def)

section \<open>Moving a page\<close>

text \<open>Pinning a page of the LRU list.\<close>

definition pin_state :: "addr \<Rightarrow> 'd PCache1 \<Rightarrow> 'd PCache1" where
  "pin_state a s = s\<lparr>lru := remove1 a (lru s), pages := (pages s)(a \<mapsto> (the (pages s a))\<lparr>isPinned := True\<rparr>),
     nRecyclable := nRecyclable s - 1\<rparr>"

lemma lru_page:
  assumes "cache_ok F s" "a \<in> set (lru s)"
  obtains p where "pages s a = Some p" "view s a = Some p" "\<not> isPinned p" "a \<in> hashed s" "nRecyclable s \<noteq> 0"
proof -
  obtain p where "view s a = Some p" "\<not> isPinned p" using assms by (auto simp: cache_defs)
  moreover have "nRecyclable s \<noteq> 0" using assms by (cases "lru s") (auto simp: cache_ok_def lru_list_ok_def)
  ultimately show ?thesis using that by (auto simp: view_eq)
qed

lemma PinPage_eq:
  assumes "pages s a = Some p" "\<not> isPinned p" "a \<in> set (lru s)" "nRecyclable s \<noteq> 0"
  shows "pcache1PinPage a s = Inr (pin_state a s)"
  using assms by (simp add: pcache1PinPage_def page_at_def pin_state_def)

lemma view_pin: "view s a = Some p \<Longrightarrow> view (pin_state a s) = (view s)(a \<mapsto> p\<lparr>isPinned := True\<rparr>)"
  by (auto simp: view_def pin_state_def split: if_splits)

lemma pin_state_simps [simp]:
  "apHash (pin_state a s) = apHash s" "hashed (pin_state a s) = hashed s" "hash_slot (pin_state a s) k = hash_slot s k"
  "lru (pin_state a s) = remove1 a (lru s)" "nCurrentPage (pin_state a s) = nCurrentPage s" "nPage (pin_state a s) = nPage s"
  "same_limits s (pin_state a s)" "pFree (pin_state a s) = pFree s" "pBulk (pin_state a s) = pBulk s" "iMaxKey (pin_state a s) = iMaxKey s"
  by (simp_all add: pin_state_def hashed_def hash_slot_def same_limits_def)

lemma pin_state_ok:
  assumes ok: "cache_ok F s" and "a \<in> set (lru s)"
  shows "cache_ok F (pin_state a s)"
proof -
  obtain p where p: "pages s a = Some p" "view s a = Some p" "\<not> isPinned p" "a \<in> hashed s" "nRecyclable s \<noteq> 0"
    using lru_page [OF assms] .
  have v: "view (pin_state a s) = (view s)(a \<mapsto> p\<lparr>isPinned := True\<rparr>)" by (rule view_pin [OF p(2)])
  have pg: "pages (pin_state a s) = (pages s)(a \<mapsto> p\<lparr>isPinned := True\<rparr>)" by (simp add: pin_state_def p)
  have "chains_ok (pin_state a s)"
    using ok p unfolding chains_ok_def cache_ok_def v pg by (fastforce split: if_splits)
  moreover have "lru_list_ok (pin_state a s)"
    using ok p unfolding lru_list_ok_def cache_ok_def v by (auto simp: pin_state_def length_remove1 split: if_splits)
  moreover have "heap_ok F (pin_state a s)"
    using ok p unfolding heap_ok_def cache_ok_def pg by (auto simp: pin_state_def split: if_splits)
  ultimately show ?thesis by (simp add: cache_ok_def)
qed

text \<open>Taking a pinned page out of the table; it is in nobody's hands then.\<close>

definition out_state :: "addr \<Rightarrow> 'd PCache1 \<Rightarrow> 'd PCache1" where
  "out_state a s = (let h = hash_slot s (iKey (the (pages s a))) in
     s\<lparr>apHash := (apHash s)[h := remove1 a (apHash s ! h)], nPage := nPage s - 1\<rparr>)"

lemma out_state_simps [simp]:
  "pages (out_state a s) = pages s" "lru (out_state a s) = lru s" "nRecyclable (out_state a s) = nRecyclable s"
  "nHash (out_state a s) = nHash s" "hash_slot (out_state a s) k = hash_slot s k" "same_limits s (out_state a s)"
  "iMaxKey (out_state a s) = iMaxKey s" "nCurrentPage (out_state a s) = nCurrentPage s" "pFree (out_state a s) = pFree s"
  "pBulk (out_state a s) = pBulk s" "pages_end (out_state a s) = pages_end s" "bPurgeable (out_state a s) = bPurgeable s"
  "nPage (out_state a s) = nPage s - 1"
  by (simp_all add: out_state_def Let_def hash_slot_def same_limits_def)

lemma hashed_out:
  assumes "chains_ok s" "a \<in> hashed s"
  shows "hashed (out_state a s) = hashed s - {a}"
proof -
  obtain p where p: "pages s a = Some p" "a \<in> set (apHash s ! hash_slot s (iKey p))" "hash_slot s (iKey p) < nHash s"
    using entry_page [OF assms] .
  show ?thesis using hashed_remove [OF assms(1) p(2,3)] by (simp add: out_state_def p(1) Let_def)
qed

lemma view_out: "chains_ok s \<Longrightarrow> a \<in> hashed s \<Longrightarrow> view (out_state a s) = (view s)(a := None)"
  by (auto simp: view_def hashed_out)

lemma RemoveFromHash_eq:
  assumes "chains_ok s" "a \<in> hashed s"
  shows "pcache1RemoveFromHash a free s = (if free then pcache1FreePage a (out_state a s) else Inr (out_state a s))"
proof -
  obtain p where p: "pages s a = Some p" "a \<in> set (apHash s ! hash_slot s (iKey p))" using entry_page [OF assms] .
  have "nPage s \<noteq> 0" using assms by (auto simp: chains_ok_def)
  then show ?thesis using p by (simp add: pcache1RemoveFromHash_def page_at_def out_state_def Let_def)
qed

lemma chains_out:
  assumes "chains_ok s" "a \<in> hashed s"
  shows "chains_ok (out_state a s)"
proof -
  have v: "view (out_state a s) = (view s)(a := None)" using view_out [OF assms] .
  have "distinct (apHash (out_state a s) ! h) \<and>
      (\<forall>b\<in>set (apHash (out_state a s) ! h). \<exists>p. pages s b = Some p \<and> hash_slot s (iKey p) = h)"
    if "h < nHash s" for h
  proof -
    have "apHash (out_state a s) ! h = (if hash_slot s (iKey (the (pages s a))) = h then remove1 a (apHash s ! h) else apHash s ! h)"
      using that by (simp add: out_state_def Let_def nth_list_update)
    moreover have "distinct (apHash s ! h) \<and> (\<forall>b\<in>set (apHash s ! h). \<exists>p. pages s b = Some p \<and> hash_slot s (iKey p) = h)"
      using assms(1) that by (simp add: chains_ok_def)
    ultimately show ?thesis by (simp add: distinct_remove1)
  qed
  moreover have "nPage s - 1 = card (hashed s - {a})" using assms by (simp add: chains_ok_def)
  ultimately show ?thesis using assms(1) unfolding chains_ok_def v
    by (auto simp: hashed_out [OF assms] split: if_splits)
qed

lemma out_state_ok:
  assumes ok: "cache_ok F s" and "view s a = Some p" "isPinned p"
  shows "cache_ok (insert a F) (out_state a s)"
proof -
  have a: "chains_ok s" "a \<in> hashed s" "pages s a = Some p" using assms by (auto simp: cache_ok_def view_eq)
  note v = view_out [OF a(1,2)] and e = hashed_out [OF a(1,2)]
  have "0 < card (hashed s)" using a(2) by (auto simp: card_gt_0_iff)
  moreover have "a \<notin> F" "finite F" using ok a(2) by (auto simp: cache_ok_def heap_ok_def)
  ultimately have "heap_ok (insert a F) (out_state a s)"
    using ok a(2) unfolding heap_ok_def cache_ok_def e by auto
  moreover have "lru_list_ok (out_state a s)"
    using ok assms(2,3) unfolding lru_list_ok_def cache_ok_def v by auto
  ultimately show ?thesis using chains_out [OF a(1,2)] by (simp add: cache_ok_def)
qed

text \<open>Freeing such a page.\<close>

lemma FreePage_ok:
  assumes ok: "cache_ok (insert a F) s" and "a \<notin> F"
  obtains s' where "pcache1FreePage a s = Inr s'" "cache_ok F s'" "view s' = view s" "same_limits s s'"
    "apHash s' = apHash s" "lru s' = lru s" "iMaxKey s' = iMaxKey s" "nPage s' = nPage s"
proof -
  have h: "heap_ok (insert a F) s" using ok by (simp add: cache_ok_def)
  then have "a \<in> dom (pages s)" by (simp add: heap_ok_def)
  then obtain p where p: "pages s a = Some p" by auto
  have a: "a \<notin> hashed s" "a \<notin> set (pFree s)" "finite F" using h by (auto simp: heap_ok_def)
  have c: "bPurgeable s \<Longrightarrow> nCurrentPage s = Suc (card (hashed s) + card F)"
    using h assms(2) by (simp add: heap_ok_def)
  define s1 where "s1 = (if isBulkLocal p then s\<lparr>pFree := a # pFree s\<rparr> else s\<lparr>pages := (pages s)(a := None)\<rparr>)"
  define s' where "s' = (if bPurgeable s then s1\<lparr>nCurrentPage := nCurrentPage s1 - 1\<rparr> else s1)"
  have f: "bPurgeable s1 = bPurgeable s" "nCurrentPage s1 = nCurrentPage s" by (simp_all add: s1_def)
  have eq: "pcache1FreePage a s = Inr s'"
    using p c by (auto simp: pcache1FreePage_def page_at_def s1_def s'_def Let_def)
  have fr: "apHash s' = apHash s" "lru s' = lru s" "iMaxKey s' = iMaxKey s" "nPage s' = nPage s" "same_limits s s'"
    "nRecyclable s' = nRecyclable s" "hashed s' = hashed s" "hash_slot s' = hash_slot s"
    by (auto simp: s'_def s1_def same_limits_def hash_slot_def fun_eq_iff hashed_def)
  have pg: "b \<noteq> a \<Longrightarrow> pages s' b = pages s b" for b by (simp add: s'_def s1_def)
  then have "b \<in> hashed s \<Longrightarrow> pages s' b = pages s b" for b using a(1) by metis
  then have v: "view s' = view s" by (simp add: view_def fun_eq_iff fr)
  have "chains_ok s'" using ok a(1) pg unfolding cache_ok_def chains_ok_def v fr in_entries by metis
  moreover have "lru_list_ok s'" using ok unfolding cache_ok_def lru_list_ok_def v fr by simp
  moreover have "heap_ok F s'"
    using h assms(2) a p c by (auto simp: heap_ok_def s'_def s1_def split: if_splits)
  ultimately show ?thesis using that eq v fr by (simp add: cache_ok_def)
qed

text \<open>Putting a page into the table under a key that is not in use.\<close>

definition in_state :: "addr \<Rightarrow> u32 \<Rightarrow> nat \<Rightarrow> 'd PgHdr1 \<Rightarrow> 'd PCache1 \<Rightarrow> 'd PCache1" where
  "in_state a k n p s =
     (let s = s\<lparr>nPage := n, pages := (pages s)(a \<mapsto> p), apHash := (apHash s)[hash_slot s k := a # apHash s ! hash_slot s k]\<rparr>
      in if iMaxKey s < k then s\<lparr>iMaxKey := k\<rparr> else s)"

lemma in_state_simps [simp]:
  "pages (in_state a k n p s) = (pages s)(a \<mapsto> p)" "lru (in_state a k n p s) = lru s" "nRecyclable (in_state a k n p s) = nRecyclable s"
  "nHash (in_state a k n p s) = nHash s" "hash_slot (in_state a k n p s) j = hash_slot s j" "same_limits s (in_state a k n p s)"
  "nCurrentPage (in_state a k n p s) = nCurrentPage s" "pFree (in_state a k n p s) = pFree s"
  "pBulk (in_state a k n p s) = pBulk s" "pages_end (in_state a k n p s) = pages_end s"
  "bPurgeable (in_state a k n p s) = bPurgeable s" "nPage (in_state a k n p s) = n"
  "iMaxKey (in_state a k n p s) = max (iMaxKey s) k"
  by (simp_all add: in_state_def Let_def hash_slot_def same_limits_def max_def) (metis less_imp_le not_less antisym)

lemma hashed_in: "0 < nHash s \<Longrightarrow> hashed (in_state a k n p s) = insert a (hashed s)"
  using hashed_insert [OF hash_slot_less, of s k a]
  by (simp add: in_state_def Let_def) (simp add: hashed_def)

lemma in_state_ok:
  assumes ok: "cache_ok (insert a F) s" and "a \<notin> F" "iKey p = k" "isPinned p" "n = Suc (nPage s)"
    and new: "\<And>b q. view s b = Some q \<Longrightarrow> iKey q \<noteq> k"
    and bulk: "isBulkLocal p \<longrightarrow> pBulk s"
  shows "cache_ok F (in_state a k n p s)" "view (in_state a k n p s) = (view s)(a \<mapsto> p)"
proof -
  have n: "256 \<le> nHash s" "0 < nHash s" using ok by (auto simp: cache_ok_def chains_ok_def)
  have h: "heap_ok (insert a F) s" using ok by (simp add: cache_ok_def)
  then have a: "a \<notin> hashed s" "a \<notin> set (pFree s)" "finite F" by (auto simp: heap_ok_def)
  note e = hashed_in [OF n(2), of a k n p]
  show v: "view (in_state a k n p s) = (view s)(a \<mapsto> p)"
    using a(1) by (auto simp: view_def fun_eq_iff e)
  have ch: "apHash (in_state a k n p s) = (apHash s)[hash_slot s k := a # apHash s ! hash_slot s k]"
    by (simp add: in_state_def Let_def)
  have c: "chains_ok s" using ok by (simp add: cache_ok_def)
  have notin: "j < nHash s \<Longrightarrow> a \<notin> set (apHash s ! j)" for j using a(1) by (auto simp: in_entries)
  have "distinct (apHash (in_state a k n p s) ! j) \<and>
      (\<forall>b\<in>set (apHash (in_state a k n p s) ! j). \<exists>q. ((pages s)(a \<mapsto> p)) b = Some q \<and> hash_slot s (iKey q) = j)"
    if "j < nHash s" for j
    using c that notin [OF that] assms(3) hash_slot_less [OF n(2), of k]
    by (auto simp: ch nth_list_update chains_ok_def)
  moreover have mx: "iKey q \<le> max (iMaxKey s) k" if "view s b = Some q" for b q
  proof -
    have "iKey q \<le> iMaxKey s" using c that by (auto simp: chains_ok_def)
    then show ?thesis by (simp add: le_max_iff_disj)
  qed
  moreover have "\<And>b q. view s b = Some q \<Longrightarrow> b \<noteq> a" using a(1) by (auto simp: view_eq)
  moreover have "b = b'" if "view s b = Some q" "view s b' = Some q'" "iKey q = iKey q'" for b b' q q'
    using c that by (auto simp: chains_ok_def)
  moreover have "n = card (insert a (hashed s))" using c a(1) assms(5) by (simp add: chains_ok_def)
  ultimately have "chains_ok (in_state a k n p s)"
    unfolding chains_ok_def v e in_state_simps
    using n assms(3) new by (intro conjI) (simp_all, metis+)
  moreover have "lru_list_ok (in_state a k n p s)"
    using ok a(1) assms(4) unfolding cache_ok_def lru_list_ok_def v by (auto simp: view_def)
  moreover have "heap_ok F (in_state a k n p s)"
    using h a assms(2) bulk unfolding heap_ok_def e by auto
  ultimately show "cache_ok F (in_state a k n p s)" by (simp add: cache_ok_def)
qed

text \<open>Dropping a page: pinning it first if it is not, then out of the table, then free.\<close>

definition pinned :: "addr \<Rightarrow> 'd PCache1 \<Rightarrow> 'd PCache1" where
  "pinned a s = (if isPinned (the (pages s a)) then s else pin_state a s)"

lemma pinned_ok:
  assumes "cache_ok F s" "view s a = Some p"
  shows "cache_ok F (pinned a s)" "view (pinned a s) = (view s)(a \<mapsto> p\<lparr>isPinned := True\<rparr>)" "same_limits s (pinned a s)"
    "apHash (pinned a s) = apHash s" "iMaxKey (pinned a s) = iMaxKey s" "nPage (pinned a s) = nPage s"
    "lru (pinned a s) = remove1 a (lru s)"
    "(if isPinned p then Inr s else pcache1PinPage a s) = Inr (pinned a s)"
    "pBulk (pinned a s) = pBulk s" "nCurrentPage (pinned a s) = nCurrentPage s"
proof -
  have p: "pages s a = Some p" using assms(2) by (simp add: view_eq)
  have l: "a \<in> set (lru s) \<longleftrightarrow> \<not> isPinned p" using assms by (auto simp: cache_ok_def lru_list_ok_def)
  have r: "a \<in> set (lru s) \<Longrightarrow> nRecyclable s \<noteq> 0" using lru_page [OF assms(1)] by metis
  have "isPinned p \<Longrightarrow> p\<lparr>isPinned := True\<rparr> = p" by simp
  then show "cache_ok F (pinned a s)" "view (pinned a s) = (view s)(a \<mapsto> p\<lparr>isPinned := True\<rparr>)"
    using pin_state_ok [OF assms(1), of a] view_pin [OF assms(2)] assms l by (auto simp: pinned_def p)
  show "same_limits s (pinned a s)" "apHash (pinned a s) = apHash s" "iMaxKey (pinned a s) = iMaxKey s"
    "nPage (pinned a s) = nPage s" "pBulk (pinned a s) = pBulk s" "nCurrentPage (pinned a s) = nCurrentPage s"
    by (simp_all add: pinned_def)
  show "lru (pinned a s) = remove1 a (lru s)" using l by (auto simp: pinned_def p remove1_idem)
  show "(if isPinned p then Inr s else pcache1PinPage a s) = Inr (pinned a s)"
    using PinPage_eq [OF p] l r by (auto simp: pinned_def p)
qed

lemma drop_page:
  assumes ok: "cache_ok {} s" and v: "view s a = Some p"
  obtains s' where "pcache1FreePage a (out_state a (pinned a s)) = Inr s'" "cache_ok {} s'" "view s' = (view s)(a := None)"
    "same_limits s s'" "lru s' = remove1 a (lru s)" "iMaxKey s' = iMaxKey s" "nPage s' = nPage s - 1"
    "apHash s' = apHash (out_state a (pinned a s))"
proof -
  note pn = pinned_ok [OF ok v]
  have v': "view (pinned a s) a = Some (p\<lparr>isPinned := True\<rparr>)" by (simp add: pn(2))
  have ok': "cache_ok {a} (out_state a (pinned a s))" using out_state_ok [OF pn(1) v'] by simp
  have "a \<in> hashed (pinned a s)" "chains_ok (pinned a s)" using v' pn(1) by (simp_all add: view_eq cache_ok_def)
  then have w: "view (out_state a (pinned a s)) = (view s)(a := None)" by (simp add: view_out pn(2))
  obtain s' where "pcache1FreePage a (out_state a (pinned a s)) = Inr s'" "cache_ok {} s'"
    "view s' = view (out_state a (pinned a s))" "same_limits (out_state a (pinned a s)) s'"
    "apHash s' = apHash (out_state a (pinned a s))" "lru s' = lru (out_state a (pinned a s))"
    "iMaxKey s' = iMaxKey (out_state a (pinned a s))" "nPage s' = nPage (out_state a (pinned a s))"
    using FreePage_ok [OF ok'] by auto
  then show ?thesis
    using that [of s'] pn w same_limits_trans [OF pn(3), of s'] same_limits_trans [of "pinned a s" "out_state a (pinned a s)" s']
    by simp
qed

text \<open>Evicting a page of the LRU list, as recycling and the limit on pages do.\<close>

lemma evict_page:
  assumes ok: "cache_ok {} s" and l: "a \<in> set (lru s)"
  obtains s1 s' where "pcache1PinPage a s = Inr s1" "pcache1RemoveFromHash a True s1 = Inr s'" "cache_ok {} s'"
    "view s' = (view s)(a := None)" "same_limits s s'" "lru s' = remove1 a (lru s)" "iMaxKey s' = iMaxKey s"
proof -
  obtain p where p: "pages s a = Some p" "view s a = Some p" "\<not> isPinned p" "a \<in> hashed s" "nRecyclable s \<noteq> 0"
    using lru_page [OF ok l] .
  obtain s' where s': "pcache1FreePage a (out_state a (pinned a s)) = Inr s'" "cache_ok {} s'" "view s' = (view s)(a := None)"
    "same_limits s s'" "lru s' = remove1 a (lru s)" "iMaxKey s' = iMaxKey s"
    using drop_page [OF ok p(2)] by metis
  have pin: "pcache1PinPage a s = Inr (pinned a s)" using pinned_ok(8) [OF ok p(2)] p(3) by simp
  have "chains_ok (pinned a s)" "a \<in> hashed (pinned a s)"
    using pinned_ok(1,2) [OF ok p(2)] view_eq [of "pinned a s" a] by (auto simp: cache_ok_def)
  from RemoveFromHash_eq [OF this, of True] have "pcache1RemoveFromHash a True (pinned a s) = Inr s'" using s'(1) by simp
  with pin s' that show ?thesis by blast
qed

lemma enforce_loop_ok:
  assumes "cache_ok {} s" "rev ps = lru s"
  shows "\<exists>s' D. enforce_loop ps s = Inr s' \<and> cache_ok {} s' \<and> same_limits s s' \<and> iMaxKey s' = iMaxKey s
    \<and> D \<subseteq> set ps \<and> view s' = view s |` (- D) \<and> (lru s' = [] \<or> nCurrentPage s' \<le> unat (nMaxPage s'))"
  using assms
proof (induction ps arbitrary: s)
  case Nil
  then show ?case by (intro exI [of _ s] exI [of _ "{}"]) simp
next
  case (Cons a ps)
  show ?case
  proof (cases "unat (nMaxPage s) < nCurrentPage s")
    case False
    then show ?thesis using Cons.prems by (intro exI [of _ s] exI [of _ "{}"]) simp
  next
    case True
    have a: "a \<in> set (lru s)" using Cons.prems(2) [symmetric] by simp
    obtain s1 s2 where e: "pcache1PinPage a s = Inr s1" "pcache1RemoveFromHash a True s1 = Inr s2" "cache_ok {} s2"
      "view s2 = (view s)(a := None)" "same_limits s s2" "lru s2 = remove1 a (lru s)" "iMaxKey s2 = iMaxKey s"
      using evict_page [OF Cons.prems(1) a] .
    have "distinct (lru s)" using Cons.prems(1) by (simp add: cache_ok_def lru_list_ok_def)
    then have "lru s2 = rev ps" using Cons.prems(2) [symmetric] e(6) by (simp add: remove1_append)
    then obtain s' D where "enforce_loop ps s2 = Inr s'" "cache_ok {} s'" "same_limits s2 s'" "iMaxKey s' = iMaxKey s2"
      "D \<subseteq> set ps" "view s' = view s2 |` (- D)" "lru s' = [] \<or> nCurrentPage s' \<le> unat (nMaxPage s')"
      using Cons.IH [OF e(3)] by auto
    then show ?thesis
      using True e same_limits_trans [OF e(5)] by (intro exI [of _ s'] exI [of _ "insert a D"])
        (auto simp: restrict_map_def fun_eq_iff)
  qed
qed

text \<open>With no page in the table the bulk allocation is all on the free list.\<close>

lemma free_bulk_ok:
  assumes ok: "cache_ok {} s" and "nPage s = 0"
  shows "cache_ok {} ((free_bulk s)\<lparr>pFree := []\<rparr>)" "view ((free_bulk s)\<lparr>pFree := []\<rparr>) = view s" "view s = Map.empty"
    "pages (free_bulk s) = Map.empty"
proof -
  have e: "hashed s = {}" using ok assms(2) by (simp add: cache_ok_def chains_ok_def)
  then have e': "hashed (free_bulk s) = {}" by (simp add: free_bulk_def)
  have f: "dom (pages s) = set (pFree s)" "\<forall>a \<in> set (pFree s). \<exists>p. pages s a = Some p \<and> isBulkLocal p"
    using ok e by (auto simp: cache_ok_def heap_ok_def)
  show pg: "pages (free_bulk s) = Map.empty"
  proof
    fix a show "pages (free_bulk s) a = None"
      using f by (cases "pages s a") (force simp: free_bulk_def)+
  qed
  show v: "view s = Map.empty" by (simp add: view_def fun_eq_iff e)
  show v': "view ((free_bulk s)\<lparr>pFree := []\<rparr>) = view s" by (simp add: view_def fun_eq_iff e e')
  have "\<And>h. h < nHash s \<Longrightarrow> apHash s ! h = []" using e in_entries [of _ s] by (metis empty_iff last_in_set)
  then show "cache_ok {} ((free_bulk s)\<lparr>pFree := []\<rparr>)"
    using ok pg unfolding cache_ok_def chains_ok_def lru_list_ok_def heap_ok_def v'
    by (simp add: v e) (simp add: free_bulk_def e v)
qed

lemma EnforceMaxPage_ok:
  assumes "cache_ok {} s"
  obtains s' D where "pcache1EnforceMaxPage s = Inr s'" "cache_ok {} s'" "same_limits s s'" "iMaxKey s' = iMaxKey s"
    "\<forall>a\<in>D. \<exists>p. view s a = Some p \<and> \<not> isPinned p" "view s' = view s |` (- D)"
    "lru s' = [] \<or> nCurrentPage s' \<le> unat (nMaxPage s')" "nPage s' = 0 \<longrightarrow> \<not> pBulk s'"
proof -
  obtain s1 D where e: "enforce_loop (rev (lru s)) s = Inr s1" "cache_ok {} s1" "same_limits s s1" "iMaxKey s1 = iMaxKey s"
    "D \<subseteq> set (lru s)" "view s1 = view s |` (- D)" "lru s1 = [] \<or> nCurrentPage s1 \<le> unat (nMaxPage s1)"
    using enforce_loop_ok [OF assms, of "rev (lru s)"] by auto
  have D: "\<forall>a\<in>D. \<exists>p. view s a = Some p \<and> \<not> isPinned p" using e(5) assms by (auto simp: cache_ok_def lru_list_ok_def)
  show ?thesis
  proof (cases "nPage s1 = 0 \<and> pBulk s1")
    case True
    have "same_limits s1 ((free_bulk s1)\<lparr>pFree := []\<rparr>)" "lru ((free_bulk s1)\<lparr>pFree := []\<rparr>) = lru s1"
      "nCurrentPage ((free_bulk s1)\<lparr>pFree := []\<rparr>) = nCurrentPage s1" "nMaxPage ((free_bulk s1)\<lparr>pFree := []\<rparr>) = nMaxPage s1"
      "iMaxKey ((free_bulk s1)\<lparr>pFree := []\<rparr>) = iMaxKey s1" "\<not> pBulk ((free_bulk s1)\<lparr>pFree := []\<rparr>)"
      by (simp_all add: free_bulk_def same_limits_def)
    then show ?thesis
      using that [of "(free_bulk s1)\<lparr>pFree := []\<rparr>" D] True e D free_bulk_ok [OF e(2)] same_limits_trans [OF e(3)]
      by (simp add: pcache1EnforceMaxPage_def)
  next
    case False
    then have "pcache1EnforceMaxPage s = Inr s1" using e(1) by (auto simp: pcache1EnforceMaxPage_def)
    then show ?thesis using that [of s1 D] e D False by blast
  qed
qed

section \<open>Truncation\<close>

text \<open>The loop over a chain leaves the table to its caller: what it does commutes with replacing the table.\<close>

abbreviation with_table :: "addr list list \<Rightarrow> 'd PCache1 \<Rightarrow> 'd PCache1" where
  "with_table X s \<equiv> s\<lparr>apHash := X\<rparr>"

lemma FreePage_table:
  "pcache1FreePage a (with_table X s) = bindE (pcache1FreePage a s) (\<lambda>s. Inr (with_table X s))"
  by (cases "pages s a") (simp_all add: pcache1FreePage_def page_at_def Let_def)

lemma PinPage_table:
  "pcache1PinPage a (with_table X s) = bindE (pcache1PinPage a s) (\<lambda>s. Inr (with_table X s))"
  by (cases "pages s a") (simp_all add: pcache1PinPage_def page_at_def)

lemma pinned_table: "pinned a (with_table X s) = with_table X (pinned a s)"
  by (simp add: pinned_def pin_state_def)

lemma pinned_nPage: "pinned a (s\<lparr>nPage := n\<rparr>) = (pinned a s)\<lparr>nPage := n\<rparr>"
  by (simp add: pinned_def pin_state_def)

text \<open>What a client sees without the pages of \<^theory_text>\<open>A\<close> from a key on.\<close>

definition cut :: "u32 \<Rightarrow> addr set \<Rightarrow> (addr \<Rightarrow> 'd PgHdr1 option) \<Rightarrow> addr \<Rightarrow> 'd PgHdr1 option" where
  "cut l A v a = (case v a of Some p \<Rightarrow> if a \<in> A \<and> l \<le> iKey p then None else Some p | None \<Rightarrow> None)"

lemma truncate_chain_ok:
  assumes "cache_ok {} (with_table (T[h := pre @ c]) s)" "h < length T" "apHash s = T"
  shows "\<exists>c' s'. truncate_chain l c s = Inr (c', s') \<and> cache_ok {} (with_table (T[h := pre @ c']) s') \<and> apHash s' = T
    \<and> same_limits s s' \<and> iMaxKey s' = iMaxKey s
    \<and> view (with_table (T[h := pre @ c']) s') = cut l (set c) (view (with_table (T[h := pre @ c]) s))"
  using assms
proof (induction c arbitrary: pre s)
  case Nil
  then show ?case by (auto simp: cut_def fun_eq_iff split: option.splits)
next
  case (Cons a c)
  let ?t = "with_table (T[h := pre @ a # c]) s"
  have T: "apHash ?t ! h = pre @ a # c" "h < nHash ?t" using Cons.prems(2) by simp_all
  have ok: "chains_ok ?t" using Cons.prems(1) by (simp add: cache_ok_def)
  have a: "a \<in> hashed ?t" using T by (auto simp: in_entries)
  then obtain p where p: "pages s a = Some p" "view ?t a = Some p"
    using entry_page [OF ok a] by auto
  have d: "distinct (pre @ a # c)"
  proof -
    have "distinct (apHash ?t ! h)" using ok T(2) unfolding chains_ok_def by blast
    then show ?thesis by (simp only: T(1))
  qed
  show ?case
  proof (cases "l \<le> iKey p")
    case False
    have "cache_ok {} (with_table (T[h := (pre @ [a]) @ c]) s)" using Cons.prems(1) by simp
    from Cons.IH [OF this Cons.prems(2,3)] obtain c' s' where
      r: "truncate_chain l c s = Inr (c', s')" "cache_ok {} (with_table (T[h := pre @ a # c']) s')" "apHash s' = T"
      "same_limits s s'" "iMaxKey s' = iMaxKey s"
      "view (with_table (T[h := pre @ a # c']) s') = cut l (set c) (view ?t)" by auto
    have "cut l (set c) (view ?t) = cut l (set (a # c)) (view ?t)"
      using p(2) False by (auto simp: cut_def fun_eq_iff split: option.splits)
    then show ?thesis using r p False by (intro exI [of _ "a # c'"] exI [of _ s']) (simp add: page_at_def)
  next
    case True
    obtain s1 where s1: "pcache1FreePage a (out_state a (pinned a ?t)) = Inr s1" "cache_ok {} s1" "view s1 = (view ?t)(a := None)"
      "same_limits ?t s1" "iMaxKey s1 = iMaxKey ?t" "apHash s1 = apHash (out_state a (pinned a ?t))"
      using drop_page [OF Cons.prems(1) p(2)] by metis
    have n: "nPage s \<noteq> 0" using ok a by (auto simp: chains_ok_def)
    have sl: "hash_slot ?t (iKey p) = h" using entry_slot [OF ok T(2), of a p] T(1) p(1) by simp
    have key: "iKey (the (pages (pinned a ?t) a)) = iKey p" by (simp add: pinned_def pin_state_def p(1))
    have out: "out_state a (pinned a ?t) = with_table (T[h := pre @ c]) (pinned a (s\<lparr>nPage := nPage s - 1\<rparr>))"
      using sl key d Cons.prems(2)
      by (simp add: out_state_def Let_def pinned_table pinned_nPage hash_slot_def remove1_append) (simp add: pinned_def pin_state_def)
    have pin: "(if isPinned p then Inr (s\<lparr>nPage := nPage s - 1\<rparr>) else pcache1PinPage a (s\<lparr>nPage := nPage s - 1\<rparr>))
        = Inr (pinned a (s\<lparr>nPage := nPage s - 1\<rparr>))"
    proof -
      have "(if isPinned p then Inr ?t else pcache1PinPage a ?t) = Inr (pinned a ?t)"
        using pinned_ok(8) [OF Cons.prems(1) p(2)] .
      then show ?thesis using p(1)
        by (auto simp: pcache1PinPage_def page_at_def pinned_def pin_state_def split: if_splits)
    qed
    obtain s2 where s2: "pcache1FreePage a (pinned a (s\<lparr>nPage := nPage s - 1\<rparr>)) = Inr s2" "s1 = with_table (T[h := pre @ c]) s2"
      using s1(1) unfolding out FreePage_table bindE_eq_Inr by auto
    have "apHash s2 = T"
      using s2(1) Cons.prems(3) by (auto simp: pcache1FreePage_def page_at_def bindE_eq_Inr Let_def pinned_def pin_state_def
          split: option.splits if_splits)
    from Cons.IH [of pre s2, OF _ Cons.prems(2) this] obtain c' s' where
      r: "truncate_chain l c s2 = Inr (c', s')" "cache_ok {} (with_table (T[h := pre @ c']) s')" "apHash s' = T"
      "same_limits s2 s'" "iMaxKey s' = iMaxKey s2"
      "view (with_table (T[h := pre @ c']) s') = cut l (set c) (view s1)" using s1(2) s2(2) by auto
    have "truncate_chain l (a # c) s = Inr (c', s')"
      using p(1) True n pin s2(1) r(1) by (cases "isPinned p") (simp_all add: page_at_def Let_def)
    moreover have "cut l (set c) (view s1) = cut l (set (a # c)) (view ?t)"
      using p(2) True d by (auto simp: s1(3) cut_def fun_eq_iff split: option.splits)
    moreover have "same_limits s s'" "iMaxKey s' = iMaxKey s"
      using s1(4,5) r(4,5) by (simp_all add: s2(2) same_limits_def)
    ultimately show ?thesis using r(2,3,6) by auto
  qed
qed

text \<open>The slots that are visited, from the first to the last, around the end of the table.\<close>

lemma hashed_chain:
  "chains_ok s \<Longrightarrow> h < nHash s \<Longrightarrow> view s a = Some p \<Longrightarrow> a \<in> set (apHash s ! h) \<longleftrightarrow> hash_slot s (iKey p) = h"
  using entry_slot [of s h a p] entry_page [of s a] by (auto simp: view_eq)

lemma truncate_slots_ok:
  assumes "cache_ok {} s" "h < nHash s" "d < nHash s" "d < n" "stop = (h + d) mod nHash s"
  shows "\<exists>s'. truncate_slots n l h stop s = Inr s' \<and> cache_ok {} s' \<and> same_limits s s' \<and> iMaxKey s' = iMaxKey s
    \<and> nHash s' = nHash s
    \<and> (\<forall>a. view s' a = (case view s a of None \<Rightarrow> None
        | Some p \<Rightarrow> if l \<le> iKey p \<and> (\<exists>i\<le>d. hash_slot s (iKey p) = (h + i) mod nHash s) then None else Some p))"
  using assms
proof (induction d arbitrary: n h s)
  case d: 0
  then obtain m where m: "n = Suc m" by (cases n) auto
  have "cache_ok {} (with_table ((apHash s)[h := [] @ apHash s ! h]) s)" using d.prems(1) by simp
  from truncate_chain_ok [OF this d.prems(2) refl, of l] obtain c s' where
    r: "truncate_chain l (apHash s ! h) s = Inr (c, s')" "cache_ok {} (with_table ((apHash s)[h := c]) s')"
    "apHash s' = apHash s" "same_limits s s'" "iMaxKey s' = iMaxKey s"
    "view (with_table ((apHash s)[h := c]) s') = cut l (set (apHash s ! h)) (view s)" by auto
  have "chains_ok s" using d.prems(1) by (simp add: cache_ok_def)
  note e = hashed_chain [OF this d.prems(2)]
  show ?case
    using r d.prems e by (intro exI [of _ "with_table ((apHash s)[h := c]) s'"])
      (auto simp: m same_limits_def cut_def split: option.splits)
next
  case d: (Suc d)
  then obtain m where m: "n = Suc m" by (cases n) auto
  have "cache_ok {} (with_table ((apHash s)[h := [] @ apHash s ! h]) s)" using d.prems(1) by simp
  from truncate_chain_ok [OF this d.prems(2) refl, of l] obtain c s1 where
    r: "truncate_chain l (apHash s ! h) s = Inr (c, s1)" "cache_ok {} (with_table ((apHash s)[h := c]) s1)"
    "apHash s1 = apHash s" "same_limits s s1" "iMaxKey s1 = iMaxKey s"
    "view (with_table ((apHash s)[h := c]) s1) = cut l (set (apHash s ! h)) (view s)" by auto
  let ?t = "with_table ((apHash s)[h := c]) s1"
  let ?N = "nHash s"
  have t: "nHash ?t = ?N" "same_limits s ?t" "iMaxKey ?t = iMaxKey s" "\<And>k. hash_slot ?t k = hash_slot s k"
    using r(3-5) by (simp_all add: same_limits_def hash_slot_def)
  have h': "(h + 1) mod ?N < ?N" by (rule mod_less_divisor) (use d.prems(2) in linarith)
  have step: "((h + 1) mod ?N + i) mod ?N = (h + Suc i) mod ?N" for i by (simp add: mod_add_left_eq)
  have ne: "h \<noteq> stop"
  proof
    assume "h = stop"
    moreover have "(h + Suc d) mod ?N = (if h + Suc d < ?N then h + Suc d else h + Suc d - ?N)"
      using d.prems(2,3) by (cases "h + Suc d < ?N") (simp_all add: le_mod_geq)
    ultimately show False using d.prems(3,5) by (auto split: if_splits)
  qed
  obtain s' where s': "truncate_slots m l ((h + 1) mod ?N) stop ?t = Inr s'" "cache_ok {} s'" "same_limits ?t s'"
    "iMaxKey s' = iMaxKey ?t" "nHash s' = nHash ?t"
    "\<forall>a. view s' a = (case view ?t a of None \<Rightarrow> None
        | Some p \<Rightarrow> if l \<le> iKey p \<and> (\<exists>i\<le>d. hash_slot ?t (iKey p) = ((h + 1) mod ?N + i) mod ?N) then None else Some p)"
  proof -
    have "d < ?N" "d < m" "stop = ((h + 1) mod ?N + d) mod ?N" using d.prems(3-5) m step by simp_all
    from d.IH [OF r(2), unfolded t(1), OF h' this] show ?thesis using that t(1) by auto
  qed
  have "chains_ok s" using d.prems(1) by (simp add: cache_ok_def)
  note e = hashed_chain [OF this d.prems(2)]
  have split: "(\<exists>i\<le>Suc d. x = (h + i) mod ?N) \<longleftrightarrow> x = h \<or> (\<exists>i\<le>d. x = (h + Suc i) mod ?N)" for x
  proof -
    have "(\<exists>i\<le>Suc d. x = (h + i) mod ?N) \<longleftrightarrow> x = (h + 0) mod ?N \<or> (\<exists>i\<le>d. x = (h + Suc i) mod ?N)"
      by (metis le0 Suc_le_mono not0_implies_Suc)
    then show ?thesis using d.prems(2) by simp
  qed
  have v: "view s' a = (case view s a of None \<Rightarrow> None
        | Some p \<Rightarrow> if l \<le> iKey p \<and> (\<exists>i\<le>Suc d. hash_slot s (iKey p) = (h + i) mod ?N) then None else Some p)" for a
  proof (cases "view s a")
    case None
    then show ?thesis using s'(6) by (simp add: r(6) cut_def)
  next
    case (Some p)
    then show ?thesis using e [OF Some] unfolding split s'(6) [rule_format] r(6) t(4) step cut_def by simp
  qed
  have "truncate_slots n l h stop s = Inr s'" using s'(1) r(1,3) ne m by simp
  then show ?case using s'(2-5) t same_limits_trans [OF t(2)] v by auto
qed

lemma TruncateUnsafe_ok:
  assumes ok: "cache_ok {} s" and l: "l \<le> iMaxKey s"
  obtains s' where "pcache1TruncateUnsafe l s = Inr s'" "cache_ok {} s'" "same_limits s s'" "iMaxKey s' = iMaxKey s"
    "\<And>a. view s' a = (case view s a of None \<Rightarrow> None | Some p \<Rightarrow> if l \<le> iKey p then None else Some p)"
proof -
  let ?N = "nHash s"
  have N: "256 \<le> ?N" "0 < ?N" using ok by (auto simp: cache_ok_def chains_ok_def)
  have key: "iKey p \<le> iMaxKey s" if "view s a = Some p" for a p using ok that by (auto simp: cache_ok_def chains_ok_def)
  have sub: "unat (iMaxKey s - l) = unat (iMaxKey s) - unat l" "unat l \<le> unat (iMaxKey s)"
    using l by (simp_all add: unat_sub word_le_nat_alt)
  have nl: "\<not> iMaxKey s < l" "apHash s \<noteq> []" using l N by auto
  obtain h d where hd: "h < ?N" "d < ?N"
    "pcache1TruncateUnsafe l s = truncate_slots ?N l h ((h + d) mod ?N) s"
    "\<And>a p. view s a = Some p \<Longrightarrow> l \<le> iKey p \<Longrightarrow> \<exists>i\<le>d. hash_slot s (iKey p) = (h + i) mod ?N"
  proof (cases "unat (iMaxKey s - l) < ?N")
    case True
    define d where "d = unat (iMaxKey s - l)"
    have "(hash_slot s l + i) mod ?N = (unat l + i) mod ?N" for i by (simp add: hash_slot_def mod_add_left_eq)
    moreover have "unat l + d = unat (iMaxKey s)" using sub by (simp add: d_def)
    ultimately have "hash_slot s (iMaxKey s) = (hash_slot s l + d) mod ?N" by (simp add: hash_slot_def [of s "iMaxKey s"])
    moreover have "\<exists>i\<le>d. hash_slot s (iKey p) = (hash_slot s l + i) mod ?N" if "view s a = Some p" "l \<le> iKey p" for a p
    proof (intro exI conjI)
      show "unat (iKey p) - unat l \<le> d"
        using key [OF that(1)] sub by (simp add: d_def word_le_nat_alt)
      show "hash_slot s (iKey p) = (hash_slot s l + (unat (iKey p) - unat l)) mod ?N"
        using that(2) mod_add_left_eq [of "unat l" ?N "unat (iKey p) - unat l"]
        unfolding hash_slot_def by (simp only: word_le_nat_alt le_add_diff_inverse)
    qed
    ultimately show ?thesis
      using that [of "hash_slot s l" d] True nl hash_slot_less [OF N(2), of l]
      by (simp add: pcache1TruncateUnsafe_def d_def)
  next
    case False
    have "(?N div 2 + (?N - 1)) mod ?N = ?N div 2 - 1"
    proof -
      have shift: "?N div 2 + (?N - 1) = (?N div 2 - 1) + ?N" using N by linarith
      have "?N div 2 - 1 < ?N" using N by linarith
      then show ?thesis unfolding shift mod_add_self2 by (rule mod_less)
    qed
    moreover have "\<exists>i\<le>?N - 1. x = (?N div 2 + i) mod ?N" if "x < ?N" for x
    proof (cases "?N div 2 \<le> x")
      case True
      then show ?thesis using that by (intro exI [of _ "x - ?N div 2"]) auto
    next
      case False
      then show ?thesis using that N by (intro exI [of _ "x + ?N - ?N div 2"]) auto
    qed
    ultimately show ?thesis
      using that [of "?N div 2" "?N - 1"] False nl N hash_slot_less [OF N(2)]
      by (simp add: pcache1TruncateUnsafe_def)
  qed
  obtain s' where s': "truncate_slots ?N l h ((h + d) mod ?N) s = Inr s'" "cache_ok {} s'" "same_limits s s'" "iMaxKey s' = iMaxKey s"
    "\<And>a. view s' a = (case view s a of None \<Rightarrow> None
        | Some p \<Rightarrow> if l \<le> iKey p \<and> (\<exists>i\<le>d. hash_slot s (iKey p) = (h + i) mod ?N) then None else Some p)"
    using truncate_slots_ok [OF ok hd(1,2,2) refl, of l] by auto
  have "view s' a = (case view s a of None \<Rightarrow> None | Some p \<Rightarrow> if l \<le> iKey p then None else Some p)" for a
    using hd(4) [of a] by (auto simp: s'(5) split: option.splits)
  then show ?thesis using that s' hd(3) by simp
qed

section \<open>A larger hash table\<close>

lemma rehash_chain_ok:
  assumes "0 < length T" "\<forall>a\<in>set c. pages s a \<noteq> None" "distinct c" "\<forall>h<length T. distinct (T ! h) \<and> set (T ! h) \<inter> set c = {}"
  shows "\<exists>T'. rehash_chain s c T = Inr T' \<and> length T' = length T \<and>
    (\<forall>h<length T. distinct (T' ! h) \<and> set (T' ! h) = set (T ! h) \<union> {a \<in> set c. unat (iKey (the (pages s a))) mod length T = h})"
  using assms
proof (induction c arbitrary: T)
  case (Cons a c)
  obtain p where p: "pages s a = Some p" using Cons.prems(2) by auto
  define h where "h = unat (iKey p) mod length T"
  have h: "h < length T" using Cons.prems(1) by (simp add: h_def)
  have "\<forall>j<length (T[h := a # T ! h]). distinct (T[h := a # T ! h] ! j) \<and> set (T[h := a # T ! h] ! j) \<inter> set c = {}"
    using Cons.prems(3,4) h by (auto simp: nth_list_update)
  then obtain T' where T': "rehash_chain s c (T[h := a # T ! h]) = Inr T'" "length T' = length T"
    "\<forall>j<length T. distinct (T' ! j) \<and> set (T' ! j) = set (T[h := a # T ! h] ! j) \<union> {a \<in> set c. unat (iKey (the (pages s a))) mod length T = j}"
    using Cons.IH [of "T[h := a # T ! h]"] Cons.prems(1-3) by auto
  moreover have "set (T[h := a # T ! h] ! j) = set (T ! j) \<union> (if j = h then {a} else {})" if "j < length T" for j
    using that h by (auto simp: nth_list_update)
  ultimately show ?case using p
    by (intro exI [of _ T']) (auto simp: page_at_def h_def [symmetric] Let_def)
qed auto

lemma rehash_slots_concat: "rehash_slots s cs T = rehash_chain s (concat cs) T"
proof (induction cs arbitrary: T)
  case (Cons c cs)
  have "bindE (rehash_chain s c T) (rehash_chain s d) = rehash_chain s (c @ d) T" for d
    by (induction c arbitrary: T) (simp_all add: bindE_assoc Let_def)
  then show ?case using Cons by (simp add: fun_eq_iff cong: bindE_cong)
qed simp

lemma distinct_chains:
  assumes "chains_ok s"
  shows "distinct (concat (apHash s))"
proof -
  have "n \<le> nHash s \<Longrightarrow> distinct (concat (map ((!) (apHash s)) [0..<n]))" for n
  proof (induction n)
    case (Suc n)
    have "set (apHash s ! n) \<inter> set (apHash s ! h) = {}" if "h < n" for h
    proof (rule ccontr)
      assume "set (apHash s ! n) \<inter> set (apHash s ! h) \<noteq> {}"
      then obtain a where a: "a \<in> set (apHash s ! n)" "a \<in> set (apHash s ! h)" by auto
      then have "a \<in> hashed s" using Suc.prems unfolding in_entries by (metis Suc_le_eq)
      then obtain p where "pages s a = Some p" using entry_page [OF assms] by metis
      then show False using entry_slot [OF assms _ a(1)] entry_slot [OF assms _ a(2)] Suc.prems that by simp
    qed
    moreover have "distinct (apHash s ! n)" using assms Suc.prems by (simp add: chains_ok_def)
    ultimately show ?case using Suc by fastforce
  qed simp
  from this [of "nHash s"] show ?thesis by (simp add: map_nth)
qed

lemma ResizeHash_ok:
  assumes ok: "cache_ok F s"
  obtains X where "pcache1ResizeHash m s = Inr (with_table X s)" "cache_ok F (with_table X s)" "view (with_table X s) = view s"
proof (cases "hash_mem m")
  case False
  then show ?thesis using that [of "apHash s"] ok by (simp add: pcache1ResizeHash_def Let_def)
next
  case True
  have c: "chains_ok s" using ok by (simp add: cache_ok_def)
  define N where "N = (if nHash s * 2 < 256 then 256 else nHash s * 2)"
  have N: "256 \<le> N" by (simp add: N_def)
  have "\<forall>a\<in>set (concat (apHash s)). pages s a \<noteq> None"
    using entry_page [OF c] unfolding hashed_def [symmetric] by (metis option.distinct(1))
  then obtain T where T: "rehash_slots s (apHash s) (replicate N []) = Inr T" "length T = N"
    "\<forall>h<N. distinct (T ! h) \<and> set (T ! h) = {a \<in> hashed s. unat (iKey (the (pages s a))) mod N = h}"
    using rehash_chain_ok [of "replicate N []" "concat (apHash s)" s] distinct_chains [OF c] N
    unfolding rehash_slots_concat hashed_def by auto
  have e: "hashed (with_table T s) = hashed s"
  proof (rule set_eqI)
    fix a
    have "unat (iKey (the (pages s a))) mod N < N" using N by simp
    then show "a \<in> hashed (with_table T s) \<longleftrightarrow> a \<in> hashed s" using T(2,3) by (auto simp: in_entries [of a "with_table T s"])
  qed
  then have v: "view (with_table T s) = view s" by (simp add: view_def fun_eq_iff)
  have "\<forall>h<nHash (with_table T s). distinct (apHash (with_table T s) ! h) \<and>
      (\<forall>a\<in>set (apHash (with_table T s) ! h). \<exists>p. pages s a = Some p \<and> hash_slot (with_table T s) (iKey p) = h)"
  proof (intro allI impI conjI ballI)
    fix h a assume h: "h < nHash (with_table T s)" and "a \<in> set (apHash (with_table T s) ! h)"
    then have a: "a \<in> hashed s" "unat (iKey (the (pages s a))) mod N = h" using T by auto
    obtain p where "pages s a = Some p" using entry_page [OF c a(1)] .
    then show "\<exists>p. pages s a = Some p \<and> hash_slot (with_table T s) (iKey p) = h"
      using a(2) T(2) by (simp add: hash_slot_def)
  qed (use T in auto)
  then have "cache_ok F (with_table T s)"
    using ok T(2) N unfolding cache_ok_def chains_ok_def lru_list_ok_def heap_ok_def v e by simp
  then show ?thesis using that [of T] True T(1) v by (simp add: pcache1ResizeHash_def Let_def N_def)
qed

section \<open>A page to use\<close>

text \<open>What allocation leaves alone.\<close>

definition alike :: "'d PCache1 \<Rightarrow> 'd PCache1 \<Rightarrow> bool" where
  "alike s s' \<longleftrightarrow> apHash s' = apHash s \<and> view s' = view s \<and> same_limits s s' \<and> lru s' = lru s \<and> nRecyclable s' = nRecyclable s
     \<and> nPage s' = nPage s \<and> iMaxKey s' = iMaxKey s"

lemma alike_trans: "alike s t \<Longrightarrow> alike t u \<Longrightarrow> alike s u"
  by (auto simp: alike_def intro: same_limits_trans)

lemma alike_chains:
  assumes "alike s s'" "chains_ok s" "\<And>a. a \<in> hashed s \<Longrightarrow> pages s' a = pages s a"
  shows "chains_ok s'"
proof -
  have e: "hashed s' = hashed s" and sl: "hash_slot s' = hash_slot s" using assms(1) by (simp_all add: alike_def hashed_def hash_slot_def fun_eq_iff)
  have "a \<in> hashed s" if "h < nHash s" "a \<in> set (apHash s ! h)" for h a using that by (auto simp: in_entries)
  then show ?thesis using assms unfolding chains_ok_def alike_def e sl by metis
qed

lemma alike_lru: "alike s s' \<Longrightarrow> lru_list_ok s' = lru_list_ok s"
  by (simp add: alike_def lru_list_ok_def)

text \<open>A fresh page.\<close>

definition fresh_page :: "'d PgHdr1 \<Rightarrow> 'd PCache1 \<Rightarrow> 'd PCache1" where
  "fresh_page g s = s\<lparr>pages := (pages s)(pages_end s \<mapsto> g), pages_end := Suc (pages_end s)\<rparr>"

lemma fresh_new:
  assumes "heap_ok F s"
  shows "pages s (pages_end s) = None" "pages_end s \<notin> hashed s" "pages_end s \<notin> set (pFree s)"
proof -
  have "pages_end s \<notin> dom (pages s)" using assms unfolding heap_ok_def by (metis less_irrefl)
  then show "pages s (pages_end s) = None" "pages_end s \<notin> hashed s" "pages_end s \<notin> set (pFree s)"
    using assms by (auto simp: heap_ok_def)
qed

lemma fresh_alike:
  assumes "heap_ok F s"
  shows "alike s (fresh_page g s)"
proof -
  have "a \<in> hashed s \<Longrightarrow> a \<noteq> pages_end s" for a using fresh_new(2) [OF assms] by metis
  then show ?thesis by (simp add: alike_def fresh_page_def view_def same_limits_def fun_eq_iff)
qed

lemma alike_free: "alike s (s\<lparr>pFree := l\<rparr>)"
  by (simp add: alike_def same_limits_def view_def fun_eq_iff)

lemma bulk_loop_ok:
  assumes "cache_ok {} s" "pBulk s"
  shows "cache_ok {} (bulk_loop g n s) \<and> alike s (bulk_loop g n s) \<and> pBulk (bulk_loop g n s)"
  using assms
proof (induction n arbitrary: s)
  case 0
  then show ?case by (simp add: alike_def)
next
  case (Suc n)
  let ?s = "(fresh_page (g\<lparr>isBulkLocal := True\<rparr>) s)\<lparr>pFree := pages_end s # pFree s\<rparr>"
  have h: "heap_ok {} s" and c: "chains_ok s" "lru_list_ok s" using Suc.prems(1) by (simp_all add: cache_ok_def)
  have al: "alike s ?s" by (rule alike_trans [OF fresh_alike [OF h] alike_free])
  note new = fresh_new [OF h]
  have "chains_ok ?s" by (rule alike_chains [OF al c(1)]) (use new in \<open>auto simp: fresh_page_def\<close>)
  moreover have "heap_ok {} ?s"
    using h new Suc.prems(2) by (auto simp: heap_ok_def fresh_page_def less_Suc_eq split: if_splits)
  ultimately have "cache_ok {} ?s" "pBulk ?s" using alike_lru [OF al] c(2) Suc.prems(2) by (auto simp: cache_ok_def fresh_page_def)
  from Suc.IH [OF this] show ?case using alike_trans [OF al] by (simp add: Let_def fresh_page_def)
qed

lemma InitBulk_ok:
  assumes ok: "cache_ok {} s" and "nPage s = 0" "pFree s = []"
  shows "cache_ok {} (snd (pcache1InitBulk m s)) \<and> alike s (snd (pcache1InitBulk m s))
    \<and> (fst (pcache1InitBulk m s) \<longrightarrow> pFree (snd (pcache1InitBulk m s)) \<noteq> [])"
proof -
  have "hashed s = {}" using ok assms(2) by (simp add: cache_ok_def chains_ok_def)
  then have none: "pages s = Map.empty" using ok assms(3) by (auto simp: cache_ok_def heap_ok_def)
  have set: "cache_ok {} (s\<lparr>pBulk := b\<rparr>)" "alike s (s\<lparr>pBulk := b\<rparr>)" for b
  proof -
    show al: "alike s (s\<lparr>pBulk := b\<rparr>)" by (simp add: alike_def same_limits_def view_def fun_eq_iff)
    have "chains_ok (s\<lparr>pBulk := b\<rparr>)" by (rule alike_chains [OF al]) (use ok in \<open>simp_all add: cache_ok_def\<close>)
    then show "cache_ok {} (s\<lparr>pBulk := b\<rparr>)"
      using ok alike_lru [OF al] none by (auto simp: cache_ok_def heap_ok_def)
  qed
  have "alike s s" by (simp add: alike_def)
  then show ?thesis
    using ok set bulk_loop_ok [OF set(1) [of True]] alike_trans [OF set(2) [of True]] assms(3)
    by (auto simp: pcache1InitBulk_def Let_def split: option.splits)
qed

definition taken :: "'d PCache1 \<Rightarrow> 'd PCache1" where
  "taken s = (if bPurgeable s then s\<lparr>nCurrentPage := nCurrentPage s + 1\<rparr> else s)"

lemma taken_alike: "alike s (taken s)"
  by (simp add: alike_def taken_def same_limits_def view_def fun_eq_iff)

lemma taken_ok:
  assumes "alike s t" "chains_ok t" "lru_list_ok s" "a \<notin> hashed s" "a \<notin> set (pFree t)" "distinct (pFree t)"
    "set (pFree t) \<inter> hashed s = {}" "dom (pages t) = hashed s \<union> set (pFree t) \<union> {a}"
    "\<forall>a \<in> set (pFree t). \<exists>p. pages t a = Some p \<and> isBulkLocal p"
    "\<forall>a p. pages t a = Some p \<longrightarrow> isBulkLocal p \<longrightarrow> pBulk t" "\<forall>a \<in> dom (pages t). a < pages_end t"
    "nCurrentPage t = (if bPurgeable s then card (hashed s) else 0)"
  shows "cache_ok {a} (taken t)" "alike s (taken t)"
proof -
  have e: "hashed t = hashed s" "bPurgeable t = bPurgeable s" using assms(1) by (simp_all add: alike_def hashed_def same_limits_def)
  have c: "chains_ok (taken t)" by (rule alike_chains [OF taken_alike assms(2)]) (simp add: taken_def)
  have "lru_list_ok (taken t) = lru_list_ok t" by (rule alike_lru [OF taken_alike])
  then have l: "lru_list_ok (taken t)" using alike_lru [OF assms(1)] assms(3) by metis
  have "heap_ok {a} (taken t)" using assms(4-) by (auto simp: heap_ok_def taken_def e)
  with c l show "cache_ok {a} (taken t)" by (simp add: cache_ok_def)
  show "alike s (taken t)" using alike_trans [OF assms(1) taken_alike] .
qed

lemma AllocPage_ok:
  assumes ok: "cache_ok {} s"
  obtains r s' where "pcache1AllocPage m s = (r, s')" "alike s s'" "r = None \<Longrightarrow> cache_ok {} s'" "\<And>a. r = Some a \<Longrightarrow> cache_ok {a} s'"
proof -
  define q where "q = (if pFree s \<noteq> [] then (True, s) else if nPage s = 0 then pcache1InitBulk m s else (False, s))"
  have q: "cache_ok {} (snd q)" "alike s (snd q)" "fst q \<Longrightarrow> pFree (snd q) \<noteq> []"
    using ok InitBulk_ok [OF ok, of m] by (auto simp: q_def alike_def)
  let ?t = "snd q"
  have h: "heap_ok {} ?t" "chains_ok ?t" "lru_list_ok ?t" using q(1) by (simp_all add: cache_ok_def)
  have alloc: "pcache1AllocPage m s =
    (if fst q then (Some (hd (pFree ?t)), taken (?t\<lparr>pFree := tl (pFree ?t)\<rparr>))
     else if page_mem m then (Some (pages_end ?t), taken (fresh_page ((garbage m)\<lparr>isBulkLocal := False\<rparr>) ?t)) else (None, ?t))"
    unfolding pcache1AllocPage_def q_def [symmetric] by (simp add: split_beta taken_def fresh_page_def Let_def)
  consider "fst q" | "\<not> fst q" "page_mem m" | "\<not> fst q" "\<not> page_mem m" by blast
  then show ?thesis
  proof cases
    case 1
    obtain a as where a: "pFree ?t = a # as" using q(3) [OF 1] by (cases "pFree ?t") auto
    have al: "alike ?t (?t\<lparr>pFree := as\<rparr>)" by (rule alike_free)
    have "chains_ok (?t\<lparr>pFree := as\<rparr>)" by (rule alike_chains [OF al h(2)]) simp
    from taken_ok [OF al this h(3), of a] h(1) a
    have "cache_ok {a} (taken (?t\<lparr>pFree := as\<rparr>))" "alike ?t (taken (?t\<lparr>pFree := as\<rparr>))"
      by (auto simp: heap_ok_def)
    then show ?thesis using that [of "Some a" "taken (?t\<lparr>pFree := as\<rparr>)"] alloc 1 a alike_trans [OF q(2)] by simp
  next
    case 2
    let ?u = "fresh_page ((garbage m)\<lparr>isBulkLocal := False\<rparr>) ?t"
    have al: "alike ?t ?u" by (rule fresh_alike [OF h(1)])
    note new = fresh_new [OF h(1)]
    have "chains_ok ?u" by (rule alike_chains [OF al h(2)]) (use new in \<open>auto simp: fresh_page_def\<close>)
    have f: "pages ?u = (pages ?t)(pages_end ?t \<mapsto> (garbage m)\<lparr>isBulkLocal := False\<rparr>)" "pFree ?u = pFree ?t"
      "pages_end ?u = Suc (pages_end ?t)" "pBulk ?u = pBulk ?t" "nCurrentPage ?u = nCurrentPage ?t" "bPurgeable ?u = bPurgeable ?t"
      by (simp_all add: fresh_page_def)
    have "\<forall>a\<in>set (pFree ?t). \<exists>p. pages ?u a = Some p \<and> isBulkLocal p"
      using h(1) new(3) unfolding heap_ok_def f by (metis fun_upd_other)
    moreover have "\<forall>a p. pages ?u a = Some p \<longrightarrow> isBulkLocal p \<longrightarrow> pBulk ?t"
      using h(1) unfolding heap_ok_def f by auto
    moreover have "\<forall>a\<in>dom (pages ?u). a < pages_end ?u"
      using h(1) unfolding heap_ok_def f by (auto simp: less_Suc_eq)
    ultimately have "cache_ok {pages_end ?t} (taken ?u)" "alike ?t (taken ?u)"
      using taken_ok [OF al \<open>chains_ok ?u\<close> h(3), of "pages_end ?t"] new h(1) unfolding f by (simp_all add: heap_ok_def)
    then show ?thesis using that [of "Some (pages_end ?t)" "taken ?u"] alloc 2 alike_trans [OF q(2)] by simp
  next
    case 3
    then show ?thesis using that [of None ?t] alloc q by simp
  qed
qed

lemma recycle_page_ok:
  assumes ok: "cache_ok {} s"
  shows "recycle_page b s = Inr (None, s) \<or>
    (\<exists>v p s'. recycle_page b s = Inr (Some v, s') \<and> view s v = Some p \<and> \<not> isPinned p \<and> cache_ok {v} s'
       \<and> view s' = (view s)(v := None) \<and> same_limits s s' \<and> iMaxKey s' = iMaxKey s)"
proof (cases "bPurgeable s \<and> lru s \<noteq> [] \<and> (unat (nMax s) \<le> nPage s + 1 \<or> b)")
  case False
  then show ?thesis by (auto simp: recycle_page_def)
next
  case True
  define v where "v = last (lru s)"
  have l: "v \<in> set (lru s)" using True by (simp add: v_def)
  obtain p where p: "pages s v = Some p" "view s v = Some p" "\<not> isPinned p" "v \<in> hashed s" "nRecyclable s \<noteq> 0"
    using lru_page [OF ok l] .
  have c: "chains_ok s" using ok by (simp add: cache_ok_def)
  have ok1: "cache_ok {} (pin_state v s)" "view (pin_state v s) = (view s)(v \<mapsto> p\<lparr>isPinned := True\<rparr>)"
    using pin_state_ok [OF ok l] view_pin [OF p(2)] by simp_all
  have "cache_ok {v} (out_state v (pin_state v s))" using out_state_ok [OF ok1(1), of v] by (simp add: ok1(2))
  moreover have "view (out_state v (pin_state v s)) = (view s)(v := None)"
    using view_out [of "pin_state v s" v] ok1 p(4) by (simp add: cache_ok_def)
  moreover have comm: "pin_state v (out_state v s) = out_state v (pin_state v s)"
    by (simp add: pin_state_def out_state_def Let_def hash_slot_def)
  moreover have "pcache1PinPage v (out_state v s) = Inr (pin_state v (out_state v s))"
    by (rule PinPage_eq) (use p l in simp_all)
  moreover have "same_limits s (out_state v (pin_state v s))"
    using same_limits_trans [of s "pin_state v s"] by simp
  ultimately have "recycle_page b s = Inr (Some v, out_state v (pin_state v s)) \<and> view s v = Some p \<and> \<not> isPinned p
     \<and> cache_ok {v} (out_state v (pin_state v s)) \<and> view (out_state v (pin_state v s)) = (view s)(v := None)
     \<and> same_limits s (out_state v (pin_state v s)) \<and> iMaxKey (out_state v (pin_state v s)) = iMaxKey s"
    using True RemoveFromHash_eq [OF c p(4), of False] p(2,3) by (simp add: recycle_page_def v_def [symmetric] Let_def)
  then show ?thesis by blast
qed

end
