(* ===== verification/PageCacheProps.thy ===== *)
theory PageCacheProps
  imports PageCacheInv
begin

text \<open>
  The methods of a page cache (\<^verbatim>\<open>sqlite/pcache1.c\<close>). It keeps pages by their numbers: what is
  pinned stays where it is, what is not may be dropped, and nothing else changes a page.
\<close>

section \<open>The methods\<close>

definition no_key :: "(addr \<Rightarrow> 'd PgHdr1 option) \<Rightarrow> u32 \<Rightarrow> bool" where
  "no_key v k \<longleftrightarrow> (\<forall>a p. v a = Some p \<longrightarrow> iKey p \<noteq> k)"

text \<open>Pages that nobody has pinned may disappear.\<close>

definition forgets :: "(addr \<Rightarrow> 'd PgHdr1 option) \<Rightarrow> (addr \<Rightarrow> 'd PgHdr1 option) \<Rightarrow> bool" where
  "forgets v w \<longleftrightarrow> (\<exists>D. (\<forall>a\<in>D. \<exists>p. v a = Some p \<and> \<not> isPinned p) \<and> w = v |` (- D))"

lemma forgets_refl: "forgets v v"
  unfolding forgets_def by (intro exI [of _ "{}"]) (simp add: restrict_map_def)

lemma forgets_one: "v a = Some p \<Longrightarrow> \<not> isPinned p \<Longrightarrow> forgets v (v(a := None))"
  unfolding forgets_def by (intro exI [of _ "{a}"]) (auto simp: restrict_map_def fun_eq_iff)

lemma forgets_no_key: "forgets v w \<Longrightarrow> no_key v k \<Longrightarrow> no_key w k"
  unfolding forgets_def no_key_def restrict_map_def by (metis option.distinct(1))

lemma chain_find_ok:
  assumes "\<forall>a\<in>set c. \<exists>p. pages s a = Some p"
  shows "\<exists>r. chain_find s k c = Inr r \<and>
    (case r of None \<Rightarrow> \<forall>a\<in>set c. \<forall>p. pages s a = Some p \<longrightarrow> iKey p \<noteq> k
     | Some a \<Rightarrow> a \<in> set c \<and> (\<exists>p. pages s a = Some p \<and> iKey p = k))"
  using assms
proof (induction c)
  case (Cons a c)
  obtain p where "pages s a = Some p" using Cons.prems by auto
  then show ?case using Cons by (cases "iKey p = k") (auto simp: page_at_def split: option.splits)
qed simp

lemma lookup_ok:
  assumes "chains_ok s"
  shows "\<exists>r. chain_find s k (apHash s ! hash_slot s k) = Inr r \<and>
    (case r of None \<Rightarrow> no_key (view s) k | Some a \<Rightarrow> \<exists>p. view s a = Some p \<and> iKey p = k)"
proof -
  have h: "hash_slot s k < nHash s" by (rule hash_slot_less) (use assms in \<open>auto simp: chains_ok_def\<close>)
  have e: "a \<in> hashed s" if "a \<in> set (apHash s ! hash_slot s k)" for a using that h by (auto simp: in_entries)
  then have "\<forall>a\<in>set (apHash s ! hash_slot s k). \<exists>p. pages s a = Some p" using entry_page [OF assms] by metis
  from chain_find_ok [OF this, of k] obtain r where r: "chain_find s k (apHash s ! hash_slot s k) = Inr r"
    "case r of None \<Rightarrow> \<forall>a\<in>set (apHash s ! hash_slot s k). \<forall>p. pages s a = Some p \<longrightarrow> iKey p \<noteq> k
     | Some a \<Rightarrow> a \<in> set (apHash s ! hash_slot s k) \<and> (\<exists>p. pages s a = Some p \<and> iKey p = k)" by blast
  have "no_key (view s) k" if "r = None"
    unfolding no_key_def using r(2) that hashed_chain [OF assms h] by (auto simp: view_eq)
  then show ?thesis using r e by (auto simp: view_eq split: option.splits)
qed

text \<open>Installing a page that is in nobody's hands, as the last step of the fetch does.\<close>

lemma install_ok:
  assumes "cache_ok {a} s" "no_key (view s) k"
  obtains p where "page_at s a = Inr p" "view s a = None"
    "cache_ok {} (in_state a k (Suc (nPage s)) (p\<lparr>iKey := k, isPinned := True, pExtra := 0\<rparr>) s)"
    "view (in_state a k (Suc (nPage s)) (p\<lparr>iKey := k, isPinned := True, pExtra := 0\<rparr>) s)
       = (view s)(a \<mapsto> p\<lparr>iKey := k, isPinned := True, pExtra := 0\<rparr>)"
proof -
  have h: "heap_ok {a} s" using assms(1) by (simp add: cache_ok_def)
  then have "a \<in> dom (pages s)" "a \<notin> hashed s" by (simp_all add: heap_ok_def)
  then obtain p where p: "pages s a = Some p" "view s a = None" by (auto simp: view_def)
  have "isBulkLocal p \<longrightarrow> pBulk s" using h p unfolding heap_ok_def by blast
  then show ?thesis
    using that [of p] in_state_ok [of a "{}" s "p\<lparr>iKey := k, isPinned := True, pExtra := 0\<rparr>" k] assms p
    by (auto simp: page_at_def no_key_def)
qed

lemma recyclable_le: "cache_ok F s \<Longrightarrow> nRecyclable s \<le> nPage s"
proof -
  assume ok: "cache_ok F s"
  then have "set (lru s) \<subseteq> hashed s" by (auto simp: cache_ok_def lru_list_ok_def view_eq)
  then have "card (set (lru s)) \<le> card (hashed s)" by (rule card_mono [OF finite_entries])
  then show ?thesis using ok by (simp add: cache_ok_def lru_list_ok_def chains_ok_def distinct_card)
qed


lemma Stage2_ok:
  assumes ok: "cache_ok {} s" and lim: "limits_ok s" and k: "no_key (view s) k"
  shows "\<exists>r s'. pcache1FetchStage2 m k c s = Inr (r, s') \<and> cache_ok {} s' \<and> same_limits s s' \<and>
    (case r of None \<Rightarrow> view s' = view s
     | Some a \<Rightarrow> \<exists>w p. forgets (view s) w \<and> w a = None \<and> iKey p = k \<and> isPinned p \<and> pExtra p = 0 \<and> view s' = w(a \<mapsto> p))"
    (is "\<exists>r s'. _ = _ \<and> ?good r s'")
proof -
  let ?refuse = "c = 1 \<and> (unat (mxPinned s) \<le> nPage s - nRecyclable s \<or> unat (n90pct s) \<le> nPage s - nRecyclable s
      \<or> nearly_full m \<and> nRecyclable s < nPage s - nRecyclable s)"
  let ?put = "\<lambda>a p s. in_state a k (Suc (nPage s)) (p\<lparr>iKey := k, isPinned := True, pExtra := 0\<rparr>) s"
  have no: "\<not> nPage s < nRecyclable s" "mxPinned s = nMaxPage s + 10 - nMinPage s" "n90pct s = nMax s * 9 div 10"
    using recyclable_le [OF ok] lim by (simp_all add: limits_ok_def)
  show ?thesis
  proof (cases ?refuse)
    case True
    then have "pcache1FetchStage2 m k c s = Inr (None, s)" using no unfolding pcache1FetchStage2_def Let_def by simp
    then show ?thesis using ok by (intro exI [of _ None] exI [of _ s]) simp
  next
    case False
    obtain X where X: "(if nHash s \<le> nPage s then pcache1ResizeHash m s else Inr s) = Inr (with_table X s)"
      "cache_ok {} (with_table X s)" "view (with_table X s) = view s"
    proof (cases "nHash s \<le> nPage s")
      case True
      obtain X where "pcache1ResizeHash m s = Inr (with_table X s)" "cache_ok {} (with_table X s)" "view (with_table X s) = view s"
        using ResizeHash_ok [OF ok] .
      then show ?thesis using that True by simp
    next
      case False
      then show ?thesis using that [of "apHash s"] ok by simp
    qed
    let ?s = "with_table X s"
    have sl: "same_limits s ?s" by (simp add: same_limits_def)
    define g where "g = (\<lambda>(pPage, s).
             let (pPage, s) = (case pPage of None \<Rightarrow> pcache1AllocPage m s | Some a \<Rightarrow> (Some a, s)) in
             case pPage of
               None \<Rightarrow> Inr (None, s)
             | Some a \<Rightarrow> bindE (page_at s a) (\<lambda>p. Inr (Some a, ?put a p s)))"
    have "\<not> (nPage s < nRecyclable s \<or> mxPinned s \<noteq> nMaxPage s + 10 - nMinPage s \<or> n90pct s \<noteq> nMax s * 9 div 10)"
      using no by simp
    note tests = if_not_P [OF this] if_not_P [OF False]
    have "pcache1FetchStage2 m k c s = bindE (if nHash s \<le> nPage s then pcache1ResizeHash m s else Inr s)
        (\<lambda>s. bindE (recycle_page (nearly_full_later m) s) g)"
      unfolding pcache1FetchStage2_def Let_def tests g_def in_state_def Suc_eq_plus1 by (rule refl)
    then have st: "pcache1FetchStage2 m k c s = bindE (recycle_page (nearly_full_later m) ?s) g" by (simp add: X(1))
    have put: "?good (Some a) (?put a p t)"
      if t: "cache_ok {a} t" "same_limits s t" "forgets (view s) (view t)" and p: "page_at t a = Inr p" for a t p
    proof -
      have "no_key (view t) k" by (rule forgets_no_key [OF t(3) k])
      from install_ok [OF t(1) this] p have
        "cache_ok {} (?put a p t)" "view t a = None" "view (?put a p t) = (view t)(a \<mapsto> p\<lparr>iKey := k, isPinned := True, pExtra := 0\<rparr>)"
        by auto
      moreover have "same_limits s (?put a p t)" by (rule same_limits_trans [OF t(2)]) simp
      moreover from calculation have "\<exists>w q. forgets (view s) w \<and> w a = None \<and> iKey q = k \<and> isPinned q \<and> pExtra q = 0
          \<and> view (?put a p t) = w(a \<mapsto> q)"
        using t(3) by (intro exI [of _ "view t"] exI [of _ "p\<lparr>iKey := k, isPinned := True, pExtra := 0\<rparr>"]) simp
      ultimately show ?thesis by (simp only: option.case simp_thms)
    qed
    have there: "\<exists>p. page_at t a = Inr p" if "cache_ok {a} t" for a and t :: "'a PCache1"
      using that by (auto simp: cache_ok_def heap_ok_def page_at_def dom_def split: option.splits)
    from recycle_page_ok [OF X(2), of "nearly_full_later m"] show ?thesis
    proof (elim disjE exE conjE)
      assume r: "recycle_page (nearly_full_later m) ?s = Inr (None, ?s)"
      obtain q t where a: "pcache1AllocPage m ?s = (q, t)" "alike ?s t" "q = None \<Longrightarrow> cache_ok {} t" "\<And>a. q = Some a \<Longrightarrow> cache_ok {a} t"
        using AllocPage_ok [OF X(2), of m] by blast
      have t: "same_limits s t" "view t = view s" using a(2) sl same_limits_trans X(3) by (auto simp: alike_def)
      show ?thesis
      proof (cases q)
        case None
        then show ?thesis using st r a t by (intro exI [of _ None] exI [of _ t]) (simp add: g_def)
      next
        case (Some a')
        obtain p where p: "page_at t a' = Inr p" using there [OF a(4) [OF Some]] ..
        have "?good (Some a') (?put a' p t)" using put [OF a(4) [OF Some] t(1) _ p] forgets_refl t(2) by metis
        moreover have "pcache1FetchStage2 m k c s = Inr (Some a', ?put a' p t)" using st r a(1) Some p by (simp add: g_def)
        ultimately show ?thesis by blast
      qed
    next
      fix v q t
      assume r: "recycle_page (nearly_full_later m) ?s = Inr (Some v, t)" "view ?s v = Some q" "\<not> isPinned q" "cache_ok {v} t"
        "view t = (view ?s)(v := None)" "same_limits ?s t"
      obtain p where p: "page_at t v = Inr p" using there [OF r(4)] ..
      have "forgets (view s) (view t)" using forgets_one [of "view ?s" v q, OF r(2,3)] unfolding r(5) X(3) .
      from put [OF r(4) same_limits_trans [OF sl r(6)] this p] have "?good (Some v) (?put v p t)" .
      moreover have "pcache1FetchStage2 m k c s = Inr (Some v, ?put v p t)" using st r(1) p by (simp add: g_def)
      ultimately show ?thesis by blast
    qed
  qed
qed

lemma Fetch_ok:
  assumes ok: "cache_ok {} s" and lim: "limits_ok s" and c: "c = 1 \<longrightarrow> bPurgeable s"
  shows "\<exists>r s'. pcache1Fetch m k c s = Inr (r, s') \<and> cache_ok {} s' \<and> same_limits s s' \<and>
    (case r of None \<Rightarrow> view s' = view s \<and> no_key (view s) k
     | Some a \<Rightarrow> (\<exists>p. view s a = Some p \<and> iKey p = k \<and> view s' = (view s)(a \<mapsto> p\<lparr>isPinned := True\<rparr>)) \<or>
         c \<noteq> 0 \<and> no_key (view s) k \<and>
         (\<exists>w p. forgets (view s) w \<and> w a = None \<and> iKey p = k \<and> isPinned p \<and> pExtra p = 0 \<and> view s' = w(a \<mapsto> p)))"
proof -
  have ch: "chains_ok s" using ok by (simp add: cache_ok_def)
  then have n: "nHash s \<noteq> 0" "nMin s = (if bPurgeable s then 10 else 0)" using lim by (auto simp: chains_ok_def limits_ok_def)
  obtain q where q: "chain_find s k (apHash s ! hash_slot s k) = Inr q"
    "case q of None \<Rightarrow> no_key (view s) k | Some a \<Rightarrow> \<exists>p. view s a = Some p \<and> iKey p = k" using lookup_ok [OF ch] by blast
  show ?thesis
  proof (cases q)
    case None
    then have no: "no_key (view s) k" using q(2) by simp
    show ?thesis
    proof (cases "c = 0")
      case True
      then show ?thesis using q(1) None n ok no by (intro exI [of _ None] exI [of _ s]) (simp add: pcache1Fetch_def)
    next
      case False
      then have "pcache1Fetch m k c s = pcache1FetchStage2 m k c s" using q(1) None n c by (auto simp: pcache1Fetch_def)
      moreover obtain r s' where "pcache1FetchStage2 m k c s = Inr (r, s')" "cache_ok {} s'" "same_limits s s'"
        "case r of None \<Rightarrow> view s' = view s
         | Some a \<Rightarrow> \<exists>w p. forgets (view s) w \<and> w a = None \<and> iKey p = k \<and> isPinned p \<and> pExtra p = 0 \<and> view s' = w(a \<mapsto> p)"
        using Stage2_ok [OF ok lim no] by blast
      ultimately show ?thesis using False no by (intro exI [of _ r] exI [of _ s']) (cases r; simp)
    qed
  next
    case (Some a)
    then obtain p where p: "view s a = Some p" "iKey p = k" using q(2) by auto
    have "pages s a = Some p" using p(1) by (simp add: view_eq)
    moreover have "(if isPinned p then Inr s else pcache1PinPage a s) = Inr (pinned a s)" using pinned_ok(8) [OF ok p(1)] .
    ultimately have "pcache1Fetch m k c s = Inr (Some a, pinned a s)"
      using n c q(1) Some by (cases "isPinned p") (auto simp: pcache1Fetch_def page_at_def)
    then show ?thesis using pinned_ok(1-3) [OF ok p(1)] p by (intro exI [of _ "Some a"] exI [of _ "pinned a s"]) auto
  qed
qed

text \<open>Giving a page back.\<close>

definition unpin_state :: "addr \<Rightarrow> 'd PgHdr1 \<Rightarrow> 'd PCache1 \<Rightarrow> 'd PCache1" where
  "unpin_state a p s = s\<lparr>lru := a # lru s, nRecyclable := nRecyclable s + 1, pages := (pages s)(a \<mapsto> p\<lparr>isPinned := False\<rparr>)\<rparr>"

lemma unpin_state_ok:
  assumes ok: "cache_ok {} s" and p: "view s a = Some p" "isPinned p"
  shows "cache_ok {} (unpin_state a p s)" "view (unpin_state a p s) = (view s)(a \<mapsto> p\<lparr>isPinned := False\<rparr>)"
    "same_limits s (unpin_state a p s)" "a \<notin> set (lru s)"
proof -
  have a: "a \<in> hashed s" "pages s a = Some p" using p by (simp_all add: view_eq)
  have pg: "pages (unpin_state a p s) = (pages s)(a \<mapsto> p\<lparr>isPinned := False\<rparr>)" by (simp add: unpin_state_def)
  have fr: "hashed (unpin_state a p s) = hashed s" "hash_slot (unpin_state a p s) = hash_slot s" "apHash (unpin_state a p s) = apHash s"
    "nPage (unpin_state a p s) = nPage s" "iMaxKey (unpin_state a p s) = iMaxKey s" "pFree (unpin_state a p s) = pFree s"
    "pBulk (unpin_state a p s) = pBulk s" "pages_end (unpin_state a p s) = pages_end s"
    "bPurgeable (unpin_state a p s) = bPurgeable s" "nCurrentPage (unpin_state a p s) = nCurrentPage s"
    by (simp_all add: unpin_state_def hash_slot_def fun_eq_iff)
  show v: "view (unpin_state a p s) = (view s)(a \<mapsto> p\<lparr>isPinned := False\<rparr>)"
    using a(1) by (auto simp: view_def fun_eq_iff fr pg)
  show "same_limits s (unpin_state a p s)" by (simp add: unpin_state_def same_limits_def)
  show l: "a \<notin> set (lru s)" using ok p by (auto simp: cache_ok_def lru_list_ok_def)
  have "chains_ok (unpin_state a p s)"
    using ok p a unfolding chains_ok_def cache_ok_def v pg fr by (fastforce split: if_splits)
  moreover have "lru_list_ok (unpin_state a p s)"
    using ok l unfolding lru_list_ok_def cache_ok_def v by (auto simp: unpin_state_def split: if_splits)
  moreover have "heap_ok {} (unpin_state a p s)"
    using ok a p unfolding heap_ok_def cache_ok_def pg fr by (auto split: if_splits)
  ultimately show "cache_ok {} (unpin_state a p s)" by (simp add: cache_ok_def)
qed

lemma Unpin_ok:
  assumes ok: "cache_ok {} s" and p: "view s a = Some p" "isPinned p"
  shows "\<exists>s'. pcache1Unpin a b s = Inr s' \<and> cache_ok {} s' \<and> same_limits s s' \<and>
    (view s' = (view s)(a \<mapsto> p\<lparr>isPinned := False\<rparr>) \<or> view s' = (view s)(a := None))"
proof -
  have pg: "pages s a = Some p" "a \<in> hashed s" "chains_ok s" using p ok by (simp_all add: view_eq cache_ok_def)
  note l = unpin_state_ok(4) [OF ok p]
  show ?thesis
  proof (cases "b \<or> unat (nMaxPage s) < nCurrentPage s")
    case True
    have "pinned a s = s" by (simp add: pinned_def pg(1) p(2))
    then obtain s' where s': "pcache1FreePage a (out_state a s) = Inr s'" "cache_ok {} s'" "view s' = (view s)(a := None)" "same_limits s s'"
      using drop_page [OF ok p(1)] by metis
    moreover have "pcache1Unpin a b s = Inr s'"
      using True l pg p(2) RemoveFromHash_eq [OF pg(3,2), of True] s'(1) by (simp add: pcache1Unpin_def page_at_def)
    ultimately show ?thesis by blast
  next
    case False
    then have "pcache1Unpin a b s = Inr (unpin_state a p s)"
      using l pg p(2) by (simp add: pcache1Unpin_def page_at_def unpin_state_def)
    then show ?thesis using unpin_state_ok(1-3) [OF ok p] by blast
  qed
qed

text \<open>A new number for a pinned page.\<close>

lemma Rekey_eq:
  assumes ok: "cache_ok {} s" and p: "view s a = Some p"
  shows "pcache1Rekey a (iKey p) k s = Inr (in_state a k (nPage s) (p\<lparr>iKey := k\<rparr>) (out_state a s))"
proof -
  have a: "chains_ok s" "a \<in> hashed s" "pages s a = Some p" using ok p by (simp_all add: cache_ok_def view_eq)
  have "a \<in> set (apHash s ! hash_slot s (iKey p))" using entry_page [OF a(1,2)] a(3) by (metis option.inject)
  then show ?thesis
    using a(3) by (simp add: pcache1Rekey_def page_at_def in_state_def out_state_def Let_def hash_slot_def)
qed

lemma Rekey_ok:
  assumes ok: "cache_ok {} s" and p: "view s a = Some p" "isPinned p" "iKey p = old"
    and new: "\<And>b q. view s b = Some q \<Longrightarrow> iKey q = k \<Longrightarrow> b = a"
  shows "\<exists>s'. pcache1Rekey a old k s = Inr s' \<and> cache_ok {} s' \<and> same_limits s s' \<and> view s' = (view s)(a \<mapsto> p\<lparr>iKey := k\<rparr>)"
proof -
  have a: "chains_ok s" "a \<in> hashed s" "pages s a = Some p" using ok p by (simp_all add: cache_ok_def view_eq)
  let ?o = "out_state a s"
  let ?t = "in_state a k (Suc (nPage ?o)) (p\<lparr>iKey := k\<rparr>) ?o"
  have o: "cache_ok {a} ?o" "view ?o = (view s)(a := None)" using out_state_ok [OF ok p(1,2)] view_out [OF a(1,2)] by simp_all
  have "view ?o b = Some q \<Longrightarrow> iKey q \<noteq> k" for b q using new [of b q] by (auto simp: o(2) split: if_splits)
  moreover have "isBulkLocal (p\<lparr>iKey := k\<rparr>) \<longrightarrow> pBulk ?o" using ok a(3) by (auto simp: cache_ok_def heap_ok_def)
  ultimately have t: "cache_ok {} ?t" "view ?t = (view ?o)(a \<mapsto> p\<lparr>iKey := k\<rparr>)"
    using in_state_ok [of a "{}" ?o "p\<lparr>iKey := k\<rparr>" k "Suc (nPage ?o)"] o(1) p(2) by simp_all
  have "nPage s \<noteq> 0" using a by (auto simp: chains_ok_def)
  then have n: "Suc (nPage ?o) = nPage s" by simp
  have "pcache1Rekey a old k s = Inr ?t" using Rekey_eq [OF ok p(1)] p(3) unfolding n by metis
  moreover have "same_limits s ?t" using same_limits_trans [of s ?o ?t] by simp
  ultimately show ?thesis using t by (auto simp: o(2))
qed

text \<open>
  A page that has the number already is not discarded, as the interface demands of
  \<^verbatim>\<open>xRekey\<close> (\<^verbatim>\<open>sqlite3.h\<close>): both pages have it then. The pager drops the other page or moves it
  away first.
\<close>

lemma Rekey_leaves_other_page:
  assumes ok: "cache_ok {} s" and p: "view s a = Some p" and q: "view s b = Some q" "a \<noteq> b"
  shows "\<exists>s'. pcache1Rekey a (iKey p) (iKey q) s = Inr s' \<and> view s' b = Some q \<and> view s' a = Some (p\<lparr>iKey := iKey q\<rparr>)"
proof -
  let ?t = "in_state a (iKey q) (nPage s) (p\<lparr>iKey := iKey q\<rparr>) (out_state a s)"
  have c: "chains_ok s" "a \<in> hashed s" "b \<in> hashed s" "0 < nHash (out_state a s)"
    using ok p q by (auto simp: cache_ok_def view_eq chains_ok_def)
  have "hashed ?t = insert a (hashed s - {a})" using hashed_in [OF c(4)] hashed_out [OF c(1,2)] by metis
  then have "view ?t b = Some q" "view ?t a = Some (p\<lparr>iKey := iKey q\<rparr>)" using c q by (auto simp: view_def)
  then show ?thesis using Rekey_eq [OF ok p] by blast
qed

text \<open>Limits on the number of pages.\<close>

lemma limit_change:
  assumes "cache_ok {} s"
  shows "cache_ok {} (s\<lparr>nMaxPage := x, mxPinned := y, nMax := z, n90pct := w\<rparr>)"
    "view (s\<lparr>nMaxPage := x, mxPinned := y, nMax := z, n90pct := w\<rparr>) = view s"
    "cache_ok {} (s\<lparr>nMaxPage := x\<rparr>)" "view (s\<lparr>nMaxPage := x\<rparr>) = view s"
proof -
  show v: "view (s\<lparr>nMaxPage := x, mxPinned := y, nMax := z, n90pct := w\<rparr>) = view s" "view (s\<lparr>nMaxPage := x\<rparr>) = view s"
    by (simp_all add: view_def fun_eq_iff)
  show "cache_ok {} (s\<lparr>nMaxPage := x, mxPinned := y, nMax := z, n90pct := w\<rparr>)" "cache_ok {} (s\<lparr>nMaxPage := x\<rparr>)"
    using assms unfolding cache_ok_def chains_ok_def lru_list_ok_def heap_ok_def v by (simp_all add: hash_slot_def)
qed

lemma Cachesize_ok:
  assumes ok: "cache_ok {} s" and lim: "limits_ok s"
  shows "\<exists>s'. pcache1Cachesize mx s = Inr s' \<and> cache_ok {} s' \<and> limits_ok s' \<and> forgets (view s) (view s')"
proof (cases "bPurgeable s")
  case False
  then show ?thesis using ok lim forgets_refl by (auto simp: pcache1Cachesize_def)
next
  case True
  let ?s = "s\<lparr>nMaxPage := nMaxPage s + (mx - nMax s), mxPinned := nMaxPage s + (mx - nMax s) + 10 - nMinPage s, nMax := mx,
      n90pct := mx * 9 div 10\<rparr>"
  obtain s' D where s': "pcache1EnforceMaxPage ?s = Inr s'" "cache_ok {} s'" "same_limits ?s s'"
    "\<forall>a\<in>D. \<exists>p. view ?s a = Some p \<and> \<not> isPinned p" "view s' = view ?s |` (- D)"
    using EnforceMaxPage_ok [OF limit_change(1) [OF ok]] by metis
  have "limits_ok ?s" using lim True by (simp add: limits_ok_def)
  then have "limits_ok s'" using same_limits_ok [OF s'(3)] by simp
  moreover have "forgets (view s) (view s')" using s'(4,5) unfolding forgets_def limit_change(2) [OF ok] by blast
  ultimately show ?thesis using True s'(1,2) by (simp add: pcache1Cachesize_def Let_def)
qed

lemma Shrink_ok:
  assumes ok: "cache_ok {} s" and lim: "limits_ok s"
  shows "\<exists>s'. pcache1Shrink s = Inr s' \<and> cache_ok {} s' \<and> limits_ok s' \<and> forgets (view s) (view s')
    \<and> (bPurgeable s \<longrightarrow> (\<forall>a p. view s' a = Some p \<longrightarrow> isPinned p))"
proof (cases "bPurgeable s")
  case False
  then show ?thesis using ok lim forgets_refl by (auto simp: pcache1Shrink_def)
next
  case True
  obtain s' D where s': "pcache1EnforceMaxPage (s\<lparr>nMaxPage := 0\<rparr>) = Inr s'" "cache_ok {} s'" "same_limits (s\<lparr>nMaxPage := 0\<rparr>) s'"
    "\<forall>a\<in>D. \<exists>p. view (s\<lparr>nMaxPage := 0\<rparr>) a = Some p \<and> \<not> isPinned p" "view s' = view (s\<lparr>nMaxPage := 0\<rparr>) |` (- D)"
    "lru s' = [] \<or> nCurrentPage s' \<le> unat (nMaxPage s')"
    using EnforceMaxPage_ok [OF limit_change(3) [OF ok]] by metis
  let ?t = "s'\<lparr>nMaxPage := nMaxPage s\<rparr>"
  have f: "forgets (view s) (view ?t)" using s'(4,5) unfolding forgets_def limit_change(4) [OF ok] limit_change(4) [OF s'(2)] by blast
  have "nMaxPage s' = 0" "bPurgeable s'" using s'(3) True by (simp_all add: same_limits_def)
  then have "lru s' = []" using s'(2,6) by (auto simp: cache_ok_def heap_ok_def lru_list_ok_def view_eq)
  then have "isPinned p" if "view s' a = Some p" for a p using s'(2) that by (auto simp: cache_ok_def lru_list_ok_def)
  moreover have "limits_ok ?t" using lim s'(3) by (simp add: limits_ok_def same_limits_def)
  ultimately show ?thesis using True s'(1) limit_change(3,4) [OF s'(2)] f by (simp add: pcache1Shrink_def Let_def)
qed

text \<open>Cutting off the pages from a number on.\<close>

lemma Truncate_ok:
  assumes ok: "cache_ok {} s" and lim: "limits_ok s"
  shows "\<exists>s'. pcache1Truncate l s = Inr s' \<and> cache_ok {} s' \<and> limits_ok s' \<and> view s' = cut l UNIV (view s)"
proof (cases "l \<le> iMaxKey s")
  case False
  have "iKey p \<le> iMaxKey s" if "view s a = Some p" for a p using ok that by (auto simp: cache_ok_def chains_ok_def)
  then have "\<not> l \<le> iKey p" if "view s a = Some p" for a p using False that by (meson order.trans)
  then have "cut l UNIV (view s) = view s" by (auto simp: cut_def fun_eq_iff split: option.splits)
  then show ?thesis using False ok lim by (simp add: pcache1Truncate_def)
next
  case True
  obtain s1 where s1: "pcache1TruncateUnsafe l s = Inr s1" "cache_ok {} s1" "same_limits s s1"
    "\<And>a. view s1 a = (case view s a of None \<Rightarrow> None | Some p \<Rightarrow> if l \<le> iKey p then None else Some p)"
    using TruncateUnsafe_ok [OF ok True] by blast
  let ?t = "s1\<lparr>iMaxKey := l - 1\<rparr>"
  have v: "view ?t = view s1" by (simp add: view_def fun_eq_iff)
  have "iKey p \<le> l - 1" if "view s1 a = Some p" for a p
  proof -
    have "iKey p < l" using that by (auto simp: s1(4) split: option.splits if_splits)
    moreover from this have "l \<noteq> 0" by auto
    ultimately show ?thesis by (simp add: word_le_nat_alt word_less_nat_alt unat_minus_one)
  qed
  then have "cache_ok {} ?t"
    using s1(2) unfolding cache_ok_def chains_ok_def lru_list_ok_def heap_ok_def v by (simp add: hash_slot_def)
  moreover have "limits_ok ?t" using lim s1(3) by (simp add: limits_ok_def same_limits_def)
  moreover have "view ?t = cut l UNIV (view s)" unfolding v by (rule ext) (simp add: s1(4) cut_def split: option.split)
  ultimately show ?thesis using True s1(1) by (simp add: pcache1Truncate_def)
qed

section \<open>The end of a cache\<close>

lemma empty_heap:
  assumes "cache_ok {} s" "nPage s = 0" "\<not> pBulk s"
  shows "pages s = Map.empty"
proof -
  have "hashed s = {}" using assms by (simp add: cache_ok_def chains_ok_def)
  moreover have "a \<notin> set (pFree s)" for a
  proof
    have bulk: "\<forall>a\<in>set (pFree s). \<exists>p. pages s a = Some p \<and> isBulkLocal p" "\<forall>a p. pages s a = Some p \<longrightarrow> isBulkLocal p \<longrightarrow> pBulk s"
      using assms(1) by (simp_all add: cache_ok_def heap_ok_def)
    assume "a \<in> set (pFree s)"
    with bulk(1) obtain p where "pages s a = Some p" "isBulkLocal p" by metis
    with bulk(2) assms(3) show False by metis
  qed
  moreover have "dom (pages s) = hashed s \<union> set (pFree s)" using assms(1) by (simp add: cache_ok_def heap_ok_def)
  ultimately have "dom (pages s) = {}" by blast
  then show ?thesis by simp
qed

lemma Destroy_ok:
  assumes ok: "cache_ok {} s" and lim: "limits_ok s"
  shows "pcache1Destroy s = Inr Map.empty"
proof -
  obtain s1 where s1: "(if nPage s \<noteq> 0 then pcache1TruncateUnsafe 0 s else Inr s) = Inr s1" "cache_ok {} s1" "same_limits s s1"
    "nPage s1 = 0"
  proof (cases "nPage s = 0")
    case True
    then show ?thesis using that [of s] ok by simp
  next
    case False
    obtain s1 where s1: "pcache1TruncateUnsafe 0 s = Inr s1" "cache_ok {} s1" "same_limits s s1"
      "\<And>a. view s1 a = (case view s a of None \<Rightarrow> None | Some p \<Rightarrow> if 0 \<le> iKey p then None else Some p)"
      using TruncateUnsafe_ok [OF ok, of 0] by auto
    have "view s1 a = None" for a unfolding s1(4) by (simp split: option.splits)
    then have "dom (view s1) = {}" by auto
    then have "hashed s1 = {}" using s1(2) dom_view [of s1] by (simp add: cache_ok_def)
    then have "nPage s1 = 0" using s1(2) by (simp add: cache_ok_def chains_ok_def)
    then show ?thesis using that [of s1] s1 False by simp
  qed
  have l1: "limits_ok s1" using same_limits_ok [OF s1(3)] lim by simp
  let ?t = "s1\<lparr>nMaxPage := nMaxPage s1 - nMax s1, nMinPage := nMinPage s1 - nMin s1,
     mxPinned := nMaxPage s1 - nMax s1 + 10 - (nMinPage s1 - nMin s1)\<rparr>"
  have v: "view ?t = view s1" by (simp add: view_def fun_eq_iff)
  have t: "cache_ok {} ?t"
    using s1(2) unfolding cache_ok_def chains_ok_def lru_list_ok_def heap_ok_def v by (simp add: hash_slot_def)
  obtain s2 D where s2: "pcache1EnforceMaxPage ?t = Inr s2" "cache_ok {} s2" "view s2 = view ?t |` (- D)" "nPage s2 = 0 \<longrightarrow> \<not> pBulk s2"
    using EnforceMaxPage_ok [OF t] by metis
  have "hashed s1 = {}" using s1(2,4) by (simp add: cache_ok_def chains_ok_def)
  then have "view s2 = Map.empty" unfolding s2(3) v by (simp add: view_def restrict_map_def fun_eq_iff)
  then have "hashed s2 = {}" using s2(2) dom_view [of s2] by (simp add: cache_ok_def)
  then have n: "nPage s2 = 0" using s2(2) by (simp add: cache_ok_def chains_ok_def)
  have "pcache1_end s = Inr s2"
    using lim s1(1,3) l1 s2(1) by (simp add: pcache1_end_def limits_ok_def same_limits_def Let_def)
  then show ?thesis using n s2(4) empty_heap [OF s2(2) n] by (simp add: pcache1Destroy_def)
qed

lemma Create_ok:
  assumes "pcache1Create sz ex purg mem m = Inr (Some s)"
  shows "cache_ok {} s" "limits_ok s" "view s = Map.empty" "bPurgeable s = purg"
proof -
  have s: "hash_mem m" "apHash s = replicate 256 []" "lru s = []" "nRecyclable s = 0" "nPage s = 0" "pFree s = []" "pages s = Map.empty"
    "nCurrentPage s = 0" "szAlloc s = sz + ex + 56" "bPurgeable s = purg" "nMin s = (if purg then 10 else 0)" "nMinPage s = nMin s"
    "nMax s = 0" "nMaxPage s = 0" "n90pct s = 0" "mxPinned s = 10 - nMin s"
    using assms by (auto simp: pcache1Create_def pcache1ResizeHash_def sizeof_PgHdr1_def Let_def bindE_eq_Inr
        split: if_splits)
  have e: "hashed s = {}" by (simp add: hashed_def s)
  show v: "view s = Map.empty" by (simp add: view_def e fun_eq_iff)
  show "cache_ok {} s" unfolding cache_ok_def chains_ok_def lru_list_ok_def heap_ok_def v e by (simp add: s)
  show "limits_ok s" "bPurgeable s = purg" by (simp_all add: limits_ok_def s)
qed

section \<open>What a client sees\<close>

text \<open>
  The calls of the interface of a cache, and the client writing to a page it has pinned
  (\<^theory_text>\<open>Write\<close>).
\<close>

datatype 'd request =
    Fetch "'d memory" u32 nat
  | Unpin addr bool
  | Rekey addr u32 u32
  | Truncate u32
  | Cachesize u32
  | Shrink
  | Write addr 'd nat

definition client_write :: "addr \<Rightarrow> 'd \<Rightarrow> nat \<Rightarrow> 'd PCache1 \<Rightarrow> 'd PCache1 cres" where
  "client_write a d x s = bindE (page_at s a) (\<lambda>p. Inr (s\<lparr>pages := (pages s)(a \<mapsto> p\<lparr>pBuf := d, pExtra := x\<rparr>)\<rparr>))"

definition quiet :: "'d PCache1 cres \<Rightarrow> (addr option \<times> 'd PCache1) cres" where
  "quiet r = bindE r (\<lambda>s. Inr (None, s))"

fun serve :: "'d request \<Rightarrow> 'd PCache1 \<Rightarrow> (addr option \<times> 'd PCache1) cres" where
  "serve (Fetch m k c) s = pcache1Fetch m k c s"
| "serve (Unpin a b) s = quiet (pcache1Unpin a b s)"
| "serve (Rekey a old new) s = quiet (pcache1Rekey a old new s)"
| "serve (Truncate l) s = quiet (pcache1Truncate l s)"
| "serve (Cachesize n) s = quiet (pcache1Cachesize n s)"
| "serve Shrink s = quiet (pcache1Shrink s)"
| "serve (Write a d x) s = quiet (client_write a d x s)"

text \<open>
  What the client must not do: ask a cache that is not purgeable to create a page only if that is
  easy, give back or write to or renumber a page it has not pinned, or renumber to a number in use.
\<close>

fun contract :: "'d request \<Rightarrow> bool \<Rightarrow> (addr \<Rightarrow> 'd PgHdr1 option) \<Rightarrow> bool" where
  "contract (Fetch m k c) purgeable v \<longleftrightarrow> c = 1 \<longrightarrow> purgeable"
| "contract (Unpin a b) purgeable v \<longleftrightarrow> (\<exists>p. v a = Some p \<and> isPinned p)"
| "contract (Rekey a old new) purgeable v \<longleftrightarrow>
     (\<exists>p. v a = Some p \<and> isPinned p \<and> iKey p = old) \<and> (\<forall>b q. v b = Some q \<longrightarrow> iKey q = new \<longrightarrow> b = a)"
| "contract (Write a d x) purgeable v \<longleftrightarrow> (\<exists>p. v a = Some p \<and> isPinned p)"
| "contract _ purgeable v \<longleftrightarrow> True"

text \<open>What each call may do to the pages.\<close>

inductive page_step :: "'d request \<Rightarrow> (addr \<Rightarrow> 'd PgHdr1 option) \<Rightarrow> addr option \<Rightarrow> (addr \<Rightarrow> 'd PgHdr1 option) \<Rightarrow> bool" where
  hit: "v a = Some p \<Longrightarrow> iKey p = k \<Longrightarrow> page_step (Fetch m k c) v (Some a) (v(a \<mapsto> p\<lparr>isPinned := True\<rparr>))"
| miss: "no_key v k \<Longrightarrow> page_step (Fetch m k c) v None v"
| create: "no_key v k \<Longrightarrow> c \<noteq> 0 \<Longrightarrow> forgets v w \<Longrightarrow> w a = None \<Longrightarrow> iKey p = k \<Longrightarrow> isPinned p \<Longrightarrow> pExtra p = 0
    \<Longrightarrow> page_step (Fetch m k c) v (Some a) (w(a \<mapsto> p))"
| keep: "v a = Some p \<Longrightarrow> page_step (Unpin a b) v None (v(a \<mapsto> p\<lparr>isPinned := False\<rparr>))"
| drop: "page_step (Unpin a b) v None (v(a := None))"
| rekey: "v a = Some p \<Longrightarrow> page_step (Rekey a old new) v None (v(a \<mapsto> p\<lparr>iKey := new\<rparr>))"
| truncate: "page_step (Truncate l) v None (cut l UNIV v)"
| resize: "forgets v w \<Longrightarrow> page_step (Cachesize n) v None w"
| shrink: "forgets v w \<Longrightarrow> page_step Shrink v None w"
| client_writes: "v a = Some p \<Longrightarrow> page_step (Write a d x) v None (v(a \<mapsto> p\<lparr>pBuf := d, pExtra := x\<rparr>))"

inductive cache_reachable :: "'d PCache1 \<Rightarrow> bool" where
  start: "pcache1Create sz ex purgeable mem m = Inr (Some s) \<Longrightarrow> cache_reachable s"
| step: "cache_reachable s \<Longrightarrow> contract r (bPurgeable s) (view s) \<Longrightarrow> serve r s = Inr (res, s') \<Longrightarrow> cache_reachable s'"

lemma write_ok:
  assumes ok: "cache_ok {} s" and p: "view s a = Some p"
  shows "\<exists>s'. client_write a d x s = Inr s' \<and> cache_ok {} s' \<and> same_limits s s' \<and> view s' = (view s)(a \<mapsto> p\<lparr>pBuf := d, pExtra := x\<rparr>)"
proof -
  let ?s = "s\<lparr>pages := (pages s)(a \<mapsto> p\<lparr>pBuf := d, pExtra := x\<rparr>)\<rparr>"
  have a: "a \<in> hashed s" "pages s a = Some p" using p by (simp_all add: view_eq)
  have fr: "hash_slot ?s = hash_slot s" by (simp add: hash_slot_def fun_eq_iff)
  have v: "view ?s = (view s)(a \<mapsto> p\<lparr>pBuf := d, pExtra := x\<rparr>)" using a(1) by (auto simp: view_def fun_eq_iff)
  have "chains_ok ?s"
    using ok p a unfolding chains_ok_def cache_ok_def v fr by (fastforce split: if_splits)
  moreover have "lru_list_ok ?s" using ok p unfolding lru_list_ok_def cache_ok_def v by (auto split: if_splits)
  moreover have "heap_ok {} ?s" using ok a unfolding heap_ok_def cache_ok_def by (auto split: if_splits)
  moreover have "same_limits s ?s" by (simp add: same_limits_def)
  moreover have "client_write a d x s = Inr ?s" using a(2) by (simp add: client_write_def page_at_def)
  ultimately show ?thesis using v by (simp add: cache_ok_def)
qed

lemma serve_ok:
  assumes ok: "cache_ok {} s" "limits_ok s" and r: "contract r (bPurgeable s) (view s)"
  shows "\<exists>res s'. serve r s = Inr (res, s') \<and> cache_ok {} s' \<and> limits_ok s' \<and> page_step r (view s) res (view s')"
proof (cases r)
  case (Fetch m k c)
  then obtain q s' where "pcache1Fetch m k c s = Inr (q, s')" "cache_ok {} s'" "same_limits s s'"
    "case q of None \<Rightarrow> view s' = view s \<and> no_key (view s) k
     | Some a \<Rightarrow> (\<exists>p. view s a = Some p \<and> iKey p = k \<and> view s' = (view s)(a \<mapsto> p\<lparr>isPinned := True\<rparr>)) \<or>
         c \<noteq> 0 \<and> no_key (view s) k \<and>
         (\<exists>w p. forgets (view s) w \<and> w a = None \<and> iKey p = k \<and> isPinned p \<and> pExtra p = 0 \<and> view s' = w(a \<mapsto> p))"
    using Fetch_ok [OF ok, of c m k] r by auto
  then show ?thesis using same_limits_ok [of s s'] ok(2) unfolding Fetch
    by (cases q) (auto intro: hit miss create)
next
  case (Unpin a b)
  then obtain p where "view s a = Some p" "isPinned p" using r by auto
  with Unpin_ok [OF ok(1) this, of b] obtain s' where "pcache1Unpin a b s = Inr s'" "cache_ok {} s'" "same_limits s s'"
    "view s' = (view s)(a \<mapsto> p\<lparr>isPinned := False\<rparr>) \<or> view s' = (view s)(a := None)" by auto
  then show ?thesis using same_limits_ok [of s s'] ok(2) \<open>view s a = Some p\<close> keep [of "view s" a p b] drop [of a b "view s"]
    unfolding Unpin by (auto simp: quiet_def)
next
  case (Rekey a old new)
  then obtain p where p: "view s a = Some p" "isPinned p" "iKey p = old" using r by auto
  with Rekey_ok [OF ok(1) this, of new] r obtain s' where "pcache1Rekey a old new s = Inr s'" "cache_ok {} s'" "same_limits s s'"
    "view s' = (view s)(a \<mapsto> p\<lparr>iKey := new\<rparr>)" unfolding Rekey by auto
  then show ?thesis using same_limits_ok [of s s'] ok(2) rekey [of "view s" a p old new] p(1)
    unfolding Rekey by (simp add: quiet_def)
next
  case (Truncate l)
  then show ?thesis using Truncate_ok [OF ok, of l] truncate [of l "view s"] by (auto simp: quiet_def)
next
  case (Cachesize n)
  then show ?thesis using Cachesize_ok [OF ok, of n] resize by (auto simp: quiet_def)
next
  case Shrink
  then show ?thesis using Shrink_ok [OF ok] shrink by (auto simp: quiet_def)
next
  case (Write a d x)
  then obtain p where p: "view s a = Some p" using r by auto
  with write_ok [OF ok(1) p, of d x] obtain s' where "client_write a d x s = Inr s'" "cache_ok {} s'" "same_limits s s'"
    "view s' = (view s)(a \<mapsto> p\<lparr>pBuf := d, pExtra := x\<rparr>)" by auto
  then show ?thesis using same_limits_ok [of s s'] ok(2) client_writes [of "view s" a p d x] p
    unfolding Write by (simp add: quiet_def)
qed

lemma cache_reachable_ok: "cache_reachable s \<Longrightarrow> cache_ok {} s \<and> limits_ok s"
proof (induction rule: cache_reachable.induct)
  case (start sz ex purgeable mem m s)
  then show ?case using Create_ok by blast
next
  case (step s r res s')
  then show ?case using serve_ok [of s r] by auto
qed

text \<open>What a call may change about a page that is pinned.\<close>

fun touches :: "'d request \<Rightarrow> addr \<Rightarrow> 'd PgHdr1 \<Rightarrow> bool" where
  "touches (Unpin b e) a p \<longleftrightarrow> a = b"
| "touches (Rekey b old new) a p \<longleftrightarrow> a = b"
| "touches (Truncate l) a p \<longleftrightarrow> l \<le> iKey p"
| "touches (Write b d x) a p \<longleftrightarrow> a = b"
| "touches _ a p \<longleftrightarrow> False"

lemma forgets_pinned: "forgets v w \<Longrightarrow> v a = Some p \<Longrightarrow> isPinned p \<Longrightarrow> w a = Some p"
  by (fastforce simp: forgets_def restrict_map_def)

lemma page_step_pinned:
  assumes "page_step r v res w" "v a = Some p" "isPinned p" "\<not> touches r a p"
  shows "w a = Some p"
  using assms(1)
proof cases
  case (create k c w' q b m)
  then have "w' a = Some p" using forgets_pinned assms(2,3) by metis
  then show ?thesis using create by auto
qed (use assms in \<open>auto simp: cut_def intro: forgets_pinned split: if_splits\<close>)

lemma Pagecount_view: "chains_ok s \<Longrightarrow> pcache1Pagecount s = card (dom (view s))"
  by (simp add: pcache1Pagecount_def dom_view chains_ok_def)

section \<open>Properties\<close>

text \<open>
  C8: The page cache of a connection is a set of pages by number. Whatever calls came before, a call
  that keeps the contract meets no assertion, no missing page and no counter below zero, and does to
  the pages what its specification allows: a fetch returns the page of that number, pinned, or a new
  one with a cleared extension, for which only pages that nobody has pinned may be dropped; a truncation
  drops just the pages from a number on, and a limit on the pages only unpinned ones. The number of pages
  is counted right, and destroying the cache at any point leaves no page allocated.
\<close>

theorem page_cache_refines_pages:
  assumes "cache_reachable s" "contract r (bPurgeable s) (view s)"
  shows "(\<exists>res s'. serve r s = Inr (res, s') \<and> page_step r (view s) res (view s'))
    \<and> pcache1Pagecount s = card (dom (view s)) \<and> pcache1Destroy s = Inr Map.empty"
proof -
  have ok: "cache_ok {} s" "limits_ok s" using cache_reachable_ok [OF assms(1)] by simp_all
  then have "chains_ok s" by (simp add: cache_ok_def)
  then show ?thesis using serve_ok [OF ok assms(2)] Pagecount_view Destroy_ok [OF ok] by blast
qed

definition memory_w :: "nat memory" where
  "memory_w = \<lparr>hash_mem = True, page_mem = True, bulk_mem = (\<lambda>n. None), nearly_full = False, nearly_full_later = False,
     garbage = \<lparr>pBuf = 7, pExtra = 7, iKey = 7, isPinned = False, isBulkLocal = True\<rparr>, nInitPage = 0\<rparr>"

definition cache_w :: "nat PCache1" where
  "cache_w = \<lparr>szPage = 4096, szExtra = 136, szAlloc = 4288, bPurgeable = True, nMin = 10, nMax = 0, n90pct = 0, iMaxKey = 0,
     nRecyclable = 0, nPage = 0, apHash = replicate 256 [], pFree = [], pBulk = False, nMaxPage = 0, nMinPage = 10,
     mxPinned = 0, nCurrentPage = 0, lru = [], pages = Map.empty, pages_end = 0\<rparr>"

definition page_w :: "nat PgHdr1" where
  "page_w = \<lparr>pBuf = 7, pExtra = 0, iKey = 3, isPinned = True, isBulkLocal = False\<rparr>"

definition filled_w :: "nat PCache1" where
  "filled_w = cache_w\<lparr>nMaxPage := 100, nMax := 100, n90pct := 90, mxPinned := 100, nCurrentPage := 1, nPage := 1, iMaxKey := 3,
     apHash := (replicate 256 [])[3 := [0]], pages := [0 \<mapsto> page_w], pages_end := 1\<rparr>"

lemma cache_w_reachable: "cache_reachable cache_w"
  by (rule cache_reachable.start [of 4096 136 True True memory_w])
    (simp add: pcache1Create_def pcache1ResizeHash_def sizeof_PgHdr1_def memory_w_def cache_w_def)

lemma filled_w_reachable: "cache_reachable filled_w"
proof -
  let ?s = "cache_w\<lparr>nMaxPage := 100, mxPinned := 100, nMax := 100, n90pct := 90\<rparr>"
  have "serve (Cachesize 100) cache_w = Inr (None, ?s)"
    by (simp add: quiet_def pcache1Cachesize_def pcache1EnforceMaxPage_def cache_w_def)
  then have r: "cache_reachable ?s" by (rule cache_reachable.step [OF cache_w_reachable, rotated]) simp
  have "serve (Fetch memory_w 3 1) ?s = Inr (Some 0, filled_w)"
    by (simp add: pcache1Fetch_def pcache1FetchStage2_def recycle_page_def pcache1AllocPage_def pcache1InitBulk_def page_at_def
        hash_slot_def cache_w_def filled_w_def page_w_def memory_w_def)
  then show ?thesis by (rule cache_reachable.step [OF r, rotated]) (simp add: cache_w_def)
qed

lemma filled_w_view: "view filled_w = [0 \<mapsto> page_w]"
  by (simp add: view_def in_entries filled_w_def fun_eq_iff nth_list_update)

theorem page_cache_refines_pages_witness:
  "(\<exists>res s'. serve (Unpin 0 False) filled_w = Inr (res, s') \<and> page_step (Unpin 0 False) (view filled_w) res (view s'))
    \<and> pcache1Pagecount filled_w = card (dom (view filled_w)) \<and> pcache1Destroy filled_w = Inr Map.empty"
  by (rule page_cache_refines_pages [OF filled_w_reachable]) (simp add: filled_w_view page_w_def)

text \<open>
  C9: A page that a client has pinned stays at its address with its number, its content and its
  extension through every call but those that name it, give its number up or cut it off: neither the
  recycling of pages, nor a smaller limit, nor a larger hash table touches it.
\<close>

theorem pinned_cache_page_untouched:
  assumes "cache_reachable s" "contract r (bPurgeable s) (view s)" "view s a = Some p" "isPinned p" "\<not> touches r a p"
  shows "\<exists>res s'. serve r s = Inr (res, s') \<and> cache_reachable s' \<and> view s' a = Some p"
proof -
  have ok: "cache_ok {} s" "limits_ok s" using cache_reachable_ok [OF assms(1)] by simp_all
  from serve_ok [OF ok assms(2)] obtain res s' where "serve r s = Inr (res, s')" "page_step r (view s) res (view s')" by blast
  then show ?thesis using page_step_pinned assms(3-5) cache_reachable.step [OF assms(1,2)] by blast
qed

theorem pinned_cache_page_untouched_witness:
  "\<exists>res s'. serve (Cachesize 0) filled_w = Inr (res, s') \<and> cache_reachable s' \<and> view s' 0 = Some page_w"
  by (rule pinned_cache_page_untouched [OF filled_w_reachable]) (simp_all add: filled_w_view page_w_def)

end
