(* ===== verification/Spec2Isabelle.thy ===== *)
theory Spec2Isabelle
  imports VmeEdges VfsProps Varint JournalSpill RowSetProps BitvecProps CompleteProps KeywordsProps TokenizeProps
    UtilTextProps UtilInt UtfProps HashTableProps RecordFormatProps LikeProps RunParserProps Prng PageCacheProps
begin

text \<open>
  A verification of STANlite, an SQLite build for SGX enclaves.

  \<^bold>\<open>The program.\<close> An enclave has little protected memory. STANlite keeps an SQLite database in
  ordinary memory, which the host can read and write, and pages it into the enclave: SQLite calls
  its file methods (\<^verbatim>\<open>Enclave/sgxvfs.c\<close>); for the main database file these call the virtual
  memory engine (\<^verbatim>\<open>Enclave/vmem.c\<close>), which keeps some decrypted pages in the enclave, and
  encrypts (a library routine) and checksums (\<^verbatim>\<open>Enclave/xxhash.c\<close>) the pages it evicts. Other
  files, and SQLite's rollback journal (\<^verbatim>\<open>Enclave/sqlite/memjournal.c\<close>), stay in enclave memory.
  SQLite itself is in the repository as source; the development models those of its parts that stand
  on their own: its data structures, its text and number formats, and its lexical analysis.

  \<^bold>\<open>Shared theories.\<close> \<^theory_text>\<open>Prelude\<close> has C's integer types as words, buffers as
  lists, and the error monad in which an undefined step of C (a bad pointer, an access out of bounds,
  a failed assertion) is a value of the type of faults; two theorem collections drive the proofs about
  it. \<^theory_text>\<open>Links\<close> has doubly linked lists in a heap, used by the engine's page queue and by hash
  tables. \<^theory_text>\<open>Sqlite\<close> and \<^theory_text>\<open>Ctype\<close> have SQLite's result codes, character tables
  and comparisons without case (\<^verbatim>\<open>global.c\<close>, \<^verbatim>\<open>sqliteInt.h\<close>, \<^verbatim>\<open>util.c\<close>).

  \<^bold>\<open>The engine\<close> (\<^verbatim>\<open>vmem.c\<close>, \<^verbatim>\<open>vme_config.h\<close>, \<^verbatim>\<open>xxhash.c\<close>).
  \<^item> \<^theory_text>\<open>XXHash\<close>: both hash widths, one-shot and streaming, for both byte orders.
    \<^theory_text>\<open>XXH_streaming_is_oneshot\<close> and \<^theory_text>\<open>XXH_endian_independent\<close> relate them.
  \<^item> \<^theory_text>\<open>Vme\<close>: the record \<^theory_text>\<open>vme\<close> has the fields of \<^verbatim>\<open>struct VME\<close>: frames,
    queue nodes in a heap, the array from page numbers to nodes, checksums, the cold store. One
    definition for each function of \<^verbatim>\<open>vmem.c\<close>, in the shipped configuration.
  \<^item> \<^theory_text>\<open>VmeQueue\<close>, \<^theory_text>\<open>VmeInv\<close>, \<^theory_text>\<open>VmePaging\<close>, \<^theory_text>\<open>VmeSafety\<close>,
    \<^theory_text>\<open>VmeSpec\<close>: the pointer surgery on the queue; the invariant; what each operation does to
    the order of the queue and to the contents of pages; the engine against a host that overwrites
    the cold store between calls, whose histories record the pages it changed; and the abstract engine, a
    store of pages.
  \<^item> \<^theory_text>\<open>VmeProps\<close>: the engine refines the store of pages, every reachable call is memory safe,
    save unmapping a page that is not cached, and stops only at pages that were changed or written short,
    tampering is detected up to a collision of the checksum, pinned pages stay at their address, a
    reset ends. \<^theory_text>\<open>VmeEdges\<close>: calls whose result is not what a caller needs, each as the code
    behaves (a page whose checksum is zero, a page that is not cached, a cache in which every frame is pinned, the copies that
    drop an offset or read past a page, a keystream used twice).

  \<^bold>\<open>The VFS\<close> (\<^verbatim>\<open>sgxvfs.c\<close>).
  \<^item> \<^theory_text>\<open>Vfs\<close>: file and VFS methods, the environment that hands out buffers, and opening and
    closing a database. \<^theory_text>\<open>VfsProps\<close>: a private file is a byte array, the main database file
    is an array of pages through every eviction, and where a method departs from SQLite's documents.
  \<^item> \<^theory_text>\<open>ByteFile\<close>: the interface \<^theory_text>\<open>byte_file\<close> of a file that is an array of bytes, interpreted
    on private files and on the in-memory journal.

  \<^bold>\<open>SQLite\<close> (\<^verbatim>\<open>Enclave/sqlite\<close>).
  \<^item> \<^theory_text>\<open>MemJournal\<close>, \<^theory_text>\<open>MemJournalProps\<close>, \<^theory_text>\<open>JournalSpill\<close> (\<^verbatim>\<open>memjournal.c\<close>):
    chunks in a heap with an append and a read cursor. A journal is a log of bytes; when it outgrows its
    limit it moves to a file of the VFS without loss, or closes the file and stays where it is, under the
    interface \<^theory_text>\<open>os_file\<close>, which the SGX VFS provides.
  \<^item> \<^theory_text>\<open>RowSet\<close>, \<^theory_text>\<open>RowSetProps\<close> (\<^verbatim>\<open>rowset.c\<close>): merge sort in buckets, forests
    of balanced trees. The values come out sorted and once each; a test sees the earlier batches only.
  \<^item> \<^theory_text>\<open>Bitvec\<close>, \<^theory_text>\<open>BitvecProps\<close> (\<^verbatim>\<open>bitvec.c\<close>): bitmap, linear probing and subdivision
    are one set of numbers, for sizes whose divisor does not wrap, and a call fails only for want of memory.
  \<^item> \<^theory_text>\<open>HashTable\<close>, \<^theory_text>\<open>HashTableProps\<close> (\<^verbatim>\<open>hash.c\<close>): the elements and their
    pointers, buckets, resizing, failing allocations. A table is a map from names without regard to case.
  \<^item> \<^theory_text>\<open>PageCache\<close>, \<^theory_text>\<open>PageCacheInv\<close>, \<^theory_text>\<open>PageCacheProps\<close> (\<^verbatim>\<open>pcache1.c\<close>): the
    allocation, recycling and truncation of pages, their hash table and the list of unpinned pages. A cache
    is a set of pages by number that keeps pinned pages in place and leaks none.
  \<^item> \<^theory_text>\<open>Varint\<close>, \<^theory_text>\<open>UtilInt\<close>, \<^theory_text>\<open>UtilText\<close>, \<^theory_text>\<open>UtilTextProps\<close> (\<^verbatim>\<open>util.c\<close>):
    variable-length integers with the unrolled decoder, checked 64-bit arithmetic, quotes,
    decimal and hexadecimal texts.
  \<^item> \<^theory_text>\<open>RecordFormat\<close>, \<^theory_text>\<open>RecordFormatProps\<close> (\<^verbatim>\<open>vdbeaux.c\<close>, \<^verbatim>\<open>vdbe.c\<close>,
    \<^verbatim>\<open>vdbemem.c\<close>): rows made into records by the opcode \<^verbatim>\<open>OP_MakeRecord\<close> and taken apart again.
  \<^item> \<^theory_text>\<open>Utf\<close>, \<^theory_text>\<open>UtfProps\<close> (\<^verbatim>\<open>utf.c\<close>): translations between UTF-8 and UTF-16 keep
    every text and stay within the buffer they allocate.
  \<^item> \<^theory_text>\<open>TokenCodes\<close>, \<^theory_text>\<open>Keywords\<close>, \<^theory_text>\<open>KeywordsProps\<close>, \<^theory_text>\<open>Tokenize\<close>,
    \<^theory_text>\<open>TokenizeProps\<close> (\<^verbatim>\<open>parse.h\<close>, \<^verbatim>\<open>keywordhash.h\<close>, \<^verbatim>\<open>tokenize.c\<close>): the perfect hash of
    keywords is the list of keywords, tokens make progress within the text, quoted texts are read back.
    \<^theory_text>\<open>RunParser\<close>, \<^theory_text>\<open>RunParserProps\<close>: the loop that feeds the tokens to the parser, which is a parameter.
  \<^item> \<^theory_text>\<open>Prng\<close> (\<^verbatim>\<open>random.c\<close>, \<^verbatim>\<open>os.c\<close>): the random numbers, which the enclave VFS does not seed.
  \<^item> \<^theory_text>\<open>Like\<close>, \<^theory_text>\<open>LikeProps\<close> (\<^verbatim>\<open>func.c\<close>): the comparison of LIKE and GLOB, with its early exits,
    decides what patterns mean, for every escape that is not a wildcard itself.
  \<^item> \<^theory_text>\<open>Complete\<close>, \<^theory_text>\<open>CompleteProps\<close> (\<^verbatim>\<open>complete.c\<close>): \<^verbatim>\<open>sqlite3_complete\<close>
    accepts exactly the texts whose tokens are a sequence of statements.

  \<^bold>\<open>Bounds and fuel.\<close> Loops that follow pointers or recur through tables take fuel, and a
  theorem shows that it is enough: the walks of the journal have one unit for each address handed out, those of
  a hash table one for each element (the fault \<^theory_text>\<open>HashLoop\<close> is never reached), the walk along
  a chain of keywords one for each keyword, 124, and a truncation of the page cache one for each slot of its
  hash table (the fault \<^theory_text>\<open>EndlessLoop\<close> is never reached). A bit vector is given fuel 9, more than the depth to which 62-way
  subdivision of a 32-bit range can go. The merge sort has the 40 buckets of the source, enough for 2 to
  the 40 entries. Sizes of the engine (pages, frames) are parameters, bounded only where the code's
  types need it.

  \<^bold>\<open>Assumptions.\<close> Arguments of the definitions stand for what is not under \<^verbatim>\<open>src\<close>, or not modelled:
  the AES-CTR routine of the IPP library, what \<^verbatim>\<open>realloc\<close> leaves in fresh memory, what the
  allocators of the journal, of the hash tables and of the page cache return, and, for opening a database,
  \<^verbatim>\<open>sqlite3_open_v2\<close> and \<^verbatim>\<open>sqlite3_close\<close>; the file methods of the VFS, for the journal;
  the generated parser and \<^verbatim>\<open>sqlite3VMPrintf\<close>, which may find no memory for its message. The cold memory
  is what the application passes; less of it than the engine's configuration needs is a fault. \<^verbatim>\<open>malloc\<close> succeeds in \<^verbatim>\<open>vmem.c\<close>,
  which does not test it, and in the functions of records. Checked arithmetic is the portable code;
  a compiler with overflow builtins runs those instead.

  \<^bold>\<open>Not modelled.\<close> The pager, the B-trees, the dirty pages of the page cache and the write-ahead log
  (\<^verbatim>\<open>pager.c\<close>, \<^verbatim>\<open>btree.c\<close>, \<^verbatim>\<open>pcache.c\<close>, \<^verbatim>\<open>wal.c\<close>) rest on shared mutable
  pages across tens of thousands of lines; the parts they use (page store of the cache, journal, bit vectors,
  VFS, records, integers) are here. The code generator (\<^verbatim>\<open>select.c\<close>, \<^verbatim>\<open>where.c\<close>, \<^verbatim>\<open>expr.c\<close> and the rest)
  means what SQL means, for which the repository has no specification; the parser is generated. The
  bytecode interpreter is left out but for its record opcode, and of records their comparison.
  The platform layers (\<^verbatim>\<open>os_unix.cxx\<close>, \<^verbatim>\<open>os_win.cxx\<close>, mutexes, allocators) are not part
  of the enclave build or are calls to a system. \<^verbatim>\<open>printf.c\<close> and
  \<^verbatim>\<open>date.c\<close> work on floating-point numbers. \<^verbatim>\<open>server.c\<close>, \<^verbatim>\<open>synthetic.c\<close>,
  \<^verbatim>\<open>speedtest1.c\<close> and the host application in \<^verbatim>\<open>App\<close> are benchmarks and glue.
\<close>

end
